(* ===== verification/Prelude.thy ===== *)
theory Prelude
  imports Main "HOL-Library.Word" "HOL-Library.Signed_Division" "HOL-Library.Sublist"
begin

text \<open>
  Shared vocabulary of the development: Go's integer types, Go's zero-value reads of a map,
  and the list facts that the components use.

  \<^item> \<open>int64\<close> values are HOL integers. Where the source multiplies or adds raw configuration
    values, or itself tests for overflow, the two's complement wrap-around is written out with
    \<open>wrap64\<close>; \<open>uint64\<close> counters are 64-bit words, whose \<open>+\<close> wraps.
  \<^item> Go's integer division truncates towards zero: \<open>sdiv\<close> of the library.
  \<^item> \<open>zget\<close> is a read of a Go map: a missing key gives the zero value.
\<close>

named_theorems acct_simps \<open>byte accounting of lists of resident entries\<close>
named_theorems wf_intros \<open>an operation keeps a component's invariant\<close>

type_synonym byte = "8 word"
type_synonym bytes = "byte list"
type_synonym u64 = "64 word"

section \<open>Machine integers\<close>

definition wrap64 :: "int \<Rightarrow> int" where
  "wrap64 x = (x + 2 ^ 63) mod 2 ^ 64 - 2 ^ 63"

definition is_int64 :: "int \<Rightarrow> bool" where
  "is_int64 x \<longleftrightarrow> - (2 ^ 63) \<le> x \<and> x < 2 ^ 63"

abbreviation max_int64 :: int where
  "max_int64 \<equiv> 2 ^ 63 - 1"

lemma wrap64_id [simp]: "is_int64 x \<Longrightarrow> wrap64 x = x"
  by (simp add: wrap64_def is_int64_def)

lemma wrap64_range: "is_int64 (wrap64 x)"
proof -
  have "0 \<le> (x + 2 ^ 63) mod 2 ^ 64" and "(x + 2 ^ 63) mod 2 ^ 64 < (2 ^ 64 :: int)"
    by (simp_all add: pos_mod_bound)
  then show ?thesis
    unfolding wrap64_def is_int64_def by simp
qed

lemma wrap64_over: "2 ^ 63 \<le> x \<Longrightarrow> x < 2 ^ 63 + 2 ^ 64 \<Longrightarrow> wrap64 x = x - 2 ^ 64"
proof -
  assume "2 ^ 63 \<le> x" "x < 2 ^ 63 + 2 ^ 64"
  then have "(x - 2 ^ 63 + 2 ^ 64) mod 2 ^ 64 = x - 2 ^ 63"
    by (simp only: mod_add_self2) (simp add: mod_pos_pos_trivial)
  then show ?thesis by (simp add: wrap64_def add.commute)
qed

lemma is_int64_between: "0 \<le> x \<Longrightarrow> x \<le> max_int64 \<Longrightarrow> is_int64 x"
  by (simp add: is_int64_def)

lemma sdiv_nonneg [simp]: "0 \<le> (a::int) \<Longrightarrow> 0 < b \<Longrightarrow> a sdiv b = a div b"
  by (auto simp: signed_divide_int_def sgn_if)

section \<open>Maps read with a zero value\<close>

definition zget :: "('k \<rightharpoonup> 'v::zero) \<Rightarrow> 'k \<Rightarrow> 'v" where
  "zget m k = (case m k of None \<Rightarrow> 0 | Some v \<Rightarrow> v)"

lemma zget_empty [simp]: "zget Map.empty k = 0"
  by (simp add: zget_def)

lemma zget_upd [simp]: "zget (m(k \<mapsto> v)) j = (if j = k then v else zget m j)"
  by (simp add: zget_def)

lemma zget_del [simp]: "zget (m(k := None)) j = (if j = k then 0 else zget m j)"
  by (simp add: zget_def)

lemma zget_Some: "m k = Some v \<Longrightarrow> zget m k = v"
  by (simp add: zget_def)

definition bget :: "('k \<rightharpoonup> bool) \<Rightarrow> 'k \<Rightarrow> bool" where
  "bget m k \<longleftrightarrow> m k = Some True"

section \<open>Lists\<close>

lemma map_of_eq_Some_iff_distinct:
  "distinct (map fst xs) \<Longrightarrow> map_of xs a = Some e \<longleftrightarrow> (a, e) \<in> set xs"
  by (simp add: map_of_eq_Some_iff)

lemma filter_neq_id: "a \<notin> fst ` set xs \<Longrightarrow> filter (\<lambda>x. fst x \<noteq> a) xs = xs"
  by (induction xs) auto

lemma sum_list_drop_key [acct_simps]:
  fixes f :: "'a \<times> 'b \<Rightarrow> int"
  assumes "distinct (map fst xs)" and "(a, e) \<in> set xs"
  shows "sum_list (map f (filter (\<lambda>x. fst x \<noteq> a) xs)) = sum_list (map f xs) - f (a, e)"
  using assms
proof (induction xs)
  case Nil
  then show ?case by simp
next
  case (Cons x xs)
  show ?case
  proof (cases "fst x = a")
    case True
    with Cons.prems have "x = (a, e)" and "a \<notin> fst ` set xs"
      by (auto simp: image_iff)
    then show ?thesis by (simp add: filter_neq_id)
  next
    case False
    with Cons show ?thesis by auto
  qed
qed

lemma length_filter_key_less:
  "a \<in> fst ` set xs \<Longrightarrow> length (filter (\<lambda>x. fst x \<noteq> a) xs) < length xs"
  by (induction xs) (force simp: less_Suc_eq_le Suc_le_eq intro: length_filter_le)+

lemma sum_list_nonneg_int: "(\<And>x. x \<in> set xs \<Longrightarrow> 0 \<le> (f x :: int)) \<Longrightarrow> 0 \<le> sum_list (map f xs)"
  by (induction xs) auto

lemma sum_list_filter_le_int:
  fixes f :: "'a \<Rightarrow> int"
  assumes "\<And>x. x \<in> set xs \<Longrightarrow> 0 \<le> f x"
  shows "sum_list (map f (filter P xs)) \<le> sum_list (map f xs)"
  using assms by (induction xs) (auto simp: add_increasing)

lemma sum_list_filter_split_int:
  fixes f :: "'a \<Rightarrow> int"
  shows "sum_list (map f xs) = sum_list (map f (filter P xs)) + sum_list (map f (filter (\<lambda>x. \<not> P x) xs))"
  by (induction xs) auto

lemma find_rev_Some_last:
  assumes "find P (rev xs) = Some x"
  obtains ys zs where "xs = ys @ x # zs" and "P x" and "\<forall>z \<in> set zs. \<not> P z"
proof -
  from assms obtain i where i: "i < length xs" "P (rev xs ! i)" "x = rev xs ! i"
      "\<forall>j<i. \<not> P (rev xs ! j)"
    by (auto simp: find_Some_iff)
  define ys where "ys = take i (rev xs)"
  have "rev xs = ys @ x # drop (Suc i) (rev xs)"
    using i by (simp add: ys_def id_take_nth_drop)
  then have "xs = rev (drop (Suc i) (rev xs)) @ x # rev ys"
    by (metis append.assoc append_Cons append_Nil rev.simps(2) rev_append rev_rev_ident)
  moreover have "\<forall>z \<in> set (rev ys). \<not> P z"
    using i by (auto simp: ys_def in_set_conv_nth)
  ultimately show thesis using that i(2,3) by blast
qed

lemma subseq_set: "subseq xs ys \<Longrightarrow> set xs \<subseteq> set ys"
  by (induction rule: list_emb.induct) auto

lemma subseq_rev_mono: "subseq xs ys \<Longrightarrow> subseq (rev xs) (rev ys)"
  by (induction rule: list_emb.induct) (auto intro: list_emb_append_mono)

lemma sum_list_zget_upd:
  "distinct ks \<Longrightarrow> sum_list (map (zget (m(k \<mapsto> v))) ks) =
     sum_list (map (zget m) ks) + (if k \<in> set ks then v - zget m k else (0::int))"
  by (induction ks) auto

lemma sum_list_zget_del:
  "distinct ks \<Longrightarrow> sum_list (map (zget (m(k := None))) (removeAll k ks)) =
     sum_list (map (zget m) ks) - (if k \<in> set ks then zget m k else (0::int))"
  by (induction ks) auto

lemma map_leI: "(\<And>k v. m k = Some v \<Longrightarrow> n k = Some v) \<Longrightarrow> m \<subseteq>\<^sub>m n"
  unfolding map_le_def dom_def by (metis (mono_tags, lifting) mem_Collect_eq option.exhaust)

section \<open>Consecutive ranges\<close>

fun tiles :: "int \<Rightarrow> (int \<times> int) list \<Rightarrow> int \<Rightarrow> bool" where
  "tiles a [] b \<longleftrightarrow> a = b"
| "tiles a ((s, l) # xs) b \<longleftrightarrow> s = a \<and> 0 < l \<and> tiles (a + l) xs b"

lemma tiles_append: "tiles a (xs @ ys) b \<longleftrightarrow> (\<exists>m. tiles a xs m \<and> tiles m ys b)"
  by (induction a xs b arbitrary: ys rule: tiles.induct) auto

lemma tiles_sum: "tiles a xs b \<Longrightarrow> sum_list (map snd xs) = b - a"
  by (induction a xs b rule: tiles.induct) auto

lemma tiles_le: "tiles a xs b \<Longrightarrow> a \<le> b"
  by (induction a xs b rule: tiles.induct) auto

lemma tiles_cover:
  "tiles a xs b \<Longrightarrow> (\<Union>(s, l) \<in> set xs. {s..<s + l}) = {a..<b}"
proof (induction a xs b rule: tiles.induct)
  case (2 a s l xs b)
  then show ?case using tiles_le [of "a + l" xs b] by (simp add: ivl_disj_un_two(3))
qed simp

lemma tiles_lower: "tiles a xs b \<Longrightarrow> (s, l) \<in> set xs \<Longrightarrow> a \<le> s"
  by (induction a xs b rule: tiles.induct) auto

lemma tiles_upper: "tiles a xs b \<Longrightarrow> (s, l) \<in> set xs \<Longrightarrow> s + l \<le> b"
  by (induction a xs b rule: tiles.induct) (auto dest: tiles_le)

lemma tiles_disjoint:
  "tiles a xs b \<Longrightarrow> i < j \<Longrightarrow> j < length xs \<Longrightarrow> fst (xs ! i) + snd (xs ! i) \<le> fst (xs ! j)"
proof (induction a xs b arbitrary: i j rule: tiles.induct)
  case (2 a s l xs b)
  then show ?case
  proof (cases i)
    case 0
    with 2 have "xs ! (j - 1) \<in> set xs" by (intro nth_mem) auto
    with 2 0 show ?thesis using tiles_lower [of "a + l" xs b "fst (xs ! (j - 1))" "snd (xs ! (j - 1))"]
      by (cases j) auto
  next
    case (Suc k)
    with 2 show ?thesis by (cases j) auto
  qed
qed simp

lemma div_mult_le_int: "0 < (d::int) \<Longrightarrow> x div d * d \<le> x"
  using pos_mod_sign [of d x] by (simp add: minus_mod_eq_div_mult [symmetric])

lemma div_mult_gt_int: "0 < (d::int) \<Longrightarrow> x < (x div d + 1) * d"
  using pos_mod_bound [of d x] by (simp add: algebra_simps minus_mod_eq_mult_div [symmetric])

lemma div_less_int: "0 < (d::int) \<Longrightarrow> x < q * d \<Longrightarrow> x div d < q"
  using div_mult_le_int [of d x] by (metis le_less_trans less_imp_le mult_less_cancel_right not_less)

lemma le_div_int: "0 < (d::int) \<Longrightarrow> q * d \<le> x \<Longrightarrow> q \<le> x div d"
  using zdiv_mono1 [of "q * d" x d] by simp

section \<open>Go maps with their iteration order\<close>

text \<open>
  A Go map whose entries the source iterates over is an association list in iteration order;
  \<open>aput\<close> and \<open>adel\<close> are the assignment and \<open>delete\<close>, \<open>aget\<close> the read with the zero value.
\<close>

definition aput :: "'k \<Rightarrow> 'v \<Rightarrow> ('k \<times> 'v) list \<Rightarrow> ('k \<times> 'v) list" where
  "aput k v m = (k, v) # filter (\<lambda>x. fst x \<noteq> k) m"

definition adel :: "'k \<Rightarrow> ('k \<times> 'v) list \<Rightarrow> ('k \<times> 'v) list" where
  "adel k m = filter (\<lambda>x. fst x \<noteq> k) m"

abbreviation aget :: "('k \<times> 'v::zero) list \<Rightarrow> 'k \<Rightarrow> 'v" where
  "aget m k \<equiv> zget (map_of m) k"

lemma map_of_filter_neq: "map_of (filter (\<lambda>x. fst x \<noteq> k) m) = (map_of m)(k := None)"
  by (induction m) auto

lemma map_of_aput [simp]: "map_of (aput k v m) = (map_of m)(k \<mapsto> v)"
  by (auto simp: aput_def map_of_filter_neq)

lemma map_of_adel [simp]: "map_of (adel k m) = (map_of m)(k := None)"
  by (simp add: adel_def map_of_filter_neq)

lemma distinct_aput [simp]: "distinct (map fst m) \<Longrightarrow> distinct (map fst (aput k v m))"
  by (auto simp: aput_def distinct_map inj_on_def)

lemma distinct_adel [simp]: "distinct (map fst m) \<Longrightarrow> distinct (map fst (adel k m))"
  by (auto simp: adel_def distinct_map inj_on_def)

lemma keys_aput [simp]: "fst ` set (aput k v m) = insert k (fst ` set m)"
  by (force simp: aput_def)

lemma keys_adel [simp]: "fst ` set (adel k m) = fst ` set m - {k}"
  by (force simp: adel_def)

text \<open>A counter map: every key occurs once and every count is positive.\<close>

definition counts_ok :: "('k \<times> int) list \<Rightarrow> bool" where
  "counts_ok m \<longleftrightarrow> distinct (map fst m) \<and> (\<forall>x \<in> set m. 0 < snd x)"

lemma counts_ok_Nil [simp]: "counts_ok []"
  by (simp add: counts_ok_def)

lemma counts_ok_nonneg: "counts_ok m \<Longrightarrow> 0 \<le> aget m k"
  by (force simp: counts_ok_def zget_def split: option.split dest!: map_of_SomeD)

lemma counts_ok_aput [simp]: "counts_ok m \<Longrightarrow> 0 < v \<Longrightarrow> counts_ok (aput k v m)"
  using distinct_aput [of m k v] by (auto simp: counts_ok_def aput_def)

lemma counts_ok_adel [simp]: "counts_ok m \<Longrightarrow> counts_ok (adel k m)"
  using distinct_adel [of m k] by (auto simp: counts_ok_def adel_def)

section \<open>Decimal numbers\<close>

text \<open>The decimal form of a number, as \<open>%d\<close> prints it.\<close>

definition digit_char :: "nat \<Rightarrow> char" where
  "digit_char d = char_of (48 + d)"

fun decimal :: "nat \<Rightarrow> string" where
  "decimal n = (if n < 10 then [digit_char n] else decimal (n div 10) @ [digit_char (n mod 10)])"

declare decimal.simps [simp del]

definition undecimal :: "string \<Rightarrow> nat" where
  "undecimal s = foldl (\<lambda>v c. v * 10 + (of_char c - 48)) 0 s"

lemma undecimal_decimal [simp]: "undecimal (decimal n) = n"
proof (induction n rule: decimal.induct)
  case (1 n)
  have d: "of_char (digit_char k) - 48 = k" if "k < 10" for k
    using that by (simp add: digit_char_def)
  show ?case
  proof (cases "n < 10")
    case True
    then show ?thesis by (simp add: decimal.simps [of n] undecimal_def d)
  next
    case False
    then have "undecimal (decimal n) = undecimal (decimal (n div 10)) * 10 + n mod 10"
      by (simp add: decimal.simps [of n] undecimal_def d)
    then show ?thesis using 1 False by simp
  qed
qed

lemma decimal_inj [simp]: "decimal m = decimal n \<longleftrightarrow> m = n"
  by (metis undecimal_decimal)

lemma decimal_length: "n < 10 ^ k \<Longrightarrow> 0 < k \<Longrightarrow> length (decimal n) \<le> k"
proof (induction k arbitrary: n)
  case (Suc k)
  show ?case
  proof (cases "n < 10")
    case True
    then show ?thesis by (simp add: decimal.simps [of n])
  next
    case False
    then have "n div 10 < 10 ^ k" "0 < k" using Suc.prems by (auto simp: less_mult_imp_div_less mult.commute) (metis gr0I power_0 mult.right_neutral)
    then show ?thesis using Suc.IH [of "n div 10"] False by (simp add: decimal.simps [of n])
  qed
qed simp

lemma decimal_chars: "c \<in> set (decimal n) \<Longrightarrow> 48 \<le> (of_char c :: nat) \<and> of_char c \<le> (57 :: nat)"
proof (induction n rule: decimal.induct)
  case (1 n)
  have d: "48 \<le> (of_char (digit_char k) :: nat) \<and> of_char (digit_char k) \<le> (57 :: nat)" if "k < 10" for k
    using that by (simp add: digit_char_def)
  show ?case using 1 d by (cases "n < 10") (auto simp: decimal.simps [of n])
qed

text \<open>A counter that skips used names of a finite set comes to an end: the measure of such a loop.\<close>

lemma fresh_counter:
  assumes "inj f" and "finite U" and "f i \<in> U"
  shows "card {j. Suc i \<le> j \<and> f j \<in> U} < card {j. i \<le> j \<and> f j \<in> U}"
proof (rule psubset_card_mono)
  have "finite {j. f j \<in> U}" using assms(1,2) finite_vimageI [of U f] by (simp add: vimage_def)
  then show "finite {j. i \<le> j \<and> f j \<in> U}" by (rule finite_subset [rotated]) auto
  have "i \<in> {j. i \<le> j \<and> f j \<in> U}" "i \<notin> {j. Suc i \<le> j \<and> f j \<in> U}" using assms(3) by simp_all
  moreover have "{j. Suc i \<le> j \<and> f j \<in> U} \<subseteq> {j. i \<le> j \<and> f j \<in> U}" by auto
  ultimately show "{j. Suc i \<le> j \<and> f j \<in> U} \<subset> {j. i \<le> j \<and> f j \<in> U}" by blast
qed

end
