(* ===== verification/Cache.thy ===== *)
theory Cache
  imports Prelude
begin

text \<open>
  The in-memory piece cache (\<open>internal/cache/cache.go\<close>).

  \<open>Cache\<close> is the Go struct. \<open>lru\<close> is the \<open>container/list\<close> list, front first; each list
  element is an address with its entry, and \<open>items\<close> maps a key to the address of its element,
  as the Go map holds \<open>*list.Element\<close>. \<open>pinned\<close> lists the keys of the \<open>pinned\<close> map in
  their iteration order. The mutex makes each method one atomic step, so a method is a function
  from the state to the new state and the result. Returned values are copies in the source and
  values here.
\<close>

datatype Key = Key (Torrent: string) (Piece: int)

record entry =
  ekey :: Key
  evalue :: bytes

record Cache =
  capacity :: int
  used :: int
  hits :: u64
  misses :: u64
  evictions :: u64
  evictedBytes :: int
  putRejections :: u64
  pinReservationRejections :: u64
  items :: "Key \<rightharpoonup> nat"
  lru :: "(nat \<times> entry) list"
  nextElem :: nat
  pinned :: "Key list"
  pinnedSizes :: "Key \<rightharpoonup> int"
  pinnedSized :: "Key \<rightharpoonup> bool"
  pinnedBytes :: int
  usedByTorrent :: "string \<rightharpoonup> int"

record Stats =
  Hits :: u64
  Misses :: u64
  Evictions :: u64
  EvictedBytes :: int
  PutRejections :: u64
  PinReservationRejections :: u64

section \<open>Watermarks\<close>

definition HighWater :: "int \<Rightarrow> int" where
  "HighWater cap =
     (if cap \<le> 0 then 0
      else let mark = wrap64 (cap * 7) sdiv 8 in if mark > 0 then mark else 1)"

definition LowWater :: "int \<Rightarrow> int" where
  "LowWater cap =
     (if cap \<le> 0 then 0
      else let mark = wrap64 (cap * 3) sdiv 4 in if mark > 0 then mark else 1)"

definition pinBytesCap :: "Cache \<Rightarrow> int" where
  "pinBytesCap c = capacity c - LowWater (capacity c)"

section \<open>Construction and the list of entries\<close>

definition New :: "int \<Rightarrow> Cache" where
  "New cap = \<lparr>capacity = cap, used = 0, hits = 0, misses = 0, evictions = 0, evictedBytes = 0,
     putRejections = 0, pinReservationRejections = 0, items = Map.empty, lru = [], nextElem = 0,
     pinned = [], pinnedSizes = Map.empty, pinnedSized = Map.empty, pinnedBytes = 0,
     usedByTorrent = Map.empty\<rparr>"

definition elem_len :: "nat \<times> entry \<Rightarrow> int" where
  "elem_len x = int (length (evalue (snd x)))"

definition elem_key :: "nat \<times> entry \<Rightarrow> Key" where
  "elem_key x = ekey (snd x)"

definition remove_elem :: "nat \<Rightarrow> Cache \<Rightarrow> Cache" where
  "remove_elem a c =
     (case map_of (lru c) a of
        None \<Rightarrow> c
      | Some item \<Rightarrow>
          let n = int (length (evalue item));
              t = Torrent (ekey item);
              left = zget (usedByTorrent c) t - n
          in c\<lparr>items := (items c)(ekey item := None),
               lru := filter (\<lambda>x. fst x \<noteq> a) (lru c),
               used := used c - n,
               usedByTorrent := (usedByTorrent c)(t := if left \<le> 0 then None else Some left)\<rparr>)"

definition remove_key :: "Key \<Rightarrow> Cache \<Rightarrow> Cache" where
  "remove_key key c = (case items c key of None \<Rightarrow> c | Some a \<Rightarrow> remove_elem a c)"

definition sizeOfLocked :: "Cache \<Rightarrow> Key \<Rightarrow> int" where
  "sizeOfLocked c key =
     (case items c key of
        None \<Rightarrow> 0
      | Some a \<Rightarrow> (case map_of (lru c) a of None \<Rightarrow> 0 | Some e \<Rightarrow> int (length (evalue e))))"

section \<open>Eviction\<close>

definition evictable :: "nat option \<Rightarrow> Key list \<Rightarrow> nat \<times> entry \<Rightarrow> bool" where
  "evictable keep pins x \<longleftrightarrow> Some (fst x) \<noteq> keep \<and> elem_key x \<notin> set pins"

definition victimLocked :: "nat option \<Rightarrow> Cache \<Rightarrow> (nat \<times> entry) option" where
  "victimLocked keep c = find (evictable keep (pinned c)) (rev (lru c))"

lemma victimLocked_mem: "victimLocked keep c = Some x \<Longrightarrow> x \<in> set (lru c) \<and> evictable keep (pinned c) x"
  by (metis victimLocked_def find_Some_iff nth_mem set_rev)

definition evict_one :: "nat \<times> entry \<Rightarrow> Cache \<Rightarrow> Cache" where
  "evict_one x c =
     remove_elem (fst x) (c\<lparr>evictions := evictions c + 1, evictedBytes := evictedBytes c + elem_len x\<rparr>)"

lemma lru_remove_elem [simp]: "lru (remove_elem a c) = filter (\<lambda>x. fst x \<noteq> a) (lru c)"
proof (cases "map_of (lru c) a")
  case None
  then have "a \<notin> fst ` set (lru c)" by (simp add: map_of_eq_None_iff)
  with None show ?thesis by (simp add: remove_elem_def filter_neq_id)
qed (simp add: remove_elem_def Let_def)

lemma lru_evict_one [simp]: "lru (evict_one x c) = filter (\<lambda>y. fst y \<noteq> fst x) (lru c)"
  by (simp add: evict_one_def)

function evict_loop :: "nat option \<Rightarrow> Cache \<Rightarrow> Cache" where
  "evict_loop keep c =
     (if used c > LowWater (capacity c) then
        (case victimLocked keep c of
           None \<Rightarrow> c
         | Some x \<Rightarrow> evict_loop keep (evict_one x c))
      else c)"
  by pat_completeness auto
termination
proof (relation "measure (\<lambda>(keep, c). length (lru c))")
  fix keep c x
  assume "victimLocked keep c = Some x"
  then have "fst x \<in> fst ` set (lru c)" using victimLocked_mem by blast
  then show "((keep, evict_one x c), (keep, c)) \<in> measure (\<lambda>(keep, c). length (lru c))"
    by (simp add: length_filter_key_less)
qed simp

declare evict_loop.simps [simp del]

definition evictLocked :: "nat option \<Rightarrow> Cache \<Rightarrow> Cache" where
  "evictLocked keep c = (if used c \<le> HighWater (capacity c) then c else evict_loop keep c)"

section \<open>Lookups and insertion\<close>

definition Has :: "Cache \<Rightarrow> Key \<Rightarrow> bool" where
  "Has c key \<longleftrightarrow> items c key \<noteq> None"

definition Get :: "Key \<Rightarrow> Cache \<Rightarrow> bytes option \<times> Cache" where
  "Get key c =
     (case items c key of
        None \<Rightarrow> (None, c\<lparr>misses := misses c + 1\<rparr>)
      | Some a \<Rightarrow>
          (case map_of (lru c) a of
             None \<Rightarrow> (None, c)
           | Some e \<Rightarrow>
               (Some (evalue e),
                c\<lparr>lru := (a, e) # filter (\<lambda>x. fst x \<noteq> a) (lru c), hits := hits c + 1\<rparr>)))"

definition push_front :: "Key \<Rightarrow> bytes \<Rightarrow> Cache \<Rightarrow> Cache" where
  "push_front key v c =
     c\<lparr>lru := (nextElem c, \<lparr>ekey = key, evalue = v\<rparr>) # lru c,
       items := (items c)(key \<mapsto> nextElem c),
       nextElem := nextElem c + 1,
       used := used c + int (length v),
       usedByTorrent := (usedByTorrent c)(Torrent key \<mapsto>
          zget (usedByTorrent c) (Torrent key) + int (length v))\<rparr>"

definition charge_pin :: "Key \<Rightarrow> bytes \<Rightarrow> Cache \<Rightarrow> Cache" where
  "charge_pin key v c =
     (if key \<in> set (pinned c) then
        c\<lparr>pinnedBytes := pinnedBytes c + (int (length v) - zget (pinnedSizes c) key),
          pinnedSizes := (pinnedSizes c)(key \<mapsto> int (length v))\<rparr>
      else c)"

definition put_refused :: "Key \<Rightarrow> bytes \<Rightarrow> Cache \<Rightarrow> bool" where
  "put_refused key v c \<longleftrightarrow>
     capacity c \<le> 0 \<or> int (length v) > capacity c \<or>
     (bget (pinnedSized c) key \<and>
      pinnedBytes c - zget (pinnedSizes c) key + int (length v) > pinBytesCap c)"

definition Put :: "Key \<Rightarrow> bytes \<Rightarrow> Cache \<Rightarrow> Cache" where
  "Put key v c =
     (if put_refused key v c then c\<lparr>putRejections := putRejections c + 1\<rparr>
      else
        let c1 = remove_key key c;
            elem = nextElem c1;
            c2 = evictLocked (Some elem) (charge_pin key v (push_front key v c1))
        in if used c2 > capacity c2
           then remove_key key (c2\<lparr>putRejections := putRejections c2 + 1\<rparr>)
           else c2)"

definition Remove :: "Key \<Rightarrow> Cache \<Rightarrow> Cache" where
  "Remove key c = remove_key key c"

section \<open>Pins\<close>

definition pin :: "Key \<Rightarrow> int \<Rightarrow> bool \<Rightarrow> Cache \<Rightarrow> bool \<times> Cache" where
  "pin key requested reserve c =
     (let actual = max (sizeOfLocked c key) requested;
          reject = c\<lparr>pinReservationRejections := pinReservationRejections c + 1\<rparr>
      in if key \<in> set (pinned c) then
           (if reserve \<and> \<not> bget (pinnedSized c) key \<and> pinnedBytes c > pinBytesCap c then (False, reject)
            else if \<not> reserve \<or> actual \<le> zget (pinnedSizes c) key then
              (True, if reserve then c\<lparr>pinnedSized := (pinnedSized c)(key \<mapsto> True)\<rparr> else c)
            else if pinnedBytes c + (actual - zget (pinnedSizes c) key) > pinBytesCap c then (False, reject)
            else
              (True, c\<lparr>pinnedBytes := pinnedBytes c + (actual - zget (pinnedSizes c) key),
                       pinnedSizes := (pinnedSizes c)(key \<mapsto> actual),
                       pinnedSized := (pinnedSized c)(key \<mapsto> True)\<rparr>))
         else
           (let reservation = (if \<not> reserve \<and> sizeOfLocked c key = 0 then 0 else actual)
            in if pinnedBytes c + reservation > pinBytesCap c then (False, reject)
               else
                 (True, c\<lparr>pinned := key # pinned c,
                          pinnedSizes := (pinnedSizes c)(key \<mapsto> reservation),
                          pinnedSized := (pinnedSized c)(key \<mapsto> reserve),
                          pinnedBytes := pinnedBytes c + reservation\<rparr>)))"

definition Pin :: "Key \<Rightarrow> Cache \<Rightarrow> bool \<times> Cache" where
  "Pin key c = pin key 0 False c"

definition PinSize :: "Key \<Rightarrow> int \<Rightarrow> Cache \<Rightarrow> bool \<times> Cache" where
  "PinSize key sz c = (if sz < 0 then (False, c) else pin key sz True c)"

definition unpinLocked :: "Key \<Rightarrow> Cache \<Rightarrow> Cache" where
  "unpinLocked key c =
     (if key \<notin> set (pinned c) then c
      else c\<lparr>pinned := removeAll key (pinned c),
             pinnedBytes := pinnedBytes c - zget (pinnedSizes c) key,
             pinnedSizes := (pinnedSizes c)(key := None),
             pinnedSized := (pinnedSized c)(key := None)\<rparr>)"

definition Unpin :: "Key \<Rightarrow> Cache \<Rightarrow> Cache" where
  "Unpin key c =
     (let c1 = unpinLocked key c
      in if used c1 > HighWater (capacity c1) then evictLocked None c1 else c1)"

definition UnpinTorrent :: "string \<Rightarrow> Cache \<Rightarrow> Cache" where
  "UnpinTorrent t c =
     fold (\<lambda>key c. if Torrent key = t then unpinLocked key c else c) (pinned c) c"

definition IsPinned :: "Cache \<Rightarrow> Key \<Rightarrow> bool" where
  "IsPinned c key \<longleftrightarrow> key \<in> set (pinned c)"

definition recountPinnedLocked :: "Cache \<Rightarrow> int" where
  "recountPinnedLocked c = sum_list (map (zget (pinnedSizes c)) (pinned c))"

fun remove_torrent_elems :: "string \<Rightarrow> (nat \<times> entry) list \<Rightarrow> Cache \<Rightarrow> Cache" where
  "remove_torrent_elems t [] c = c"
| "remove_torrent_elems t (x # xs) c =
     remove_torrent_elems t xs (if Torrent (elem_key x) = t then remove_elem (fst x) c else c)"

definition drop_torrent_pins :: "string \<Rightarrow> Cache \<Rightarrow> Cache" where
  "drop_torrent_pins t c =
     c\<lparr>pinned := filter (\<lambda>k. Torrent k \<noteq> t) (pinned c),
       pinnedSizes := (\<lambda>k. if k \<in> set (pinned c) \<and> Torrent k = t then None else pinnedSizes c k),
       pinnedSized := (\<lambda>k. if k \<in> set (pinned c) \<and> Torrent k = t then None else pinnedSized c k)\<rparr>"

definition InvalidateTorrent :: "string \<Rightarrow> Cache \<Rightarrow> Cache" where
  "InvalidateTorrent t c =
     (let c1 = drop_torrent_pins t (remove_torrent_elems t (rev (lru c)) c)
      in c1\<lparr>pinnedBytes := recountPinnedLocked c1\<rparr>)"

section \<open>Reports\<close>

definition PinnedBytes :: "Cache \<Rightarrow> int" where "PinnedBytes c = pinnedBytes c"
definition SizeOf :: "Cache \<Rightarrow> string \<Rightarrow> int" where "SizeOf c t = zget (usedByTorrent c) t"
definition HitCount :: "Cache \<Rightarrow> u64" where "HitCount c = hits c"
definition Capacity :: "Cache \<Rightarrow> int" where "Capacity c = capacity c"
definition Len :: "Cache \<Rightarrow> nat" where "Len c = card (dom (items c))"
definition Size :: "Cache \<Rightarrow> int" where "Size c = used c"

definition stats :: "Cache \<Rightarrow> Stats" where
  "stats c = \<lparr>Hits = hits c, Misses = misses c, Evictions = evictions c,
     EvictedBytes = evictedBytes c, PutRejections = putRejections c,
     PinReservationRejections = pinReservationRejections c\<rparr>"

definition Snapshot :: "Cache \<Rightarrow> string \<Rightarrow> (int \<rightharpoonup> int) \<times> (int \<rightharpoonup> bool)" where
  "Snapshot c t =
     ((\<lambda>p. if items c (Key t p) \<noteq> None then Some (sizeOfLocked c (Key t p)) else None),
      (\<lambda>p. if Key t p \<in> set (pinned c) then Some True else None))"

function contiguous_loop :: "Cache \<Rightarrow> string \<Rightarrow> int \<Rightarrow> int \<Rightarrow> int \<Rightarrow> int \<Rightarrow> int" where
  "contiguous_loop c t step limit cursor tot =
     (if tot < limit then
        (let index = cursor sdiv step
         in if items c (Key t index) = None then tot
            else
              let pieceEnd = (index + 1) * step;
                  avail = min (pieceEnd - cursor) (sizeOfLocked c (Key t index))
              in if avail \<le> 0 then tot
                 else
                   let chunk = (if tot + avail > limit then limit - tot else avail)
                   in contiguous_loop c t step limit pieceEnd (tot + chunk))
      else tot)"
  by pat_completeness auto
termination
  by (relation "measure (\<lambda>(c, t, step, limit, cursor, tot). nat (limit - tot))") auto

declare contiguous_loop.simps [simp del]

definition ContiguousRun :: "Cache \<Rightarrow> string \<Rightarrow> int \<Rightarrow> int \<Rightarrow> int \<Rightarrow> int" where
  "ContiguousRun c t start step limit =
     (if step \<le> 0 \<or> limit \<le> 0 then 0 else contiguous_loop c t step limit start 0)"


section \<open>The invariant\<close>

definition torrent_bytes :: "string \<Rightarrow> (nat \<times> entry) list \<Rightarrow> int" where
  "torrent_bytes t xs = sum_list (map elem_len (filter (\<lambda>x. Torrent (elem_key x) = t) xs))"

definition index_of :: "(nat \<times> entry) list \<Rightarrow> Key \<rightharpoonup> nat" where
  "index_of xs = map_of (map (\<lambda>x. (elem_key x, fst x)) xs)"

definition index_ok :: "Cache \<Rightarrow> bool" where
  "index_ok c \<longleftrightarrow> distinct (map fst (lru c)) \<and> distinct (map elem_key (lru c)) \<and>
     (\<forall>x \<in> set (lru c). fst x < nextElem c) \<and> items c = index_of (lru c)"

definition acct_ok :: "Cache \<Rightarrow> bool" where
  "acct_ok c \<longleftrightarrow> used c = sum_list (map elem_len (lru c)) \<and>
     (\<forall>t. zget (usedByTorrent c) t = torrent_bytes t (lru c))"

definition pins_ok :: "Cache \<Rightarrow> bool" where
  "pins_ok c \<longleftrightarrow> distinct (pinned c) \<and> dom (pinnedSizes c) = set (pinned c) \<and>
     dom (pinnedSized c) = set (pinned c) \<and> pinnedBytes c = recountPinnedLocked c \<and>
     (\<forall>k. 0 \<le> zget (pinnedSizes c) k) \<and>
     (\<forall>x \<in> set (lru c). elem_key x \<in> set (pinned c) \<longrightarrow> elem_len x \<le> zget (pinnedSizes c) (elem_key x))"

definition cache_wf :: "Cache \<Rightarrow> bool" where
  "cache_wf c \<longleftrightarrow> index_ok c \<and> acct_ok c \<and> pins_ok c"

definition within_capacity :: "Cache \<Rightarrow> bool" where
  "within_capacity c \<longleftrightarrow> used c \<le> max 0 (capacity c)"

lemma elem_len_nonneg [simp]: "0 \<le> elem_len x"
  by (simp add: elem_len_def)

lemma elem_len_Pair [simp]: "elem_len (a, e) = int (length (evalue e))"
  by (simp add: elem_len_def)

lemma elem_key_Pair [simp]: "elem_key (a, e) = ekey e"
  by (simp add: elem_key_def)

lemma index_of_Nil [simp]: "index_of [] = Map.empty"
  by (simp add: index_of_def)

lemma index_of_Cons [simp]: "index_of (x # xs) = (index_of xs)(elem_key x \<mapsto> fst x)"
  by (simp add: index_of_def)

lemma index_of_None: "index_of xs k = None \<longleftrightarrow> k \<notin> elem_key ` set xs"
  by (auto simp: index_of_def map_of_eq_None_iff image_iff)

lemma index_of_Some: "distinct (map elem_key xs) \<Longrightarrow>
    index_of xs k = Some a \<longleftrightarrow> (\<exists>e. (a, e) \<in> set xs \<and> ekey e = k)"
  by (induction xs) (force simp: elem_key_def)+

lemma index_of_filter:
  assumes "distinct (map fst xs)" and "distinct (map elem_key xs)" and "x \<in> set xs"
  shows "index_of (filter (\<lambda>y. fst y \<noteq> fst x) xs) = (index_of xs)(elem_key x := None)"
  using assms
proof (induction xs)
  case Nil
  then show ?case by simp
next
  case (Cons y ys)
  show ?case
  proof (cases "fst y = fst x")
    case True
    with Cons.prems have "y = x" by force
    with Cons.prems have "fst x \<notin> fst ` set ys" and "elem_key x \<notin> elem_key ` set ys" by auto
    then have "filter (\<lambda>y. fst y \<noteq> fst x) ys = ys" and "index_of ys (elem_key x) = None"
      by (simp_all add: filter_neq_id index_of_None)
    with True \<open>y = x\<close> show ?thesis by (auto simp: fun_eq_iff)
  next
    case False
    with Cons.prems have "x \<in> set ys" and "elem_key y \<noteq> elem_key x" by force+
    with Cons False show ?thesis by (auto simp: fun_eq_iff)
  qed
qed

lemma index_ok_lookup: "index_ok c \<Longrightarrow> items c k = Some a \<Longrightarrow>
    \<exists>e. map_of (lru c) a = Some e \<and> (a, e) \<in> set (lru c) \<and> ekey e = k"
  by (auto simp: index_ok_def index_of_Some)

lemma index_ok_elem: "index_ok c \<Longrightarrow> x \<in> set (lru c) \<Longrightarrow>
    items c (elem_key x) = Some (fst x) \<and> map_of (lru c) (fst x) = Some (snd x)"
  by (cases x) (auto simp: index_ok_def index_of_Some)

lemma index_ok_absent: "index_ok c \<Longrightarrow> items c k = None \<longleftrightarrow> k \<notin> elem_key ` set (lru c)"
  by (simp add: index_ok_def index_of_None)

lemma torrent_bytes_nonneg [simp]: "0 \<le> torrent_bytes t xs"
  by (simp add: torrent_bytes_def sum_list_nonneg_int)

lemma torrent_bytes_filter:
  assumes "distinct (map fst xs)" and "x \<in> set xs"
  shows "torrent_bytes t (filter (\<lambda>y. fst y \<noteq> fst x) xs) =
           torrent_bytes t xs - (if Torrent (elem_key x) = t then elem_len x else 0)"
proof -
  let ?f = "\<lambda>y. if Torrent (elem_key y) = t then elem_len y else 0"
  have "torrent_bytes t ys = sum_list (map ?f ys)" for ys
    by (induction ys) (auto simp: torrent_bytes_def)
  with assms show ?thesis
    using sum_list_drop_key [of xs "fst x" "snd x" ?f] by simp
qed

subsection \<open>Removing an element\<close>

lemma remove_elem_frame [simp]:
  "capacity (remove_elem a c) = capacity c" "hits (remove_elem a c) = hits c"
  "pinned (remove_elem a c) = pinned c" "pinnedSizes (remove_elem a c) = pinnedSizes c"
  "pinnedSized (remove_elem a c) = pinnedSized c" "pinnedBytes (remove_elem a c) = pinnedBytes c"
  "nextElem (remove_elem a c) = nextElem c" "evictions (remove_elem a c) = evictions c"
  by (auto simp: remove_elem_def Let_def split: option.split)

lemma remove_elem_eq:
  assumes "index_ok c" and "x \<in> set (lru c)"
  shows "items (remove_elem (fst x) c) = (items c)(elem_key x := None)"
    and "used (remove_elem (fst x) c) = used c - elem_len x"
  using index_ok_elem [OF assms] by (simp_all add: remove_elem_def Let_def elem_key_def elem_len_def)

lemma index_ok_remove_elem:
  assumes "index_ok c" shows "index_ok (remove_elem a c)"
proof (cases "map_of (lru c) a")
  case None
  then show ?thesis using assms by (simp add: remove_elem_def)
next
  case (Some e)
  then have x: "(a, e) \<in> set (lru c)" by (rule map_of_SomeD)
  with assms remove_elem_eq [OF assms x] show ?thesis
    by (auto simp: index_ok_def distinct_map_filter index_of_filter [OF _ _ x, simplified])
qed

lemma acct_ok_remove_elem:
  assumes "index_ok c" and "acct_ok c" shows "acct_ok (remove_elem a c)"
proof (cases "map_of (lru c) a")
  case None
  then show ?thesis using assms by (simp add: remove_elem_def)
next
  case (Some e)
  then have x: "(a, e) \<in> set (lru c)" by (rule map_of_SomeD)
  have d: "distinct (map fst (lru c))" using assms(1) by (simp add: index_ok_def)
  have tb: "zget (usedByTorrent c) t = torrent_bytes t (lru c)" for t
    using assms(2) by (simp add: acct_ok_def)
  note drop = torrent_bytes_filter [OF d x, simplified]
  have nn: "0 \<le> torrent_bytes (Torrent (ekey e)) (lru c) - int (length (evalue e))"
    using torrent_bytes_nonneg [of "Torrent (ekey e)" "filter (\<lambda>y. fst y \<noteq> a) (lru c)"] by (simp add: drop)
  from assms(2) Some show ?thesis
    using nn sum_list_drop_key [OF d x, of elem_len]
    by (auto simp: acct_ok_def remove_elem_def Let_def drop tb)
qed

lemma pins_ok_shrink:
  "pins_ok c \<Longrightarrow> set (lru c') \<subseteq> set (lru c) \<Longrightarrow> pinned c' = pinned c \<Longrightarrow>
   pinnedSizes c' = pinnedSizes c \<Longrightarrow> pinnedSized c' = pinnedSized c \<Longrightarrow>
   pinnedBytes c' = pinnedBytes c \<Longrightarrow> pins_ok c'"
  by (auto simp: pins_ok_def recountPinnedLocked_def)

lemma cache_wf_remove_elem [wf_intros]: "cache_wf c \<Longrightarrow> cache_wf (remove_elem a c)"
  by (auto simp: cache_wf_def index_ok_remove_elem acct_ok_remove_elem intro: pins_ok_shrink)

lemma cache_wf_remove_key [wf_intros]: "cache_wf c \<Longrightarrow> cache_wf (remove_key k c)"
  by (simp add: remove_key_def cache_wf_remove_elem split: option.split)

lemma lru_remove_key:
  "index_ok c \<Longrightarrow> lru (remove_key k c) = filter (\<lambda>x. elem_key x \<noteq> k) (lru c)"
proof (cases "items c k")
  case None
  assume "index_ok c"
  with None have "k \<notin> elem_key ` set (lru c)" by (simp add: index_ok_absent)
  then have "filter (\<lambda>x. elem_key x \<noteq> k) (lru c) = lru c" by (auto simp: filter_id_conv)
  with None show ?thesis by (simp add: remove_key_def)
next
  case (Some a)
  assume ok: "index_ok c"
  from index_ok_lookup [OF ok Some] obtain e where e: "(a, e) \<in> set (lru c)" "ekey e = k" by blast
  have "fst x \<noteq> a \<longleftrightarrow> elem_key x \<noteq> k" if "x \<in> set (lru c)" for x
    using index_ok_elem [OF ok that] index_ok_elem [OF ok e(1)] e(2) Some by (auto simp: elem_key_def)
  with Some show ?thesis by (simp add: remove_key_def cong: filter_cong)
qed

lemma remove_key_frame [simp]:
  "capacity (remove_key k c) = capacity c" "pinned (remove_key k c) = pinned c"
  "pinnedSizes (remove_key k c) = pinnedSizes c" "pinnedSized (remove_key k c) = pinnedSized c"
  "pinnedBytes (remove_key k c) = pinnedBytes c" "nextElem (remove_key k c) = nextElem c"
  by (simp_all add: remove_key_def split: option.split)


subsection \<open>Eviction\<close>

lemma evict_loop_invariant:
  assumes "P c" and "\<And>d x. P d \<Longrightarrow> victimLocked keep d = Some x \<Longrightarrow> P (evict_one x d)"
  shows "P (evict_loop keep c)"
  using assms
proof (induction keep c rule: evict_loop.induct)
  case (1 keep c)
  show ?case
  proof (cases "used c > LowWater (capacity c)")
    case busy: True
    show ?thesis
    proof (cases "victimLocked keep c")
      case None
      with busy "1.prems" show ?thesis by (simp add: evict_loop.simps [of keep c])
    next
      case (Some x)
      from "1.prems"(2) [OF "1.prems"(1) Some] have "P (evict_loop keep (evict_one x c))"
        using "1.IH" [OF busy Some] "1.prems"(2) by blast
      with busy Some show ?thesis by (simp add: evict_loop.simps [of keep c])
    qed
  qed (use "1.prems" in \<open>simp add: evict_loop.simps [of keep c]\<close>)
qed

text \<open>
  A single pass over the entries, least recently used first, that drops an evictable entry while
  the byte count is above the low-water mark: the reference the loop is compared with.
\<close>

fun evict_pass :: "int \<Rightarrow> (nat \<times> entry \<Rightarrow> bool) \<Rightarrow> int \<Rightarrow> (nat \<times> entry) list \<Rightarrow> (nat \<times> entry) list" where
  "evict_pass low ev u [] = []"
| "evict_pass low ev u (x # xs) =
     (if u > low \<and> ev x then evict_pass low ev (u - elem_len x) xs
      else x # evict_pass low ev u xs)"

lemma evict_pass_skip:
  "\<forall>z \<in> set zs. \<not> ev z \<Longrightarrow> evict_pass low ev u (zs @ xs) = zs @ evict_pass low ev u xs"
  by (induction zs) auto

lemma evict_pass_done: "u \<le> low \<Longrightarrow> evict_pass low ev u xs = xs"
  by (induction xs) auto

lemma evict_pass_none: "\<forall>x \<in> set xs. \<not> ev x \<Longrightarrow> evict_pass low ev u xs = xs"
  by (induction xs) auto

lemma evict_pass_subseq: "subseq (evict_pass low ev u xs) xs"
  by (induction xs arbitrary: u) auto

lemma evict_pass_keeps: "x \<in> set xs \<Longrightarrow> \<not> ev x \<Longrightarrow> x \<in> set (evict_pass low ev u xs)"
  by (induction xs arbitrary: u) auto

lemma evict_pass_stops:
  assumes "u = sum_list (map elem_len xs)"
  shows "sum_list (map elem_len (evict_pass low ev u xs)) \<le> low \<or>
         (\<forall>x \<in> set (evict_pass low ev u xs). \<not> ev x)"
proof -
  have "u + d \<le> low \<or> sum_list (map elem_len (evict_pass low ev (u + d) xs)) + d \<le> low \<or>
         (\<forall>x \<in> set (evict_pass low ev (u + d) xs). \<not> ev x)" for d
    using assms
  proof (induction xs arbitrary: u d)
    case Nil
    then show ?case by simp
  next
    case (Cons x xs)
    show ?case
    proof (cases "u + d > low")
      case False
      then show ?thesis by simp
    next
      case True
      show ?thesis
      proof (cases "ev x")
        case True
        with \<open>u + d > low\<close> Cons.IH [of "u - elem_len x" d] Cons.prems show ?thesis
          by (auto simp: algebra_simps evict_pass_done)
      next
        case False
        with \<open>u + d > low\<close> Cons.IH [of "u - elem_len x" "d + elem_len x"] Cons.prems show ?thesis
          by (auto simp: algebra_simps)
      qed
    qed
  qed
  from this [of 0] assms show ?thesis by (auto simp: evict_pass_done)
qed

lemma index_ok_evict_one: "index_ok c \<Longrightarrow> index_ok (evict_one x c)"
  unfolding evict_one_def by (rule index_ok_remove_elem) (simp add: index_ok_def)

lemma evict_one_frame [simp]:
  "capacity (evict_one x c) = capacity c" "pinned (evict_one x c) = pinned c"
  "pinnedSizes (evict_one x c) = pinnedSizes c" "pinnedSized (evict_one x c) = pinnedSized c"
  "pinnedBytes (evict_one x c) = pinnedBytes c" "nextElem (evict_one x c) = nextElem c"
  by (simp_all add: evict_one_def)

lemma used_evict_one:
  "index_ok c \<Longrightarrow> x \<in> set (lru c) \<Longrightarrow> used (evict_one x c) = used c - elem_len x"
  unfolding evict_one_def by (subst remove_elem_eq(2)) (simp_all add: index_ok_def)

lemma evict_loop_lru:
  "index_ok c \<Longrightarrow>
   lru (evict_loop keep c) =
     rev (evict_pass (LowWater (capacity c)) (evictable keep (pinned c)) (used c) (rev (lru c)))"
proof (induction keep c rule: evict_loop.induct)
  case (1 keep c)
  show ?case
  proof (cases "used c > LowWater (capacity c)")
    case False
    then show ?thesis by (simp add: evict_loop.simps [of keep c] evict_pass_done)
  next
    case busy: True
    show ?thesis
    proof (cases "victimLocked keep c")
      case None
      then have "\<forall>x \<in> set (rev (lru c)). \<not> evictable keep (pinned c) x"
        by (auto simp: victimLocked_def find_None_iff)
      with busy None show ?thesis by (simp add: evict_loop.simps [of keep c] evict_pass_none)
    next
      case (Some x)
      from Some obtain ys zs where l: "lru c = ys @ x # zs"
        and ev: "evictable keep (pinned c) x" and zs: "\<forall>z \<in> set zs. \<not> evictable keep (pinned c) z"
        by (auto simp: victimLocked_def elim: find_rev_Some_last)
      have "fst x \<notin> fst ` set ys" and "fst x \<notin> fst ` set zs"
        using "1.prems" by (auto simp: index_ok_def l)
      then have l': "lru (evict_one x c) = ys @ zs"
        by (simp add: l filter_neq_id)
      have "lru (evict_loop keep c) = lru (evict_loop keep (evict_one x c))"
        using busy Some by (simp add: evict_loop.simps [of keep c])
      also have "\<dots> = rev (evict_pass (LowWater (capacity c)) (evictable keep (pinned c))
                         (used c - elem_len x) (rev zs @ rev ys))"
        using "1.IH" [OF busy Some] "1.prems" l
        by (simp add: index_ok_evict_one used_evict_one l' del: lru_evict_one)
      also have "\<dots> = rev (evict_pass (LowWater (capacity c)) (evictable keep (pinned c))
                         (used c) (rev (lru c)))"
        using busy ev zs by (simp add: l evict_pass_skip)
      finally show ?thesis .
    qed
  qed
qed

lemma cache_wf_evict_one: "cache_wf c \<Longrightarrow> cache_wf (evict_one x c)"
  unfolding evict_one_def
  by (rule cache_wf_remove_elem)
    (auto simp: cache_wf_def index_ok_def acct_ok_def pins_ok_def recountPinnedLocked_def)

lemma evict_loop_frame [simp]:
  "capacity (evict_loop keep c) = capacity c" "pinned (evict_loop keep c) = pinned c"
  "pinnedSizes (evict_loop keep c) = pinnedSizes c" "pinnedSized (evict_loop keep c) = pinnedSized c"
  "pinnedBytes (evict_loop keep c) = pinnedBytes c" "nextElem (evict_loop keep c) = nextElem c"
  by (rule evict_loop_invariant; simp)+

lemma evictLocked_frame [simp]:
  "capacity (evictLocked keep c) = capacity c" "pinned (evictLocked keep c) = pinned c"
  "pinnedSizes (evictLocked keep c) = pinnedSizes c" "pinnedSized (evictLocked keep c) = pinnedSized c"
  "pinnedBytes (evictLocked keep c) = pinnedBytes c" "nextElem (evictLocked keep c) = nextElem c"
  by (simp_all add: evictLocked_def)

lemma cache_wf_evictLocked [wf_intros]: "cache_wf c \<Longrightarrow> cache_wf (evictLocked keep c)"
  by (auto simp: evictLocked_def cache_wf_evict_one intro: evict_loop_invariant)

lemma evictLocked_subseq: "index_ok c \<Longrightarrow> subseq (lru (evictLocked keep c)) (lru c)"
  using subseq_rev_mono [OF evict_pass_subseq [of _ _ _ "rev (lru c)"]]
  by (simp add: evictLocked_def evict_loop_lru)

lemma evictLocked_keeps:
  "index_ok c \<Longrightarrow> x \<in> set (lru c) \<Longrightarrow> \<not> evictable keep (pinned c) x \<Longrightarrow>
   x \<in> set (lru (evictLocked keep c))"
  by (simp add: evictLocked_def evict_loop_lru evict_pass_keeps)

lemma subseq_sum_le:
  "subseq xs ys \<Longrightarrow> sum_list (map elem_len xs) \<le> sum_list (map elem_len ys)"
  by (induction rule: list_emb.induct) (auto intro: add_increasing sum_list_nonneg_int)

subsection \<open>Lookups and insertion\<close>

lemma Get_wf [wf_intros]:
  assumes "cache_wf c" shows "cache_wf (snd (Get k c))"
proof (cases "items c k")
  case None
  then show ?thesis using assms
    by (auto simp: Get_def cache_wf_def index_ok_def acct_ok_def pins_ok_def recountPinnedLocked_def)
next
  case (Some a)
  have ok: "index_ok c" using assms by (simp add: cache_wf_def)
  from index_ok_lookup [OF ok Some] obtain e
    where e: "map_of (lru c) a = Some e" "(a, e) \<in> set (lru c)" "ekey e = k" by blast
  from ok have d: "distinct (map fst (lru c))" "distinct (map elem_key (lru c))"
    by (simp_all add: index_ok_def)
  let ?l = "(a, e) # filter (\<lambda>x. fst x \<noteq> a) (lru c)"
  have idx: "index_of ?l = index_of (lru c)"
    using index_of_filter [OF d e(2)] Some ok e(3) by (auto simp: index_ok_def fun_eq_iff)
  have keys: "distinct (map elem_key ?l)"
    using index_of_filter [OF d e(2)] index_of_None [of "filter (\<lambda>x. fst x \<noteq> a) (lru c)" "ekey e"] d
    by (simp add: distinct_map_filter)
  have sums: "sum_list (map f ?l) = sum_list (map f (lru c))" for f :: "nat \<times> entry \<Rightarrow> int"
    using sum_list_drop_key [OF d(1) e(2), of f] by simp
  have tb: "torrent_bytes t ?l = torrent_bytes t (lru c)" for t
    using torrent_bytes_filter [OF d(1) e(2), of t] by (simp add: torrent_bytes_def)
  have sub: "set ?l \<subseteq> set (lru c)" using e(2) by auto
  have "index_ok (snd (Get k c))"
    using ok idx keys d(1) sub Some e(1) by (auto simp: Get_def index_ok_def distinct_map_filter)
  moreover have "acct_ok (snd (Get k c))"
    using assms Some e(1) sums [of elem_len] tb by (simp add: Get_def cache_wf_def acct_ok_def)
  moreover have "pins_ok (snd (Get k c))"
    using assms Some e(1) sub by (auto simp: cache_wf_def Get_def intro: pins_ok_shrink)
  ultimately show ?thesis by (simp add: cache_wf_def)
qed

lemma Get_hit:
  assumes "cache_wf c" and "(a, e) \<in> set (lru c)"
  shows "fst (Get (ekey e) c) = Some (evalue e)"
  using index_ok_elem [OF _ assms(2)] assms(1) by (simp add: Get_def cache_wf_def)

lemma insert_wf:
  assumes wf: "cache_wf c" and new: "items c k = None"
  shows "cache_wf (charge_pin k v (push_front k v c))"
proof -
  let ?d = "push_front k v c"
  have ok: "index_ok c" and ac: "acct_ok c" and pn: "pins_ok c" using wf by (simp_all add: cache_wf_def)
  have fresh: "k \<notin> elem_key ` set (lru c)" using ok new by (simp add: index_ok_absent)
  have lt: "\<forall>x \<in> set (lru c). fst x < nextElem c" using ok by (simp add: index_ok_def)
  have "index_ok ?d"
    using ok fresh lt by (auto simp: push_front_def index_ok_def less_Suc_eq image_iff)
  then have "index_ok (charge_pin k v ?d)" by (simp add: charge_pin_def index_ok_def)
  moreover have "acct_ok ?d"
    using ac by (auto simp: push_front_def acct_ok_def torrent_bytes_def)
  then have "acct_ok (charge_pin k v ?d)" by (simp add: charge_pin_def acct_ok_def)
  moreover have "pins_ok (charge_pin k v ?d)"
    using pn fresh
    by (auto simp: charge_pin_def push_front_def pins_ok_def recountPinnedLocked_def
        sum_list_zget_upd domIff split: if_splits)
  ultimately show ?thesis by (simp add: cache_wf_def)
qed

lemma insert_frame [simp]:
  "lru (charge_pin k v (push_front k v c)) = (nextElem c, \<lparr>ekey = k, evalue = v\<rparr>) # lru c"
  "capacity (charge_pin k v (push_front k v c)) = capacity c"
  "used (charge_pin k v (push_front k v c)) = used c + int (length v)"
  "pinned (charge_pin k v (push_front k v c)) = pinned c"
  "pinnedSized (charge_pin k v (push_front k v c)) = pinnedSized c"
  by (simp_all add: charge_pin_def push_front_def)

lemma items_remove_key: "index_ok c \<Longrightarrow> items (remove_key k c) k = None"
  using index_ok_remove_elem lru_remove_key [of c k]
  by (auto simp: remove_key_def index_ok_absent split: option.splits)

text \<open>The cache after an insertion that passed the guards, before the hard-capacity check.\<close>

definition put_placed :: "Key \<Rightarrow> bytes \<Rightarrow> Cache \<Rightarrow> Cache" where
  "put_placed k v c =
     (let c1 = remove_key k c
      in evictLocked (Some (nextElem c1)) (charge_pin k v (push_front k v c1)))"

lemma Put_cases:
  "Put k v c =
     (if put_refused k v c then c\<lparr>putRejections := putRejections c + 1\<rparr>
      else if used (put_placed k v c) > capacity c
      then remove_key k ((put_placed k v c)\<lparr>putRejections := putRejections (put_placed k v c) + 1\<rparr>)
      else put_placed k v c)"
  by (simp add: Put_def put_placed_def Let_def)

lemma put_placed_wf: "cache_wf c \<Longrightarrow> cache_wf (put_placed k v c)"
  unfolding put_placed_def Let_def
  by (intro wf_intros insert_wf items_remove_key) (simp_all add: cache_wf_def index_ok_remove_elem wf_intros)

lemma put_placed_frame [simp]:
  "capacity (put_placed k v c) = capacity c" "pinned (put_placed k v c) = pinned c"
  "pinnedSized (put_placed k v c) = pinnedSized c"
  by (simp_all add: put_placed_def Let_def)

lemma cache_wf_counter [simp]:
  "cache_wf (c\<lparr>putRejections := n\<rparr>) = cache_wf c"
  "cache_wf (c\<lparr>pinReservationRejections := n\<rparr>) = cache_wf c"
  by (simp_all add: cache_wf_def index_ok_def acct_ok_def pins_ok_def recountPinnedLocked_def)

lemma Put_wf [wf_intros]: "cache_wf c \<Longrightarrow> cache_wf (Put k v c)"
  by (simp add: Put_cases put_placed_wf cache_wf_remove_key)

lemma Put_frame [simp]:
  "capacity (Put k v c) = capacity c" "pinned (Put k v c) = pinned c"
  "pinnedSized (Put k v c) = pinnedSized c"
  by (simp_all add: Put_cases)

lemma used_is_sum: "cache_wf c \<Longrightarrow> used c = sum_list (map elem_len (lru c))"
  by (simp add: cache_wf_def acct_ok_def)

lemma put_placed_lru:
  assumes "cache_wf c"
  shows "subseq (lru (put_placed k v c))
     ((nextElem c, \<lparr>ekey = k, evalue = v\<rparr>) # filter (\<lambda>x. elem_key x \<noteq> k) (lru c))"
proof -
  have ok: "index_ok c" using assms by (simp add: cache_wf_def)
  let ?c1 = "remove_key k c"
  have "index_ok (charge_pin k v (push_front k v ?c1))"
    using insert_wf [OF cache_wf_remove_key [OF assms] items_remove_key [OF ok]] by (simp add: cache_wf_def)
  from evictLocked_subseq [OF this] show ?thesis
    by (simp add: put_placed_def Let_def lru_remove_key [OF ok])
qed

lemma Put_within_capacity [wf_intros]:
  assumes "cache_wf c" and "within_capacity c"
  shows "within_capacity (Put k v c)"
proof (cases "put_refused k v c")
  case True
  then show ?thesis using assms by (simp add: Put_cases within_capacity_def)
next
  case ok: False
  show ?thesis
  proof (cases "used (put_placed k v c) > capacity c")
    case False
    then show ?thesis using ok by (simp add: Put_cases within_capacity_def)
  next
    case True
    let ?p = "(put_placed k v c)\<lparr>putRejections := putRejections (put_placed k v c) + 1\<rparr>"
    have wfp: "cache_wf ?p" using put_placed_wf [OF assms(1)] by simp
    then have "lru (remove_key k ?p) = filter (\<lambda>x. elem_key x \<noteq> k) (lru (put_placed k v c))"
      by (subst lru_remove_key) (simp_all add: cache_wf_def)
    also have "subseq \<dots> (filter (\<lambda>x. elem_key x \<noteq> k) (lru c))"
      using subseq_filter [OF put_placed_lru [OF assms(1)], of "\<lambda>x. elem_key x \<noteq> k" k v] by simp
    also have "subseq (filter (\<lambda>x. elem_key x \<noteq> k) (lru c)) (lru c)" by simp
    finally have "used (remove_key k ?p) \<le> used c"
      using used_is_sum [OF cache_wf_remove_key [OF wfp]] used_is_sum [OF assms(1)]
      by (simp add: subseq_sum_le)
    with ok True assms(2) show ?thesis by (simp add: Put_cases within_capacity_def)
  qed
qed

subsection \<open>Pins\<close>

lemma sizeOfLocked_elem:
  "index_ok c \<Longrightarrow> x \<in> set (lru c) \<Longrightarrow> sizeOfLocked c (elem_key x) = elem_len x"
  by (cases x) (use index_ok_elem in \<open>force simp: sizeOfLocked_def\<close>)

lemma sizeOfLocked_nonneg [simp]: "0 \<le> sizeOfLocked c k"
  by (simp add: sizeOfLocked_def split: option.split)

lemma pins_ok_raise:
  assumes "pins_ok c" and "k \<in> set (pinned c)" and "zget (pinnedSizes c) k \<le> n"
  shows "pins_ok (c\<lparr>pinnedBytes := pinnedBytes c + (n - zget (pinnedSizes c) k),
            pinnedSizes := (pinnedSizes c)(k \<mapsto> n), pinnedSized := (pinnedSized c)(k \<mapsto> b)\<rparr>)"
  using assms
  by (auto simp: pins_ok_def recountPinnedLocked_def sum_list_zget_upd intro: order_trans)

lemma pins_ok_add:
  assumes "pins_ok c" and "index_ok c" and "k \<notin> set (pinned c)" and "sizeOfLocked c k \<le> n" and "0 \<le> n"
  shows "pins_ok (c\<lparr>pinned := k # pinned c, pinnedSizes := (pinnedSizes c)(k \<mapsto> n),
            pinnedSized := (pinnedSized c)(k \<mapsto> b), pinnedBytes := pinnedBytes c + n\<rparr>)"
  using assms sizeOfLocked_elem [OF assms(2)]
  by (auto simp: pins_ok_def recountPinnedLocked_def sum_list_zget_upd)

lemma pin_pins_ok:
  assumes "pins_ok c" and "index_ok c"
  shows "pins_ok (snd (pin k n r c))"
proof (cases "k \<in> set (pinned c)")
  case True
  have sized: "pins_ok (c\<lparr>pinnedSized := (pinnedSized c)(k \<mapsto> True)\<rparr>)"
    using assms(1) True by (auto simp: pins_ok_def recountPinnedLocked_def)
  have rej: "pins_ok (c\<lparr>pinReservationRejections := m\<rparr>)" for m
    using assms(1) by (simp add: pins_ok_def recountPinnedLocked_def)
  show ?thesis
    using assms(1) True sized rej pins_ok_raise [OF assms(1) True, of "max (sizeOfLocked c k) n" True]
    by (auto simp: pin_def Let_def)
next
  case False
  have rej: "pins_ok (c\<lparr>pinReservationRejections := m\<rparr>)" for m
    using assms(1) by (simp add: pins_ok_def recountPinnedLocked_def)
  show ?thesis
    using False rej pins_ok_add [OF assms False, of "max (sizeOfLocked c k) n" r]
      pins_ok_add [OF assms False, of 0 r] order_trans [OF sizeOfLocked_nonneg [of c k] max.cobounded1]
    by (auto simp: pin_def Let_def)
qed

lemma pin_frame [simp]:
  "lru (snd (pin k n r c)) = lru c" "items (snd (pin k n r c)) = items c"
  "used (snd (pin k n r c)) = used c" "capacity (snd (pin k n r c)) = capacity c"
  "usedByTorrent (snd (pin k n r c)) = usedByTorrent c" "nextElem (snd (pin k n r c)) = nextElem c"
  by (simp_all add: pin_def Let_def)

lemma pin_wf [wf_intros]: "cache_wf c \<Longrightarrow> cache_wf (snd (pin k n r c))"
  using pin_pins_ok [of c k n r] by (simp add: cache_wf_def index_ok_def acct_ok_def)

lemma unpinLocked_frame [simp]:
  "lru (unpinLocked k c) = lru c" "items (unpinLocked k c) = items c"
  "used (unpinLocked k c) = used c" "capacity (unpinLocked k c) = capacity c"
  "usedByTorrent (unpinLocked k c) = usedByTorrent c" "nextElem (unpinLocked k c) = nextElem c"
  "pinned (unpinLocked k c) = removeAll k (pinned c)"
  by (simp_all add: unpinLocked_def)

lemma unpinLocked_wf [wf_intros]: "cache_wf c \<Longrightarrow> cache_wf (unpinLocked k c)"
  by (auto simp: cache_wf_def index_ok_def acct_ok_def pins_ok_def unpinLocked_def
      recountPinnedLocked_def sum_list_zget_del distinct_removeAll)

lemma Unpin_wf [wf_intros]: "cache_wf c \<Longrightarrow> cache_wf (Unpin k c)"
  by (simp add: Unpin_def Let_def wf_intros)

lemma fold_wf: "cache_wf c \<Longrightarrow> (\<And>k d. cache_wf d \<Longrightarrow> cache_wf (f k d)) \<Longrightarrow> cache_wf (fold f ks c)"
  by (induction ks arbitrary: c) auto

lemma UnpinTorrent_wf [wf_intros]: "cache_wf c \<Longrightarrow> cache_wf (UnpinTorrent t c)"
  unfolding UnpinTorrent_def by (rule fold_wf) (auto intro: wf_intros)

lemma UnpinTorrent_frame [simp]:
  "lru (UnpinTorrent t c) = lru c \<and> used (UnpinTorrent t c) = used c \<and> capacity (UnpinTorrent t c) = capacity c"
proof -
  have "lru (fold (\<lambda>k d. if Torrent k = t then unpinLocked k d else d) ks c) = lru c \<and>
        used (fold (\<lambda>k d. if Torrent k = t then unpinLocked k d else d) ks c) = used c \<and>
        capacity (fold (\<lambda>k d. if Torrent k = t then unpinLocked k d else d) ks c) = capacity c" for ks
    by (induction ks arbitrary: c) auto
  then show ?thesis by (simp add: UnpinTorrent_def)
qed

subsection \<open>Invalidation\<close>

lemma remove_torrent_elems_wf: "cache_wf c \<Longrightarrow> cache_wf (remove_torrent_elems t xs c)"
  by (induction xs arbitrary: c) (auto intro: wf_intros)

lemma remove_torrent_elems_frame [simp]:
  "pinned (remove_torrent_elems t xs c) = pinned c" "capacity (remove_torrent_elems t xs c) = capacity c"
  "pinnedSizes (remove_torrent_elems t xs c) = pinnedSizes c"
  "pinnedSized (remove_torrent_elems t xs c) = pinnedSized c"
  by (induction xs arbitrary: c) auto

lemma remove_torrent_elems_lru:
  "lru (remove_torrent_elems t xs c) =
     filter (\<lambda>y. fst y \<notin> fst ` {x \<in> set xs. Torrent (elem_key x) = t}) (lru c)"
  by (induction xs arbitrary: c) (auto intro!: filter_cong)

lemma InvalidateTorrent_lru:
  assumes "cache_wf c"
  shows "lru (InvalidateTorrent t c) = filter (\<lambda>x. Torrent (elem_key x) \<noteq> t) (lru c)"
proof -
  have "distinct (map fst (lru c))" using assms by (simp add: cache_wf_def index_ok_def)
  then have "fst y \<in> fst ` {x \<in> set (lru c). Torrent (elem_key x) = t} \<longleftrightarrow> Torrent (elem_key y) = t"
    if "y \<in> set (lru c)" for y
    using that by (auto simp: distinct_map dest: inj_onD)
  then show ?thesis
    by (auto simp: InvalidateTorrent_def drop_torrent_pins_def Let_def remove_torrent_elems_lru
        intro!: filter_cong)
qed

lemma InvalidateTorrent_wf [wf_intros]:
  assumes "cache_wf c" shows "cache_wf (InvalidateTorrent t c)"
proof -
  let ?d = "remove_torrent_elems t (rev (lru c)) c"
  have wf: "cache_wf ?d" by (rule remove_torrent_elems_wf [OF assms])
  have nn: "0 \<le> zget (\<lambda>k. if P k then None else m k) k" if "\<And>k. 0 \<le> (zget m k :: int)" for P m k
    using that [of k] by (simp add: zget_def)
  have same: "zget (\<lambda>k. if k \<in> A \<and> Torrent k = t then None else m k) k = (zget m k :: int)"
    if "Torrent k \<noteq> t" for A m k
    using that by (simp add: zget_def)
  have dm: "dom (\<lambda>k. if P k then None else m k) = dom m - Collect P" for P and m :: "Key \<rightharpoonup> 'a"
    by (auto simp: dom_def)
  show ?thesis
    using wf
    by (auto simp: cache_wf_def InvalidateTorrent_def drop_torrent_pins_def Let_def index_ok_def
        acct_ok_def pins_ok_def recountPinnedLocked_def nn same dm split: if_splits)
qed

subsection \<open>The pin budget\<close>

text \<open>
  The session pins with \<open>PinSize\<close> only. Then every pin is a sized reservation, and the reserved
  bytes stay within \<open>pinBytesCap\<close>.
\<close>

definition pins_budgeted :: "Cache \<Rightarrow> bool" where
  "pins_budgeted c \<longleftrightarrow> (\<forall>k \<in> set (pinned c). bget (pinnedSized c) k) \<and> pinnedBytes c \<le> pinBytesCap c"

definition capacity_ok :: "int \<Rightarrow> bool" where
  "capacity_ok cap \<longleftrightarrow> 0 < cap \<and> cap * 7 \<le> max_int64"

lemma LowWater_exact: "capacity_ok cap \<Longrightarrow> LowWater cap = max 1 (cap * 3 div 4)"
  by (simp add: LowWater_def capacity_ok_def is_int64_between Let_def)

lemma HighWater_exact: "capacity_ok cap \<Longrightarrow> HighWater cap = max 1 (cap * 7 div 8)"
  by (simp add: HighWater_def capacity_ok_def is_int64_between Let_def)

lemma pinBytesCap_nonneg: "capacity_ok (capacity c) \<Longrightarrow> 0 \<le> pinBytesCap c"
  by (simp add: pinBytesCap_def LowWater_exact) (simp add: capacity_ok_def, linarith)

lemma pin_budgeted: "pins_budgeted c \<Longrightarrow> pins_budgeted (snd (pin k n True c))"
  by (auto simp: pins_budgeted_def pin_def Let_def bget_def pinBytesCap_def)

lemma Put_budgeted:
  assumes "cache_wf c" and "pins_budgeted c"
  shows "pins_budgeted (Put k v c)"
proof -
  have p: "pinnedBytes (put_placed k v c) =
      pinnedBytes c + (if k \<in> set (pinned c) then int (length v) - zget (pinnedSizes c) k else 0)"
    by (simp add: put_placed_def Let_def charge_pin_def push_front_def)
  show ?thesis
    using assms(2) p by (auto simp: Put_cases pins_budgeted_def put_refused_def pinBytesCap_def)
qed

lemma unpinLocked_budgeted:
  "cache_wf c \<Longrightarrow> pins_budgeted c \<Longrightarrow> pins_budgeted (unpinLocked k c)"
  by (simp add: unpinLocked_def pins_budgeted_def bget_def pinBytesCap_def cache_wf_def pins_ok_def)
    (metis add_increasing2 diff_le_eq)

text \<open>Resident pinned bytes never exceed the reserved bytes.\<close>

lemma pinned_resident_le:
  assumes "cache_wf c"
  shows "sum_list (map elem_len (filter (\<lambda>x. elem_key x \<in> set (pinned c)) (lru c))) \<le> pinnedBytes c"
proof -
  let ?xs = "filter (\<lambda>x. elem_key x \<in> set (pinned c)) (lru c)"
  let ?f = "zget (pinnedSizes c)"
  have d: "distinct (map elem_key ?xs)" and nn: "\<And>k. 0 \<le> ?f k" and dp: "distinct (pinned c)"
    and pb: "pinnedBytes c = sum_list (map ?f (pinned c))"
    and le: "\<And>x. x \<in> set ?xs \<Longrightarrow> elem_len x \<le> ?f (elem_key x)"
    using assms
    by (auto simp: cache_wf_def index_ok_def pins_ok_def recountPinnedLocked_def distinct_map_filter)
  have "sum_list (map elem_len ?xs) \<le> sum_list (map (?f \<circ> elem_key) ?xs)"
    using le by (intro sum_list_mono) auto
  also have "\<dots> = sum ?f (set (map elem_key ?xs))"
    using sum.distinct_set_conv_list [OF d, of ?f] by (simp add: map_map [symmetric] del: map_map)
  also have "\<dots> \<le> sum ?f (set (pinned c))"
    by (rule sum_mono2) (use nn in auto)
  also have "\<dots> = pinnedBytes c"
    using sum.distinct_set_conv_list [OF dp, of ?f] pb by simp
  finally show ?thesis .
qed

lemma victim_exists:
  assumes "cache_wf c" and "pins_budgeted c" and "used c > pinBytesCap c"
  shows "victimLocked None c \<noteq> None"
proof
  assume "victimLocked None c = None"
  then have "\<forall>x \<in> set (lru c). elem_key x \<in> set (pinned c)"
    by (auto simp: victimLocked_def find_None_iff evictable_def)
  then have "filter (\<lambda>x. elem_key x \<in> set (pinned c)) (lru c) = lru c" by (simp add: filter_id_conv)
  with pinned_resident_le [OF assms(1)] used_is_sum [OF assms(1)] assms(2,3) show False
    by (simp add: pins_budgeted_def)
qed

lemma pinBytesCap_le_low: "capacity_ok (capacity c) \<Longrightarrow> pinBytesCap c \<le> LowWater (capacity c)"
  by (simp add: pinBytesCap_def LowWater_exact capacity_ok_def)

lemma evict_loop_stops:
  assumes "cache_wf c"
  shows "used (evict_loop keep c) \<le> LowWater (capacity c) \<or>
         (\<forall>x \<in> set (lru (evict_loop keep c)). \<not> evictable keep (pinned c) x)"
proof -
  have ok: "index_ok c" using assms by (simp add: cache_wf_def)
  have "cache_wf (evict_loop keep c)"
    by (rule evict_loop_invariant [where P = cache_wf]) (simp_all add: assms cache_wf_evict_one)
  then have u: "used (evict_loop keep c) =
      sum_list (map elem_len (evict_pass (LowWater (capacity c)) (evictable keep (pinned c)) (used c) (rev (lru c))))"
    by (simp add: used_is_sum evict_loop_lru [OF ok] rev_map [symmetric])
  have "used c = sum_list (map elem_len (rev (lru c)))"
    using used_is_sum [OF assms] by (simp add: rev_map [symmetric])
  from evict_pass_stops [OF this] show ?thesis
    unfolding u by (simp add: evict_loop_lru [OF ok])
qed

lemma evictLocked_low:
  assumes "cache_wf c" and "pins_budgeted c" and "capacity_ok (capacity c)"
    and "used c > HighWater (capacity c)"
  shows "used (evictLocked None c) \<le> LowWater (capacity c)"
proof -
  let ?d = "evict_loop None c"
  have wf: "cache_wf ?d"
    by (rule evict_loop_invariant [where P = cache_wf]) (simp_all add: assms(1) cache_wf_evict_one)
  have "pins_budgeted ?d" using assms(2) by (simp add: pins_budgeted_def pinBytesCap_def)
  with victim_exists [OF wf] have "victimLocked None ?d \<noteq> None \<or> used ?d \<le> pinBytesCap ?d" by force
  then have "(\<exists>x \<in> set (lru ?d). evictable None (pinned c) x) \<or> used ?d \<le> LowWater (capacity c)"
    using pinBytesCap_le_low [of ?d] assms(3) victimLocked_mem [of None ?d] by fastforce
  with evict_loop_stops [OF assms(1), of None] assms(4) show ?thesis
    by (auto simp: evictLocked_def)
qed

lemma put_placed_resident:
  assumes "cache_wf c"
  shows "(nextElem c, \<lparr>ekey = k, evalue = v\<rparr>) \<in> set (lru (put_placed k v c))"
proof -
  have ok: "index_ok c" using assms by (simp add: cache_wf_def)
  have "index_ok (charge_pin k v (push_front k v (remove_key k c)))"
    using insert_wf [OF cache_wf_remove_key [OF assms] items_remove_key [OF ok]] by (simp add: cache_wf_def)
  then show ?thesis
    unfolding put_placed_def Let_def by (rule evictLocked_keeps) (simp_all add: evictable_def)
qed

lemma put_placed_used:
  assumes wf: "cache_wf c" and cap: "capacity_ok (capacity c)"
    and fits: "int (length v) + pinnedBytes c - zget (pinnedSizes c) k \<le> capacity c"
  shows "used (put_placed k v c) \<le> capacity c"
proof -
  let ?c1 = "remove_key k c" and ?d = "charge_pin k v (push_front k v (remove_key k c))"
  let ?p = "put_placed k v c" and ?keep = "Some (nextElem c)"
  have ok: "index_ok c" using wf by (simp add: cache_wf_def)
  have wd: "cache_wf ?d" by (rule insert_wf [OF cache_wf_remove_key [OF wf] items_remove_key [OF ok]])
  have wp: "cache_wf ?p" by (rule put_placed_wf [OF wf])
  have low: "LowWater (capacity c) \<le> capacity c" and high: "HighWater (capacity c) \<le> capacity c"
    using cap by (simp_all add: LowWater_exact HighWater_exact) (simp_all add: capacity_ok_def, linarith+)
  show ?thesis
  proof (cases "used ?d \<le> HighWater (capacity c) \<or> used ?p \<le> LowWater (capacity c)")
    case True
    then show ?thesis using low high by (auto simp: put_placed_def Let_def evictLocked_def)
  next
    case False
    have stuck: "\<forall>x \<in> set (lru ?p). \<not> evictable ?keep (pinned c) x"
      using False evict_loop_stops [OF wd, of ?keep]
      by (auto simp: put_placed_def Let_def evictLocked_def)
    have d: "distinct (map fst (lru ?p))" "distinct (map elem_key (lru ?p))"
      using wp by (simp_all add: cache_wf_def index_ok_def)
    have new: "(nextElem c, \<lparr>ekey = k, evalue = v\<rparr>) \<in> set (lru ?p)" by (rule put_placed_resident [OF wf])
    have one: "fst x = nextElem c \<longleftrightarrow> elem_key x = k" if "x \<in> set (lru ?p)" for x
      using index_ok_elem [OF _ that] index_ok_elem [OF _ new] wp by (cases x) (auto simp: cache_wf_def)
    have pin: "elem_key x \<in> set (pinned c) \<or> elem_key x = k" if "x \<in> set (lru ?p)" for x
      using stuck one [OF that] that by (auto simp: evictable_def)
    let ?rest = "filter (\<lambda>x. fst x \<noteq> nextElem c) (lru ?p)"
    have "used ?p = int (length v) + sum_list (map elem_len ?rest)"
      using sum_list_drop_key [OF d(1) new, of elem_len] used_is_sum [OF wp] by simp
    moreover have "sum_list (map elem_len ?rest) \<le> pinnedBytes c - zget (pinnedSizes c) k"
    proof (cases "k \<in> set (pinned c)")
      case True
      then have "filter (\<lambda>x. elem_key x \<in> set (pinned ?p)) (lru ?p) = lru ?p"
        using pin by (auto simp: filter_id_conv)
      with pinned_resident_le [OF wp] sum_list_drop_key [OF d(1) new, of elem_len] True show ?thesis
        by (simp add: put_placed_def Let_def charge_pin_def push_front_def)
    next
      case unp: False
      have "?rest = filter (\<lambda>x. elem_key x \<in> set (pinned ?p)) (lru ?p)"
        using pin one unp by (intro filter_cong) auto
      moreover have "zget (pinnedSizes c) k = 0"
        using wf unp by (auto simp: cache_wf_def pins_ok_def zget_def domIff split: option.split)
      ultimately show ?thesis
        using pinned_resident_le [OF wp] unp by (simp add: put_placed_def Let_def charge_pin_def push_front_def)
    qed
    ultimately show ?thesis using fits by simp
  qed
qed

section \<open>The cache as a store of contents\<close>

definition content :: "Cache \<Rightarrow> Key \<rightharpoonup> bytes" where
  "content c k = (case items c k of None \<Rightarrow> None | Some a \<Rightarrow> map_option evalue (map_of (lru c) a))"

text \<open>
  What a client of the cache relies on: a lookup returns the content and changes none, a removal
  forgets exactly one key, and an insertion either changes no content or leaves a part of the old
  contents with the new value.
\<close>

locale content_store =
  fixes wf :: "'c \<Rightarrow> bool"
    and contents :: "'c \<Rightarrow> 'k \<rightharpoonup> 'v"
    and get :: "'k \<Rightarrow> 'c \<Rightarrow> 'v option \<times> 'c"
    and put :: "'k \<Rightarrow> 'v \<Rightarrow> 'c \<Rightarrow> 'c"
    and del :: "'k \<Rightarrow> 'c \<Rightarrow> 'c"
  assumes get_wf: "wf c \<Longrightarrow> wf (snd (get k c))"
    and put_wf: "wf c \<Longrightarrow> wf (put k v c)"
    and del_wf: "wf c \<Longrightarrow> wf (del k c)"
    and get_value: "wf c \<Longrightarrow> fst (get k c) = contents c k"
    and get_contents: "wf c \<Longrightarrow> contents (snd (get k c)) = contents c"
    and put_contents: "wf c \<Longrightarrow>
      contents (put k v c) = contents c \<or> contents (put k v c) \<subseteq>\<^sub>m (contents c)(k \<mapsto> v)"
    and del_contents: "wf c \<Longrightarrow> contents (del k c) = (contents c)(k := None)"
begin

definition all_resident :: "('k \<Rightarrow> 'v \<Rightarrow> bool) \<Rightarrow> 'c \<Rightarrow> bool" where
  "all_resident P c \<longleftrightarrow> (\<forall>k v. contents c k = Some v \<longrightarrow> P k v)"

lemma all_resident_get: "wf c \<Longrightarrow> all_resident P c \<Longrightarrow> all_resident P (snd (get k c))"
  by (simp add: all_resident_def get_contents)

lemma all_resident_del: "wf c \<Longrightarrow> all_resident P c \<Longrightarrow> all_resident P (del k c)"
  by (simp add: all_resident_def del_contents)

lemma all_resident_put:
  assumes "wf c" and "all_resident P c" and "P k v"
  shows "all_resident P (put k v c)"
  unfolding all_resident_def
proof (intro allI impI)
  fix j w assume j: "contents (put k v c) j = Some w"
  show "P j w"
  proof (cases "contents (put k v c) = contents c")
    case True
    then show ?thesis using assms(2) j by (simp add: all_resident_def)
  next
    case False
    then have "contents (put k v c) \<subseteq>\<^sub>m (contents c)(k \<mapsto> v)" using put_contents [OF assms(1)] by blast
    with j have "((contents c)(k \<mapsto> v)) j = Some w" by (auto simp: map_le_def dom_def)
    then show ?thesis using assms(2,3) by (auto simp: all_resident_def split: if_splits)
  qed
qed

lemma get_after_del: "wf c \<Longrightarrow> fst (get k (del k c)) = None"
  by (simp add: get_value del_wf del_contents)

lemma put_other:
  assumes "wf c" and "j \<noteq> k" and "contents (put k v c) j = Some w"
  shows "contents c j = Some w"
  using put_contents [OF assms(1), of k v] assms(2,3) by (auto simp: map_le_def dom_def)

end

lemma content_Some:
  "index_ok c \<Longrightarrow> content c k = Some v \<longleftrightarrow> (\<exists>a e. (a, e) \<in> set (lru c) \<and> ekey e = k \<and> evalue e = v)"
  using index_ok_lookup [of c k] index_ok_elem [of c]
  by (auto simp: content_def split: option.splits) force+

lemma content_None: "index_ok c \<Longrightarrow> content c k = None \<longleftrightarrow> items c k = None"
  using index_ok_lookup [of c k] by (auto simp: content_def split: option.splits)

lemma content_map_le:
  assumes "index_ok c" and "index_ok d" and "set (lru d) \<subseteq> set (lru c)"
  shows "content d \<subseteq>\<^sub>m content c"
proof -
  have "content c k = Some v" if "content d k = Some v" for k v
    using that assms content_Some by (metis subsetD)
  then show ?thesis by (rule map_leI)
qed

lemma content_put_placed:
  assumes "cache_wf c"
  shows "content (put_placed k v c) \<subseteq>\<^sub>m (content c)(k \<mapsto> v)"
proof -
  have sub: "set (lru (put_placed k v c)) \<subseteq>
      insert (nextElem c, \<lparr>ekey = k, evalue = v\<rparr>) {x \<in> set (lru c). elem_key x \<noteq> k}"
    using subseq_set [OF put_placed_lru [OF assms]] by auto
  have ok: "index_ok c" "index_ok (put_placed k v c)"
    using assms put_placed_wf [OF assms] by (simp_all add: cache_wf_def)
  have "((content c)(k \<mapsto> v)) j = Some w" if "content (put_placed k v c) j = Some w" for j w
  proof -
    from that obtain a e where e: "(a, e) \<in> set (lru (put_placed k v c))" "ekey e = j" "evalue e = w"
      using content_Some [OF ok(2)] by blast
    then have "j = k \<and> w = v \<or> j \<noteq> k \<and> (a, e) \<in> set (lru c)"
      using subsetD [OF sub e(1)] by auto
    then show ?thesis using e content_Some [OF ok(1), of j w] by auto
  qed
  then show ?thesis by (rule map_leI)
qed

lemma content_remove_key:
  assumes "index_ok c" shows "content (remove_key k c) = (content c)(k := None)"
proof
  fix j
  have ok: "index_ok (remove_key k c)"
    using assms by (simp add: remove_key_def index_ok_remove_elem split: option.split)
  have "content (remove_key k c) j = Some w \<longleftrightarrow> ((content c)(k := None)) j = Some w" for w
    using content_Some [OF ok] content_Some [OF assms]
    by (auto simp: lru_remove_key [OF assms] elem_key_def)
  then show "content (remove_key k c) j = ((content c)(k := None)) j"
    by (metis option.exhaust)
qed

lemma content_counter [simp]:
  "content (c\<lparr>putRejections := n\<rparr>) = content c" "content (c\<lparr>misses := n\<rparr>) = content c"
  by (simp_all add: content_def fun_eq_iff split: option.split)

interpretation pc: content_store cache_wf content Get Put Remove
proof unfold_locales
  fix c :: Cache and k :: Key and v :: bytes
  assume wf: "cache_wf c"
  then have ok: "index_ok c" by (simp add: cache_wf_def)
  show "cache_wf (snd (Get k c))" "cache_wf (Put k v c)" "cache_wf (Remove k c)"
    using wf by (simp_all add: Remove_def wf_intros)
  show "fst (Get k c) = content c k"
    using index_ok_lookup [OF ok, of k] by (auto simp: Get_def content_def split: option.split)
  have "set (lru (snd (Get k c))) = set (lru c)"
    using index_ok_lookup [OF ok, of k] index_ok_elem [OF ok]
    by (auto simp: Get_def split: option.split)
  then show "content (snd (Get k c)) = content c"
    using ok Get_wf [OF wf, of k] content_map_le by (metis cache_wf_def map_le_antisym order_refl)
  show "content (Remove k c) = (content c)(k := None)"
    by (simp add: Remove_def content_remove_key [OF ok])
  have "content (remove_key k ((put_placed k v c)\<lparr>putRejections := m\<rparr>)) =
      (content (put_placed k v c))(k := None)" for m
    using put_placed_wf [OF wf, of k v]
    by (subst content_remove_key) (simp_all add: cache_wf_def index_ok_def)
  moreover have "(content (put_placed k v c))(k := None) \<subseteq>\<^sub>m (content c)(k \<mapsto> v)"
    using content_put_placed [OF wf, of k v] by (auto simp: map_le_def)
  ultimately show "content (Put k v c) = content c \<or> content (Put k v c) \<subseteq>\<^sub>m (content c)(k \<mapsto> v)"
    using content_put_placed [OF wf] by (simp add: Put_cases)
qed

section \<open>Runs of the cache\<close>

datatype cache_op =
    OpGet Key | OpPut Key bytes | OpRemove Key | OpPin Key | OpPinSize Key int
  | OpUnpin Key | OpUnpinTorrent string | OpInvalidateTorrent string

fun cache_step :: "cache_op \<Rightarrow> Cache \<Rightarrow> Cache" where
  "cache_step (OpGet k) c = snd (Get k c)"
| "cache_step (OpPut k v) c = Put k v c"
| "cache_step (OpRemove k) c = Remove k c"
| "cache_step (OpPin k) c = snd (Pin k c)"
| "cache_step (OpPinSize k n) c = snd (PinSize k n c)"
| "cache_step (OpUnpin k) c = Unpin k c"
| "cache_step (OpUnpinTorrent t) c = UnpinTorrent t c"
| "cache_step (OpInvalidateTorrent t) c = InvalidateTorrent t c"

inductive cache_reachable :: "int \<Rightarrow> Cache \<Rightarrow> bool" for cap where
  new: "cache_reachable cap (New cap)"
| step: "cache_reachable cap c \<Longrightarrow> cache_reachable cap (cache_step opn c)"

lemma New_wf [wf_intros]: "cache_wf (New cap)"
  by (simp add: New_def cache_wf_def index_ok_def acct_ok_def pins_ok_def recountPinnedLocked_def
      torrent_bytes_def)

lemma cache_step_wf [wf_intros]: "cache_wf c \<Longrightarrow> cache_wf (cache_step opn c)"
  by (cases opn) (auto simp: Pin_def PinSize_def Remove_def intro: wf_intros)

lemma used_shrink:
  assumes "cache_wf c" and "cache_wf d" and "subseq (lru d) (lru c)" and "capacity d = capacity c"
    and "within_capacity c"
  shows "within_capacity d"
  using assms subseq_sum_le [OF assms(3)] by (auto simp: within_capacity_def used_is_sum)

lemma Get_used: "used (snd (Get k c)) = used c" and Get_capacity: "capacity (snd (Get k c)) = capacity c"
  by (simp_all add: Get_def split: option.split)

lemma cache_step_within:
  assumes "cache_wf c" and "within_capacity c"
  shows "within_capacity (cache_step opn c)"
proof (cases opn)
  case (OpRemove k)
  have "subseq (lru (remove_key k c)) (lru c)"
    using assms(1) by (simp add: lru_remove_key cache_wf_def)
  with OpRemove assms show ?thesis by (auto simp: Remove_def intro: used_shrink wf_intros)
next
  case (OpUnpin k)
  have "subseq (lru (Unpin k c)) (lru c)"
    using evictLocked_subseq [of "unpinLocked k c" None] unpinLocked_wf [OF assms(1), of k]
    by (simp add: Unpin_def Let_def cache_wf_def)
  moreover have "capacity (Unpin k c) = capacity c" by (simp add: Unpin_def Let_def)
  ultimately show ?thesis using OpUnpin assms by (auto intro: used_shrink wf_intros)
next
  case (OpInvalidateTorrent t)
  have "subseq (lru (InvalidateTorrent t c)) (lru c)" by (simp add: InvalidateTorrent_lru [OF assms(1)])
  moreover have "capacity (InvalidateTorrent t c) = capacity c"
    by (simp add: InvalidateTorrent_def drop_torrent_pins_def Let_def)
  ultimately show ?thesis using OpInvalidateTorrent assms by (auto intro: used_shrink wf_intros)
next
  case (OpPut k v)
  then show ?thesis using assms by (simp add: Put_within_capacity)
qed (use assms in \<open>auto simp: Pin_def PinSize_def within_capacity_def Get_used Get_capacity\<close>)

lemma cache_step_capacity: "capacity (cache_step opn c) = capacity c"
  by (cases opn)
    (auto simp: Pin_def PinSize_def Get_capacity Remove_def Unpin_def Let_def InvalidateTorrent_def
      drop_torrent_pins_def)

lemma cache_reachable_inv:
  "cache_reachable cap c \<Longrightarrow> cache_wf c \<and> within_capacity c \<and> capacity c = cap"
proof (induction rule: cache_reachable.induct)
  case new
  then show ?case by (simp add: New_wf within_capacity_def) (simp add: New_def)
next
  case (step c opn)
  then show ?case by (simp add: cache_step_wf cache_step_within cache_step_capacity)
qed

text \<open>A property of every resident piece, kept by all operations that do not insert a bad piece.\<close>

definition cache_holds :: "(Key \<Rightarrow> bytes \<Rightarrow> bool) \<Rightarrow> Cache \<Rightarrow> bool" where
  "cache_holds P c \<longleftrightarrow> cache_wf c \<and> pc.all_resident P c"

lemma content_PinSize: "content (snd (PinSize k n c)) = content c"
  by (simp add: content_def fun_eq_iff PinSize_def split: option.split)

lemma content_Unpin: "cache_wf c \<Longrightarrow> content (Unpin k c) \<subseteq>\<^sub>m content c"
proof -
  assume wf: "cache_wf c"
  have u: "cache_wf (unpinLocked k c)" by (rule unpinLocked_wf [OF wf])
  have "set (lru (evictLocked None (unpinLocked k c))) \<subseteq> set (lru c)"
    using subseq_set [OF evictLocked_subseq, of "unpinLocked k c"] u by (simp add: cache_wf_def)
  then have "set (lru (Unpin k c)) \<subseteq> set (lru c)" by (simp add: Unpin_def Let_def)
  with wf Unpin_wf [OF wf, of k] show ?thesis by (intro content_map_le) (simp_all add: cache_wf_def)
qed

lemma cache_holds_ops [wf_intros]:
  assumes "cache_holds P c"
  shows "cache_holds P (snd (Get k c))" and "cache_holds P (Remove k c)" and "P k v \<Longrightarrow> cache_holds P (Put k v c)"
    and "cache_holds P (snd (PinSize k n c))" and "cache_holds P (Unpin k c)"
proof -
  have wf: "cache_wf c" using assms by (simp add: cache_holds_def)
  show "cache_holds P (snd (Get k c))" "cache_holds P (Remove k c)" "P k v \<Longrightarrow> cache_holds P (Put k v c)"
    using assms by (simp_all add: cache_holds_def pc.get_wf pc.del_wf pc.put_wf pc.all_resident_get pc.all_resident_del
        pc.all_resident_put)
  show "cache_holds P (snd (PinSize k n c))"
    using assms content_PinSize [of k n c] by (simp add: cache_holds_def pc.all_resident_def PinSize_def pin_wf)
  show "cache_holds P (Unpin k c)"
    using assms content_Unpin [OF wf, of k] Unpin_wf [OF wf]
    by (auto simp: cache_holds_def pc.all_resident_def map_le_def dom_def)
qed

lemma Put_retained:
  assumes "cache_wf c" and "capacity_ok (capacity c)" and "\<not> put_refused k v c"
    and "int (length v) + pinnedBytes c - zget (pinnedSizes c) k \<le> capacity c"
  shows "fst (Get k (Put k v c)) = Some v"
proof -
  have "Put k v c = put_placed k v c"
    using assms(3) put_placed_used [OF assms(1,2,4)] by (simp add: Put_cases)
  then show ?thesis
    using Get_hit [OF put_placed_wf [OF assms(1)] put_placed_resident [OF assms(1)], of k v] by simp
qed

section \<open>Properties\<close>

text \<open>
  C4: whatever sequence of operations a client runs, the resident bytes stay
  within the hard capacity, the index and the list of entries agree, and the byte counters equal
  the bytes of the resident entries.
\<close>
theorem cache_hard_capacity:
  assumes "cache_reachable cap c" and "0 \<le> cap"
  shows "used c \<le> cap \<and> used c = sum_list (map elem_len (lru c)) \<and> items c = index_of (lru c) \<and>
    distinct (map elem_key (lru c)) \<and> (\<forall>t. SizeOf c t = torrent_bytes t (lru c))"
  using cache_reachable_inv [OF assms(1)] assms(2)
  by (auto simp: cache_wf_def index_ok_def acct_ok_def within_capacity_def SizeOf_def)

theorem cache_hard_capacity_witness:
  "used (Put (Key ''t'' 0) [1, 2, 3] (New 10)) \<le> 10"
proof -
  have "cache_reachable 10 (cache_step (OpPut (Key ''t'' 0) [1, 2, 3]) (New 10))"
    by (intro cache_reachable.intros)
  from cache_hard_capacity [OF this] show ?thesis by simp
qed

text \<open>
  C29: the eviction loop, which searches a victim from the back of the list
  again for every removal, leaves exactly the entries that one pass from the least recently used
  end leaves: it drops unpinned entries while the byte count is above the low-water mark.
\<close>
theorem cache_evict_is_pass:
  assumes "cache_wf c"
  shows "lru (evictLocked keep c) =
    (if used c \<le> HighWater (capacity c) then lru c
     else rev (evict_pass (LowWater (capacity c)) (evictable keep (pinned c)) (used c) (rev (lru c))))"
  using assms by (simp add: evictLocked_def cache_wf_def evict_loop_lru)

theorem cache_evict_is_pass_witness:
  "lru (evictLocked None (New 8)) = []"
  using cache_evict_is_pass [OF New_wf, of None 8] by (simp add: New_def HighWater_def)

text \<open>
  cache_evict_reaches_low: when every pin is a sized reservation within the budget, an eviction
  pass always finds victims and ends at or below the low-water mark.
\<close>
theorem cache_evict_reaches_low:
  assumes "cache_wf c" and "pins_budgeted c" and "capacity_ok (capacity c)"
    and "used c > HighWater (capacity c)"
  shows "used (evictLocked None c) \<le> LowWater (capacity c)"
  using assms by (rule evictLocked_low)

text \<open>
  cache_put_retained: an insertion that passes the guards and fits beside the other reservations
  is resident afterwards: the next lookup returns exactly the inserted bytes.
\<close>
theorem cache_put_retained:
  assumes "cache_wf c" and "capacity_ok (capacity c)" and "\<not> put_refused k v c"
    and "int (length v) + pinnedBytes c - zget (pinnedSizes c) k \<le> capacity c"
  shows "fst (Get k (Put k v c)) = Some v"
  using assms by (rule Put_retained)

text \<open>
  C28: inserting another piece or releasing another pin never evicts a pinned
  resident piece.
\<close>
theorem cache_pinned_survives:
  assumes "cache_wf c" and "k \<in> set (pinned c)" and "content c k = Some v" and "j \<noteq> k"
  shows "content (Put j w c) k = Some v \<and> content (Unpin j c) k = Some v"
proof
  have ok: "index_ok c" using assms(1) by (simp add: cache_wf_def)
  then obtain a e where e: "(a, e) \<in> set (lru c)" "ekey e = k" "evalue e = v"
    using content_Some assms(3) by blast
  have wd: "cache_wf (charge_pin j w (push_front j w (remove_key j c)))"
    by (rule insert_wf [OF cache_wf_remove_key [OF assms(1)] items_remove_key [OF ok]])
  have "(a, e) \<in> set (lru (put_placed j w c))"
    unfolding put_placed_def Let_def
    by (rule evictLocked_keeps) (use wd e assms(2,4) ok in \<open>auto simp: cache_wf_def lru_remove_key evictable_def\<close>)
  then have p: "content (put_placed j w c) k = Some v"
    using content_Some put_placed_wf [OF assms(1)] e by (metis cache_wf_def)
  have r: "content (remove_key j ((put_placed j w c)\<lparr>putRejections := m\<rparr>)) k = Some v" for m
    using p assms(4) put_placed_wf [OF assms(1), of j w]
    by (subst content_remove_key) (simp_all add: cache_wf_def index_ok_def)
  show "content (Put j w c) k = Some v" using assms(3) p r by (simp add: Put_cases)
  have wu: "cache_wf (unpinLocked j c)" by (rule unpinLocked_wf [OF assms(1)])
  have "(a, e) \<in> set (lru (evictLocked None (unpinLocked j c)))"
    by (rule evictLocked_keeps) (use wu e assms(2,4) in \<open>auto simp: cache_wf_def evictable_def\<close>)
  then have "(a, e) \<in> set (lru (Unpin j c))" using e by (simp add: Unpin_def Let_def)
  then show "content (Unpin j c) k = Some v"
    using content_Some Unpin_wf [OF assms(1)] e by (metis cache_wf_def)
qed

theorem cache_evict_reaches_low_witness:
  "used (evictLocked None (snd (pin (Key ''t'' 0) 1 True (Put (Key ''t'' 0) [7, 7] (New 2))))) \<le> 1"
proof -
  let ?c = "snd (pin (Key ''t'' 0) 1 True (Put (Key ''t'' 0) [7, 7] (New 2)))"
  have wf: "cache_wf ?c" by (intro wf_intros)
  have "capacity ?c = 2" by code_simp
  moreover have "used ?c = 2" by code_simp
  moreover have "pins_budgeted ?c" by code_simp
  ultimately show ?thesis
    using cache_evict_reaches_low [OF wf] by (simp add: capacity_ok_def HighWater_def LowWater_def Let_def wrap64_def)
qed

theorem cache_put_retained_witness:
  "fst (Get (Key ''t'' 0) (Put (Key ''t'' 0) [1, 2] (New 10))) = Some [1, 2]"
  by (rule cache_put_retained [OF New_wf]) (simp_all add: New_def capacity_ok_def put_refused_def bget_def)

theorem cache_pinned_survives_witness:
  "content (Put (Key ''t'' 1) [3, 4, 5] (snd (Pin (Key ''t'' 0) (Put (Key ''t'' 0) [1, 2] (New 16)))))
     (Key ''t'' 0) = Some [1, 2]"
proof -
  let ?c = "snd (Pin (Key ''t'' 0) (Put (Key ''t'' 0) [1, 2] (New 16)))"
  have wf: "cache_wf ?c" unfolding Pin_def by (intro wf_intros New_wf)
  have "Key ''t'' 0 \<in> set (pinned ?c)" by code_simp
  moreover have "content ?c (Key ''t'' 0) = Some [1, 2]" by code_simp
  ultimately show ?thesis
    using cache_pinned_survives [OF wf, of "Key ''t'' 0" "[1, 2]" "Key ''t'' 1" "[3, 4, 5]"] by simp
qed

lemma content_resident: "index_ok c \<Longrightarrow> items c k = Some a \<Longrightarrow> \<exists>v. content c k = Some v \<and> sizeOfLocked c k = int (length v)"
  using index_ok_lookup [of c k a] by (auto simp: content_def sizeOfLocked_def)

definition full_pieces :: "Cache \<Rightarrow> string \<Rightarrow> int \<Rightarrow> bool" where
  "full_pieces c t step \<longleftrightarrow> (\<forall>i v. content c (Key t i) = Some v \<longrightarrow> int (length v) = step)"

definition resident_run :: "Cache \<Rightarrow> string \<Rightarrow> int \<Rightarrow> int \<Rightarrow> int \<Rightarrow> bool" where
  "resident_run c t step start n \<longleftrightarrow> (\<forall>x. start \<le> x \<and> x < start + n \<longrightarrow> Has c (Key t (x div step)))"

lemma same_piece: "0 < step \<Longrightarrow> cursor \<le> x \<Longrightarrow> x < (cursor div step + 1) * step \<Longrightarrow> x div step = cursor div (step::int)"
  using div_less_int [of step x "cursor div step + 1"] zdiv_mono1 [of cursor x step] by simp

lemma contiguous_loop_spec:
  assumes "index_ok c" "full_pieces c t step" "0 < step" "0 \<le> cursor" "tot \<le> limit"
  shows "\<exists>n. contiguous_loop c t step limit cursor tot = tot + n \<and> 0 \<le> n \<and> tot + n \<le> limit \<and>
    resident_run c t step cursor n \<and> (tot + n < limit \<longrightarrow> \<not> Has c (Key t ((cursor + n) div step)))"
  using assms
proof (induction "nat (limit - tot)" arbitrary: cursor tot rule: less_induct)
  case (less tot cursor)
  note 1 = less.prems(1) less.prems
  let ?i = "cursor div step" and ?e = "(cursor div step + 1) * step"
  let ?chunk = "if tot + (?e - cursor) > limit then limit - tot else ?e - cursor"
  have idx: "cursor sdiv step = ?i" using 1 by simp
  have ext: "0 < ?e - cursor" "?e - cursor \<le> step"
    using 1(4,5) pos_mod_bound [of step cursor] pos_mod_sign [of step cursor]
    by (simp_all add: algebra_simps minus_mod_eq_mult_div [symmetric])
  then have "0 \<le> ?e" using 1(5) by linarith
  show ?case
  proof (cases "tot < limit \<and> Has c (Key t ?i)")
    case False
    then have "contiguous_loop c t step limit cursor tot = tot"
      by (subst contiguous_loop.simps) (auto simp: idx Let_def Has_def)
    with False 1 show ?thesis by (intro exI [of _ 0]) (auto simp: resident_run_def)
  next
    case True
    then have len: "sizeOfLocked c (Key t ?i) = step"
      using content_resident [OF 1(2)] 1(3) by (fastforce simp: full_pieces_def Has_def)
    have eq: "contiguous_loop c t step limit cursor tot =
        contiguous_loop c t step limit ?e (tot + ?chunk)"
      using True ext by (subst contiguous_loop.simps) (auto simp: idx len Let_def min_def Has_def)
    have "\<exists>n. contiguous_loop c t step limit ?e (tot + ?chunk) = tot + ?chunk + n \<and> 0 \<le> n \<and>
        tot + ?chunk + n \<le> limit \<and> resident_run c t step ?e n \<and>
        (tot + ?chunk + n < limit \<longrightarrow> \<not> Has c (Key t ((?e + n) div step)))"
      by (rule less.hyps) (use True ext \<open>0 \<le> ?e\<close> 1 in auto)
    then obtain n where n: "contiguous_loop c t step limit cursor tot = tot + (?chunk + n)" "0 \<le> n"
        "tot + ?chunk + n \<le> limit" "resident_run c t step ?e n"
        "tot + ?chunk + n < limit \<longrightarrow> \<not> Has c (Key t ((?e + n) div step))"
      unfolding eq by (auto simp: add.assoc)
    have "resident_run c t step cursor (?chunk + n)"
      unfolding resident_run_def
    proof (intro allI impI)
      fix x assume x: "cursor \<le> x \<and> x < cursor + (?chunk + n)"
      show "Has c (Key t (x div step))"
      proof (cases "x < ?e")
        case True
        with x \<open>0 < step\<close> same_piece [of step cursor x] \<open>tot < limit \<and> Has c (Key t ?i)\<close> show ?thesis by simp
      next
        case False
        with x n(4) show ?thesis by (auto simp: resident_run_def split: if_splits)
      qed
    qed
    moreover have "cursor + (?chunk + n) = ?e + n" if "tot + (?chunk + n) < limit"
      using that n(2) by (simp split: if_splits)
    ultimately show ?thesis
      using n True ext by (intro exI [of _ "?chunk + n"]) (auto simp: add.assoc)
  qed
qed

text \<open>
  cache_contiguous_run: with every resident piece of the torrent complete, the reported run is
  exact: it is between 0 and the limit, all of its bytes lie in resident pieces, and when it is
  shorter than the limit the next byte lies in a piece that is not resident.
\<close>
theorem cache_contiguous_run:
  assumes "cache_wf c" and "full_pieces c t step" and "0 < step" and "0 \<le> start" and "0 \<le> limit"
  shows "0 \<le> ContiguousRun c t start step limit \<and> ContiguousRun c t start step limit \<le> limit \<and>
    resident_run c t step start (ContiguousRun c t start step limit) \<and>
    (ContiguousRun c t start step limit < limit \<longrightarrow>
       \<not> Has c (Key t ((start + ContiguousRun c t start step limit) div step)))"
proof (cases "limit = 0")
  case True
  then show ?thesis by (auto simp: ContiguousRun_def resident_run_def)
next
  case False
  have "index_ok c" using assms(1) by (simp add: cache_wf_def)
  from contiguous_loop_spec [OF this assms(2-4), of 0 limit] assms(5) False show ?thesis
    using assms(3) by (auto simp: ContiguousRun_def)
qed

theorem cache_contiguous_run_witness:
  "\<not> Has (Put (Key ''t'' 0) [1, 2] (New 9)) (Key ''t'' 1)"
proof -
  let ?c = "Put (Key ''t'' 0) [1, 2] (New 9)"
  have wf: "cache_wf ?c" by (intro wf_intros)
  then have ok: "index_ok ?c" by (simp add: cache_wf_def)
  have lru: "lru ?c = [(0, \<lparr>ekey = Key ''t'' 0, evalue = [1, 2]\<rparr>)]" by code_simp
  have "full_pieces ?c ''t'' 2" by (auto simp: full_pieces_def content_Some [OF ok] lru)
  moreover have "ContiguousRun ?c ''t'' 1 2 5 = 1" by code_simp
  ultimately show ?thesis using cache_contiguous_run [OF wf, of "''t''" 2 1 5] by simp
qed

text \<open>
  cache_contiguous_short_piece: a resident piece shorter than its nominal extent does not end the
  run: with a three-byte piece 0 and a full ten-byte piece 1 the run from byte 0 is 13 bytes long.
\<close>
theorem cache_contiguous_short_piece:
  "ContiguousRun (Put (Key ''t'' 1) (replicate 10 0) (Put (Key ''t'' 0) (replicate 3 0) (New 100)))
     ''t'' 0 10 50 = 13"
  by code_simp

text \<open>
  cache_invalidate_torrent: invalidating a torrent removes its pieces, its pins and its byte
  counter, and leaves every piece and pin of the other torrents as it was.
\<close>
theorem cache_invalidate_torrent:
  assumes "cache_wf c"
  shows "lru (InvalidateTorrent t c) = filter (\<lambda>x. Torrent (elem_key x) \<noteq> t) (lru c) \<and>
    set (pinned (InvalidateTorrent t c)) = {k \<in> set (pinned c). Torrent k \<noteq> t} \<and>
    SizeOf (InvalidateTorrent t c) t = 0 \<and>
    (t' \<noteq> t \<longrightarrow> SizeOf (InvalidateTorrent t c) t' = SizeOf c t')"
proof -
  have wf: "cache_wf (InvalidateTorrent t c)" by (rule InvalidateTorrent_wf [OF assms])
  have sz: "SizeOf d u = torrent_bytes u (lru d)" if "cache_wf d" for d u
    using that by (simp add: SizeOf_def cache_wf_def acct_ok_def)
  have l: "lru (InvalidateTorrent t c) = filter (\<lambda>x. Torrent (elem_key x) \<noteq> t) (lru c)"
    by (rule InvalidateTorrent_lru [OF assms])
  moreover have "set (pinned (InvalidateTorrent t c)) = {k \<in> set (pinned c). Torrent k \<noteq> t}"
    by (auto simp: InvalidateTorrent_def drop_torrent_pins_def Let_def)
  ultimately show ?thesis
    unfolding sz [OF wf] sz [OF assms] by (auto simp: l torrent_bytes_def conj_commute intro!: arg_cong [where f = sum_list] arg_cong [where f = "map elem_len"] filter_cong)
qed

theorem cache_invalidate_torrent_witness:
  "lru (InvalidateTorrent ''a'' (Put (Key ''b'' 0) [1] (Put (Key ''a'' 0) [2] (New 9)))) =
     filter (\<lambda>x. Torrent (elem_key x) \<noteq> ''a'') (lru (Put (Key ''b'' 0) [1] (Put (Key ''a'' 0) [2] (New 9))))"
proof -
  have "cache_wf (Put (Key ''b'' 0) [1] (Put (Key ''a'' 0) [2] (New 9)))" by (intro wf_intros)
  from cache_invalidate_torrent [OF this] show ?thesis by blast
qed

text \<open>
  cache_watermarks_ordered: for every capacity the configuration admits, the marks are ordered
  \<open>0 < low \<le> high \<le> capacity\<close>, and the pin budget leaves the low-water mark evictable.
\<close>
theorem cache_watermarks_ordered:
  assumes "capacity_ok cap"
  shows "0 < LowWater cap \<and> LowWater cap \<le> HighWater cap \<and> HighWater cap \<le> cap"
  using assms by (simp add: LowWater_exact HighWater_exact) (simp add: capacity_ok_def, linarith)

theorem cache_watermarks_ordered_witness:
  "LowWater 100 \<le> HighWater 100"
  using cache_watermarks_ordered [of 100] by (simp add: capacity_ok_def)

text \<open>
  cache_watermarks_wrap: the order fails for a positive capacity above the bound of the
  configuration, because the product wraps around.
\<close>
theorem cache_watermarks_wrap:
  "LowWater (5 * 2 ^ 59) > HighWater (5 * 2 ^ 59)"
  by (simp add: LowWater_def HighWater_def wrap64_def)

end
