(* ===== verification/ReadPlan.thy ===== *)
theory ReadPlan
  imports Prelude
begin

text \<open>
  The read planner (\<open>internal/cache/policy.go\<close>): \<open>Plan\<close> maps a request on a file to the parts of
  the torrent's pieces that serve it. Sums of request fields wrap around at 64 bits as in the
  source, which tests for the wrap-around.
\<close>

record ReadRequest =
  FileOffset :: int
  Length :: int
  FileStart :: int
  FileSize :: int
  PieceLength :: int
  TorrentLength :: int

record PieceSpan =
  Index :: int
  Offset :: int
  SpanLength :: int

datatype Priority = PriorityNone | PriorityNormal

record ReadPlan =
  Spans :: "PieceSpan list"
  Wanted :: "int list"
  Prio :: Priority
  Readahead :: int

definition emptyPlan :: ReadPlan where
  "emptyPlan = \<lparr>Spans = [], Wanted = [], Prio = PriorityNone, Readahead = 0\<rparr>"

definition piece_span :: "int \<Rightarrow> int \<Rightarrow> int \<Rightarrow> int \<Rightarrow> PieceSpan" where
  "piece_span pieceLength start end' index =
     (let pieceStart = wrap64 (index * pieceLength);
          spanStart = (if start < pieceStart then pieceStart else start);
          pieceEnd = wrap64 (pieceStart + pieceLength);
          spanEnd = (if end' > pieceEnd then pieceEnd else end')
      in \<lparr>Index = index, Offset = spanStart - pieceStart, SpanLength = wrap64 (spanEnd - spanStart)\<rparr>)"

definition plan_length :: "ReadRequest \<Rightarrow> int \<Rightarrow> int" where
  "plan_length req start =
     (let len = (if Length req > FileSize req - FileOffset req then FileSize req - FileOffset req else Length req)
      in if TorrentLength req > 0 \<and> len > TorrentLength req - start then TorrentLength req - start else len)"

definition Plan :: "ReadRequest \<Rightarrow> ReadPlan" where
  "Plan req =
     (if FileOffset req < 0 \<or> Length req \<le> 0 \<or> FileSize req \<le> FileOffset req \<or> PieceLength req \<le> 0
      then emptyPlan
      else
        let start = wrap64 (FileStart req + FileOffset req)
        in if start < FileStart req \<or> start < 0 then emptyPlan
           else if TorrentLength req > 0 \<and> start \<ge> TorrentLength req then emptyPlan
           else
             let len = plan_length req start
             in if len \<le> 0 then emptyPlan
                else
                  let end' = wrap64 (start + len)
                  in if end' < start then emptyPlan
                     else
                       let first = start sdiv PieceLength req;
                           last' = (end' - 1) sdiv PieceLength req + 1
                       in \<lparr>Spans = map (piece_span (PieceLength req) start end') [first..last' - 1],
                           Wanted = [first..last' - 1],
                           Prio = PriorityNormal,
                           Readahead = PieceLength req\<rparr>)"

section \<open>What a plan promises\<close>

definition span_range :: "int \<Rightarrow> PieceSpan \<Rightarrow> int \<times> int" where
  "span_range pieceLength sp = (Index sp * pieceLength + Offset sp, SpanLength sp)"

text \<open>The bytes of the torrent that a request asks for, in unbounded arithmetic.\<close>

definition request_start :: "ReadRequest \<Rightarrow> int" where
  "request_start req = FileStart req + FileOffset req"

definition request_end :: "ReadRequest \<Rightarrow> int" where
  "request_end req =
     (let e = FileStart req + min (FileOffset req + Length req) (FileSize req)
      in if TorrentLength req > 0 then min e (TorrentLength req) else e)"

definition request_valid :: "ReadRequest \<Rightarrow> bool" where
  "request_valid req \<longleftrightarrow> 0 \<le> FileOffset req \<and> 0 \<le> FileStart req \<and> 0 < PieceLength req \<and>
     is_int64 (PieceLength req) \<and> is_int64 (FileStart req + FileSize req + PieceLength req) \<and>
     request_start req < request_end req"

lemma piece_span_exact:
  assumes "0 < p" and "0 \<le> s" and "s < e" and "e + p \<le> max_int64" and "s div p \<le> i" and "i \<le> (e - 1) div p"
  shows "piece_span p s e i = \<lparr>Index = i, Offset = max s (i * p) - i * p,
           SpanLength = min e ((i + 1) * p) - max s (i * p)\<rparr>"
    and "max s (i * p) < min e ((i + 1) * p)"
proof -
  have "0 \<le> s div p" using assms by (simp add: pos_imp_zdiv_nonneg_iff)
  then have i: "0 \<le> i * p" using assms by simp
  have "i * p \<le> (e - 1) div p * p" using assms by simp
  then have ie: "i * p \<le> e - 1" using div_mult_le_int [of p "e - 1"] assms by linarith
  have "(s div p + 1) * p \<le> (i + 1) * p" using assms by simp
  then have si: "s < (i + 1) * p" using div_mult_gt_int [of p s] assms by linarith
  have ex: "(i + 1) * p = i * p + p" by (simp add: algebra_simps)
  show m: "max s (i * p) < min e ((i + 1) * p)" using ie si assms by (simp add: ex)
  have f: "(if a < b then b else a) = max a b" "(if b < a then b else a) = min a b" for a b :: int
    by simp_all
  have w: "wrap64 (i * p) = i * p" "wrap64 (i * p + p) = i * p + p"
    using i ie assms by (simp_all add: is_int64_def)
  have "wrap64 (min e (i * p + p) - max s (i * p)) = min e (i * p + p) - max s (i * p)"
    using m i assms by (intro wrap64_id is_int64_between) (auto simp: ex)
  then show "piece_span p s e i = \<lparr>Index = i, Offset = max s (i * p) - i * p,
           SpanLength = min e ((i + 1) * p) - max s (i * p)\<rparr>"
    unfolding piece_span_def Let_def w ex f by simp
qed

lemma tiles_spans:
  assumes "0 < p" and "0 \<le> s" and "s < e" and "e + p \<le> max_int64" and "s div p \<le> i" and "i \<le> (e - 1) div p"
  shows "tiles (max s (i * p)) (map (span_range p \<circ> piece_span p s e) [i..(e - 1) div p]) e"
  using assms(5,6)
proof (induction "nat ((e - 1) div p - i)" arbitrary: i)
  case 0
  then have i: "i = (e - 1) div p" by simp
  have "e \<le> (i + 1) * p" using div_mult_gt_int [of p "e - 1"] assms(1) i by simp
  then show ?case
    using piece_span_exact [OF assms(1-4) 0(2,3)] i by (simp add: span_range_def)
next
  case (Suc n)
  then have lt: "i < (e - 1) div p" by simp
  then have "(i + 1) * p \<le> (e - 1) div p * p" using assms(1) by simp
  then have le: "(i + 1) * p \<le> e - 1" using div_mult_le_int [of p "e - 1"] assms(1) by linarith
  have "(s div p + 1) * p \<le> (i + 1) * p" using assms Suc by simp
  then have si: "s < (i + 1) * p" using div_mult_gt_int [of p s] assms by linarith
  have "tiles (max s ((i + 1) * p)) (map (span_range p \<circ> piece_span p s e) [i + 1..(e - 1) div p]) e"
    using Suc lt by (intro Suc) auto
  then show ?case
    using piece_span_exact [OF assms(1-4) Suc(3,4)] lt le si
    by (simp add: upto_rec1 [of i] span_range_def)
qed

lemma Plan_valid:
  assumes "request_valid req"
  shows "Plan req = \<lparr>
    Spans = map (piece_span (PieceLength req) (request_start req) (request_end req))
      [request_start req div PieceLength req..(request_end req - 1) div PieceLength req],
    Wanted = [request_start req div PieceLength req..(request_end req - 1) div PieceLength req],
    Prio = PriorityNormal, Readahead = PieceLength req\<rparr>"
proof -
  let ?s = "request_start req" and ?e = "request_end req"
  note v = assms [unfolded request_valid_def request_start_def request_end_def Let_def]
  have s: "wrap64 (FileStart req + FileOffset req) = ?s" "0 \<le> ?s" "FileStart req \<le> ?s"
    using v by (auto simp: request_start_def is_int64_def split: if_splits)
  have len: "plan_length req ?s = ?e - ?s"
    by (simp add: plan_length_def request_start_def request_end_def min_def Let_def)
  have g: "\<not> (FileOffset req < 0 \<or> Length req \<le> 0 \<or> FileSize req \<le> FileOffset req \<or> PieceLength req \<le> 0)"
    "\<not> (TorrentLength req > 0 \<and> ?s \<ge> TorrentLength req)"
    using v by (auto simp: request_start_def split: if_splits)
  have e: "?s < ?e" "is_int64 ?e"
    using v by (auto simp: request_start_def request_end_def Let_def is_int64_def split: if_splits)
  then show ?thesis
    unfolding Plan_def Let_def s(1) len using g s(2,3) by auto
qed

text \<open>The laws for a reader: what serves a request is a tiling of the requested bytes.\<close>

lemma Plan_tiles:
  assumes "request_valid req"
  shows "tiles (request_start req) (map (span_range (PieceLength req)) (Spans (Plan req))) (request_end req)"
proof -
  let ?s = "request_start req" and ?e = "request_end req" and ?p = "PieceLength req"
  have v: "0 < ?p" "0 \<le> ?s" "?s < ?e" "?e + ?p \<le> max_int64"
    using assms by (auto simp: request_valid_def request_start_def request_end_def Let_def is_int64_def split: if_splits)
  have "?s div ?p \<le> (?e - 1) div ?p" using v by (simp add: zdiv_mono1)
  from tiles_spans [OF v order_refl this] show ?thesis
    using div_mult_le_int [OF v(1), of ?s] by (simp add: Plan_valid [OF assms] max_def)
qed

lemma Plan_span_bounds:
  assumes "request_valid req" and "sp \<in> set (Spans (Plan req))"
  shows "0 \<le> Index sp \<and> 0 \<le> Offset sp \<and> 0 < SpanLength sp \<and> Offset sp + SpanLength sp \<le> PieceLength req"
proof -
  let ?s = "request_start req" and ?e = "request_end req" and ?p = "PieceLength req"
  have v: "0 < ?p" "0 \<le> ?s" "?s < ?e" "?e + ?p \<le> max_int64"
    using assms(1) by (auto simp: request_valid_def request_start_def request_end_def Let_def is_int64_def split: if_splits)
  from assms(2) obtain i where i: "?s div ?p \<le> i" "i \<le> (?e - 1) div ?p" "sp = piece_span ?p ?s ?e i"
    by (auto simp: Plan_valid [OF assms(1)])
  have "0 \<le> ?s div ?p" using v by (simp add: pos_imp_zdiv_nonneg_iff)
  then show ?thesis using piece_span_exact [OF v i(1,2)] i by (simp add: algebra_simps min_def)
qed

section \<open>Properties\<close>

text \<open>
  plan_tiles_request: for every request in range, the spans of the plan tile exactly the requested
  bytes in order, each span is a nonempty part of its own piece, and the wanted pieces are the
  pieces of the spans, without repetition.
\<close>
theorem plan_tiles_request:
  assumes "request_valid req"
  shows "tiles (request_start req) (map (span_range (PieceLength req)) (Spans (Plan req))) (request_end req) \<and>
    (\<forall>sp \<in> set (Spans (Plan req)). 0 \<le> Offset sp \<and> 0 < SpanLength sp \<and> Offset sp + SpanLength sp \<le> PieceLength req) \<and>
    Wanted (Plan req) = map Index (Spans (Plan req)) \<and> distinct (Wanted (Plan req))"
proof -
  have "map Index (map (piece_span p s e) xs) = xs" for p s e xs
    by (induction xs) (simp_all add: piece_span_def Let_def)
  then show ?thesis
    using Plan_tiles [OF assms] Plan_span_bounds [OF assms] by (simp add: Plan_valid [OF assms])
qed

abbreviation sample_request :: ReadRequest where
  "sample_request \<equiv> \<lparr>FileOffset = 3, Length = 20, FileStart = 5, FileSize = 15, PieceLength = 4, TorrentLength = 30\<rparr>"

theorem plan_tiles_request_witness:
  "tiles 8 (map (span_range 4) (Spans (Plan sample_request))) 20"
  using plan_tiles_request [of sample_request]
  by (simp add: request_valid_def request_start_def request_end_def is_int64_def)

text \<open>
  plan_empty_iff: in the range where no sum leaves 64 bits, the planner refuses (the empty plan)
  exactly the requests that ask for no byte of the file inside the torrent.
\<close>
theorem plan_empty_iff:
  assumes "0 \<le> FileStart req" and "0 < PieceLength req" and "0 \<le> FileOffset req" and "0 \<le> FileSize req"
    and "is_int64 (PieceLength req)" and "is_int64 (FileStart req + FileSize req + PieceLength req)"
    and "is_int64 (FileStart req + FileOffset req)"
  shows "Plan req = emptyPlan \<longleftrightarrow> request_end req \<le> request_start req"
proof (cases "request_start req < request_end req")
  case True
  then have "request_valid req" using assms by (simp add: request_valid_def)
  from Plan_valid [OF this] True show ?thesis by (simp add: emptyPlan_def)
next
  case False
  have "Plan req = emptyPlan"
    unfolding Plan_def
    using False assms by (auto simp: Let_def plan_length_def request_start_def request_end_def min_def split: if_splits)
  with False show ?thesis by simp
qed

theorem plan_empty_iff_witness:
  "Plan \<lparr>FileOffset = 15, Length = 20, FileStart = 5, FileSize = 15, PieceLength = 4, TorrentLength = 30\<rparr> = emptyPlan"
  by (subst plan_empty_iff) (simp_all add: request_start_def request_end_def is_int64_def)

text \<open>
  plan_start_overflow: when the start of the request leaves the 64-bit range the planner returns
  the empty plan: the wrapped start is never used.
\<close>
theorem plan_start_overflow:
  assumes "is_int64 (FileStart req)" and "is_int64 (FileOffset req)"
    and "max_int64 < FileStart req + FileOffset req"
  shows "Plan req = emptyPlan"
proof -
  have "wrap64 (FileStart req + FileOffset req) = FileStart req + FileOffset req - 2 ^ 64"
    using assms by (intro wrap64_over) (simp_all add: is_int64_def)
  with assms show ?thesis by (simp add: Plan_def Let_def is_int64_def)
qed

theorem plan_start_overflow_witness:
  "Plan \<lparr>FileOffset = 2 ^ 62, Length = 1, FileStart = 2 ^ 62, FileSize = 2 ^ 62 + 1, PieceLength = 4, TorrentLength = 0\<rparr>
     = emptyPlan"
  by (rule plan_start_overflow) (simp_all add: is_int64_def)

end
