(* ===== verification/ByteSpans.thy ===== *)
theory ByteSpans
  imports ReadPlan
begin

text \<open>
  The byte arithmetic of the prefetcher (\<open>internal/session/prefetch.go\<close>): clamping, the playback
  window and sets of read bytes kept as sorted, disjoint spans. \<open>sort.Slice\<close> with the source's
  comparison is the library's \<open>sort\<close> for the linear order instantiated here.
\<close>

datatype byteSpan = Span (sp_start: int) (sp_end: int)

instantiation byteSpan :: linorder
begin

definition less_byteSpan :: "byteSpan \<Rightarrow> byteSpan \<Rightarrow> bool" where
  "less_byteSpan x y \<longleftrightarrow> (if sp_start x = sp_start y then sp_end x < sp_end y else sp_start x < sp_start y)"

definition less_eq_byteSpan :: "byteSpan \<Rightarrow> byteSpan \<Rightarrow> bool" where
  "less_eq_byteSpan x y \<longleftrightarrow> x = y \<or> x < (y :: byteSpan)"

instance
proof
  fix x y z :: byteSpan
  show "(x < y) = (x \<le> y \<and> \<not> y \<le> x)"
    by (auto simp: less_eq_byteSpan_def less_byteSpan_def split: if_splits)
  show "x \<le> x" by (simp add: less_eq_byteSpan_def)
  show "x \<le> y \<Longrightarrow> y \<le> z \<Longrightarrow> x \<le> z"
    by (auto simp: less_eq_byteSpan_def less_byteSpan_def split: if_splits)
  show "x \<le> y \<Longrightarrow> y \<le> x \<Longrightarrow> x = y"
    by (auto simp: less_eq_byteSpan_def less_byteSpan_def split: if_splits)
  show "x \<le> y \<or> y \<le> x"
    by (cases x; cases y) (auto simp: less_eq_byteSpan_def less_byteSpan_def)
qed

end

section \<open>Clamping\<close>

definition clampCursor :: "int \<Rightarrow> int \<Rightarrow> int" where
  "clampCursor cursor sz = (if cursor < 0 then 0 else if cursor > sz then sz else cursor)"

definition min64 :: "int \<Rightarrow> int \<Rightarrow> int" where
  "min64 a b = (if a < b then a else b)"

definition absInt64 :: "int \<Rightarrow> int" where
  "absInt64 v = (if v < 0 then (if v = - (2 ^ 63) then 2 ^ 63 - 1 else - v) else v)"

definition clampReadSpan :: "int \<Rightarrow> int \<Rightarrow> int \<Rightarrow> int \<times> int" where
  "clampReadSpan off n sz =
     (if n \<le> 0 \<or> sz \<le> 0 then (0, 0)
      else
        let start = clampCursor off sz;
            e = wrap64 (off + n);
            end' = clampCursor (if e < off then sz else e) sz
        in if end' \<le> start then (0, 0) else (start, end'))"

abbreviation defaultPrefetchLow :: int where "defaultPrefetchLow \<equiv> 16 * 2 ^ 20"
abbreviation defaultPlaybackWindow :: int where "defaultPlaybackWindow \<equiv> 32 * 2 ^ 20"
abbreviation defaultPrefetchHigh :: int where "defaultPrefetchHigh \<equiv> defaultPlaybackWindow"
abbreviation defaultSeekClearThreshold :: int where "defaultSeekClearThreshold \<equiv> 64 * 2 ^ 20"
abbreviation defaultSeekCandidateLocality :: int where "defaultSeekCandidateLocality \<equiv> 8 * 2 ^ 20"
abbreviation defaultSeekConfirmationReads :: int where "defaultSeekConfirmationReads \<equiv> 2"
abbreviation defaultPrefetchPieces :: int where "defaultPrefetchPieces \<equiv> 4"

definition playbackWindowEnd :: "int \<Rightarrow> int \<Rightarrow> int" where
  "playbackWindowEnd start fileSize =
     (let s = (if start < 0 then 0 else start)
      in if s \<ge> fileSize then fileSize
         else let e = wrap64 (s + defaultPlaybackWindow)
              in if e < s \<or> e > fileSize then fileSize else e)"

definition floorOf :: "int \<Rightarrow> int" where
  "floorOf cursor = (let f = cursor - defaultSeekCandidateLocality in if f < 0 then 0 else f)"

definition foregroundRequestRange :: "ReadRequest \<Rightarrow> ReadPlan \<Rightarrow> int \<times> int" where
  "foregroundRequestRange req plan =
     (if Spans plan = [] then (0, 0)
      else
        let start = clampCursor (FileOffset req) (FileSize req);
            e = wrap64 (start + sum_list (map SpanLength (Spans plan)))
        in (start, if e < start \<or> e > FileSize req then FileSize req else e))"

fun unique_loop :: "int list \<Rightarrow> int list \<Rightarrow> int list \<Rightarrow> int list" where
  "unique_loop seen out [] = out"
| "unique_loop seen out (i # is) =
     (if i \<in> set seen then unique_loop seen out is else unique_loop (i # seen) (out @ [i]) is)"

definition uniquePieceIndexes :: "int list \<Rightarrow> int list" where
  "uniquePieceIndexes is = (if length is < 2 then is else unique_loop [] [] is)"

section \<open>Spans\<close>

definition byteSpanBytes :: "byteSpan list \<Rightarrow> int" where
  "byteSpanBytes spans = sum_list (map (\<lambda>s. if sp_end s > sp_start s then sp_end s - sp_start s else 0) spans)"

text \<open>The loop appends to \<open>merged\<close> or extends its last span; the accumulator holds it reversed.\<close>

fun merge_loop :: "byteSpan list \<Rightarrow> byteSpan list \<Rightarrow> byteSpan list" where
  "merge_loop merged [] = rev merged"
| "merge_loop merged (span # rest) =
     (if sp_end span \<le> sp_start span then merge_loop merged rest
      else
        case merged of
          [] \<Rightarrow> merge_loop [span] rest
        | l # ms \<Rightarrow>
            if sp_start span > sp_end l then merge_loop (span # merged) rest
            else if sp_end span > sp_end l then merge_loop (Span (sp_start l) (sp_end span) # ms) rest
            else merge_loop merged rest)"

definition mergeByteSpan :: "byteSpan list \<Rightarrow> byteSpan \<Rightarrow> byteSpan list \<times> int" where
  "mergeByteSpan spans added =
     (if sp_end added \<le> sp_start added then (spans, 0)
      else
        let merged = merge_loop [] (sort (spans @ [added]))
        in (merged, byteSpanBytes merged - byteSpanBytes spans))"

section \<open>Spans as sets of bytes\<close>

definition span_set :: "byteSpan list \<Rightarrow> int set" where
  "span_set xs = (\<Union>s \<in> set xs. {sp_start s..<sp_end s})"

definition spans_ok :: "byteSpan list \<Rightarrow> bool" where
  "spans_ok xs \<longleftrightarrow> sorted_wrt (\<lambda>x y. sp_end x < sp_start y) xs \<and> (\<forall>s \<in> set xs. sp_start s < sp_end s)"

lemma span_set_simps [simp]:
  "span_set [] = {}"
  "span_set (x # xs) = {sp_start x..<sp_end x} \<union> span_set xs"
  "span_set (xs @ ys) = span_set xs \<union> span_set ys"
  "span_set (rev xs) = span_set xs"
  "span_set (sort xs) = span_set xs"
  by (auto simp: span_set_def)

lemma span_set_upper: "spans_ok (x # xs) \<Longrightarrow> i \<in> span_set xs \<Longrightarrow> sp_end x < i"
  by (fastforce simp: spans_ok_def span_set_def)

lemma finite_span_set [simp]: "finite (span_set xs)"
  by (simp add: span_set_def)

lemma byteSpanBytes_card: "spans_ok xs \<Longrightarrow> byteSpanBytes xs = int (card (span_set xs))"
proof (induction xs)
  case (Cons x xs)
  then have "spans_ok xs" "sp_start x < sp_end x" by (simp_all add: spans_ok_def)
  moreover have "{sp_start x..<sp_end x} \<inter> span_set xs = {}"
    using span_set_upper [OF Cons.prems] by force
  ultimately show ?case using Cons.IH by (simp add: byteSpanBytes_def card_Un_disjoint)
qed (simp add: byteSpanBytes_def)

lemma spans_ok_snoc_extend:
  "spans_ok (rev (l # ms)) \<Longrightarrow> sp_end l \<le> e \<Longrightarrow> spans_ok (rev (Span (sp_start l) e # ms))"
  by (auto simp: spans_ok_def sorted_wrt_append)

lemma merge_loop_spec:
  assumes "spans_ok (rev merged)" and "sorted rest" and "\<forall>l ms. merged = l # ms \<longrightarrow> (\<forall>s \<in> set rest. sp_start l \<le> sp_start s)"
  shows "spans_ok (merge_loop merged rest) \<and> span_set (merge_loop merged rest) = span_set merged \<union> span_set rest"
  using assms
proof (induction merged rest rule: merge_loop.induct)
  case (1 merged)
  then show ?case by simp
next
  case (2 merged span rest)
  have starts: "\<forall>s \<in> set rest. sp_start span \<le> sp_start s"
    using "2.prems"(2) by (auto simp: less_eq_byteSpan_def less_byteSpan_def split: if_splits)
  show ?case
  proof (cases "sp_end span \<le> sp_start span")
    case True
    with 2 show ?thesis by auto
  next
    case ne: False
    show ?thesis
    proof (cases merged)
      case Nil
      with "2.IH"(2) [OF ne Nil] "2.prems"(2) ne starts show ?thesis by (auto simp: spans_ok_def)
    next
      case (Cons l ms)
      have l: "sp_start l \<le> sp_start span" using "2.prems"(3) Cons by simp
      have srt: "sorted rest" using "2.prems"(2) by simp
      consider (gap) "sp_start span > sp_end l" | (ext) "sp_start span \<le> sp_end l" "sp_end span > sp_end l"
        | (inside) "sp_start span \<le> sp_end l" "sp_end span \<le> sp_end l" by linarith
      then show ?thesis
      proof cases
        case gap
        have "spans_ok (rev (span # merged))"
          using "2.prems"(1) Cons gap ne
          by (fastforce simp: spans_ok_def sorted_wrt_append)
        with "2.IH"(3) [OF ne Cons gap] srt starts Cons gap ne show ?thesis by auto
      next
        case ext
        have "spans_ok (rev (Span (sp_start l) (sp_end span) # ms))"
          using spans_ok_snoc_extend [of l ms "sp_end span"] "2.prems"(1) Cons ext by simp
        moreover have "\<forall>s \<in> set rest. sp_start l \<le> sp_start s" using starts l by force
        moreover have "{sp_start l..<sp_end span} = {sp_start l..<sp_end l} \<union> {sp_start span..<sp_end span}"
          using ext l by auto
        ultimately show ?thesis using "2.IH"(4) [OF ne Cons] ext srt Cons ne by auto
      next
        case inside
        have "{sp_start span..<sp_end span} \<subseteq> {sp_start l..<sp_end l}" using inside l by auto
        with "2.IH"(5) [OF ne Cons] "2.prems" inside Cons ne show ?thesis by auto
      qed
    qed
  qed
qed

lemma mergeByteSpan_spec:
  assumes "spans_ok spans"
  shows "spans_ok (fst (mergeByteSpan spans a)) \<and>
    span_set (fst (mergeByteSpan spans a)) = span_set spans \<union> {sp_start a..<sp_end a} \<and>
    snd (mergeByteSpan spans a) = int (card ({sp_start a..<sp_end a} - span_set spans))"
proof (cases "sp_end a \<le> sp_start a")
  case True
  with assms show ?thesis by (simp add: mergeByteSpan_def)
next
  case False
  let ?m = "merge_loop [] (sort (spans @ [a]))"
  have m: "spans_ok ?m" "span_set ?m = span_set spans \<union> {sp_start a..<sp_end a}"
    using merge_loop_spec [of "[]" "sort (spans @ [a])"] by (auto simp: spans_ok_def simp del: sort_key_simps)
  have "card (span_set spans \<union> {sp_start a..<sp_end a}) =
      card (span_set spans) + card ({sp_start a..<sp_end a} - span_set spans)"
    by (subst card_Un_disjoint [symmetric]) auto
  with m False show ?thesis
    by (simp add: mergeByteSpan_def Let_def byteSpanBytes_card [OF m(1)] byteSpanBytes_card [OF assms])
qed

section \<open>Advancing a cursor over consumed spans\<close>

fun advance_loop :: "int \<Rightarrow> byteSpan list \<Rightarrow> byteSpan list \<Rightarrow> int \<times> byteSpan list" where
  "advance_loop cursor remaining [] = (cursor, remaining)"
| "advance_loop cursor remaining (span # rest) =
     (if sp_end span \<le> cursor then advance_loop cursor remaining rest
      else if sp_start span \<le> cursor then advance_loop (sp_end span) remaining rest
      else advance_loop cursor (remaining @ [span]) rest)"

lemma advance_loop_none:
  "\<forall>s \<in> set xs. cursor < sp_start s \<and> sp_start s < sp_end s \<Longrightarrow> advance_loop cursor remaining xs = (cursor, remaining @ xs)"
  by (induction xs arbitrary: remaining) auto

lemma advance_loop_spec:
  assumes "spans_ok xs"
  shows "\<exists>c'. advance_loop cursor remaining xs = (c', remaining @ filter (\<lambda>s. c' < sp_start s) xs) \<and>
    cursor \<le> c' \<and> {cursor..<c'} \<subseteq> span_set xs \<and> c' \<notin> span_set xs"
  using assms
proof (induction xs arbitrary: cursor)
  case Nil
  then show ?case by simp
next
  case (Cons x xs)
  have ok: "spans_ok xs" and x: "sp_start x < sp_end x" and later: "\<forall>s \<in> set xs. sp_end x < sp_start s \<and> sp_start s < sp_end s"
    using Cons.prems by (auto simp: spans_ok_def)
  show ?case
  proof (cases "sp_end x \<le> cursor")
    case True
    from Cons.IH [OF ok, of cursor] obtain c' where "advance_loop cursor remaining xs = (c', remaining @ filter (\<lambda>s. c' < sp_start s) xs)"
        "cursor \<le> c'" "{cursor..<c'} \<subseteq> span_set xs" "c' \<notin> span_set xs" by blast
    with True x show ?thesis by (intro exI [of _ c']) auto
  next
    case over: False
    have keep: "filter (\<lambda>s. c < sp_start s) xs = xs" if "c \<le> sp_end x" for c
      using later that by (auto simp: filter_id_conv)
    have out: "c \<notin> span_set xs" if "c \<le> sp_end x" for c
      using later that by (auto simp: span_set_def)
    show ?thesis
    proof (cases "sp_start x \<le> cursor")
      case True
      with over x later show ?thesis
        by (intro exI [of _ "sp_end x"]) (auto simp: advance_loop_none keep out)
    next
      case False
      then have "advance_loop cursor remaining (x # xs) = (cursor, remaining @ x # xs)"
        using later x over by (subst advance_loop_none) auto
      with False over show ?thesis by (intro exI [of _ cursor]) (auto simp: keep out)
    qed
  qed
qed

lemma clampReadSpan_spec:
  assumes "is_int64 off" and "0 \<le> n" and "is_int64 n" and "is_int64 sz"
  shows "let (s, e) = clampReadSpan off n sz in {s..<e} = {off..<off + n} \<inter> {0..<sz} \<and> s \<le> e"
proof -
  consider (fits) "off + n \<le> max_int64" | (wraps) "max_int64 < off + n" by linarith
  then show ?thesis
  proof cases
    case fits
    then have "wrap64 (off + n) = off + n" using assms by (intro wrap64_id) (simp add: is_int64_def)
    with assms show ?thesis by (auto simp: clampReadSpan_def clampCursor_def Let_def)
  next
    case wraps
    then have "wrap64 (off + n) = off + n - 2 ^ 64"
      using assms by (intro wrap64_over) (auto simp: is_int64_def)
    with assms wraps show ?thesis by (auto simp: clampReadSpan_def clampCursor_def Let_def is_int64_def)
  qed
qed

lemma unique_loop_spec:
  "distinct out \<Longrightarrow> set seen = set out \<Longrightarrow> distinct (unique_loop seen out is) \<and> set (unique_loop seen out is) = set out \<union> set is"
  by (induction "is" arbitrary: seen out) auto

lemma uniquePieceIndexes_spec [simp]: "distinct (uniquePieceIndexes is)" "set (uniquePieceIndexes is) = set is"
proof -
  show "set (uniquePieceIndexes is) = set is" using unique_loop_spec [of "[]" "[]" "is"] by (simp add: uniquePieceIndexes_def)
  show "distinct (uniquePieceIndexes is)"
    using unique_loop_spec [of "[]" "[]" "is"]
    by (cases "is" rule: list.exhaust; cases "tl is" rule: list.exhaust) (auto simp: uniquePieceIndexes_def)
qed

section \<open>Properties\<close>

text \<open>
  merge_spans_exact: merging a read into the spans read so far keeps them sorted and disjoint,
  represents exactly the union, and reports exactly the number of bytes that were not there yet.
\<close>
theorem merge_spans_exact:
  assumes "spans_ok spans"
  shows "spans_ok (fst (mergeByteSpan spans a)) \<and>
    span_set (fst (mergeByteSpan spans a)) = span_set spans \<union> {sp_start a..<sp_end a} \<and>
    snd (mergeByteSpan spans a) = int (card ({sp_start a..<sp_end a} - span_set spans))"
  using assms by (rule mergeByteSpan_spec)

theorem merge_spans_exact_witness:
  "snd (mergeByteSpan [Span 0 4, Span 6 8] (Span 2 7)) = int (card ({2..<7} - span_set [Span 0 4, Span 6 8]))"
  using merge_spans_exact [of "[Span 0 4, Span 6 8]" "Span 2 7"] by (simp add: spans_ok_def)

text \<open>
  read_span_clamped: a finished read of \<open>n\<close> bytes at \<open>off\<close> is recorded as exactly its part inside
  the file, also when \<open>off + n\<close> leaves the 64-bit range.
\<close>
theorem read_span_clamped:
  assumes "is_int64 off" and "0 \<le> n" and "is_int64 n" and "is_int64 sz"
  shows "let (s, e) = clampReadSpan off n sz in {s..<e} = {off..<off + n} \<inter> {0..<sz} \<and> s \<le> e"
  using assms by (rule clampReadSpan_spec)

theorem read_span_clamped_witness:
  "let (s, e) = clampReadSpan (2 ^ 63 - 2) 5 (2 ^ 63 - 1) in {s..<e} = {2 ^ 63 - 2..<2 ^ 63 + 3} \<inter> {0..<2 ^ 63 - 1} \<and> s \<le> e"
  using read_span_clamped [of "2 ^ 63 - 2" 5 "2 ^ 63 - 1"] by (simp add: is_int64_def)

end
