(* ===== verification/Prefetch.thy ===== *)
theory Prefetch
  imports Cache ByteSpans
begin

text \<open>
  The prefetch coordinator of one torrent (\<open>internal/session/prefetch.go\<close>): foreground reads hold
  tickets, the pieces of tickets and of the playback window are pinned in the cache by reference
  counts, and background downloads hold leases on a budget shared by all torrents.

  All methods run under the coordinator's mutex, so each is a function on the record \<open>coord\<close>. The
  shared cache and the shared budget are threaded through it; other users of them are steps of the
  environment. A file object is its address with the geometry the coordinator reads. A ticket
  object is the entry of \<open>foreground\<close> with its id (ids are never reused). The calls into the torrent
  library are recorded in \<open>calls\<close>, newest first. Context cancellations are returned as the ids of
  the cancelled tickets; the wake-up channel is left out, since any interleaving of \<open>reconcile\<close>
  with the other steps is allowed.
\<close>

section \<open>The shared budget\<close>

record prefetchBudget =
  blimit :: int
  bused :: int

definition newPrefetchBudget :: "int \<Rightarrow> prefetchBudget" where
  "newPrefetchBudget limit = \<lparr>blimit = (if limit < 1 then 1 else limit), bused = 0\<rparr>"

definition tryAcquire :: "prefetchBudget \<Rightarrow> bool \<times> prefetchBudget" where
  "tryAcquire b = (if bused b \<ge> blimit b then (False, b) else (True, b\<lparr>bused := bused b + 1\<rparr>))"

definition budget_release :: "prefetchBudget \<Rightarrow> prefetchBudget" where
  "budget_release b = (if bused b > 0 then b\<lparr>bused := bused b - 1\<rparr> else b)"

definition setLimit :: "int \<Rightarrow> prefetchBudget \<Rightarrow> int \<times> prefetchBudget" where
  "setLimit limit b = (blimit b, b\<lparr>blimit := (if limit < 1 then 1 else limit)\<rparr>)"

section \<open>State\<close>

datatype prefetchState = prefetchIdle | prefetchFilling | prefetchPaused | prefetchBudgetBlocked

datatype foregroundKind = foregroundCurrentWindow | foregroundOnly | foregroundCandidate

datatype tcall = UpdateCompletion int | SetPriorityNormal int | CancelPieces int

record fileRef =
  fid :: nat
  fOffset :: int
  fSize :: int
  fPieceLength :: int
  fTorrentSize :: int

record seekCandidate =
  cId :: nat
  cGeneration :: nat
  cFile :: fileRef
  cStart :: int
  cSpans :: "byteSpan list"
  cTickets :: "nat list"
  cUnique :: int
  cReadings :: int

record prefetchAnchor =
  aFile :: "nat option"
  aFileStart :: int
  aFileSize :: int
  aPieceLength :: int
  aTorrentSize :: int
  aCursor :: int
  aCommitted :: int

record foregroundTicket =
  tId :: nat
  tGeneration :: nat
  tFile :: fileRef
  tKind :: foregroundKind
  tCandidate :: nat
  tStart :: int
  tEnd :: int
  tWanted :: "int list"
  tPinned :: "int list"
  tActive :: "(int \<times> int) list"

record coord =
  torrentKey :: string
  pcache :: Cache
  pbudget :: prefetchBudget
  pclosed :: bool
  anchor :: prefetchAnchor
  hasAnchor :: bool
  anchorConfirmed :: bool
  cgen :: nat
  nextTicket :: nat
  anchorTicket :: nat
  consumed :: "byteSpan list"
  candidate :: "seekCandidate option"
  nextCandidate :: nat
  foreground :: "foregroundTicket list"
  foregroundPieces :: "(int \<times> int) list"
  refs :: "(int \<times> int) list"
  windowPins :: "int list"
  active :: "int list"
  pstate :: prefetchState
  bufferedBytes :: int
  effectiveLow :: int
  effectiveHigh :: int
  maxActive :: nat
  priorityAdds :: u64
  priorityCancels :: u64
  dedupe :: u64
  budgetBlocks :: u64
  cancelled :: u64
  staleSpanRejects :: u64
  calls :: "tcall list"

definition zeroAnchor :: prefetchAnchor where
  "zeroAnchor = \<lparr>aFile = None, aFileStart = 0, aFileSize = 0, aPieceLength = 0, aTorrentSize = 0,
     aCursor = 0, aCommitted = 0\<rparr>"

definition newPrefetchCoordinator :: "string \<Rightarrow> Cache \<Rightarrow> prefetchBudget \<Rightarrow> coord" where
  "newPrefetchCoordinator key c b =
     \<lparr>torrentKey = key, pcache = c, pbudget = b, pclosed = False, anchor = zeroAnchor, hasAnchor = False,
      anchorConfirmed = False, cgen = 0, nextTicket = 0, anchorTicket = 0, consumed = [], candidate = None,
      nextCandidate = 0, foreground = [], foregroundPieces = [], refs = [], windowPins = [], active = [],
      pstate = prefetchIdle, bufferedBytes = 0, effectiveLow = 0, effectiveHigh = 0, maxActive = 0,
      priorityAdds = 0, priorityCancels = 0, dedupe = 0, budgetBlocks = 0, cancelled = 0,
      staleSpanRejects = 0, calls = []\<rparr>"

section \<open>Pins\<close>

definition pkey_of :: "coord \<Rightarrow> int \<Rightarrow> Key" where
  "pkey_of c index = Key (torrentKey c) index"

definition pieceSizeLocked :: "coord \<Rightarrow> int \<Rightarrow> int" where
  "pieceSizeLocked c index =
     (if aPieceLength (anchor c) \<le> 0 then 0
      else
        let start = wrap64 (index * aPieceLength (anchor c));
            remaining = wrap64 (aTorrentSize (anchor c) - start)
        in if remaining < aPieceLength (anchor c) then remaining else aPieceLength (anchor c))"

definition retainLocked :: "int \<Rightarrow> coord \<Rightarrow> bool \<times> coord" where
  "retainLocked index c =
     (if aget (refs c) index = 0 then
        (case PinSize (pkey_of c index) (pieceSizeLocked c index) (pcache c) of
           (ok, pc') \<Rightarrow>
             if \<not> ok then (False, c\<lparr>pcache := pc'\<rparr>)
             else (True, c\<lparr>pcache := pc', refs := aput index (aget (refs c) index + 1) (refs c)\<rparr>))
      else (True, c\<lparr>refs := aput index (aget (refs c) index + 1) (refs c)\<rparr>))"

definition releaseLocked :: "int \<Rightarrow> coord \<Rightarrow> coord" where
  "releaseLocked index c =
     (if aget (refs c) index \<le> 0 then c
      else if aget (refs c) index - 1 = 0
      then c\<lparr>refs := adel index (refs c), pcache := Unpin (pkey_of c index) (pcache c)\<rparr>
      else c\<lparr>refs := aput index (aget (refs c) index - 1) (refs c)\<rparr>)"

definition unpin_window :: "int \<Rightarrow> coord \<Rightarrow> coord" where
  "unpin_window index c = releaseLocked index (c\<lparr>windowPins := removeAll index (windowPins c)\<rparr>)"

section \<open>Leases\<close>

definition cancelLeaseLocked :: "int \<Rightarrow> coord \<Rightarrow> coord" where
  "cancelLeaseLocked index c =
     (if index \<notin> set (active c) then c
      else c\<lparr>calls := CancelPieces index # calls c,
             priorityCancels := priorityCancels c + 1,
             cancelled := cancelled c + 1,
             active := removeAll index (active c),
             pbudget := budget_release (pbudget c)\<rparr>)"

definition cancelUnneededActiveLocked :: "int list \<Rightarrow> coord \<Rightarrow> coord" where
  "cancelUnneededActiveLocked wanted c =
     fold (\<lambda>index c. if index \<in> set wanted \<and> aget (foregroundPieces c) index = 0 then c
                     else cancelLeaseLocked index c) (active c) c"

definition complete_one :: "int \<Rightarrow> coord \<Rightarrow> coord" where
  "complete_one index c =
     (if \<not> Has (pcache c) (pkey_of c index) then c
      else c\<lparr>calls := CancelPieces index # UpdateCompletion index # calls c,
             priorityCancels := priorityCancels c + 1,
             active := removeAll index (active c),
             pbudget := budget_release (pbudget c)\<rparr>)"

definition completeActiveLocked :: "coord \<Rightarrow> coord" where
  "completeActiveLocked c = fold complete_one (active c) c"

section \<open>Tickets\<close>

definition set_ticket :: "foregroundTicket \<Rightarrow> coord \<Rightarrow> coord" where
  "set_ticket t c = c\<lparr>foreground := map (\<lambda>u. if tId u = tId t then t else u) (foreground c)\<rparr>"

definition ticket_of :: "coord \<Rightarrow> nat \<Rightarrow> foregroundTicket option" where
  "ticket_of c i = find (\<lambda>t. tId t = i) (foreground c)"

definition releaseForegroundPieceLocked :: "int \<Rightarrow> foregroundTicket \<times> coord \<Rightarrow> foregroundTicket \<times> coord" where
  "releaseForegroundPieceLocked index tc =
     (case tc of (t, c) \<Rightarrow>
        if aget (tActive t) index \<le> 0 then (t, c)
        else
          ((if aget (tActive t) index = 1 then t\<lparr>tActive := adel index (tActive t)\<rparr>
            else t\<lparr>tActive := aput index (aget (tActive t) index - 1) (tActive t)\<rparr>),
           (if aget (foregroundPieces c) index > 1
            then c\<lparr>foregroundPieces := aput index (aget (foregroundPieces c) index - 1) (foregroundPieces c)\<rparr>
            else c\<lparr>foregroundPieces := adel index (foregroundPieces c)\<rparr>)))"

definition startPiece :: "nat \<Rightarrow> int \<Rightarrow> coord \<Rightarrow> coord" where
  "startPiece i index c =
     (case ticket_of c i of
        None \<Rightarrow> c
      | Some t \<Rightarrow>
          let c1 = cancelLeaseLocked index c;
              t1 = t\<lparr>tActive := aput index (aget (tActive t) index + 1) (tActive t)\<rparr>
          in (set_ticket t1 c1)\<lparr>foregroundPieces := aput index (aget (foregroundPieces c1) index + 1) (foregroundPieces c1)\<rparr>)"

definition finishPiece :: "nat \<Rightarrow> int \<Rightarrow> coord \<Rightarrow> coord" where
  "finishPiece i index c =
     (case ticket_of c i of
        None \<Rightarrow> c
      | Some t \<Rightarrow> (case releaseForegroundPieceLocked index (t, c) of (t1, c1) \<Rightarrow> set_ticket t1 c1))"

definition recordStaleSpan :: "coord \<Rightarrow> coord" where
  "recordStaleSpan c = c\<lparr>staleSpanRejects := staleSpanRejects c + 1\<rparr>"

definition removeForegroundLocked :: "nat \<Rightarrow> coord \<Rightarrow> nat list \<times> coord" where
  "removeForegroundLocked i c =
     (case ticket_of c i of
        None \<Rightarrow> ([], c)
      | Some t \<Rightarrow>
          let c1 = c\<lparr>foreground := filter (\<lambda>u. tId u \<noteq> i) (foreground c)\<rparr>;
              (t2, c2) = fold (\<lambda>(index, count). releaseForegroundPieceLocked index ^^ nat count) (tActive t) (t, c1)
          in ([i], fold releaseLocked (tPinned t2) c2))"

definition foregroundLeaseWithin :: "foregroundTicket \<Rightarrow> int list \<Rightarrow> bool" where
  "foregroundLeaseWithin t desired \<longleftrightarrow> list_all (\<lambda>i. i \<in> set desired) (tWanted t)"

section \<open>Anchor and seek candidate\<close>

definition currentWindowRequestLocked :: "coord \<Rightarrow> fileRef \<Rightarrow> int \<Rightarrow> bool" where
  "currentWindowRequestLocked c f requestStart \<longleftrightarrow>
     hasAnchor c \<and> aFile (anchor c) = Some (fid f) \<and> aFileStart (anchor c) = fOffset f \<and>
     aFileSize (anchor c) = fSize f \<and>
     requestStart \<ge> floorOf (aCursor (anchor c)) \<and>
     requestStart < playbackWindowEnd (aCursor (anchor c)) (aFileSize (anchor c))"

definition candidateMatchesLocked :: "coord \<Rightarrow> fileRef \<Rightarrow> int \<Rightarrow> bool" where
  "candidateMatchesLocked c f requestStart \<longleftrightarrow>
     (case candidate c of
        None \<Rightarrow> False
      | Some cd \<Rightarrow> fid (cFile cd) = fid f \<and> cGeneration cd = cgen c \<and>
          absInt64 (requestStart - cStart cd) \<le> defaultSeekCandidateLocality)"

definition foregroundPieceForRequestLocked :: "coord \<Rightarrow> fileRef \<Rightarrow> int \<Rightarrow> bool" where
  "foregroundPieceForRequestLocked c f requestStart \<longleftrightarrow>
     (if aPieceLength (anchor c) \<le> 0 \<or> requestStart < 0 then False
      else
        let global = wrap64 (fOffset f + requestStart)
        in if global < fOffset f \<or> global < 0 then False
           else map_of (foregroundPieces c) (global sdiv aPieceLength (anchor c)) \<noteq> None)"

definition shouldAdvanceGenerationLocked :: "coord \<Rightarrow> fileRef \<Rightarrow> int \<Rightarrow> bool" where
  "shouldAdvanceGenerationLocked c f requestStart \<longleftrightarrow>
     (if \<not> hasAnchor c then True
      else if aFile (anchor c) \<noteq> Some (fid f) \<or> aFileStart (anchor c) \<noteq> fOffset f \<or> aFileSize (anchor c) \<noteq> fSize f
      then True
      else if foregroundPieceForRequestLocked c f requestStart then False
      else \<not> currentWindowRequestLocked c f requestStart)"

definition advanceAnchorLocked :: "coord \<Rightarrow> coord" where
  "advanceAnchorLocked c =
     (if \<not> hasAnchor c then c
      else
        let (cursor, remaining) = advance_loop (aCursor (anchor c)) [] (consumed c);
            cur = clampCursor cursor (aFileSize (anchor c));
            c1 = c\<lparr>consumed := remaining, anchor := (anchor c)\<lparr>aCursor := cur, aCommitted := cur\<rparr>\<rparr>
        in case candidate c1 of
             None \<Rightarrow> c1
           | Some cd \<Rightarrow> if absInt64 (cur - cStart cd) > defaultSeekClearThreshold then c1\<lparr>candidate := None\<rparr> else c1)"

definition recomputeCursorLocked :: "fileRef \<Rightarrow> coord \<Rightarrow> coord" where
  "recomputeCursorLocked f c =
     (if \<not> hasAnchor c \<or> aFile (anchor c) \<noteq> Some (fid f) then c else advanceAnchorLocked c)"

definition recordConsumedLocked :: "int \<Rightarrow> int \<Rightarrow> coord \<Rightarrow> coord" where
  "recordConsumedLocked off n c =
     (if \<not> hasAnchor c then c
      else
        let (start, end') = clampReadSpan off n (aFileSize (anchor c))
        in if end' \<le> start then c
           else
             let previous = aCursor (anchor c);
                 c1 = advanceAnchorLocked (c\<lparr>consumed := fst (mergeByteSpan (consumed c) (Span start end'))\<rparr>)
             in if aCursor (anchor c1) > previous then c1\<lparr>anchorConfirmed := True\<rparr> else c1)"

definition recordCandidateLocked :: "foregroundTicket \<Rightarrow> int \<Rightarrow> int \<Rightarrow> coord \<Rightarrow> bool \<times> coord" where
  "recordCandidateLocked t off n c =
     (case candidate c of
        None \<Rightarrow> (False, c)
      | Some cd \<Rightarrow>
          if tCandidate t \<noteq> cId cd \<or> tGeneration t \<noteq> cGeneration cd \<or> fid (tFile t) \<noteq> fid (cFile cd) then (False, c)
          else
            let (start, end') = clampReadSpan off n (fSize (cFile cd))
            in if end' \<le> start then (False, c)
               else if tId t \<in> set (cTickets cd) then (False, c)
               else
                 let (spans, added) = mergeByteSpan (cSpans cd) (Span start end');
                     cd1 = cd\<lparr>cSpans := spans\<rparr>
                 in if added \<le> 0 then (False, c\<lparr>candidate := Some cd1\<rparr>)
                    else
                      let cd2 = cd1\<lparr>cTickets := tId t # cTickets cd1, cUnique := cUnique cd1 + added,
                                    cReadings := cReadings cd1 + 1\<rparr>
                      in (cReadings cd2 \<ge> defaultSeekConfirmationReads, c\<lparr>candidate := Some cd2\<rparr>))"

definition drop_window :: "coord \<Rightarrow> coord" where
  "drop_window c = fold unpin_window (windowPins c) c"

definition drop_leases :: "coord \<Rightarrow> coord" where
  "drop_leases c = fold cancelLeaseLocked (active c) c"

definition confirmCandidateLocked :: "foregroundTicket \<Rightarrow> coord \<Rightarrow> foregroundTicket \<times> coord" where
  "confirmCandidateLocked t c =
     (case candidate c of
        None \<Rightarrow> (t, c)
      | Some cd \<Rightarrow>
          if tCandidate t \<noteq> cId cd \<or> fid (tFile t) \<noteq> fid (cFile cd) then (t, c)
          else
            let f = cFile cd;
                cur = clampCursor (cStart cd) (fSize f);
                c1 = c\<lparr>cgen := cgen c + 1,
                       anchor := \<lparr>aFile = Some (fid f), aFileStart = fOffset f, aFileSize = fSize f,
                                  aPieceLength = fPieceLength f, aTorrentSize = fTorrentSize f,
                                  aCursor = cur, aCommitted = cur\<rparr>,
                       hasAnchor := True, anchorConfirmed := True, consumed := cSpans cd, candidate := None\<rparr>;
                c2 = (advanceAnchorLocked c1)\<lparr>pstate := prefetchIdle, bufferedBytes := 0\<rparr>;
                c3 = drop_leases (drop_window c2);
                t1 = t\<lparr>tGeneration := cgen c3, tKind := foregroundCurrentWindow, tCandidate := 0\<rparr>
            in (t1, set_ticket t1 (c3\<lparr>anchorTicket := tId t\<rparr>)))"

definition forget_anchor :: "coord \<Rightarrow> coord" where
  "forget_anchor c = c\<lparr>hasAnchor := False, anchorConfirmed := False, consumed := [], candidate := None,
     pstate := prefetchIdle, bufferedBytes := 0\<rparr>"

definition dropUnconfirmedAnchorLocked :: "coord \<Rightarrow> coord" where
  "dropUnconfirmedAnchorLocked c =
     (if list_ex (\<lambda>t. tGeneration t = cgen c \<and> tKind t = foregroundCurrentWindow) (foreground c) then c
      else forget_anchor (drop_window (drop_leases c)))"

section \<open>The life of a foreground read\<close>

definition seek_step :: "fileRef \<Rightarrow> ReadRequest \<Rightarrow> int \<Rightarrow> coord \<Rightarrow> foregroundKind \<times> nat \<times> coord" where
  "seek_step f req requestStart c =
     (if \<not> hasAnchor c then
        let cur = clampCursor requestStart (FileSize req)
        in (foregroundCurrentWindow, 0,
            c\<lparr>cgen := cgen c + 1,
              anchor := \<lparr>aFile = Some (fid f), aFileStart = FileStart req, aFileSize = FileSize req,
                         aPieceLength = PieceLength req, aTorrentSize = TorrentLength req,
                         aCursor = cur, aCommitted = cur\<rparr>,
              hasAnchor := True, anchorConfirmed := False, consumed := [], candidate := None\<rparr>)
      else if currentWindowRequestLocked c f requestStart then (foregroundCurrentWindow, 0, c)
      else if candidate c \<noteq> None \<and> candidateMatchesLocked c f requestStart
      then (foregroundCandidate, (case candidate c of None \<Rightarrow> 0 | Some cd \<Rightarrow> cId cd), c)
      else
        let n = nextCandidate c + 1
        in (foregroundOnly, n,
            c\<lparr>nextCandidate := n,
              candidate := Some \<lparr>cId = n, cGeneration = cgen c, cFile = f,
                cStart = clampCursor requestStart (FileSize req), cSpans = [], cTickets = [],
                cUnique = 0, cReadings = 0\<rparr>\<rparr>))"

fun retain_all :: "int list \<Rightarrow> int list \<Rightarrow> coord \<Rightarrow> int list \<times> coord" where
  "retain_all [] pins c = (pins, c)"
| "retain_all (index # rest) pins c =
     (case retainLocked index c of
        (ok, c') \<Rightarrow> retain_all rest (if ok then pins @ [index] else pins) c')"

definition beginForeground :: "fileRef \<Rightarrow> ReadRequest \<Rightarrow> ReadPlan \<Rightarrow> coord \<Rightarrow> nat option \<times> coord" where
  "beginForeground f req plan c =
     (let (requestStart, requestEnd) = foregroundRequestRange req plan
      in if requestStart \<ge> requestEnd then (None, c)
         else
           let keys = uniquePieceIndexes (Wanted plan)
           in if pclosed c then (None, c)
              else
                let (kind, cand, c1) = seek_step f req requestStart c;
                    i = nextTicket c1 + 1;
                    (pins, c2) = retain_all keys [] (c1\<lparr>nextTicket := i\<rparr>);
                    t = \<lparr>tId = i, tGeneration = cgen c2, tFile = f, tKind = kind, tCandidate = cand,
                         tStart = requestStart, tEnd = requestEnd, tWanted = keys, tPinned = pins, tActive = []\<rparr>;
                    c3 = c2\<lparr>foreground := t # foreground c2, anchorTicket := i\<rparr>
                in (Some i, fold cancelLeaseLocked keys c3))"

text \<open>\<open>clean\<close> is the source's \<open>err == nil || err == io.EOF\<close>.\<close>

definition finish_effect :: "foregroundTicket \<Rightarrow> int \<Rightarrow> int \<Rightarrow> bool \<Rightarrow> coord \<Rightarrow> foregroundTicket \<times> coord" where
  "finish_effect t off n clean c =
     (if n > 0 \<and> clean \<and> tGeneration t = cgen c \<and> hasAnchor c then
        (case tKind t of
           foregroundCurrentWindow \<Rightarrow>
             (t, if aFile (anchor c) = Some (fid (tFile t)) then recordConsumedLocked off n c else c)
         | _ \<Rightarrow>
             (case recordCandidateLocked t off n c of
                (confirmed, c1) \<Rightarrow> if confirmed then confirmCandidateLocked t c1 else (t, c1)))
      else (t, c))"

definition finishForeground :: "nat \<Rightarrow> int \<Rightarrow> int \<Rightarrow> bool \<Rightarrow> coord \<Rightarrow> nat list \<times> coord" where
  "finishForeground i off n clean c =
     (case ticket_of c i of
        None \<Rightarrow> ([], c)
      | Some t \<Rightarrow>
          let (t1, c1) = finish_effect t off n clean c;
              (cancels, c2) = removeForegroundLocked i c1
          in (cancels,
              if tKind t1 = foregroundCurrentWindow \<and> \<not> anchorConfirmed c2
              then dropUnconfirmedAnchorLocked c2 else c2))"

section \<open>Background prefetch\<close>

definition desiredPiecesLocked :: "coord \<Rightarrow> int list" where
  "desiredPiecesLocked c =
     (let a = anchor c
      in if \<not> hasAnchor c \<or> aPieceLength a \<le> 0 \<or> aFileSize a \<le> aCursor a then []
         else
           let start = aFileStart a + aCursor a;
               e1 = start + defaultPrefetchHigh;
               e2 = (if e1 > aFileStart a + aFileSize a then aFileStart a + aFileSize a else e1);
               end' = (if aTorrentSize a > 0 \<and> e2 > aTorrentSize a then aTorrentSize a else e2)
           in if end' \<le> start then []
              else [start sdiv aPieceLength a..(end' - 1) sdiv aPieceLength a])"

definition updateBufferedLocked :: "coord \<Rightarrow> coord" where
  "updateBufferedLocked c =
     (let a = anchor c
      in if \<not> hasAnchor c \<or> aPieceLength a \<le> 0 then c\<lparr>bufferedBytes := 0\<rparr>
         else
           let e1 = aFileStart a + aFileSize a;
               end' = (if aTorrentSize a > 0 \<and> e1 > aTorrentSize a then aTorrentSize a else e1);
               remaining = end' - (aFileStart a + aCursor a);
               limit = (if remaining < defaultPrefetchHigh then remaining else defaultPrefetchHigh)
           in if limit \<le> 0 then c\<lparr>bufferedBytes := 0\<rparr>
              else c\<lparr>bufferedBytes :=
                     ContiguousRun (pcache c) (torrentKey c) (aFileStart a + aCursor a) (aPieceLength a) limit\<rparr>)"

definition pieceOverlapLocked :: "coord \<Rightarrow> int \<Rightarrow> int" where
  "pieceOverlapLocked c index =
     (let a = anchor c
      in if \<not> hasAnchor c \<or> aPieceLength a \<le> 0 then 0
         else
           let start = max (index * aPieceLength a) (aFileStart a + aCursor a);
               e1 = min (index * aPieceLength a + aPieceLength a) (aFileStart a + aFileSize a);
               end' = (if aTorrentSize a > 0 \<and> e1 > aTorrentSize a then aTorrentSize a else e1)
           in if end' \<le> start then 0 else end' - start)"

definition computeWatermarksLocked :: "int \<Rightarrow> bool \<Rightarrow> coord \<Rightarrow> coord" where
  "computeWatermarksLocked reservedPrefix reservationBlocked c =
     (let h1 = min64 defaultPrefetchHigh (aFileSize (anchor c) - aCursor (anchor c));
          h2 = (if h1 < 0 then 0 else h1);
          high = (if reservationBlocked \<and> reservedPrefix < h2 then reservedPrefix else h2)
      in c\<lparr>effectiveHigh := high, effectiveLow := min64 defaultPrefetchLow (high sdiv 2)\<rparr>)"

fun reserve_loop :: "int list \<Rightarrow> int \<Rightarrow> coord \<Rightarrow> int \<times> bool \<times> coord" where
  "reserve_loop [] pfx c = (pfx, False, c)"
| "reserve_loop (index # rest) pfx c =
     (if index \<in> set (windowPins c) then reserve_loop rest (pfx + pieceOverlapLocked c index) c
      else
        case retainLocked index c of
          (ok, c1) \<Rightarrow>
            if \<not> ok then (pfx, True, c1)
            else reserve_loop rest (pfx + pieceOverlapLocked c index) (c1\<lparr>windowPins := index # windowPins c1\<rparr>))"

fun fill_loop :: "int list \<Rightarrow> coord \<Rightarrow> coord" where
  "fill_loop [] c = c"
| "fill_loop (index # rest) c =
     (if bufferedBytes c \<ge> effectiveHigh c \<or> int (length (active c)) \<ge> blimit (pbudget c) then c
      else if Has (pcache c) (pkey_of c index) \<or> aget (foregroundPieces c) index > 0 then fill_loop rest c
      else if index \<in> set (active c) then fill_loop rest (c\<lparr>dedupe := dedupe c + 1\<rparr>)
      else
        case tryAcquire (pbudget c) of
          (ok, b) \<Rightarrow>
            if \<not> ok then c\<lparr>budgetBlocks := budgetBlocks c + 1, pstate := prefetchBudgetBlocked\<rparr>
            else fill_loop rest
              (c\<lparr>pbudget := b, calls := SetPriorityNormal index # UpdateCompletion index # calls c,
                 active := index # active c, priorityAdds := priorityAdds c + 1,
                 maxActive := max (maxActive c) (Suc (length (active c)))\<rparr>))"

definition reconcile :: "coord \<Rightarrow> coord" where
  "reconcile c =
     (if pclosed c \<or> \<not> hasAnchor c then c
      else
        let c1 = updateBufferedLocked c;
            desired = desiredPiecesLocked c1;
            c2 = fold unpin_window (filter (\<lambda>i. i \<notin> set desired) (windowPins c1)) c1;
            c3 = cancelUnneededActiveLocked desired c2;
            (pfx, blocked, c4) = reserve_loop desired 0 c3;
            c5 = (if blocked then c4\<lparr>budgetBlocks := budgetBlocks c4 + 1\<rparr> else c4);
            c6 = computeWatermarksLocked pfx blocked c5;
            work = list_ex (\<lambda>i. \<not> Has (pcache c6) (pkey_of c6 i)) desired
        in if effectiveHigh c6 = 0 \<or> bufferedBytes c6 \<ge> effectiveHigh c6 \<or> \<not> work
           then completeActiveLocked (c6\<lparr>pstate := prefetchPaused\<rparr>)
           else
             let c7 = (if bufferedBytes c6 < effectiveLow c6 \<or> pstate c6 = prefetchIdle \<or>
                          pstate c6 = prefetchPaused \<or> pstate c6 = prefetchBudgetBlocked
                       then c6\<lparr>pstate := prefetchFilling\<rparr> else c6)
             in if pstate c7 \<noteq> prefetchFilling \<or> blocked
                then (if blocked then c7\<lparr>pstate := prefetchBudgetBlocked\<rparr> else c7)
                else completeActiveLocked (fill_loop desired c7))"

section \<open>Ending\<close>

fun remove_tickets :: "nat list \<Rightarrow> coord \<Rightarrow> nat list \<times> coord" where
  "remove_tickets [] c = ([], c)"
| "remove_tickets (i # is) c =
     (case removeForegroundLocked i c of
        (xs, c1) \<Rightarrow> (case remove_tickets is c1 of (ys, c2) \<Rightarrow> (xs @ ys, c2)))"

definition releaseFile :: "fileRef \<Rightarrow> coord \<Rightarrow> nat list \<times> coord" where
  "releaseFile f c =
     (if pclosed c then ([], c)
      else
        let (cancels, c1) =
              remove_tickets (map tId (filter (\<lambda>t. fid (tFile t) = fid f) (foreground c))) c;
            c2 = (case candidate c1 of
                    None \<Rightarrow> c1
                  | Some cd \<Rightarrow> if fid (cFile cd) = fid f then c1\<lparr>candidate := None\<rparr> else c1)
        in (cancels,
            if hasAnchor c2 \<and> aFile (anchor c2) = Some (fid f)
            then forget_anchor (drop_window (drop_leases (c2\<lparr>cgen := cgen c2 + 1\<rparr>)))
            else c2))"

definition close_lease :: "int \<Rightarrow> coord \<Rightarrow> coord" where
  "close_lease index c =
     c\<lparr>calls := CancelPieces index # calls c, priorityCancels := priorityCancels c + 1,
       pbudget := budget_release (pbudget c)\<rparr>"

definition cleanup :: "coord \<Rightarrow> nat list \<times> coord" where
  "cleanup c =
     (if pclosed c then ([], c)
      else
        let (cancels, c1) = remove_tickets (map tId (foreground c)) (c\<lparr>pclosed := True\<rparr>);
            c2 = (fold close_lease (active c1) c1)\<lparr>active := []\<rparr>;
            c3 = c2\<lparr>pcache := fold (\<lambda>(index, _). Unpin (pkey_of c2 index)) (refs c2) (pcache c2)\<rparr>
        in (cancels,
            c3\<lparr>refs := [], windowPins := [], foreground := [], foregroundPieces := [], consumed := [],
               candidate := None, hasAnchor := False, anchorConfirmed := False\<rparr>))"

definition windowBoundsLocked :: "coord \<Rightarrow> int \<times> int" where
  "windowBoundsLocked c =
     (let a = anchor c
      in if \<not> hasAnchor c then (0, 0)
         else
           let start = clampCursor (aCursor a) (aFileSize a);
               end' = playbackWindowEnd start (aFileSize a)
           in if aPieceLength a \<le> 0 then (start, end')
              else
                let globalStart = aFileStart a + start;
                    alignedStart = globalStart - globalStart smod aPieceLength a;
                    globalEnd = aFileStart a + end';
                    remainder = globalEnd smod aPieceLength a;
                    globalEnd' = (if remainder \<noteq> 0 then globalEnd + (aPieceLength a - remainder) else globalEnd)
                in (clampCursor (alignedStart - aFileStart a) (aFileSize a),
                    clampCursor (globalEnd' - aFileStart a) (aFileSize a)))"

section \<open>Invariant: pins are reference counted\<close>

lemma pinned_PinSize: "set (pinned (snd (PinSize k n c))) = (if fst (PinSize k n c) then insert k (set (pinned c)) else set (pinned c))"
  by (auto simp: PinSize_def pin_def Let_def)

lemma pinned_Unpin: "set (pinned (Unpin k c)) = set (pinned c) - {k}"
  by (simp add: Unpin_def Let_def unpinLocked_def)

definition ref_state :: "coord \<Rightarrow> (int \<Rightarrow> int) \<Rightarrow> bool" where
  "ref_state c f \<longleftrightarrow> counts_ok (refs c) \<and>
     (\<forall>i. aget (refs c) i = f i) \<and> (\<forall>i. pkey_of c i \<in> set (pinned (pcache c)) \<longleftrightarrow> 0 < f i)"

definition uses :: "coord \<Rightarrow> int \<Rightarrow> int" where
  "uses c i = int (length (filter (\<lambda>ps. i \<in> set ps) (map tPinned (foreground c)))) +
     (if i \<in> set (windowPins c) then 1 else 0)"

definition tickets_ok :: "coord \<Rightarrow> bool" where
  "tickets_ok c \<longleftrightarrow> distinct (map tId (foreground c)) \<and> (\<forall>i \<in> set (map tId (foreground c)). i \<le> nextTicket c) \<and>
     (\<forall>ps \<in> set (map tPinned (foreground c)). distinct ps) \<and> distinct (windowPins c)"

definition refs_ok :: "coord \<Rightarrow> bool" where
  "refs_ok c \<longleftrightarrow> ref_state c (uses c) \<and> tickets_ok c"

lemmas refs_defs = refs_ok_def ref_state_def uses_def tickets_ok_def pkey_of_def

lemma uses_nonneg [simp]: "0 \<le> uses c i"
  by (simp add: uses_def)

lemma retain_frame:
  "foreground (snd (retainLocked i c)) = foreground c" "windowPins (snd (retainLocked i c)) = windowPins c"
  "nextTicket (snd (retainLocked i c)) = nextTicket c" "torrentKey (snd (retainLocked i c)) = torrentKey c"
  "anchor (snd (retainLocked i c)) = anchor c" "cgen (snd (retainLocked i c)) = cgen c"
  "active (snd (retainLocked i c)) = active c" "pbudget (snd (retainLocked i c)) = pbudget c"
  "calls (snd (retainLocked i c)) = calls c" "foregroundPieces (snd (retainLocked i c)) = foregroundPieces c"
  by (auto simp: retainLocked_def split: prod.split)

lemma release_frame [simp]:
  "foreground (releaseLocked i c) = foreground c" "windowPins (releaseLocked i c) = windowPins c"
  "nextTicket (releaseLocked i c) = nextTicket c" "torrentKey (releaseLocked i c) = torrentKey c"
  "active (releaseLocked i c) = active c" "pbudget (releaseLocked i c) = pbudget c"
  "calls (releaseLocked i c) = calls c" "foregroundPieces (releaseLocked i c) = foregroundPieces c"
  by (auto simp: releaseLocked_def)

lemma release_state:
  assumes "ref_state c f" and "0 < f i"
  shows "ref_state (releaseLocked i c) (f(i := f i - 1))"
proof -
  have r: "counts_ok (refs c)" "\<And>j. aget (refs c) j = f j" "\<And>j. Key (torrentKey c) j \<in> set (pinned (pcache c)) \<longleftrightarrow> 0 < f j"
    using assms(1) by (simp_all add: ref_state_def pkey_of_def)
  show ?thesis
  proof (cases "f i = 1")
    case True
    then have "releaseLocked i c = c\<lparr>refs := adel i (refs c), pcache := Unpin (pkey_of c i) (pcache c)\<rparr>"
      by (simp add: releaseLocked_def r)
    with True r show ?thesis by (simp add: ref_state_def pkey_of_def pinned_Unpin)
  next
    case False
    then have "releaseLocked i c = c\<lparr>refs := aput i (f i - 1) (refs c)\<rparr>"
      using assms(2) by (simp add: releaseLocked_def r)
    with False r assms(2) show ?thesis by (simp add: ref_state_def pkey_of_def)
  qed
qed

lemma retain_state:
  assumes "ref_state c f" and "retainLocked i c = (ok, c')"
  shows "ref_state c' (if ok then f(i := f i + 1) else f)"
proof -
  have r: "counts_ok (refs c)" "\<And>j. aget (refs c) j = f j" "\<And>j. Key (torrentKey c) j \<in> set (pinned (pcache c)) \<longleftrightarrow> 0 < f j"
    using assms(1) by (simp_all add: ref_state_def pkey_of_def)
  have nn: "0 \<le> f i" using counts_ok_nonneg [OF r(1), of i] by (simp add: r)
  obtain b pc' where p: "PinSize (pkey_of c i) (pieceSizeLocked c i) (pcache c) = (b, pc')"
    by (cases "PinSize (pkey_of c i) (pieceSizeLocked c i) (pcache c)")
  have pin: "set (pinned pc') = (if b then insert (Key (torrentKey c) i) (set (pinned (pcache c))) else set (pinned (pcache c)))"
    using pinned_PinSize [of "pkey_of c i" "pieceSizeLocked c i" "pcache c", unfolded p] by (simp add: pkey_of_def)
  show ?thesis
  proof (cases "f i = 0")
    case True
    with assms(2) p have "ok = b" "c' = (if b then c\<lparr>pcache := pc', refs := aput i 1 (refs c)\<rparr> else c\<lparr>pcache := pc'\<rparr>)"
      by (auto simp: retainLocked_def r split: if_splits)
    with True r pin show ?thesis by (simp add: ref_state_def pkey_of_def)
  next
    case False
    with assms(2) have "ok" "c' = c\<lparr>refs := aput i (f i + 1) (refs c)\<rparr>" by (simp_all add: retainLocked_def r)
    with False r nn show ?thesis by (simp add: ref_state_def pkey_of_def)
  qed
qed

lemma release_all:
  "ref_state c f \<Longrightarrow> distinct xs \<Longrightarrow> \<forall>i \<in> set xs. 0 < f i \<Longrightarrow>
     ref_state (fold releaseLocked xs c) (\<lambda>i. if i \<in> set xs then f i - 1 else f i)"
proof (induction xs arbitrary: c f)
  case (Cons x xs)
  have "ref_state (fold releaseLocked xs (releaseLocked x c)) (\<lambda>i. if i \<in> set xs then (f(x := f x - 1)) i - 1 else (f(x := f x - 1)) i)"
    using Cons.prems by (intro Cons.IH release_state) auto
  moreover have "(\<lambda>i. if i \<in> set xs then (f(x := f x - 1)) i - 1 else (f(x := f x - 1)) i) =
      (\<lambda>i. if i \<in> set (x # xs) then f i - 1 else f i)"
    using Cons.prems(2) by auto
  ultimately show ?case by simp
qed (simp add: ref_state_def)

lemma unpin_window_ok:
  assumes "refs_ok c" and "i \<in> set (windowPins c)"
  shows "refs_ok (unpin_window i c)"
proof -
  let ?d = "c\<lparr>windowPins := removeAll i (windowPins c)\<rparr>"
  have "ref_state ?d (uses c)" using assms by (simp add: refs_ok_def ref_state_def pkey_of_def)
  moreover have "0 < uses c i" using assms(2) by (simp add: uses_def)
  ultimately have "ref_state (releaseLocked i ?d) ((uses c)(i := uses c i - 1))" by (rule release_state)
  moreover have "(uses c)(i := uses c i - 1) = uses (releaseLocked i ?d)"
    using assms(2) by (auto simp: uses_def)
  ultimately show ?thesis
    using assms(1) by (simp add: unpin_window_def refs_ok_def tickets_ok_def distinct_removeAll)
qed

lemma unpin_window_set: "set (windowPins (unpin_window i c)) = set (windowPins c) - {i}"
  by (simp add: unpin_window_def)

lemma unpin_windows_ok:
  "refs_ok c \<Longrightarrow> distinct xs \<Longrightarrow> set xs \<subseteq> set (windowPins c) \<Longrightarrow> refs_ok (fold unpin_window xs c)"
proof (induction xs arbitrary: c)
  case (Cons x xs)
  then have "set xs \<subseteq> set (windowPins (unpin_window x c))" by (auto simp: unpin_window_set)
  with Cons show ?case by (simp add: unpin_window_ok)
qed simp

lemma drop_window_ok [wf_intros]: "refs_ok c \<Longrightarrow> refs_ok (drop_window c)"
  unfolding drop_window_def by (rule unpin_windows_ok) (auto simp: refs_ok_def tickets_ok_def)

lemma refs_ok_lease [simp]:
  "refs_ok (cancelLeaseLocked i c) = refs_ok c" "refs_ok (complete_one i c) = refs_ok c"
  "refs_ok (close_lease i c) = refs_ok c"
  by (simp_all add: refs_defs cancelLeaseLocked_def complete_one_def close_lease_def)

lemma refs_ok_leases [simp]:
  "refs_ok (fold cancelLeaseLocked xs c) = refs_ok c" "refs_ok (fold complete_one xs c) = refs_ok c"
  "refs_ok (fold close_lease xs c) = refs_ok c"
  "refs_ok (fold (\<lambda>index c. if P index c then c else cancelLeaseLocked index c) xs c) = refs_ok c"
  by (induction xs arbitrary: c) simp_all

lemma retain_all_state:
  assumes "retain_all ks pins c = (pins', c')" and "ref_state c (\<lambda>i. f i + (if i \<in> set pins then 1 else 0))"
    and "distinct (pins @ ks)"
  shows "ref_state c' (\<lambda>i. f i + (if i \<in> set pins' then 1 else 0)) \<and> distinct pins' \<and>
    foreground c' = foreground c \<and> windowPins c' = windowPins c \<and> nextTicket c' = nextTicket c"
  using assms
proof (induction ks pins c rule: retain_all.induct)
  case (2 index rest pins c)
  obtain ok c1 where r: "retainLocked index c = (ok, c1)" by (cases "retainLocked index c")
  have "ref_state c1 (\<lambda>i. f i + (if i \<in> set (if ok then pins @ [index] else pins) then 1 else 0))"
    using retain_state [OF "2.prems"(2) r] "2.prems"(3) by (auto simp: ref_state_def)
  moreover have "distinct ((if ok then pins @ [index] else pins) @ rest)" using "2.prems"(3) by auto
  ultimately show ?case
    using "2.IH" [OF r [symmetric]] "2.prems"(1) retain_frame [of index c] r by simp
qed auto

lemma seek_step_frame:
  assumes "seek_step f req start c = (kind, cand, c')"
  shows "foreground c' = foreground c" "windowPins c' = windowPins c" "nextTicket c' = nextTicket c"
    "refs c' = refs c" "pcache c' = pcache c" "torrentKey c' = torrentKey c" "active c' = active c"
    "pbudget c' = pbudget c" "calls c' = calls c" "foregroundPieces c' = foregroundPieces c"
  using assms by (auto simp: seek_step_def Let_def split: if_splits)

lemma beginForeground_refs [wf_intros]:
  assumes "refs_ok c" shows "refs_ok (snd (beginForeground f req plan c))"
proof -
  obtain a b where ab: "foregroundRequestRange req plan = (a, b)" by (cases "foregroundRequestRange req plan")
  obtain kind cand c1 where sk: "seek_step f req a c = (kind, cand, c1)" by (cases "seek_step f req a c")
  let ?keys = "uniquePieceIndexes (Wanted plan)" and ?d = "c1\<lparr>nextTicket := nextTicket c1 + 1\<rparr>"
  obtain pins c2 where rt: "retain_all ?keys [] ?d = (pins, c2)" by (cases "retain_all ?keys [] ?d")
  note fr = seek_step_frame [OF sk]
  have "ref_state ?d (uses c)" using assms by (simp add: refs_ok_def ref_state_def pkey_of_def fr)
  then have "ref_state ?d (\<lambda>i. uses c i + (if i \<in> set [] then 1 else 0))" by simp
  from retain_all_state [OF rt this] have st: "ref_state c2 (\<lambda>i. uses c i + (if i \<in> set pins then 1 else 0))"
    "distinct pins" "foreground c2 = foreground c" "windowPins c2 = windowPins c" "nextTicket c2 = nextTicket c + 1"
    by (simp_all add: fr)
  define t where "t = \<lparr>tId = nextTicket c1 + 1, tGeneration = cgen c2, tFile = f, tKind = kind, tCandidate = cand,
                         tStart = a, tEnd = b, tWanted = ?keys, tPinned = pins, tActive = []\<rparr>"
  let ?e = "c2\<lparr>foreground := t # foreground c2, anchorTicket := nextTicket c1 + 1\<rparr>"
  have "(\<lambda>i. uses c i + (if i \<in> set pins then 1 else 0)) = uses ?e"
    using st by (auto simp: uses_def t_def)
  then have "ref_state ?e (uses ?e)" using st(1) by (simp add: ref_state_def pkey_of_def)
  moreover have "tickets_ok ?e"
    using assms st(2-) by (fastforce simp: refs_ok_def tickets_ok_def t_def fr)
  ultimately have "refs_ok ?e" by (simp add: refs_ok_def)
  with assms show ?thesis by (simp add: beginForeground_def ab sk rt [simplified] Let_def t_def)
qed

lemma ticket_of_mem: "ticket_of c i = Some t \<Longrightarrow> t \<in> set (foreground c) \<and> tId t = i"
  by (auto simp: ticket_of_def find_Some_iff)

lemma ticket_unique:
  "tickets_ok c \<Longrightarrow> ticket_of c i = Some t \<Longrightarrow> u \<in> set (foreground c) \<Longrightarrow> tId u = i \<Longrightarrow> u = t"
  using ticket_of_mem [of c i t] by (auto simp: tickets_ok_def distinct_map dest: inj_onD)

lemma set_ticket_map:
  assumes "tickets_ok c" and "ticket_of c (tId t') = Some t" and "g t' = g t"
  shows "map g (foreground (set_ticket t' c)) = map g (foreground c)"
  using ticket_unique [OF assms(1,2)] assms(3) by (auto simp: set_ticket_def)

lemma refs_ok_view:
  assumes "refs_ok c" and "map tPinned (foreground c') = map tPinned (foreground c)"
    and "map tId (foreground c') = map tId (foreground c)" and "windowPins c' = windowPins c"
    and "nextTicket c' = nextTicket c" and "refs c' = refs c" and "pcache c' = pcache c" and "torrentKey c' = torrentKey c"
  shows "refs_ok c'"
proof -
  have "uses c' = uses c" unfolding uses_def assms(2,4) ..
  moreover have "tickets_ok c' = tickets_ok c" unfolding tickets_ok_def assms(2-5) ..
  moreover have "ref_state c' (uses c) = ref_state c (uses c)"
    unfolding ref_state_def pkey_of_def assms(6-8) ..
  ultimately show ?thesis using assms(1) by (simp add: refs_ok_def)
qed

lemma set_ticket_refs:
  assumes "refs_ok c" and "ticket_of c (tId t') = Some t" and "tPinned t' = tPinned t"
  shows "refs_ok (set_ticket t' c)"
proof (rule refs_ok_view [OF assms(1)])
  have ok: "tickets_ok c" using assms(1) by (simp add: refs_ok_def)
  show "map tPinned (foreground (set_ticket t' c)) = map tPinned (foreground c)"
    by (rule set_ticket_map [of _ _ t]) (use ok assms in auto)
  show "map tId (foreground (set_ticket t' c)) = map tId (foreground c)"
    by (rule set_ticket_map [of _ _ t]) (use ok assms ticket_of_mem in auto)
qed (simp_all add: set_ticket_def)

lemma release_fg_frame:
  assumes "releaseForegroundPieceLocked i (t, c) = (t', c')"
  shows "tId t' = tId t" "tPinned t' = tPinned t" "tKind t' = tKind t"
    "foreground c' = foreground c" "windowPins c' = windowPins c" "nextTicket c' = nextTicket c" "refs c' = refs c"
    "pcache c' = pcache c" "torrentKey c' = torrentKey c" "active c' = active c" "pbudget c' = pbudget c" "calls c' = calls c"
  using assms by (auto simp: releaseForegroundPieceLocked_def split: if_splits)

lemma cancelLease_frame [simp]:
  "foreground (cancelLeaseLocked i c) = foreground c" "foregroundPieces (cancelLeaseLocked i c) = foregroundPieces c"
  "windowPins (cancelLeaseLocked i c) = windowPins c" "nextTicket (cancelLeaseLocked i c) = nextTicket c"
  "refs (cancelLeaseLocked i c) = refs c" "pcache (cancelLeaseLocked i c) = pcache c" "torrentKey (cancelLeaseLocked i c) = torrentKey c"
  "ticket_of (cancelLeaseLocked i c) = ticket_of c" "anchor (cancelLeaseLocked i c) = anchor c" "hasAnchor (cancelLeaseLocked i c) = hasAnchor c"
  by (simp_all add: cancelLeaseLocked_def ticket_of_def fun_eq_iff)

lemma startPiece_refs [wf_intros]:
  assumes "refs_ok c" shows "refs_ok (startPiece j i c)"
proof (cases "ticket_of c j")
  case None
  with assms show ?thesis by (simp add: startPiece_def)
next
  case (Some t)
  let ?c1 = "cancelLeaseLocked i c" and ?t1 = "t\<lparr>tActive := aput i (aget (tActive t) i + 1) (tActive t)\<rparr>"
  have "refs_ok (set_ticket ?t1 ?c1)"
    by (rule set_ticket_refs [of _ _ t]) (use assms Some ticket_of_mem [OF Some] in auto)
  then show ?thesis by (simp add: startPiece_def Some Let_def refs_defs)
qed

lemma finishPiece_refs [wf_intros]:
  assumes "refs_ok c" shows "refs_ok (finishPiece j i c)"
proof (cases "ticket_of c j")
  case None
  with assms show ?thesis by (simp add: finishPiece_def)
next
  case (Some t)
  obtain t1 c1 where r: "releaseForegroundPieceLocked i (t, c) = (t1, c1)"
    by (cases "releaseForegroundPieceLocked i (t, c)")
  note fr = release_fg_frame [OF r]
  have "refs_ok c1" by (rule refs_ok_view [OF assms]) (simp_all add: fr)
  then have "refs_ok (set_ticket t1 c1)"
    by (rule set_ticket_refs [of _ _ t]) (use Some ticket_of_mem [OF Some] in \<open>auto simp: fr ticket_of_def\<close>)
  then show ?thesis by (simp add: finishPiece_def Some r)
qed

definition fg_same :: "foregroundTicket \<times> coord \<Rightarrow> foregroundTicket \<times> coord \<Rightarrow> bool" where
  "fg_same x y \<longleftrightarrow> (\<exists>a p. fst y = (fst x)\<lparr>tActive := a\<rparr> \<and> snd y = (snd x)\<lparr>foregroundPieces := p\<rparr>)"

lemma fg_same_refl [simp]: "fg_same x x"
  unfolding fg_same_def by (intro exI [of _ "tActive (fst x)"] exI [of _ "foregroundPieces (snd x)"]) simp

lemma fg_same_trans: "fg_same x y \<Longrightarrow> fg_same y z \<Longrightarrow> fg_same x z"
  unfolding fg_same_def by fastforce

lemma release_fg_same: "fg_same tc (releaseForegroundPieceLocked i tc)"
proof (cases tc)
  case (Pair t c)
  show ?thesis
  proof (cases "aget (tActive t) i \<le> 0")
    case True
    then show ?thesis using fg_same_refl by (simp add: Pair releaseForegroundPieceLocked_def)
  next
    case False
    then show ?thesis by (auto simp: Pair releaseForegroundPieceLocked_def fg_same_def)
  qed
qed

lemma release_fg_pow_same: "fg_same tc ((releaseForegroundPieceLocked i ^^ n) tc)"
  by (induction n) (auto intro: fg_same_trans release_fg_same)

lemma release_fg_fold_same: "fg_same tc (fold (\<lambda>(i, n). releaseForegroundPieceLocked i ^^ nat n) xs tc)"
proof (induction xs arbitrary: tc)
  case (Cons x xs)
  obtain i n where x: "x = (i, n)" by (cases x)
  show ?case
    unfolding x fold.simps comp_def prod.case by (rule fg_same_trans [OF release_fg_pow_same Cons.IH])
qed simp

lemma count_without:
  "distinct (map tId fg) \<Longrightarrow> t \<in> set fg \<Longrightarrow>
     length (filter P (map tPinned fg)) =
     length (filter P (map tPinned (filter (\<lambda>u. tId u \<noteq> tId t) fg))) + (if P (tPinned t) then 1 else 0)"
proof (induction fg)
  case (Cons u fg)
  show ?case
  proof (cases "u = t")
    case True
    with Cons.prems have "filter (\<lambda>v. tId v \<noteq> tId t) fg = fg" by (auto simp: filter_id_conv image_iff)
    with True show ?thesis by simp
  next
    case False
    with Cons have "tId u \<noteq> tId t" by (auto simp: image_iff)
    with Cons False show ?thesis by auto
  qed
qed simp

lemma releases_frame [simp]:
  "foreground (fold releaseLocked xs c) = foreground c" "windowPins (fold releaseLocked xs c) = windowPins c"
  "nextTicket (fold releaseLocked xs c) = nextTicket c" "torrentKey (fold releaseLocked xs c) = torrentKey c"
  "active (fold releaseLocked xs c) = active c" "pbudget (fold releaseLocked xs c) = pbudget c"
  "calls (fold releaseLocked xs c) = calls c" "foregroundPieces (fold releaseLocked xs c) = foregroundPieces c"
  by (induction xs arbitrary: c) simp_all

lemma removeForeground_form:
  assumes "ticket_of c i = Some t"
  obtains fp where "removeForegroundLocked i c =
    ([i], fold releaseLocked (tPinned t) (c\<lparr>foreground := filter (\<lambda>u. tId u \<noteq> i) (foreground c), foregroundPieces := fp\<rparr>))"
    and "fp = foregroundPieces (snd (fold (\<lambda>(index, count). releaseForegroundPieceLocked index ^^ nat count) (tActive t)
      (t, c\<lparr>foreground := filter (\<lambda>u. tId u \<noteq> i) (foreground c)\<rparr>)))"
proof -
  let ?c1 = "c\<lparr>foreground := filter (\<lambda>u. tId u \<noteq> i) (foreground c)\<rparr>"
  let ?r = "fold (\<lambda>(index, count). releaseForegroundPieceLocked index ^^ nat count) (tActive t) (t, ?c1)"
  have "fg_same (t, ?c1) ?r" by (rule release_fg_fold_same)
  then obtain a p where "fst ?r = t\<lparr>tActive := a\<rparr>" "snd ?r = ?c1\<lparr>foregroundPieces := p\<rparr>"
    by (auto simp: fg_same_def)
  then show thesis
    by (intro that [of p]) (simp_all add: removeForegroundLocked_def assms Let_def case_prod_beta)
qed

lemma removeForeground_refs [wf_intros]:
  assumes "refs_ok c" shows "refs_ok (snd (removeForegroundLocked i c))"
proof (cases "ticket_of c i")
  case None
  with assms show ?thesis by (simp add: removeForegroundLocked_def)
next
  case (Some t)
  then obtain fp where rm: "removeForegroundLocked i c =
    ([i], fold releaseLocked (tPinned t) (c\<lparr>foreground := filter (\<lambda>u. tId u \<noteq> i) (foreground c), foregroundPieces := fp\<rparr>))"
    (is "_ = (_, fold releaseLocked _ ?d)") by (rule removeForeground_form)
  have t: "t \<in> set (foreground c)" "tId t = i" using ticket_of_mem [OF Some] by auto
  have ok: "tickets_ok c" and st: "ref_state c (uses c)" using assms by (simp_all add: refs_ok_def)
  have ids: "distinct (map tId (foreground c))" and dp: "distinct (tPinned t)"
    using ok t by (auto simp: tickets_ok_def)
  have "ref_state ?d (uses c)" using st by (simp add: ref_state_def pkey_of_def)
  moreover have "\<forall>j \<in> set (tPinned t). 0 < uses c j"
    using count_without [OF ids t(1), of "\<lambda>ps. _ \<in> set ps"] by (auto simp: uses_def)
  ultimately have r: "ref_state (fold releaseLocked (tPinned t) ?d)
      (\<lambda>j. if j \<in> set (tPinned t) then uses c j - 1 else uses c j)"
    using dp by (intro release_all)
  have u: "(\<lambda>j. if j \<in> set (tPinned t) then uses c j - 1 else uses c j) = uses (fold releaseLocked (tPinned t) ?d)"
    using count_without [OF ids t(1), of "\<lambda>ps. _ \<in> set ps"] t(2) by (auto simp: uses_def)
  have "tickets_ok (fold releaseLocked (tPinned t) ?d)"
    using ok by (auto simp: tickets_ok_def distinct_map inj_on_def)
  with r u show ?thesis by (simp add: rm refs_ok_def)
qed

lemma advanceAnchor_frame [simp]:
  "foreground (advanceAnchorLocked c) = foreground c" "windowPins (advanceAnchorLocked c) = windowPins c"
  "nextTicket (advanceAnchorLocked c) = nextTicket c" "torrentKey (advanceAnchorLocked c) = torrentKey c"
  "refs (advanceAnchorLocked c) = refs c" "pcache (advanceAnchorLocked c) = pcache c"
  "active (advanceAnchorLocked c) = active c" "pbudget (advanceAnchorLocked c) = pbudget c"
  "calls (advanceAnchorLocked c) = calls c" "foregroundPieces (advanceAnchorLocked c) = foregroundPieces c"
  by (auto simp: advanceAnchorLocked_def Let_def split: prod.split option.split)

lemma recordConsumed_frame [simp]:
  "foreground (recordConsumedLocked off n c) = foreground c" "windowPins (recordConsumedLocked off n c) = windowPins c"
  "nextTicket (recordConsumedLocked off n c) = nextTicket c" "torrentKey (recordConsumedLocked off n c) = torrentKey c"
  "refs (recordConsumedLocked off n c) = refs c" "pcache (recordConsumedLocked off n c) = pcache c"
  "active (recordConsumedLocked off n c) = active c" "pbudget (recordConsumedLocked off n c) = pbudget c"
  "calls (recordConsumedLocked off n c) = calls c" "foregroundPieces (recordConsumedLocked off n c) = foregroundPieces c"
  by (auto simp: recordConsumedLocked_def Let_def split: prod.split)

lemma recordCandidate_frame:
  assumes "recordCandidateLocked t off n c = (b, c')"
  obtains cd where "c' = c\<lparr>candidate := cd\<rparr>"
  using assms by (auto simp: recordCandidateLocked_def Let_def split: option.splits if_splits prod.splits)
    (metis coord.surjective coord.update_convs(12))+

lemma unpin_window_frame [simp]:
  "foreground (unpin_window i c) = foreground c" "foregroundPieces (unpin_window i c) = foregroundPieces c"
  "active (unpin_window i c) = active c" "pbudget (unpin_window i c) = pbudget c" "calls (unpin_window i c) = calls c"
  "nextTicket (unpin_window i c) = nextTicket c"
  by (simp_all add: unpin_window_def)

lemma unpin_windows_frame [simp]:
  "foreground (fold unpin_window xs c) = foreground c" "foregroundPieces (fold unpin_window xs c) = foregroundPieces c"
  "active (fold unpin_window xs c) = active c" "pbudget (fold unpin_window xs c) = pbudget c"
  "calls (fold unpin_window xs c) = calls c" "nextTicket (fold unpin_window xs c) = nextTicket c"
  by (induction xs arbitrary: c) simp_all

lemma cancelLeases_frame [simp]:
  "foreground (fold cancelLeaseLocked xs c) = foreground c"
  "foregroundPieces (fold cancelLeaseLocked xs c) = foregroundPieces c"
  "nextTicket (fold cancelLeaseLocked xs c) = nextTicket c"
  by (induction xs arbitrary: c) simp_all

lemma drop_frame [simp]:
  "foreground (drop_window c) = foreground c" "foregroundPieces (drop_window c) = foregroundPieces c"
  "active (drop_window c) = active c" "pbudget (drop_window c) = pbudget c" "calls (drop_window c) = calls c"
  "foreground (drop_leases c) = foreground c" "foregroundPieces (drop_leases c) = foregroundPieces c"
  "refs_ok (drop_leases c) = refs_ok c"
  by (simp_all add: drop_window_def drop_leases_def)

lemma confirmCandidate_refs:
  assumes "refs_ok c" and "ticket_of c (tId t) = Some t"
  shows "refs_ok (snd (confirmCandidateLocked t c))"
proof (cases "candidate c")
  case None
  with assms show ?thesis by (simp add: confirmCandidateLocked_def)
next
  case (Some cd)
  define c2 where "c2 = (advanceAnchorLocked (c\<lparr>cgen := cgen c + 1,
       anchor := \<lparr>aFile = Some (fid (cFile cd)), aFileStart = fOffset (cFile cd), aFileSize = fSize (cFile cd),
                  aPieceLength = fPieceLength (cFile cd), aTorrentSize = fTorrentSize (cFile cd),
                  aCursor = clampCursor (cStart cd) (fSize (cFile cd)), aCommitted = clampCursor (cStart cd) (fSize (cFile cd))\<rparr>,
       hasAnchor := True, anchorConfirmed := True, consumed := cSpans cd, candidate := None\<rparr>))
         \<lparr>pstate := prefetchIdle, bufferedBytes := 0\<rparr>"
  let ?c3 = "drop_leases (drop_window c2)"
  let ?t1 = "t\<lparr>tGeneration := cgen ?c3, tKind := foregroundCurrentWindow, tCandidate := 0\<rparr>"
  have "refs_ok c2" by (rule refs_ok_view [OF assms(1)]) (simp_all add: c2_def)
  then have "refs_ok ?c3" by (simp add: wf_intros)
  then have "refs_ok (?c3\<lparr>anchorTicket := tId t\<rparr>)" by (simp add: refs_defs)
  then have "refs_ok (set_ticket ?t1 (?c3\<lparr>anchorTicket := tId t\<rparr>))"
    by (rule set_ticket_refs [of _ _ t]) (use assms(2) in \<open>simp_all add: ticket_of_def c2_def\<close>)
  then show ?thesis
    using assms(1) by (simp add: confirmCandidateLocked_def Some Let_def c2_def)
qed

lemma finish_effect_refs:
  assumes "refs_ok c" and "ticket_of c (tId t) = Some t"
  shows "refs_ok (snd (finish_effect t off n clean c))"
proof -
  have consumed: "refs_ok (recordConsumedLocked off n c)"
    by (rule refs_ok_view [OF assms(1)]) simp_all
  have cand: "refs_ok (snd (case recordCandidateLocked t off n c of
      (confirmed, c1) \<Rightarrow> if confirmed then confirmCandidateLocked t c1 else (t, c1)))"
  proof -
    obtain b c1 where r: "recordCandidateLocked t off n c = (b, c1)" by (cases "recordCandidateLocked t off n c")
    then obtain cd where c1: "c1 = c\<lparr>candidate := cd\<rparr>" by (rule recordCandidate_frame)
    have "refs_ok c1" by (rule refs_ok_view [OF assms(1)]) (simp_all add: c1)
    moreover have "ticket_of c1 (tId t) = Some t" using assms(2) by (simp add: c1 ticket_of_def)
    ultimately show ?thesis by (simp add: r confirmCandidate_refs)
  qed
  show ?thesis
    using assms(1) consumed cand unfolding finish_effect_def by (cases "tKind t") simp_all
qed

lemma forget_anchor_refs [simp]: "refs_ok (forget_anchor c) = refs_ok c"
  by (simp add: forget_anchor_def refs_defs)

lemma dropUnconfirmed_refs [wf_intros]: "refs_ok c \<Longrightarrow> refs_ok (dropUnconfirmedAnchorLocked c)"
  by (simp add: dropUnconfirmedAnchorLocked_def drop_window_ok)

lemma finishForeground_refs [wf_intros]:
  assumes "refs_ok c" shows "refs_ok (snd (finishForeground i off n clean c))"
proof (cases "ticket_of c i")
  case None
  with assms show ?thesis by (simp add: finishForeground_def)
next
  case (Some t)
  then have "refs_ok (snd (finish_effect t off n clean c))"
    using assms ticket_of_mem by (intro finish_effect_refs) auto
  then have "refs_ok (snd (removeForegroundLocked i (snd (finish_effect t off n clean c))))" by (rule wf_intros)
  then show ?thesis
    by (simp add: finishForeground_def Some Let_def case_prod_beta dropUnconfirmed_refs)
qed

lemma retain_window_refs:
  assumes "refs_ok c" and "retainLocked i c = (ok, c1)" and "i \<notin> set (windowPins c)"
  shows "refs_ok (if ok then c1\<lparr>windowPins := i # windowPins c1\<rparr> else c1)"
proof -
  have fr: "foreground c1 = foreground c" "windowPins c1 = windowPins c" "nextTicket c1 = nextTicket c"
    using retain_frame [of i c] assms(2) by simp_all
  have st: "ref_state c1 (if ok then (uses c)(i := uses c i + 1) else uses c)"
    using assms(1,2) by (intro retain_state) (auto simp: refs_ok_def)
  have "(uses c)(i := uses c i + 1) = uses (c1\<lparr>windowPins := i # windowPins c1\<rparr>)" "uses c1 = uses c"
    using assms(3) by (auto simp: uses_def fr)
  with st assms(1,3) show ?thesis
    by (cases ok) (simp_all add: refs_ok_def ref_state_def tickets_ok_def pkey_of_def fr)
qed

lemma reserve_loop_refs:
  "refs_ok c \<Longrightarrow> reserve_loop ds p c = (p', b, c') \<Longrightarrow> refs_ok c'"
proof (induction ds p c rule: reserve_loop.induct)
  case (2 i rest p c)
  obtain ok c1 where r: "retainLocked i c = (ok, c1)" by (cases "retainLocked i c")
  show ?case
  proof (cases "i \<in> set (windowPins c)")
    case True
    with 2 show ?thesis by simp
  next
    case False
    with 2 r retain_window_refs [OF "2.prems"(1) r False] show ?thesis by (cases ok) auto
  qed
qed simp

lemma refs_ok_upd [simp]:
  "refs_ok (c\<lparr>dedupe := d\<rparr>) = refs_ok c" "refs_ok (c\<lparr>pbudget := b\<rparr>) = refs_ok c"
  "refs_ok (c\<lparr>calls := cs\<rparr>) = refs_ok c" "refs_ok (c\<lparr>active := as\<rparr>) = refs_ok c"
  "refs_ok (c\<lparr>priorityAdds := d\<rparr>) = refs_ok c" "refs_ok (c\<lparr>maxActive := n\<rparr>) = refs_ok c"
  "refs_ok (c\<lparr>budgetBlocks := d\<rparr>) = refs_ok c" "refs_ok (c\<lparr>pstate := st\<rparr>) = refs_ok c"
  "refs_ok (c\<lparr>effectiveHigh := n'\<rparr>) = refs_ok c" "refs_ok (c\<lparr>effectiveLow := n'\<rparr>) = refs_ok c"
  "refs_ok (c\<lparr>bufferedBytes := n'\<rparr>) = refs_ok c" "refs_ok (c\<lparr>candidate := cd\<rparr>) = refs_ok c"
  "refs_ok (c\<lparr>cgen := g\<rparr>) = refs_ok c" "refs_ok (c\<lparr>pclosed := q\<rparr>) = refs_ok c"
  "refs_ok (c\<lparr>staleSpanRejects := d\<rparr>) = refs_ok c"
  by (simp_all add: refs_defs)

lemma fill_loop_refs [simp]: "refs_ok (fill_loop ds c) = refs_ok c"
proof (induction ds c rule: fill_loop.induct)
  case (2 i rest c)
  obtain ok b where a: "tryAcquire (pbudget c) = (ok, b)" by (cases "tryAcquire (pbudget c)")
  from 2 a show ?case by (cases ok) simp_all
qed simp

lemma reconcile_refs [wf_intros]:
  assumes "refs_ok c" shows "refs_ok (reconcile c)"
proof (cases "pclosed c \<or> \<not> hasAnchor c")
  case True
  with assms show ?thesis by (auto simp: reconcile_def)
next
  case False
  let ?c1 = "updateBufferedLocked c"
  let ?ds = "desiredPiecesLocked ?c1"
  let ?c2 = "fold unpin_window (filter (\<lambda>i. i \<notin> set ?ds) (windowPins ?c1)) ?c1"
  let ?c3 = "cancelUnneededActiveLocked ?ds ?c2"
  obtain p b c4 where rl: "reserve_loop ?ds 0 ?c3 = (p, b, c4)" by (cases "reserve_loop ?ds 0 ?c3")
  have "refs_ok ?c1" using assms by (simp add: updateBufferedLocked_def Let_def)
  then have "refs_ok ?c2" by (intro unpin_windows_ok) (auto simp: refs_ok_def tickets_ok_def)
  then have "refs_ok ?c3" by (simp add: cancelUnneededActiveLocked_def)
  then have "refs_ok c4" using rl by (rule reserve_loop_refs)
  with False show ?thesis
    by (simp add: reconcile_def Let_def rl computeWatermarksLocked_def completeActiveLocked_def)
qed

lemma remove_tickets_refs: "refs_ok c \<Longrightarrow> refs_ok (snd (remove_tickets is c))"
proof (induction "is" arbitrary: c)
  case (Cons i "is")
  show ?case
    using Cons.IH [OF removeForeground_refs [OF Cons.prems]] by (simp add: case_prod_beta)
qed simp

lemma releaseFile_refs [wf_intros]:
  assumes "refs_ok c" shows "refs_ok (snd (releaseFile f c))"
proof -
  obtain xs c1 where r: "remove_tickets (map tId (filter (\<lambda>t. fid (tFile t) = fid f) (foreground c))) c = (xs, c1)"
    by (cases "remove_tickets (map tId (filter (\<lambda>t. fid (tFile t) = fid f) (foreground c))) c")
  with remove_tickets_refs [OF assms] have "refs_ok c1" by (metis snd_conv)
  with assms show ?thesis
    by (simp add: releaseFile_def r Let_def drop_window_ok split: option.split)
qed

lemma pinned_unpin_all:
  "set (pinned (fold (\<lambda>(i, _). Unpin (Key t i)) xs d)) = set (pinned d) - Key t ` fst ` set xs"
  by (induction xs arbitrary: d) (auto simp: pinned_Unpin)

lemma counts_ok_key: "counts_ok m \<Longrightarrow> 0 < aget m k \<longleftrightarrow> k \<in> fst ` set m"
proof
  assume "counts_ok m" "k \<in> fst ` set m"
  then obtain v where "map_of m k = Some v" "0 < v"
    by (force simp: counts_ok_def)
  then show "0 < aget m k" by (simp add: zget_Some)
next
  assume "0 < aget m k"
  then show "k \<in> fst ` set m" by (auto simp: zget_def split: option.splits dest!: map_of_SomeD intro: rev_image_eqI)
qed

lemma close_leases_frame [simp]:
  "foreground (fold close_lease xs c) = foreground c" "refs (fold close_lease xs c) = refs c"
  "pcache (fold close_lease xs c) = pcache c" "torrentKey (fold close_lease xs c) = torrentKey c"
  "active (fold close_lease xs c) = active c"
  by (induction xs arbitrary: c) (simp_all add: close_lease_def)

lemma cleanup_refs [wf_intros]:
  assumes "refs_ok c" shows "refs_ok (snd (cleanup c))"
proof (cases "pclosed c")
  case True
  with assms show ?thesis by (simp add: cleanup_def)
next
  case False
  obtain xs c1 where r: "remove_tickets (map tId (foreground c)) (c\<lparr>pclosed := True\<rparr>) = (xs, c1)"
    by (cases "remove_tickets (map tId (foreground c)) (c\<lparr>pclosed := True\<rparr>)")
  with remove_tickets_refs [of "c\<lparr>pclosed := True\<rparr>"] assms have "refs_ok c1" by (metis refs_ok_upd(14) snd_conv)
  then have st: "counts_ok (refs c1)" "\<And>i. Key (torrentKey c1) i \<in> set (pinned (pcache c1)) \<longleftrightarrow> 0 < aget (refs c1) i"
    by (auto simp: refs_ok_def ref_state_def pkey_of_def)
  let ?d = "snd (cleanup c)"
  have d: "refs ?d = []" "windowPins ?d = []" "foreground ?d = []" "torrentKey ?d = torrentKey c1"
    "pcache ?d = fold (\<lambda>(i, _). Unpin (Key (torrentKey c1) i)) (refs c1) (pcache c1)"
    using False by (simp_all add: cleanup_def r Let_def pkey_of_def)
  have "Key (torrentKey c1) i \<notin> set (pinned (pcache ?d))" for i
    using st counts_ok_key [OF st(1), of i] by (auto simp: d(5) pinned_unpin_all)
  then show ?thesis
    unfolding refs_defs d by simp
qed

section \<open>Invariant: leases and the shared budget\<close>

fun raised :: "tcall list \<Rightarrow> int set" where
  "raised [] = {}"
| "raised (SetPriorityNormal i # cs) = insert i (raised cs)"
| "raised (CancelPieces i # cs) = raised cs - {i}"
| "raised (UpdateCompletion i # cs) = raised cs"

definition lease_ok :: "int \<Rightarrow> coord \<Rightarrow> bool" where
  "lease_ok others c \<longleftrightarrow> distinct (active c) \<and> 0 \<le> others \<and>
     bused (pbudget c) = others + int (length (active c)) \<and> raised (calls c) = set (active c)"

lemma length_removeAll_distinct: "distinct xs \<Longrightarrow> x \<in> set xs \<Longrightarrow> int (length (removeAll x xs)) = int (length xs) - 1 \<and> 1 \<le> int (length xs)"
  by (cases xs) (auto simp: distinct_remove1_removeAll [symmetric] length_remove1 dest: length_pos_if_in_set)

lemma lease_end:
  assumes "lease_ok n c" and "i \<in> set (active c)"
  shows "lease_ok n (c\<lparr>calls := CancelPieces i # cs, priorityCancels := x, active := removeAll i (active c),
    pbudget := budget_release (pbudget c)\<rparr>) \<longleftrightarrow> raised cs - {i} = raised (calls c) - {i}"
proof -
  have "int (length (removeAll i (active c))) = int (length (active c)) - 1" "1 \<le> int (length (active c))"
    using assms length_removeAll_distinct [of "active c" i] by (auto simp: lease_ok_def)
  then show ?thesis
    using assms by (auto simp: lease_ok_def budget_release_def distinct_removeAll)
qed

lemma lease_ok_upd [simp]:
  "lease_ok n (c\<lparr>dedupe := d\<rparr>) = lease_ok n c" "lease_ok n (c\<lparr>priorityAdds := d\<rparr>) = lease_ok n c"
  "lease_ok n (c\<lparr>maxActive := m\<rparr>) = lease_ok n c" "lease_ok n (c\<lparr>budgetBlocks := d\<rparr>) = lease_ok n c"
  "lease_ok n (c\<lparr>pstate := st\<rparr>) = lease_ok n c" "lease_ok n (c\<lparr>cancelled := d\<rparr>) = lease_ok n c"
  "lease_ok n (c\<lparr>effectiveHigh := n'\<rparr>) = lease_ok n c" "lease_ok n (c\<lparr>effectiveLow := n'\<rparr>) = lease_ok n c"
  "lease_ok n (c\<lparr>bufferedBytes := n'\<rparr>) = lease_ok n c" "lease_ok n (c\<lparr>candidate := cd\<rparr>) = lease_ok n c"
  "lease_ok n (c\<lparr>cgen := g\<rparr>) = lease_ok n c" "lease_ok n (c\<lparr>windowPins := ws\<rparr>) = lease_ok n c"
  "lease_ok n (c\<lparr>foreground := fg\<rparr>) = lease_ok n c" "lease_ok n (c\<lparr>foregroundPieces := fp\<rparr>) = lease_ok n c"
  "lease_ok n (c\<lparr>anchorTicket := at\<rparr>) = lease_ok n c" "lease_ok n (c\<lparr>pclosed := q\<rparr>) = lease_ok n c"
  "lease_ok n (c\<lparr>staleSpanRejects := d\<rparr>) = lease_ok n c" "lease_ok n (c\<lparr>pcache := pc'\<rparr>) = lease_ok n c"
  "lease_ok n (c\<lparr>refs := rs\<rparr>) = lease_ok n c" "lease_ok n (set_ticket t c) = lease_ok n c"
  "lease_ok n (forget_anchor c) = lease_ok n c" "lease_ok n (releaseLocked i c) = lease_ok n c"
  "lease_ok n (unpin_window i c) = lease_ok n c" "lease_ok n (fold releaseLocked is c) = lease_ok n c"
  "lease_ok n (fold unpin_window is c) = lease_ok n c" "lease_ok n (drop_window c) = lease_ok n c"
  "lease_ok n (recordConsumedLocked off k c) = lease_ok n c" "lease_ok n (advanceAnchorLocked c) = lease_ok n c"
  by (simp_all add: lease_ok_def set_ticket_def forget_anchor_def)

lemma lease_view:
  "lease_ok n c \<Longrightarrow> active c' = active c \<Longrightarrow> pbudget c' = pbudget c \<Longrightarrow> calls c' = calls c \<Longrightarrow> lease_ok n c'"
  by (simp add: lease_ok_def)

lemma cancelLease_ok [wf_intros]:
  assumes "lease_ok n c" shows "lease_ok n (cancelLeaseLocked i c)"
proof (cases "i \<in> set (active c)")
  case True
  have "lease_ok n (c\<lparr>calls := CancelPieces i # calls c, priorityCancels := priorityCancels c + 1,
      active := removeAll i (active c), pbudget := budget_release (pbudget c)\<rparr>)"
    using lease_end [OF assms True] by simp
  then show ?thesis using True by (simp add: cancelLeaseLocked_def lease_ok_def)
qed (use assms in \<open>simp add: cancelLeaseLocked_def\<close>)

lemma cancelLeases_ok [wf_intros]:
  "lease_ok n c \<Longrightarrow> lease_ok n (fold cancelLeaseLocked xs c)"
  "lease_ok n c \<Longrightarrow> lease_ok n (fold (\<lambda>index c. if P index c then c else cancelLeaseLocked index c) xs c)"
  by (induction xs arbitrary: c) (simp_all add: cancelLease_ok)

lemma complete_one_ok:
  assumes "lease_ok n c" and "i \<in> set (active c)"
  shows "lease_ok n (complete_one i c)"
  using lease_end [OF assms, where cs = "UpdateCompletion i # calls c"] assms(1) by (simp add: complete_one_def)

lemma complete_all_ok:
  "lease_ok n c \<Longrightarrow> distinct xs \<Longrightarrow> set xs \<subseteq> set (active c) \<Longrightarrow> lease_ok n (fold complete_one xs c)"
proof (induction xs arbitrary: c)
  case (Cons x xs)
  then have "set xs \<subseteq> set (active (complete_one x c))" by (auto simp: complete_one_def)
  with Cons show ?case by (simp add: complete_one_ok)
qed simp

lemma completeActive_ok [wf_intros]: "lease_ok n c \<Longrightarrow> lease_ok n (completeActiveLocked c)"
  unfolding completeActiveLocked_def by (rule complete_all_ok) (auto simp: lease_ok_def)

lemma fill_loop_ok [wf_intros]: "lease_ok n c \<Longrightarrow> lease_ok n (fill_loop ds c)"
proof (induction ds c rule: fill_loop.induct)
  case (2 i rest c)
  obtain ok b where a: "tryAcquire (pbudget c) = (ok, b)" by (cases "tryAcquire (pbudget c)")
  have "lease_ok n (c\<lparr>pbudget := b, calls := SetPriorityNormal i # UpdateCompletion i # calls c,
      active := i # active c, priorityAdds := priorityAdds c + 1,
      maxActive := max (maxActive c) (Suc (length (active c)))\<rparr>)" if ok "i \<notin> set (active c)"
    using "2.prems" a that by (auto simp: lease_ok_def tryAcquire_def split: if_splits)
  with 2 a show ?case by (cases ok) simp_all
qed simp

lemma retain_lease: "lease_ok n (snd (retainLocked i c)) = lease_ok n c"
  using retain_frame [of i c] by (simp add: lease_ok_def)

lemma retain_all_lease: "lease_ok n (snd (retain_all ks pins c)) = lease_ok n c"
proof (induction ks pins c rule: retain_all.induct)
  case (2 i rest pins c)
  obtain ok c1 where r: "retainLocked i c = (ok, c1)" by (cases "retainLocked i c")
  with 2 [OF r [symmetric]] retain_lease [of n i c] show ?case by simp
qed simp

lemma beginForeground_lease [wf_intros]:
  assumes "lease_ok n c" shows "lease_ok n (snd (beginForeground f req plan c))"
proof -
  obtain a b where ab: "foregroundRequestRange req plan = (a, b)" by (cases "foregroundRequestRange req plan")
  obtain kind cand c1 where sk: "seek_step f req a c = (kind, cand, c1)" by (cases "seek_step f req a c")
  let ?keys = "uniquePieceIndexes (Wanted plan)" and ?d = "c1\<lparr>nextTicket := Suc (nextTicket c1)\<rparr>"
  obtain pins c2 where rt: "retain_all ?keys [] ?d = (pins, c2)" by (cases "retain_all ?keys [] ?d")
  have "lease_ok n ?d" using assms seek_step_frame [OF sk] by (simp add: lease_ok_def)
  then have "lease_ok n c2" using retain_all_lease [of n ?keys "[]" ?d] rt by simp
  with assms show ?thesis
    by (simp add: beginForeground_def ab sk rt Let_def cancelLeases_ok)
qed

lemma removeForeground_lease [wf_intros]:
  assumes "lease_ok n c" shows "lease_ok n (snd (removeForegroundLocked i c))"
proof (cases "ticket_of c i")
  case (Some t)
  then show ?thesis by (rule removeForeground_form) (use assms in simp)
qed (use assms in \<open>simp add: removeForegroundLocked_def\<close>)

lemma drop_leases_ok [wf_intros]: "lease_ok n c \<Longrightarrow> lease_ok n (drop_leases c)"
  by (simp add: drop_leases_def cancelLeases_ok)

lemma confirmCandidate_lease: "lease_ok n c \<Longrightarrow> lease_ok n (snd (confirmCandidateLocked t c))"
proof -
  assume a: "lease_ok n c"
  have "lease_ok n (c\<lparr>cgen := g, anchor := x, hasAnchor := y, anchorConfirmed := z, consumed := u, candidate := v\<rparr>)" for g x y z u v
    using a by (simp add: lease_ok_def)
  with a show ?thesis
    by (simp add: confirmCandidateLocked_def Let_def drop_leases_ok split: option.split)
qed

lemma finish_effect_lease:
  assumes "lease_ok n c" shows "lease_ok n (snd (finish_effect t off k clean c))"
proof -
  obtain b c1 where r: "recordCandidateLocked t off k c = (b, c1)" by (cases "recordCandidateLocked t off k c")
  then obtain cd where c1: "c1 = c\<lparr>candidate := cd\<rparr>" by (rule recordCandidate_frame)
  have "lease_ok n c1" using assms by (simp add: c1)
  then show ?thesis
    using assms unfolding finish_effect_def by (cases "tKind t") (simp_all add: r confirmCandidate_lease)
qed

lemma dropUnconfirmed_lease [wf_intros]: "lease_ok n c \<Longrightarrow> lease_ok n (dropUnconfirmedAnchorLocked c)"
  by (simp add: dropUnconfirmedAnchorLocked_def drop_leases_ok)

lemma finishForeground_lease [wf_intros]:
  "lease_ok n c \<Longrightarrow> lease_ok n (snd (finishForeground i off k clean c))"
  by (simp add: finishForeground_def Let_def case_prod_beta dropUnconfirmed_lease removeForeground_lease
      finish_effect_lease split: option.split)

lemma startPiece_lease [wf_intros]: "lease_ok n c \<Longrightarrow> lease_ok n (startPiece j i c)"
  by (simp add: startPiece_def Let_def cancelLease_ok split: option.split)

lemma finishPiece_lease [wf_intros]: "lease_ok n c \<Longrightarrow> lease_ok n (finishPiece j i c)"
proof -
  assume a: "lease_ok n c"
  have "lease_ok n (snd (releaseForegroundPieceLocked i (t, c)))" for t
    using a by (simp add: releaseForegroundPieceLocked_def)
  with a show ?thesis by (simp add: finishPiece_def case_prod_beta split: option.split)
qed

lemma reserve_loop_lease: "lease_ok n c \<Longrightarrow> reserve_loop ds p c = (p', b, c') \<Longrightarrow> lease_ok n c'"
proof (induction ds p c rule: reserve_loop.induct)
  case (2 i rest p c)
  obtain ok c1 where r: "retainLocked i c = (ok, c1)" by (cases "retainLocked i c")
  then have "lease_ok n c1" using retain_lease [of n i c] "2.prems"(1) by simp
  with 2 r show ?case by (cases ok) (auto split: if_splits)
qed simp

lemma reconcile_lease [wf_intros]:
  assumes "lease_ok n c" shows "lease_ok n (reconcile c)"
proof (cases "pclosed c \<or> \<not> hasAnchor c")
  case True
  with assms show ?thesis by (auto simp: reconcile_def)
next
  case False
  let ?c1 = "updateBufferedLocked c"
  let ?ds = "desiredPiecesLocked ?c1"
  let ?c2 = "fold unpin_window (filter (\<lambda>i. i \<notin> set ?ds) (windowPins ?c1)) ?c1"
  let ?c3 = "cancelUnneededActiveLocked ?ds ?c2"
  obtain p b c4 where rl: "reserve_loop ?ds 0 ?c3 = (p, b, c4)" by (cases "reserve_loop ?ds 0 ?c3")
  have "lease_ok n ?c2" using assms by (simp add: updateBufferedLocked_def Let_def)
  then have "lease_ok n ?c3" by (simp add: cancelUnneededActiveLocked_def cancelLeases_ok)
  then have "lease_ok n c4" using rl by (rule reserve_loop_lease)
  with False show ?thesis
    by (simp add: reconcile_def Let_def rl computeWatermarksLocked_def completeActive_ok fill_loop_ok)
qed

lemma remove_tickets_lease: "lease_ok n c \<Longrightarrow> lease_ok n (snd (remove_tickets is c))"
proof (induction "is" arbitrary: c)
  case (Cons i "is")
  show ?case
    using Cons.IH [OF removeForeground_lease [OF Cons.prems]] by (simp add: case_prod_beta)
qed simp

lemma releaseFile_lease [wf_intros]:
  assumes "lease_ok n c" shows "lease_ok n (snd (releaseFile f c))"
proof -
  obtain xs c1 where r: "remove_tickets (map tId (filter (\<lambda>t. fid (tFile t) = fid f) (foreground c))) c = (xs, c1)"
    by (cases "remove_tickets (map tId (filter (\<lambda>t. fid (tFile t) = fid f) (foreground c))) c")
  with remove_tickets_lease [OF assms] have "lease_ok n c1" by (metis snd_conv)
  with assms show ?thesis
    by (simp add: releaseFile_def r Let_def drop_leases_ok split: option.split)
qed

lemma close_leases:
  "int (length xs) \<le> bused (pbudget c) \<Longrightarrow>
     bused (pbudget (fold close_lease xs c)) = bused (pbudget c) - int (length xs) \<and>
     raised (calls (fold close_lease xs c)) = raised (calls c) - set xs"
proof (induction xs arbitrary: c)
  case (Cons x xs)
  have "bused (pbudget (close_lease x c)) = bused (pbudget c) - 1" "raised (calls (close_lease x c)) = raised (calls c) - {x}"
    using Cons.prems by (simp_all add: close_lease_def budget_release_def)
  with Cons.IH [of "close_lease x c"] Cons.prems show ?case by auto
qed simp

lemma cleanup_lease [wf_intros]:
  assumes "lease_ok n c" shows "lease_ok n (snd (cleanup c))"
proof (cases "pclosed c")
  case False
  obtain xs c1 where r: "remove_tickets (map tId (foreground c)) (c\<lparr>pclosed := True\<rparr>) = (xs, c1)"
    by (cases "remove_tickets (map tId (foreground c)) (c\<lparr>pclosed := True\<rparr>)")
  have "lease_ok n (c\<lparr>pclosed := True\<rparr>)" using assms by simp
  from remove_tickets_lease [OF this, of "map tId (foreground c)"] r have "lease_ok n c1" by simp
  with close_leases [of "active c1" c1] False show ?thesis
    by (simp add: cleanup_def r Let_def lease_ok_def)
qed (use assms in \<open>simp add: cleanup_def\<close>)

section \<open>Invariant: the seek candidate\<close>

definition cand_fine :: "seekCandidate \<Rightarrow> bool" where
  "cand_fine cd \<longleftrightarrow> cReadings cd = int (length (cTickets cd)) \<and> distinct (cTickets cd) \<and> spans_ok (cSpans cd) \<and>
     cUnique cd = int (card (span_set (cSpans cd)))"

definition cand_ok :: "coord \<Rightarrow> bool" where
  "cand_ok c \<longleftrightarrow> (case candidate c of None \<Rightarrow> True | Some cd \<Rightarrow> cand_fine cd \<and> cReadings cd < 2)"

lemma seek_frame [simp]:
  "candidate (releaseLocked i c) = candidate c" "candidate (cancelLeaseLocked i c) = candidate c"
  "candidate (complete_one i c) = candidate c" "candidate (unpin_window i c) = candidate c"
  "candidate (snd (retainLocked i c)) = candidate c" "candidate (set_ticket t c) = candidate c"
  "cgen (releaseLocked i c) = cgen c" "cgen (cancelLeaseLocked i c) = cgen c" "cgen (unpin_window i c) = cgen c"
  "cgen (set_ticket t c) = cgen c" "cgen (recordConsumedLocked off n c) = cgen c" "cgen (forget_anchor c) = cgen c"
  "anchor (releaseLocked i c) = anchor c" "anchor (unpin_window i c) = anchor c" "anchor (set_ticket t c) = anchor c"
  "anchor (forget_anchor c) = anchor c" "anchorConfirmed (releaseLocked i c) = anchorConfirmed c"
  "cgen (advanceAnchorLocked c) = cgen c"
  by (auto simp: releaseLocked_def cancelLeaseLocked_def complete_one_def unpin_window_def retainLocked_def
      set_ticket_def recordConsumedLocked_def forget_anchor_def advanceAnchorLocked_def Let_def
      split: prod.split option.split)

lemma seek_folds [simp]:
  "candidate (fold releaseLocked xs c) = candidate c" "candidate (fold cancelLeaseLocked xs c) = candidate c"
  "candidate (fold complete_one xs c) = candidate c" "candidate (fold unpin_window xs c) = candidate c"
  "candidate (fold (\<lambda>index c. if P index c then c else cancelLeaseLocked index c) xs c) = candidate c"
  "cgen (fold releaseLocked xs c) = cgen c" "cgen (fold cancelLeaseLocked xs c) = cgen c"
  "cgen (fold unpin_window xs c) = cgen c" "anchor (fold releaseLocked xs c) = anchor c"
  "anchor (fold cancelLeaseLocked xs c) = anchor c" "anchor (fold unpin_window xs c) = anchor c"
  "anchorConfirmed (fold releaseLocked xs c) = anchorConfirmed c"
  by (induction xs arbitrary: c) simp_all

lemma seek_drops [simp]:
  "candidate (drop_window c) = candidate c" "candidate (drop_leases c) = candidate c"
  "cgen (drop_window c) = cgen c" "cgen (drop_leases c) = cgen c"
  "anchor (drop_window c) = anchor c" "anchor (drop_leases c) = anchor c"
  by (simp_all add: drop_window_def drop_leases_def)

lemma retain_all_candidate: "candidate (snd (retain_all ks pins c)) = candidate c"
proof (induction ks pins c rule: retain_all.induct)
  case (2 i rest pins c)
  obtain ok c1 where r: "retainLocked i c = (ok, c1)" by (cases "retainLocked i c")
  with 2 [OF r [symmetric]] seek_frame(5) [of i c] show ?case by simp
qed simp

lemma cand_fine_new: "cand_fine \<lparr>cId = n, cGeneration = g, cFile = f, cStart = s, cSpans = [], cTickets = [], cUnique = 0, cReadings = 0\<rparr>"
  by (simp add: cand_fine_def spans_ok_def)

lemma beginForeground_cand [wf_intros]:
  assumes "cand_ok c" shows "cand_ok (snd (beginForeground f req plan c))"
proof -
  obtain a b where ab: "foregroundRequestRange req plan = (a, b)" by (cases "foregroundRequestRange req plan")
  obtain kind cand c1 where sk: "seek_step f req a c = (kind, cand, c1)" by (cases "seek_step f req a c")
  let ?keys = "uniquePieceIndexes (Wanted plan)" and ?d = "c1\<lparr>nextTicket := Suc (nextTicket c1)\<rparr>"
  obtain pins c2 where rt: "retain_all ?keys [] ?d = (pins, c2)" by (cases "retain_all ?keys [] ?d")
  have "cand_ok c1" using assms sk
    by (auto simp: seek_step_def Let_def cand_ok_def cand_fine_new split: if_splits)
  then have "cand_ok c2" using retain_all_candidate [of ?keys "[]" ?d] rt by (simp add: cand_ok_def)
  with assms show ?thesis by (simp add: beginForeground_def ab sk rt Let_def cand_ok_def)
qed

lemma merge_added:
  "spans_ok ss \<Longrightarrow> mergeByteSpan ss a = (spans, added) \<Longrightarrow>
     spans_ok spans \<and> int (card (span_set spans)) = int (card (span_set ss)) + added \<and> 0 \<le> added"
  using mergeByteSpan_spec [of ss a] card_Un_disjoint [of "span_set ss" "{sp_start a..<sp_end a} - span_set ss"]
  by auto

lemma recordCandidate_cases:
  assumes "cand_ok c" and "recordCandidateLocked t off n c = (b, c')"
  shows "if b then \<exists>cd cd'. candidate c = Some cd \<and> c' = c\<lparr>candidate := Some cd'\<rparr> \<and> tCandidate t = cId cd \<and> cId cd' = cId cd \<and>
        cFile cd' = cFile cd \<and> cStart cd' = cStart cd \<and> fid (tFile t) = fid (cFile cd) \<and>
        tId t \<notin> set (cTickets cd) \<and> length (cTickets cd) = 1 \<and> spans_ok (cSpans cd')
     else cand_ok c'"
proof (cases "candidate c")
  case None
  with assms show ?thesis by (auto simp: recordCandidateLocked_def)
next
  case (Some cd)
  have cd: "cand_fine cd" "cReadings cd < 2" using assms(1) Some by (simp_all add: cand_ok_def)
  obtain s e where se: "clampReadSpan off n (fSize (cFile cd)) = (s, e)" by (cases "clampReadSpan off n (fSize (cFile cd))")
  obtain spans added where m: "mergeByteSpan (cSpans cd) (Span s e) = (spans, added)" by (cases "mergeByteSpan (cSpans cd) (Span s e)")
  have ok: "spans_ok spans" "int (card (span_set spans)) = int (card (span_set (cSpans cd))) + added"
    using merge_added [OF _ m] cd by (auto simp: cand_fine_def)
  have new: "cand_fine (cd\<lparr>cSpans := spans, cTickets := tId t # cTickets cd, cUnique := cUnique cd + added, cReadings := cReadings cd + 1\<rparr>)"
    if "tId t \<notin> set (cTickets cd)"
    using cd that ok by (simp add: cand_fine_def)
  have old: "cand_fine (cd\<lparr>cSpans := spans\<rparr>)" if "added \<le> 0"
    using cd that ok merge_added [OF _ m] by (simp add: cand_fine_def)
  show ?thesis
    using assms Some cd ok new old
    by (auto simp: recordCandidateLocked_def se m Let_def cand_ok_def cand_fine_def split: if_splits) (simp add: Suc_le_eq)
qed

lemma confirmed_frame [simp]:
  "anchorConfirmed (cancelLeaseLocked i c) = anchorConfirmed c" "anchorConfirmed (unpin_window i c) = anchorConfirmed c"
  "anchorConfirmed (advanceAnchorLocked c) = anchorConfirmed c" "aFile (anchor (advanceAnchorLocked c)) = aFile (anchor c)"
  "anchorConfirmed (set_ticket t c) = anchorConfirmed c"
  by (auto simp: cancelLeaseLocked_def unpin_window_def advanceAnchorLocked_def set_ticket_def Let_def
      split: prod.split option.split)

lemma confirmed_folds [simp]:
  "anchorConfirmed (fold cancelLeaseLocked xs c) = anchorConfirmed c"
  "anchorConfirmed (fold unpin_window xs c) = anchorConfirmed c"
  by (induction xs arbitrary: c) simp_all

lemma confirmed_drops [simp]:
  "anchorConfirmed (drop_window c) = anchorConfirmed c" "anchorConfirmed (drop_leases c) = anchorConfirmed c"
  by (simp_all add: drop_window_def drop_leases_def)

lemma advance_no_candidate: "candidate c = None \<Longrightarrow> candidate (advanceAnchorLocked c) = None"
  by (simp add: advanceAnchorLocked_def Let_def split: prod.split)

lemma advance_cand_ok: "cand_ok c \<Longrightarrow> cand_ok (advanceAnchorLocked c)"
  by (auto simp: advanceAnchorLocked_def Let_def cand_ok_def split: prod.split option.split)

lemma confirmCandidate_result:
  assumes "candidate c = Some cd" and "tCandidate t = cId cd" and "fid (tFile t) = fid (cFile cd)"
  shows "candidate (snd (confirmCandidateLocked t c)) = None"
    and "cgen (snd (confirmCandidateLocked t c)) = cgen c + 1"
    and "aFile (anchor (snd (confirmCandidateLocked t c))) = Some (fid (cFile cd))"
    and "anchorConfirmed (snd (confirmCandidateLocked t c))"
  using assms by (simp_all add: confirmCandidateLocked_def Let_def advance_no_candidate)

lemma finish_effect_cand: "cand_ok c \<Longrightarrow> cand_ok (snd (finish_effect t off n clean c))"
proof -
  assume a: "cand_ok c"
  obtain b c1 where r: "recordCandidateLocked t off n c = (b, c1)" by (cases "recordCandidateLocked t off n c")
  have "cand_ok (snd (if b then confirmCandidateLocked t c1 else (t, c1)))"
    using recordCandidate_cases [OF a r] confirmCandidate_result(1) [of c1 _ t] by (cases b) (auto simp: cand_ok_def)
  moreover have "cand_ok (recordConsumedLocked off n c)"
    using a advance_cand_ok [of "c\<lparr>consumed := _\<rparr>"]
    by (auto simp: recordConsumedLocked_def Let_def cand_ok_def split: prod.split)
  ultimately show ?thesis using a unfolding finish_effect_def by (cases "tKind t") (simp_all add: r)
qed

lemma removeForeground_seek [simp]:
  "candidate (snd (removeForegroundLocked i c)) = candidate c" "cgen (snd (removeForegroundLocked i c)) = cgen c"
  "anchor (snd (removeForegroundLocked i c)) = anchor c" "anchorConfirmed (snd (removeForegroundLocked i c)) = anchorConfirmed c"
proof -
  have "candidate (snd (removeForegroundLocked i c)) = candidate c \<and> cgen (snd (removeForegroundLocked i c)) = cgen c \<and>
    anchor (snd (removeForegroundLocked i c)) = anchor c \<and> anchorConfirmed (snd (removeForegroundLocked i c)) = anchorConfirmed c"
  proof (cases "ticket_of c i")
    case (Some t)
    then show ?thesis by (rule removeForeground_form) simp
  qed (simp add: removeForegroundLocked_def)
  then show "candidate (snd (removeForegroundLocked i c)) = candidate c" "cgen (snd (removeForegroundLocked i c)) = cgen c"
    "anchor (snd (removeForegroundLocked i c)) = anchor c" "anchorConfirmed (snd (removeForegroundLocked i c)) = anchorConfirmed c"
    by simp_all
qed

lemma dropUnconfirmed_cand: "cand_ok c \<Longrightarrow> cand_ok (dropUnconfirmedAnchorLocked c)"
  by (simp add: dropUnconfirmedAnchorLocked_def forget_anchor_def cand_ok_def)

lemma finishForeground_cand [wf_intros]:
  assumes "cand_ok c" shows "cand_ok (snd (finishForeground i off n clean c))"
proof -
  have "cand_ok (snd (removeForegroundLocked i (snd (finish_effect t off n clean c))))" for t
    using finish_effect_cand [OF assms, of t off n clean] by (simp add: cand_ok_def)
  with assms show ?thesis
    by (simp add: finishForeground_def Let_def case_prod_beta dropUnconfirmed_cand split: option.split)
qed

lemma piece_cand [wf_intros]:
  "cand_ok c \<Longrightarrow> cand_ok (startPiece j i c)" "cand_ok c \<Longrightarrow> cand_ok (finishPiece j i c)"
  by (auto simp: startPiece_def finishPiece_def releaseForegroundPieceLocked_def Let_def cand_ok_def split: option.split)

lemma remove_tickets_candidate: "candidate (snd (remove_tickets is c)) = candidate c"
  by (induction "is" arbitrary: c) (simp_all add: case_prod_beta)

lemma end_cand [wf_intros]:
  assumes "cand_ok c" shows "cand_ok (snd (releaseFile f c))" and "cand_ok (snd (cleanup c))"
proof -
  show "cand_ok (snd (releaseFile f c))"
    using assms by (cases "candidate c")
      (simp_all add: releaseFile_def Let_def case_prod_beta forget_anchor_def cand_ok_def remove_tickets_candidate)
  show "cand_ok (snd (cleanup c))" using assms by (simp add: cleanup_def Let_def case_prod_beta cand_ok_def)
qed

lemma reserve_loop_candidate: "reserve_loop ds p c = (p', b, c') \<Longrightarrow> candidate c' = candidate c"
proof (induction ds p c rule: reserve_loop.induct)
  case (2 i rest p c)
  obtain ok c1 where r: "retainLocked i c = (ok, c1)" by (cases "retainLocked i c")
  with 2 seek_frame(5) [of i c] show ?case by (cases ok) (auto split: if_splits)
qed simp

lemma fill_loop_candidate [simp]: "candidate (fill_loop ds c) = candidate c"
proof (induction ds c rule: fill_loop.induct)
  case (2 i rest c)
  obtain ok b where a: "tryAcquire (pbudget c) = (ok, b)" by (cases "tryAcquire (pbudget c)")
  from 2 a show ?case by (cases ok) simp_all
qed simp

lemma reconcile_cand [wf_intros]:
  assumes "cand_ok c" shows "cand_ok (reconcile c)"
proof (cases "pclosed c \<or> \<not> hasAnchor c")
  case True
  with assms show ?thesis by (auto simp: reconcile_def)
next
  case False
  let ?c1 = "updateBufferedLocked c"
  let ?ds = "desiredPiecesLocked ?c1"
  let ?c2 = "fold unpin_window (filter (\<lambda>i. i \<notin> set ?ds) (windowPins ?c1)) ?c1"
  let ?c3 = "cancelUnneededActiveLocked ?ds ?c2"
  obtain p b c4 where rl: "reserve_loop ?ds 0 ?c3 = (p, b, c4)" by (cases "reserve_loop ?ds 0 ?c3")
  have "candidate c4 = candidate c"
    using reserve_loop_candidate [OF rl] by (simp add: cancelUnneededActiveLocked_def updateBufferedLocked_def Let_def)
  with assms False show ?thesis
    by (simp add: reconcile_def Let_def rl computeWatermarksLocked_def completeActiveLocked_def cand_ok_def)
qed

section \<open>Reachable states\<close>

text \<open>
  The state of one coordinator while its own steps interleave with other users of the cache, which
  do not pin pieces of this torrent, and of the budget; \<open>others\<close> is the number of budget units the
  other coordinators hold.
\<close>

inductive coord_reach :: "int \<Rightarrow> coord \<Rightarrow> bool" where
  init: "(\<forall>i. Key key i \<notin> set (pinned pc0)) \<Longrightarrow> 0 \<le> bused b \<Longrightarrow> coord_reach (bused b) (newPrefetchCoordinator key pc0 b)"
| begin_read: "coord_reach n c \<Longrightarrow> coord_reach n (snd (beginForeground f req plan c))"
| finish_read: "coord_reach n c \<Longrightarrow> coord_reach n (snd (finishForeground i off k clean c))"
| start_piece: "coord_reach n c \<Longrightarrow> coord_reach n (startPiece i j c)"
| finish_piece: "coord_reach n c \<Longrightarrow> coord_reach n (finishPiece i j c)"
| stale: "coord_reach n c \<Longrightarrow> coord_reach n (recordStaleSpan c)"
| pass: "coord_reach n c \<Longrightarrow> coord_reach n (reconcile c)"
| release: "coord_reach n c \<Longrightarrow> coord_reach n (snd (releaseFile f c))"
| clean: "coord_reach n c \<Longrightarrow> coord_reach n (snd (cleanup c))"
| cache_user: "coord_reach n c \<Longrightarrow> (\<forall>i. pkey_of c i \<in> set (pinned pc1) \<longleftrightarrow> pkey_of c i \<in> set (pinned (pcache c))) \<Longrightarrow>
    coord_reach n (c\<lparr>pcache := pc1\<rparr>)"
| budget_user: "coord_reach n c \<Longrightarrow> 0 \<le> m \<Longrightarrow> bused b = m + int (length (active c)) \<Longrightarrow> coord_reach m (c\<lparr>pbudget := b\<rparr>)"

lemma coord_reach_refs: "coord_reach n c \<Longrightarrow> refs_ok c"
proof (induction rule: coord_reach.induct)
  case (init key pc0 b)
  then show ?case by (simp add: refs_defs newPrefetchCoordinator_def)
next
  case (cache_user n c pc1)
  then show ?case by (simp add: refs_defs)
qed (simp_all add: wf_intros recordStaleSpan_def)

lemma coord_reach_lease: "coord_reach n c \<Longrightarrow> lease_ok n c"
proof (induction rule: coord_reach.induct)
  case (init key pc0 b)
  then show ?case by (simp add: lease_ok_def newPrefetchCoordinator_def)
next
  case (budget_user n c m b)
  then show ?case by (simp add: lease_ok_def)
qed (simp_all add: wf_intros recordStaleSpan_def)

lemma coord_reach_cand: "coord_reach n c \<Longrightarrow> cand_ok c"
proof (induction rule: coord_reach.induct)
  case (init key pc0 b)
  then show ?case by (simp add: cand_ok_def newPrefetchCoordinator_def)
next
  case (stale n c)
  then show ?case by (simp add: recordStaleSpan_def cand_ok_def)
next
  case (cache_user n c pc1)
  then show ?case by (simp add: cand_ok_def)
next
  case (budget_user n c m b)
  then show ?case by (simp add: cand_ok_def)
qed (simp_all add: wf_intros)

section \<open>Properties\<close>

text \<open>
  C7: in every reachable state the pieces of the torrent that are pinned in the
  shared cache are exactly the pieces that a foreground ticket or the playback window holds, and
  each reference count is the number of these holders: no pin leaks and none is released early.
\<close>
theorem prefetch_pins_counted:
  assumes "coord_reach n c"
  shows "(\<forall>i. aget (refs c) i = uses c i) \<and>
    (\<forall>i. Key (torrentKey c) i \<in> set (pinned (pcache c)) \<longleftrightarrow>
       i \<in> set (windowPins c) \<or> (\<exists>t \<in> set (foreground c). i \<in> set (tPinned t)))"
proof -
  have r: "ref_state c (uses c)" using coord_reach_refs [OF assms] by (simp add: refs_ok_def)
  moreover have "0 < uses c i \<longleftrightarrow> i \<in> set (windowPins c) \<or> (\<exists>t \<in> set (foreground c). i \<in> set (tPinned t))" for i
    by (auto simp: uses_def filter_empty_conv add_nonneg_pos add_pos_nonneg)
  ultimately show ?thesis by (simp add: ref_state_def pkey_of_def)
qed

abbreviation sample_coord :: coord where
  "sample_coord \<equiv> newPrefetchCoordinator ''t'' (New 1000) (newPrefetchBudget 4)"

abbreviation sample_file :: fileRef where
  "sample_file \<equiv> \<lparr>fid = 1, fOffset = 0, fSize = 15, fPieceLength = 4, fTorrentSize = 30\<rparr>"

lemma sample_coord_reach: "coord_reach 0 sample_coord"
  using coord_reach.init [of "''t''" "New 1000" "newPrefetchBudget 4"] by (simp add: New_def newPrefetchBudget_def)

theorem prefetch_pins_counted_witness:
  "aget (refs (snd (beginForeground sample_file sample_request (Plan sample_request) sample_coord))) 2 =
     uses (snd (beginForeground sample_file sample_request (Plan sample_request) sample_coord)) 2"
  using prefetch_pins_counted [OF coord_reach.begin_read [OF sample_coord_reach]] by blast

text \<open>
  C10: in every reachable state the coordinator holds exactly one unit of the
  shared budget for every active background piece, and the pieces whose priority it raised in the
  torrent library and did not cancel again are exactly the active ones.
\<close>
theorem prefetch_leases_balanced:
  assumes "coord_reach n c"
  shows "bused (pbudget c) = n + int (length (active c)) \<and> distinct (active c) \<and> raised (calls c) = set (active c)"
  using coord_reach_lease [OF assms] by (simp add: lease_ok_def)

theorem prefetch_leases_balanced_witness:
  "raised (calls (reconcile sample_coord)) = set (active (reconcile sample_coord))"
  using prefetch_leases_balanced [OF coord_reach.pass [OF sample_coord_reach]] by blast

text \<open>
  prefetch_cleanup_releases: closing a coordinator returns everything: no ticket, no lease and no
  pin of the torrent is left, and the budget is back at what the other coordinators hold.
\<close>
theorem prefetch_cleanup_releases:
  assumes "coord_reach n c" and "\<not> pclosed c" and "snd (cleanup c) = d"
  shows "foreground d = [] \<and> active d = [] \<and> raised (calls d) = {} \<and> bused (pbudget d) = n \<and>
    (\<forall>i. Key (torrentKey d) i \<notin> set (pinned (pcache d)))"
proof -
  have "coord_reach n d" using coord_reach.clean [OF assms(1)] assms(3) by simp
  note inv = coord_reach_lease [OF this] coord_reach_refs [OF this]
  have e: "active d = []" "foreground d = []" "windowPins d = []"
    using assms(2,3) by (auto simp: cleanup_def Let_def case_prod_beta)
  have "uses d i = 0" for i by (simp add: uses_def e)
  then show ?thesis using inv e by (simp add: lease_ok_def refs_ok_def ref_state_def pkey_of_def)
qed

theorem prefetch_cleanup_releases_witness:
  "bused (pbudget (snd (cleanup sample_coord))) = 0"
proof -
  have "\<not> pclosed sample_coord" by (simp add: newPrefetchCoordinator_def)
  from prefetch_cleanup_releases [OF sample_coord_reach this refl] show ?thesis by blast
qed

text \<open>
  prefetch_seek_needs_two_reads: finishing a read moves the playback anchor to a new generation
  only when the candidate position was read successfully by two different tickets, the finishing
  one and an earlier one; the anchor is then confirmed and belongs to the candidate's file.
\<close>
theorem prefetch_seek_needs_two_reads:
  assumes "coord_reach m c" and "cgen (snd (finishForeground i off n clean c)) \<noteq> cgen c"
  shows "\<exists>cd t j. candidate c = Some cd \<and> ticket_of c i = Some t \<and> tCandidate t = cId cd \<and> cTickets cd = [j] \<and> j \<noteq> i \<and>
    0 < n \<and> clean \<and> cgen (snd (finishForeground i off n clean c)) = cgen c + 1 \<and>
    aFile (anchor (snd (finishForeground i off n clean c))) = Some (fid (cFile cd))"
proof -
  from assms(2) obtain t where t: "ticket_of c i = Some t" by (cases "ticket_of c i") (auto simp: finishForeground_def)
  then have ti: "tId t = i" using ticket_of_mem by blast
  let ?e = "finish_effect t off n clean c"
  have dg: "cgen (dropUnconfirmedAnchorLocked d) = cgen d" "anchor (dropUnconfirmedAnchorLocked d) = anchor d" for d
    by (simp_all add: dropUnconfirmedAnchorLocked_def)
  have fin: "cgen (snd (finishForeground i off n clean c)) = cgen (snd ?e)"
    "anchor (snd (finishForeground i off n clean c)) = anchor (snd ?e)"
    by (simp_all add: finishForeground_def t Let_def case_prod_beta dg)
  obtain b c1 where r: "recordCandidateLocked t off n c = (b, c1)" by (cases "recordCandidateLocked t off n c")
  then obtain cdx where c1: "c1 = c\<lparr>candidate := cdx\<rparr>" by (rule recordCandidate_frame)
  have e: "b" "?e = confirmCandidateLocked t c1" "0 < n" "clean"
    using assms(2) unfolding fin finish_effect_def by (auto simp: r c1 split: if_splits foregroundKind.splits)
  from recordCandidate_cases [OF coord_reach_cand [OF assms(1)] r] e(1) obtain cd cd' where cd:
    "candidate c = Some cd" "c1 = c\<lparr>candidate := Some cd'\<rparr>" "tCandidate t = cId cd" "cId cd' = cId cd"
    "cFile cd' = cFile cd" "fid (tFile t) = fid (cFile cd)" "tId t \<notin> set (cTickets cd)" "length (cTickets cd) = 1"
    by auto
  then obtain j where "cTickets cd = [j]" by (auto simp: length_Suc_conv)
  have "cgen (snd (finishForeground i off n clean c)) = cgen c + 1"
    "aFile (anchor (snd (finishForeground i off n clean c))) = Some (fid (cFile cd))"
    using confirmCandidate_result [of c1 cd' t] cd unfolding fin e(2) by simp_all
  with cd t ti e \<open>cTickets cd = [j]\<close> show ?thesis
    by (intro exI [of _ cd] exI [of _ t] exI [of _ j]) simp
qed

text \<open>A large file: a first read at its start, then one read far behind the playback window.\<close>

definition far_file :: fileRef where
  "far_file = \<lparr>fid = 1, fOffset = 0, fSize = 2 ^ 30, fPieceLength = 2 ^ 24, fTorrentSize = 2 ^ 30\<rparr>"

definition far_request :: "int \<Rightarrow> ReadRequest" where
  "far_request off = \<lparr>FileOffset = off, Length = 4, FileStart = 0, FileSize = 2 ^ 30, PieceLength = 2 ^ 24, TorrentLength = 2 ^ 30\<rparr>"

definition far_read :: "int \<Rightarrow> coord \<Rightarrow> coord" where
  "far_read off c = snd (beginForeground far_file (far_request off) (Plan (far_request off)) c)"

definition far_coord :: coord where
  "far_coord = far_read (2 ^ 29 + 4) (snd (finishForeground 2 (2 ^ 29) 4 True (far_read (2 ^ 29)
     (snd (finishForeground 1 0 4 True (far_read 0 (newPrefetchCoordinator ''t'' (New (2 ^ 29)) (newPrefetchBudget 4))))))))"

lemma far_coord_reach: "coord_reach 0 far_coord"
proof -
  have "coord_reach 0 (newPrefetchCoordinator ''t'' (New (2 ^ 29)) (newPrefetchBudget 4))"
    using coord_reach.init [of "''t''" "New (2 ^ 29)" "newPrefetchBudget 4"] by (simp add: New_def newPrefetchBudget_def)
  then show ?thesis unfolding far_coord_def far_read_def by (intro coord_reach.intros)
qed

theorem prefetch_seek_needs_two_reads_witness:
  "\<exists>cd j. candidate far_coord = Some cd \<and> cTickets cd = [j] \<and> j \<noteq> 3"
proof -
  have "cgen (snd (finishForeground 3 (2 ^ 29 + 4) 4 True far_coord)) \<noteq> cgen far_coord" by code_simp
  from prefetch_seek_needs_two_reads [OF far_coord_reach this] show ?thesis by blast
qed

definition anchor_ok :: "coord \<Rightarrow> bool" where
  "anchor_ok c \<longleftrightarrow> hasAnchor c \<and> spans_ok (consumed c) \<and> span_set (consumed c) \<subseteq> {0..<aFileSize (anchor c)} \<and>
     0 \<le> aCursor (anchor c) \<and> aCursor (anchor c) \<le> aFileSize (anchor c) \<and> is_int64 (aFileSize (anchor c))"

lemma anchor_ok_confirmed [simp]: "anchor_ok (c\<lparr>anchorConfirmed := b\<rparr>) = anchor_ok c"
  by (simp add: anchor_ok_def)

lemma advanceAnchor_exact:
  assumes "anchor_ok c"
  shows "aCursor (anchor c) \<le> aCursor (anchor (advanceAnchorLocked c)) \<and>
    {aCursor (anchor c)..<aCursor (anchor (advanceAnchorLocked c))} \<subseteq> span_set (consumed c) \<and>
    aCursor (anchor (advanceAnchorLocked c)) \<notin> span_set (consumed c) \<and> anchor_ok (advanceAnchorLocked c)"
proof -
  let ?k = "aCursor (anchor c)" and ?n = "aFileSize (anchor c)"
  note a = assms [unfolded anchor_ok_def]
  from advance_loop_spec [of "consumed c" ?k "[]"] a obtain k' where
    l: "advance_loop ?k [] (consumed c) = (k', filter (\<lambda>s. k' < sp_start s) (consumed c))"
    and k': "?k \<le> k'" "{?k..<k'} \<subseteq> span_set (consumed c)" "k' \<notin> span_set (consumed c)" by auto
  have "k' \<le> ?n"
  proof (cases "?k = k'")
    case False
    then have "k' - 1 \<in> span_set (consumed c)" using k' by auto
    then show ?thesis using a by auto
  qed (use a in simp)
  then have cl: "clampCursor k' ?n = k'" using k'(1) a by (simp add: clampCursor_def)
  have c': "anchor (advanceAnchorLocked c) = (anchor c)\<lparr>aCursor := k', aCommitted := k'\<rparr>"
    "consumed (advanceAnchorLocked c) = filter (\<lambda>s. k' < sp_start s) (consumed c)" "hasAnchor (advanceAnchorLocked c)"
    using a by (auto simp: advanceAnchorLocked_def l Let_def cl split: option.split)
  have "spans_ok (filter P xs)" if "spans_ok xs" for P xs
    using that by (auto simp: spans_ok_def sorted_wrt_filter)
  moreover have "span_set (filter P xs) \<subseteq> span_set xs" for P xs by (auto simp: span_set_def)
  ultimately have "anchor_ok (advanceAnchorLocked c)"
    unfolding anchor_ok_def c'(1,2) using a c'(3) k'(1) \<open>k' \<le> ?n\<close> by (metis (no_types, lifting) order_trans
        prefetchAnchor.select_convs(3,6) prefetchAnchor.surjective prefetchAnchor.update_convs(6,7))
  with k' show ?thesis unfolding c' by simp
qed

text \<open>
  prefetch_cursor_exact: recording a successful read moves the playback cursor to the first byte
  that has not been read, counting the new read and all earlier ones, and never backwards.
\<close>
theorem prefetch_cursor_exact:
  assumes "anchor_ok c" and "is_int64 off" and "0 \<le> n" and "is_int64 n" and "recordConsumedLocked off n c = c'"
    and "R = span_set (consumed c) \<union> ({off..<off + n} \<inter> {0..<aFileSize (anchor c)})"
    and "aCursor (anchor c) \<notin> span_set (consumed c)"
  shows "aCursor (anchor c) \<le> aCursor (anchor c') \<and> {aCursor (anchor c)..<aCursor (anchor c')} \<subseteq> R \<and>
    aCursor (anchor c') \<notin> R \<and> anchor_ok c'"
proof -
  obtain s e where se: "clampReadSpan off n (aFileSize (anchor c)) = (s, e)"
    by (cases "clampReadSpan off n (aFileSize (anchor c))")
  have b: "{s..<e} = {off..<off + n} \<inter> {0..<aFileSize (anchor c)}" "s \<le> e"
    using clampReadSpan_spec [OF assms(2-4), of "aFileSize (anchor c)"] assms(1) by (simp_all add: se anchor_ok_def)
  show ?thesis
  proof (cases "e \<le> s")
    case True
    then have "c' = c" using assms(1,5) by (simp add: recordConsumedLocked_def se anchor_ok_def)
    moreover have "R = span_set (consumed c)" using assms(6) b True by auto
    ultimately show ?thesis using assms(1,7) by simp
  next
    case False
    let ?d = "c\<lparr>consumed := fst (mergeByteSpan (consumed c) (Span s e))\<rparr>"
    have m: "spans_ok (consumed ?d)" "span_set (consumed ?d) = R"
      using mergeByteSpan_spec [of "consumed c" "Span s e"] assms(1,6) b by (auto simp: anchor_ok_def)
    have "R \<subseteq> {0..<aFileSize (anchor c)}" using assms(1,6) by (auto simp: anchor_ok_def)
    then have "anchor_ok ?d" using assms(1) m by (simp add: anchor_ok_def)
    from advanceAnchor_exact [OF this] m(2)
    have "aCursor (anchor c) \<le> aCursor (anchor (advanceAnchorLocked ?d)) \<and>
        {aCursor (anchor c)..<aCursor (anchor (advanceAnchorLocked ?d))} \<subseteq> R \<and>
        aCursor (anchor (advanceAnchorLocked ?d)) \<notin> R \<and> anchor_ok (advanceAnchorLocked ?d)" by simp
    moreover have "c' = (if aCursor (anchor (advanceAnchorLocked ?d)) > aCursor (anchor c)
        then (advanceAnchorLocked ?d)\<lparr>anchorConfirmed := True\<rparr> else advanceAnchorLocked ?d)"
    proof -
      have "hasAnchor c" using assms(1) by (simp add: anchor_ok_def)
      with assms(5) False show ?thesis by (simp add: recordConsumedLocked_def se Let_def)
    qed
    ultimately show ?thesis by simp
  qed
qed

theorem prefetch_cursor_exact_witness:
  "let c = sample_coord\<lparr>hasAnchor := True, consumed := [Span 6 9], anchor := zeroAnchor\<lparr>aFileSize := 20, aCursor := 2\<rparr>\<rparr>
   in aCursor (anchor (recordConsumedLocked 1 5 c)) \<notin> span_set [Span 6 9] \<union> ({1..<6} \<inter> {0..<20})"
  using prefetch_cursor_exact [of "sample_coord\<lparr>hasAnchor := True, consumed := [Span 6 9],
      anchor := zeroAnchor\<lparr>aFileSize := 20, aCursor := 2\<rparr>\<rparr>" 1 5, OF _ _ _ _ refl refl]
  by (simp add: anchor_ok_def spans_ok_def is_int64_def)

text \<open>
  prefetch_desired_window: the pieces the prefetcher wants are exactly the pieces that overlap the
  playback window: the next 32 MiB from the cursor, cut at the end of the file and of the torrent.
\<close>
theorem prefetch_desired_window:
  assumes "hasAnchor c" and "a = anchor c" and "0 < aPieceLength a" and "0 \<le> aFileStart a + aCursor a"
    and "start = aFileStart a + aCursor a"
    and "end' = (let e = min (start + defaultPrefetchHigh) (aFileStart a + aFileSize a)
                 in if aTorrentSize a > 0 then min e (aTorrentSize a) else e)"
  shows "distinct (desiredPiecesLocked c) \<and>
    (i \<in> set (desiredPiecesLocked c) \<longleftrightarrow>
       {i * aPieceLength a..<(i + 1) * aPieceLength a} \<inter> {start..<end'} \<noteq> {})"
proof (cases "start < end'")
  case False
  then have "desiredPiecesLocked c = []"
    using assms by (auto simp: desiredPiecesLocked_def Let_def min_def split: if_splits)
  with False show ?thesis by simp
next
  case True
  let ?p = "aPieceLength a"
  have d: "desiredPiecesLocked c = [start div ?p..(end' - 1) div ?p]"
    using True assms by (auto simp: desiredPiecesLocked_def Let_def min_def split: if_splits)
  have "start div ?p \<le> i \<longleftrightarrow> start < (i + 1) * ?p"
    using div_less_int [OF assms(3), of start "i + 1"] le_div_int [OF assms(3), of "i + 1" start] by (meson not_less zle_add1_eq_le add1_zle_eq)
  moreover have "i \<le> (end' - 1) div ?p \<longleftrightarrow> i * ?p \<le> end' - 1"
    using div_less_int [OF assms(3), of "end' - 1" i] le_div_int [OF assms(3), of i "end' - 1"] by (meson not_less)
  moreover have "({i * ?p..<(i + 1) * ?p} \<inter> {start..<end'} \<noteq> {}) \<longleftrightarrow> start < (i + 1) * ?p \<and> i * ?p \<le> end' - 1"
  proof -
    have "i * ?p < (i + 1) * ?p" using assms(3) by (simp add: algebra_simps)
    then show ?thesis using True by (auto simp: Int_atLeastLessThan)
  qed
  ultimately show ?thesis by (simp add: d)
qed

theorem prefetch_desired_window_witness:
  "3 \<in> set (desiredPiecesLocked (sample_coord\<lparr>hasAnchor := True, anchor := zeroAnchor\<lparr>aFileStart := 5, aFileSize := 20, aPieceLength := 8, aCursor := 2\<rparr>\<rparr>))"
  using prefetch_desired_window [of "sample_coord\<lparr>hasAnchor := True, anchor := zeroAnchor\<lparr>aFileStart := 5, aFileSize := 20, aPieceLength := 8, aCursor := 2\<rparr>\<rparr>",
      OF _ refl _ _ refl refl, of 3]
  by (simp add: zeroAnchor_def)

end
