(* ===== verification/ReadFile.thy ===== *)
theory ReadFile
  imports Prefetch
begin

text \<open>
  The reader of one file (\<open>internal/session/file.go\<close>): \<open>raFile.ReadAtContext\<close> plans a request,
  opens a ticket with the prefetch coordinator (or pins a window itself when there is none) and
  serves each span from the cache or through the loader, retrying short reads.

  The piece source is a parameter: \<open>loader start len attempt\<close> is what one call of
  \<open>ReadAtContext\<close> on it delivers, the bytes written to the front of the buffer and the error. The
  request's context is a parameter too: \<open>alive k\<close> tells whether it is still live at the \<open>k\<close>-th
  span and \<open>patient start attempt\<close> whether it outlives the delay before the next attempt. The
  buffer is its length, the bytes written to it are the result.
\<close>

datatype read_error =
  ErrInvalidName | ErrFileClosed | ReadEOF | ReadUnexpectedEOF | ErrContext | ErrLoader nat

type_synonym loader = "int \<Rightarrow> nat \<Rightarrow> nat \<Rightarrow> bytes \<times> read_error option"

record raFile =
  rfKey :: string
  rfRef :: fileRef
  rfReadahead :: int
  rfClosed :: bool
  rfHandles :: int
  rfWindow :: "Key list"

record fileState =
  fsCache :: Cache
  fsCoord :: "coord option"
  fsFile :: raFile

abbreviation defaultStreamingReadahead :: int where
  "defaultStreamingReadahead \<equiv> 8 * 2 ^ 20"

definition readaheadBytes :: "raFile \<Rightarrow> int" where
  "readaheadBytes f = (if rfReadahead f \<le> 0 then defaultStreamingReadahead else rfReadahead f)"

definition file_pieceSize :: "raFile \<Rightarrow> int \<Rightarrow> int" where
  "file_pieceSize f index =
     (let start = index * fPieceLength (rfRef f)
      in if fTorrentSize (rfRef f) - start < fPieceLength (rfRef f) then fTorrentSize (rfRef f) - start
         else fPieceLength (rfRef f))"

definition file_request :: "raFile \<Rightarrow> int \<Rightarrow> int \<Rightarrow> ReadRequest" where
  "file_request f off len =
     \<lparr>FileOffset = off, Length = len, FileStart = fOffset (rfRef f), FileSize = fSize (rfRef f),
      PieceLength = fPieceLength (rfRef f), TorrentLength = fTorrentSize (rfRef f)\<rparr>"

section \<open>The pinned window of a reader without coordinator\<close>

definition windowKeys :: "raFile \<Rightarrow> ReadRequest \<Rightarrow> int \<Rightarrow> Key list" where
  "windowKeys f req len = map (Key (rfKey f)) (Wanted (Plan (req\<lparr>Length := len\<rparr>)))"

definition protectWindow :: "Key list \<Rightarrow> fileState \<Rightarrow> fileState" where
  "protectWindow window s =
     (if rfClosed (fsFile s) then s
      else
        let c1 = fold Unpin (rfWindow (fsFile s)) (fsCache s);
            s1 = s\<lparr>fsFile := (fsFile s)\<lparr>rfWindow := window\<rparr>\<rparr>
        in case window of
             [] \<Rightarrow> s1\<lparr>fsCache := c1\<rparr>
           | k # ks \<Rightarrow>
               (case PinSize k (file_pieceSize (fsFile s) (Piece k)) c1 of
                  (ok, c2) \<Rightarrow>
                    if \<not> ok \<and> \<not> Has c2 k then s1\<lparr>fsCache := c2\<rparr>
                    else s1\<lparr>fsCache := fold (\<lambda>k c. snd (PinSize k (file_pieceSize (fsFile s) (Piece k)) c)) ks c2\<rparr>))"

section \<open>Loading a piece\<close>

fun readPiece_loop :: "loader \<Rightarrow> (int \<Rightarrow> nat \<Rightarrow> bool) \<Rightarrow> int \<Rightarrow> nat \<Rightarrow> nat \<Rightarrow> nat \<Rightarrow> read_error + bytes" where
  "readPiece_loop loader patient start len attempt left =
     (case loader start len attempt of
        (got, err) \<Rightarrow>
          if (err = None \<or> err = Some ReadEOF) \<and> length got = len then Inr got
          else
            let short = length got < len \<and> (err = None \<or> err = Some ReadEOF)
            in (case left of
                  Suc l \<Rightarrow>
                    if short then
                      (if patient start attempt then readPiece_loop loader patient start len (Suc attempt) l
                       else Inl ErrContext)
                    else Inl (case err of Some e \<Rightarrow> if e = ReadEOF then ReadUnexpectedEOF else e | None \<Rightarrow> ReadUnexpectedEOF)
                | 0 \<Rightarrow> Inl (case err of Some e \<Rightarrow> if e = ReadEOF then ReadUnexpectedEOF else e | None \<Rightarrow> ReadUnexpectedEOF)))"

definition readPiece :: "loader \<Rightarrow> (int \<Rightarrow> nat \<Rightarrow> bool) \<Rightarrow> int \<Rightarrow> nat \<Rightarrow> read_error + bytes" where
  "readPiece loader patient start len = readPiece_loop loader patient start len 1 4"

definition load_piece :: "loader \<Rightarrow> (int \<Rightarrow> nat \<Rightarrow> bool) \<Rightarrow> raFile \<Rightarrow> int \<Rightarrow> Cache \<Rightarrow> (read_error + bytes) \<times> Cache" where
  "load_piece loader patient f index c =
     (case Get (Key (rfKey f) index) c of
        (Some v, c1) \<Rightarrow> (Inr v, c1)
      | (None, c1) \<Rightarrow>
          let start = index * fPieceLength (rfRef f);
              len = (if fTorrentSize (rfRef f) - start < fPieceLength (rfRef f)
                     then fTorrentSize (rfRef f) - start else fPieceLength (rfRef f))
          in if start < 0 \<or> len \<le> 0 then (Inl ReadEOF, c1)
             else
               (case readPiece loader patient start (nat len) of
                  Inl e \<Rightarrow> (Inl e, c1)
                | Inr blob \<Rightarrow>
                    if rfClosed f then (Inl ErrFileClosed, c1)
                    else (Inr blob, Put (Key (rfKey f) index) blob c1)))"

definition read_span :: "loader \<Rightarrow> (int \<Rightarrow> nat \<Rightarrow> bool) \<Rightarrow> raFile \<Rightarrow> PieceSpan \<Rightarrow> Cache \<Rightarrow> (read_error + bytes) \<times> Cache" where
  "read_span loader patient f sp c =
     (let e = wrap64 (Offset sp + SpanLength sp);
          slice = (\<lambda>v. take (nat e - nat (Offset sp)) (drop (nat (Offset sp)) v))
      in if Offset sp < 0 \<or> SpanLength sp \<le> 0 \<or> e < Offset sp then (Inl ReadUnexpectedEOF, c)
         else
           case Get (Key (rfKey f) (Index sp)) c of
             (Some v, c1) \<Rightarrow> (if e > int (length v) then Inl ReadUnexpectedEOF else Inr (slice v), c1)
           | (None, c1) \<Rightarrow>
               (case load_piece loader patient f (Index sp) c1 of
                  (Inl er, c2) \<Rightarrow> (Inl er, c2)
                | (Inr v, c2) \<Rightarrow> (if e > int (length v) then Inl ReadUnexpectedEOF else Inr (slice v), c2)))"

section \<open>Reading\<close>

definition on_coord :: "(coord \<Rightarrow> coord) \<Rightarrow> fileState \<Rightarrow> fileState" where
  "on_coord g s =
     (case fsCoord s of
        None \<Rightarrow> s
      | Some c \<Rightarrow> let c' = g (c\<lparr>pcache := fsCache s\<rparr>) in s\<lparr>fsCoord := Some c', fsCache := pcache c'\<rparr>)"

definition begin_read :: "ReadRequest \<Rightarrow> ReadPlan \<Rightarrow> fileState \<Rightarrow> nat option \<times> fileState" where
  "begin_read req plan s =
     (case fsCoord s of
        None \<Rightarrow>
          (None, protectWindow (windowKeys (fsFile s) req (Length req + readaheadBytes (fsFile s))) s)
      | Some c \<Rightarrow>
          (case beginForeground (rfRef (fsFile s)) req plan (c\<lparr>pcache := fsCache s\<rparr>) of
             (t, c') \<Rightarrow> (t, s\<lparr>fsCoord := Some c', fsCache := pcache c'\<rparr>)))"

definition end_read :: "nat option \<Rightarrow> int \<Rightarrow> bytes \<Rightarrow> read_error option \<Rightarrow> fileState \<Rightarrow> fileState" where
  "end_read t off out err s =
     (case t of
        None \<Rightarrow> s
      | Some i \<Rightarrow>
          on_coord (\<lambda>c. snd (finishForeground i off (int (length out)) (err = None \<or> err = Some ReadEOF) c)) s)"

definition one_span :: "loader \<Rightarrow> (int \<Rightarrow> nat \<Rightarrow> bool) \<Rightarrow> nat option \<Rightarrow> PieceSpan \<Rightarrow> fileState \<Rightarrow> (read_error + bytes) \<times> fileState" where
  "one_span loader patient t sp s =
     (case t of
        None \<Rightarrow>
          (case read_span loader patient (fsFile s) sp (fsCache s) of (r, c) \<Rightarrow> (r, s\<lparr>fsCache := c\<rparr>))
      | Some i \<Rightarrow>
          (case Get (Key (rfKey (fsFile s)) (Index sp)) (fsCache s) of
             (cached, c0) \<Rightarrow>
               let s0 = s\<lparr>fsCache := c0\<rparr>;
                   s1 = (if cached = None then on_coord (startPiece i (Index sp)) s0 else s0)
               in (case read_span loader patient (fsFile s1) sp (fsCache s1) of
                     (r, c) \<Rightarrow>
                       let s2 = s1\<lparr>fsCache := c\<rparr>
                       in (r, if cached = None then on_coord (finishPiece i (Index sp)) s2 else s2))))"

fun span_loop :: "loader \<Rightarrow> (int \<Rightarrow> nat \<Rightarrow> bool) \<Rightarrow> (nat \<Rightarrow> bool) \<Rightarrow> nat option \<Rightarrow> nat \<Rightarrow> PieceSpan list \<Rightarrow> nat \<Rightarrow> bytes \<Rightarrow> fileState \<Rightarrow>
    (bytes \<times> read_error option) \<times> fileState" where
  "span_loop loader patient alive t k [] n out s = ((out, if length out < n then Some ReadEOF else None), s)"
| "span_loop loader patient alive t k (sp # sps) n out s =
     (if \<not> alive k then ((out, Some ErrContext), if t = None then s else on_coord recordStaleSpan s)
      else
        case one_span loader patient t sp s of
          (Inl e, s1) \<Rightarrow> ((out, Some e), if t \<noteq> None \<and> \<not> alive (Suc k) then on_coord recordStaleSpan s1 else s1)
        | (Inr blob, s1) \<Rightarrow> span_loop loader patient alive t (Suc k) sps n (out @ take (n - length out) blob) s1)"

definition ReadAtContext :: "loader \<Rightarrow> (int \<Rightarrow> nat \<Rightarrow> bool) \<Rightarrow> (nat \<Rightarrow> bool) \<Rightarrow> nat \<Rightarrow> int \<Rightarrow> fileState \<Rightarrow>
    (bytes \<times> read_error option) \<times> fileState" where
  "ReadAtContext loader patient alive n off s =
     (if off < 0 then (([], Some ErrInvalidName), s)
      else if n = 0 then (([], None), s)
      else if rfClosed (fsFile s) then (([], Some ErrFileClosed), s)
      else if \<not> alive 0 then (([], Some ErrContext), s)
      else
        let req = file_request (fsFile s) off (int n);
            plan = Plan req
        in if Spans plan = [] then (([], Some ReadEOF), s)
           else
             let (t, s1) = begin_read req plan s;
                 ((out, err), s2) = span_loop loader patient alive t 0 (Spans plan) n [] s1
             in ((out, err), end_read t off out err s2))"

section \<open>Handles\<close>

definition acquireHandle :: "fileState \<Rightarrow> bool \<times> fileState" where
  "acquireHandle s =
     (if rfClosed (fsFile s) then (False, s)
      else (True, s\<lparr>fsFile := (fsFile s)\<lparr>rfHandles := rfHandles (fsFile s) + 1\<rparr>\<rparr>))"

definition releaseHandle :: "fileState \<Rightarrow> fileState" where
  "releaseHandle s =
     (let h = rfHandles (fsFile s);
          h' = (if h > 0 then h - 1 else h);
          s1 = s\<lparr>fsFile := (fsFile s)\<lparr>rfHandles := h'\<rparr>\<rparr>
      in if h' = 0 then on_coord (\<lambda>c. snd (releaseFile (rfRef (fsFile s)) c)) s1 else s1)"

definition CloseFile :: "fileState \<Rightarrow> fileState" where
  "CloseFile s =
     (if rfClosed (fsFile s) then s
      else
        let window = rfWindow (fsFile s);
            s1 = s\<lparr>fsFile := (fsFile s)\<lparr>rfClosed := True, rfWindow := []\<rparr>\<rparr>
        in if fsCoord s \<noteq> None then on_coord (\<lambda>c. snd (releaseFile (rfRef (fsFile s)) c)) s1
           else s1\<lparr>fsCache := fold Unpin window (fsCache s)\<rparr>)"

section \<open>The coordinator keeps the cached content\<close>

definition coord_holds :: "(Key \<Rightarrow> bytes \<Rightarrow> bool) \<Rightarrow> coord \<Rightarrow> bool" where
  "coord_holds P c \<longleftrightarrow> cache_holds P (pcache c)"

lemma coord_holds_basic:
  assumes "coord_holds P c"
  shows "coord_holds P (releaseLocked i c)" "coord_holds P (unpin_window i c)"
    "coord_holds P (snd (retainLocked i c))" "coord_holds P (cancelLeaseLocked i c)"
  using assms
  by (simp_all add: coord_holds_def releaseLocked_def unpin_window_def retainLocked_def cancelLeaseLocked_def
      pkey_of_def cache_holds_ops case_prod_beta)

lemma coord_holds_folds:
  assumes "coord_holds P c"
  shows "coord_holds P (fold releaseLocked xs c)" "coord_holds P (fold unpin_window xs c)"
    "coord_holds P (fold cancelLeaseLocked xs c)"
  using assms by (induction xs arbitrary: c) (simp_all add: coord_holds_basic)

lemma retain_all_holds: "coord_holds P c \<Longrightarrow> coord_holds P (snd (retain_all ks pins c))"
proof (induction ks pins c rule: retain_all.induct)
  case (2 i rest pins c)
  obtain ok c1 where r: "retainLocked i c = (ok, c1)" by (cases "retainLocked i c")
  with coord_holds_basic(3) [OF "2.prems", of i] "2.IH" [OF r [symmetric]] show ?case by simp
qed simp

lemma begin_holds:
  assumes "coord_holds P c" shows "coord_holds P (snd (beginForeground f req plan c))"
proof -
  obtain a b where ab: "foregroundRequestRange req plan = (a, b)" by (cases "foregroundRequestRange req plan")
  obtain kind cand c1 where sk: "seek_step f req a c = (kind, cand, c1)" by (cases "seek_step f req a c")
  let ?keys = "uniquePieceIndexes (Wanted plan)" and ?d = "c1\<lparr>nextTicket := Suc (nextTicket c1)\<rparr>"
  obtain pins c2 where rt: "retain_all ?keys [] ?d = (pins, c2)" by (cases "retain_all ?keys [] ?d")
  have "coord_holds P ?d" using assms seek_step_frame(5) [OF sk] by (simp add: coord_holds_def)
  then have c2: "coord_holds P c2" using retain_all_holds [of P ?d ?keys "[]"] rt by simp
  have "coord_holds P (fold cancelLeaseLocked ?keys (c2\<lparr>foreground := fg, anchorTicket := at\<rparr>))" for fg at
    by (rule coord_holds_folds) (use c2 in \<open>simp add: coord_holds_def\<close>)
  with assms show ?thesis by (simp add: beginForeground_def ab sk rt Let_def)
qed

lemma drop_holds: "coord_holds P c \<Longrightarrow> coord_holds P (drop_window c)" "coord_holds P c \<Longrightarrow> coord_holds P (drop_leases c)"
  by (simp_all add: drop_window_def drop_leases_def coord_holds_folds)

lemma removeForeground_holds: "coord_holds P c \<Longrightarrow> coord_holds P (snd (removeForegroundLocked i c))"
proof -
  assume a: "coord_holds P c"
  show ?thesis
  proof (cases "ticket_of c i")
    case (Some t)
    have "coord_holds P (fold releaseLocked xs (c\<lparr>foreground := fg, foregroundPieces := fp\<rparr>))" for xs fg fp
      by (rule coord_holds_folds) (use a in \<open>simp add: coord_holds_def\<close>)
    note h = this
    from Some show ?thesis by (rule removeForeground_form) (simp add: h)
  qed (use a in \<open>simp add: removeForegroundLocked_def\<close>)
qed

lemma dropUnconfirmed_holds: "coord_holds P c \<Longrightarrow> coord_holds P (dropUnconfirmedAnchorLocked c)"
  using drop_holds(1) [OF drop_holds(2), of P c]
  by (simp add: dropUnconfirmedAnchorLocked_def forget_anchor_def coord_holds_def)

lemma confirmCandidate_holds: "coord_holds P c \<Longrightarrow> coord_holds P (snd (confirmCandidateLocked t c))"
proof -
  assume a: "coord_holds P c"
  have "coord_holds P (drop_leases (drop_window ((advanceAnchorLocked (c\<lparr>cgen := g, anchor := x, hasAnchor := y, anchorConfirmed := z,
      consumed := u, candidate := v\<rparr>))\<lparr>pstate := st, bufferedBytes := bb\<rparr>)))" for g x y z u v st bb
    by (intro drop_holds) (use a in \<open>simp add: coord_holds_def\<close>)
  with a show ?thesis
    by (simp add: confirmCandidateLocked_def Let_def set_ticket_def coord_holds_def split: option.split)
qed

lemma finish_holds:
  assumes "coord_holds P c" shows "coord_holds P (snd (finishForeground i off n clean c))"
proof -
  have e: "coord_holds P (snd (finish_effect t off n clean c))" for t
  proof -
    obtain b c1 where r: "recordCandidateLocked t off n c = (b, c1)" by (cases "recordCandidateLocked t off n c")
    then obtain cd where "c1 = c\<lparr>candidate := cd\<rparr>" by (rule recordCandidate_frame)
    then have "coord_holds P c1" "coord_holds P (recordConsumedLocked off n c)" using assms by (simp_all add: coord_holds_def)
    then show ?thesis
      using assms unfolding finish_effect_def by (cases "tKind t") (simp_all add: r confirmCandidate_holds)
  qed
  show ?thesis
    using assms removeForeground_holds [OF e]
    by (simp add: finishForeground_def Let_def case_prod_beta dropUnconfirmed_holds split: option.split)
qed

lemma piece_holds:
  assumes "coord_holds P c"
  shows "coord_holds P (startPiece i j c)" "coord_holds P (finishPiece i j c)" "coord_holds P (recordStaleSpan c)"
  using assms by (auto simp: coord_holds_def startPiece_def finishPiece_def recordStaleSpan_def set_ticket_def
      releaseForegroundPieceLocked_def Let_def split: option.split)

section \<open>What a read delivers\<close>

definition tbytes :: "bytes \<Rightarrow> int \<Rightarrow> int \<Rightarrow> bytes" where
  "tbytes T s l = take (nat l) (drop (nat s) T)"

text \<open>Every resident piece of the torrent holds the torrent's bytes at its place.\<close>

definition piece_good :: "raFile \<Rightarrow> bytes \<Rightarrow> Key \<Rightarrow> bytes \<Rightarrow> bool" where
  "piece_good f T k v \<longleftrightarrow> Torrent k = rfKey f \<longrightarrow> 0 \<le> Piece k \<longrightarrow>
     v = tbytes T (Piece k * fPieceLength (rfRef f)) (fPieceLength (rfRef f))"

text \<open>What the reader relies on from the torrent library: a complete read is a right one.\<close>

definition loader_sound :: "loader \<Rightarrow> bytes \<Rightarrow> bool" where
  "loader_sound loader T \<longleftrightarrow> (\<forall>start len attempt got err. loader start len attempt = (got, err) \<longrightarrow> 0 \<le> start \<longrightarrow>
     length got = len \<longrightarrow> err = None \<or> err = Some ReadEOF \<longrightarrow> got = take len (drop (nat start) T))"

definition geometry_ok :: "raFile \<Rightarrow> bytes \<Rightarrow> bool" where
  "geometry_ok f T \<longleftrightarrow> fTorrentSize (rfRef f) = int (length T) \<and> 0 < fPieceLength (rfRef f) \<and> 0 \<le> fOffset (rfRef f) \<and>
     0 \<le> fSize (rfRef f) \<and> fOffset (rfRef f) + fSize (rfRef f) \<le> int (length T) \<and>
     is_int64 (int (length T) + fPieceLength (rfRef f))"

lemma tbytes_nested:
  "0 \<le> s \<Longrightarrow> 0 \<le> off \<Longrightarrow> 0 \<le> l \<Longrightarrow> off + l \<le> n \<Longrightarrow> take (nat l) (drop (nat off) (tbytes T s n)) = tbytes T (s + off) l"
  by (simp add: tbytes_def drop_take min_def nat_add_distrib add.commute)

lemma tbytes_length: "0 \<le> s \<Longrightarrow> 0 \<le> l \<Longrightarrow> s + l \<le> int (length T) \<Longrightarrow> int (length (tbytes T s l)) = l"
  by (simp add: tbytes_def)

lemma length_tbytes:
  "0 \<le> s \<Longrightarrow> s \<le> int (length T) \<Longrightarrow> 0 \<le> l \<Longrightarrow> int (length (tbytes T s l)) = min (int (length T) - s) l"
  by (simp add: tbytes_def of_nat_min of_nat_diff nat_le_iff)

lemma tbytes_append: "0 \<le> s \<Longrightarrow> 0 \<le> a \<Longrightarrow> 0 \<le> b \<Longrightarrow> tbytes T s a @ tbytes T (s + a) b = tbytes T s (a + b)"
  by (simp add: tbytes_def nat_add_distrib take_add add.commute)

lemma readPiece_loop_sound:
  assumes "loader_sound loader T" and "0 \<le> start" and "readPiece_loop loader patient start len attempt left = Inr v"
  shows "v = take len (drop (nat start) T) \<and> length v = len"
  using assms(3)
proof (induction left arbitrary: attempt)
  case 0
  then show ?case using assms(1,2) by (auto simp: loader_sound_def Let_def split: prod.splits if_splits option.splits)
next
  case (Suc left)
  obtain got err where l: "loader start len attempt = (got, err)" by (cases "loader start len attempt")
  show ?case
  proof (cases "(err = None \<or> err = Some ReadEOF) \<and> length got = len")
    case True
    then have "v = got" using Suc.prems l by simp
    then show ?thesis using True l assms(1,2) by (auto simp: loader_sound_def)
  next
    case False
    then show ?thesis using Suc.prems Suc.IH [of "Suc attempt"] l by (auto simp: Let_def split: if_splits option.splits)
  qed
qed

lemma load_piece_sound:
  assumes "cache_holds (piece_good f T) c" and "loader_sound loader T" and "geometry_ok f T" and "0 \<le> i"
    and "load_piece loader patient f i c = (r, c')"
  shows "cache_holds (piece_good f T) c' \<and> (\<forall>v. r = Inr v \<longrightarrow> v = tbytes T (i * fPieceLength (rfRef f)) (fPieceLength (rfRef f)))"
proof -
  let ?p = "fPieceLength (rfRef f)" and ?k = "Key (rfKey f) i"
  obtain g c1 where g: "Get ?k c = (g, c1)" by (cases "Get ?k c")
  have c1: "cache_holds (piece_good f T) c1" using cache_holds_ops(1) [OF assms(1), of ?k] g by simp
  show ?thesis
  proof (cases g)
    case (Some v)
    then have "content c ?k = Some v" using pc.get_value [of c ?k] assms(1) g by (simp add: cache_holds_def)
    then have "piece_good f T ?k v" using assms(1) by (simp add: cache_holds_def pc.all_resident_def)
    with Some g c1 assms(4,5) show ?thesis by (auto simp: load_piece_def piece_good_def)
  next
    case None
    let ?len = "if fTorrentSize (rfRef f) - i * ?p < ?p then fTorrentSize (rfRef f) - i * ?p else ?p"
    have good: "blob = tbytes T (i * ?p) ?p" if "readPiece loader patient (i * ?p) (nat ?len) = Inr blob" "0 \<le> i * ?p" "0 < ?len" for blob
      using readPiece_loop_sound [OF assms(2) that(2) that(1) [unfolded readPiece_def]] assms(3) that(3)
      by (auto simp: tbytes_def geometry_ok_def split: if_splits)
    have "cache_holds (piece_good f T) (Put ?k blob c1)" if "blob = tbytes T (i * ?p) ?p" for blob
      using that c1 by (intro cache_holds_ops) (simp_all add: piece_good_def)
    with None g c1 good assms(5) show ?thesis
      by (auto simp: load_piece_def Let_def split: if_splits sum.splits)
  qed
qed

definition span_good :: "raFile \<Rightarrow> bytes \<Rightarrow> PieceSpan \<Rightarrow> bool" where
  "span_good f T sp \<longleftrightarrow> 0 \<le> Index sp \<and> 0 \<le> Offset sp \<and> 0 < SpanLength sp \<and>
     Offset sp + SpanLength sp \<le> fPieceLength (rfRef f) \<and>
     Index sp * fPieceLength (rfRef f) + Offset sp + SpanLength sp \<le> int (length T)"

lemma read_span_sound:
  assumes "cache_holds (piece_good f T) c" and "loader_sound loader T" and "geometry_ok f T" and "span_good f T sp"
    and "read_span loader patient f sp c = (r, c')"
  shows "cache_holds (piece_good f T) c' \<and>
    (\<forall>v. r = Inr v \<longrightarrow> v = tbytes T (Index sp * fPieceLength (rfRef f) + Offset sp) (SpanLength sp))"
proof -
  let ?p = "fPieceLength (rfRef f)" and ?k = "Key (rfKey f) (Index sp)"
  let ?e = "Offset sp + SpanLength sp" and ?s = "Index sp * fPieceLength (rfRef f)"
  note sp = assms(4) [unfolded span_good_def]
  have w: "wrap64 ?e = ?e" using sp assms(3) by (intro wrap64_id) (auto simp: geometry_ok_def is_int64_def)
  have s0: "0 \<le> ?s" using sp assms(3) by (simp add: geometry_ok_def)
  have slice: "take (nat ?e - nat (Offset sp)) (drop (nat (Offset sp)) (tbytes T ?s ?p)) = tbytes T (?s + Offset sp) (SpanLength sp)"
    using tbytes_nested [OF s0, of "Offset sp" "SpanLength sp" ?p T] sp by (simp add: nat_add_distrib)
  obtain g c1 where g: "Get ?k c = (g, c1)" by (cases "Get ?k c")
  have c1: "cache_holds (piece_good f T) c1" using cache_holds_ops(1) [OF assms(1), of ?k] g by simp
  show ?thesis
  proof (cases g)
    case (Some v)
    then have "content c ?k = Some v" using pc.get_value [of c ?k] assms(1) g by (simp add: cache_holds_def)
    then have "piece_good f T ?k v" using assms(1) by (simp add: cache_holds_def pc.all_resident_def)
    then have "v = tbytes T ?s ?p" using sp by (simp add: piece_good_def)
    with Some g c1 assms(5) slice sp show ?thesis by (auto simp: read_span_def Let_def w split: if_splits)
  next
    case None
    obtain q c2 where q: "load_piece loader patient f (Index sp) c1 = (q, c2)" by (cases "load_piece loader patient f (Index sp) c1")
    have c2: "cache_holds (piece_good f T) c2" "\<And>v. q = Inr v \<Longrightarrow> v = tbytes T ?s ?p"
      using load_piece_sound [OF c1 assms(2,3) _ q] sp by auto
    show ?thesis
    proof (cases q)
      case (Inr v)
      with c2(2) have "v = tbytes T ?s ?p" by blast
      with Inr None g q c2(1) assms(5) slice sp show ?thesis by (auto simp: read_span_def Let_def w split: if_splits)
    qed (use None g q c2 assms(5) sp in \<open>auto simp: read_span_def Let_def w split: if_splits\<close>)
  qed
qed

definition fs_good :: "bytes \<Rightarrow> fileState \<Rightarrow> bool" where
  "fs_good T s \<longleftrightarrow> cache_holds (piece_good (fsFile s) T) (fsCache s)"

lemma on_coord_file [simp]: "fsFile (on_coord g s) = fsFile s"
  by (simp add: on_coord_def Let_def split: option.split)

lemma on_coord_good:
  assumes "fs_good T s" and "\<And>c. coord_holds (piece_good (fsFile s) T) c \<Longrightarrow> coord_holds (piece_good (fsFile s) T) (g c)"
  shows "fs_good T (on_coord g s)"
  using assms(1) assms(2) [of "_\<lparr>pcache := fsCache s\<rparr>"]
  by (auto simp: fs_good_def on_coord_def coord_holds_def Let_def split: option.split)

lemma one_span_sound:
  assumes "fs_good T s" and "loader_sound loader T" and "geometry_ok (fsFile s) T" and "span_good (fsFile s) T sp"
    and "one_span loader patient t sp s = (r, s')"
  shows "fs_good T s' \<and> fsFile s' = fsFile s \<and>
    (\<forall>v. r = Inr v \<longrightarrow> v = tbytes T (Index sp * fPieceLength (rfRef (fsFile s)) + Offset sp) (SpanLength sp))"
proof (cases t)
  case None
  obtain q c where q: "read_span loader patient (fsFile s) sp (fsCache s) = (q, c)"
    by (cases "read_span loader patient (fsFile s) sp (fsCache s)")
  from read_span_sound [OF assms(1) [unfolded fs_good_def] assms(2-4) q] None q assms(5)
  show ?thesis by (auto simp: one_span_def fs_good_def)
next
  case (Some i)
  obtain cached c0 where g: "Get (Key (rfKey (fsFile s)) (Index sp)) (fsCache s) = (cached, c0)"
    by (cases "Get (Key (rfKey (fsFile s)) (Index sp)) (fsCache s)")
  let ?s0 = "s\<lparr>fsCache := c0\<rparr>"
  let ?s1 = "if cached = None then on_coord (startPiece i (Index sp)) ?s0 else ?s0"
  have s0: "fs_good T ?s0"
    using cache_holds_ops(1) [OF assms(1) [unfolded fs_good_def], of "Key (rfKey (fsFile s)) (Index sp)"] g
    by (simp add: fs_good_def)
  then have s1: "fs_good T ?s1" by (auto intro: on_coord_good piece_holds)
  have f1: "fsFile ?s1 = fsFile s" by simp
  obtain q c where q: "read_span loader patient (fsFile s) sp (fsCache ?s1) = (q, c)"
    by (cases "read_span loader patient (fsFile s) sp (fsCache ?s1)")
  have rs: "cache_holds (piece_good (fsFile s) T) c"
    "\<And>v. q = Inr v \<Longrightarrow> v = tbytes T (Index sp * fPieceLength (rfRef (fsFile s)) + Offset sp) (SpanLength sp)"
    using read_span_sound [OF _ assms(2-4) q] s1 by (auto simp: fs_good_def f1)
  let ?s2 = "?s1\<lparr>fsCache := c\<rparr>"
  have s2: "fs_good T ?s2" using rs(1) by (simp add: fs_good_def)
  have "s' = (if cached = None then on_coord (finishPiece i (Index sp)) ?s2 else ?s2) \<and> r = q"
    using assms(5) Some g q f1 by (simp add: one_span_def Let_def split: if_splits)
  moreover have "fs_good T (on_coord (finishPiece i (Index sp)) ?s2)"
    by (rule on_coord_good [OF s2]) (rule piece_holds)
  ultimately show ?thesis using s2 rs(2) f1 by auto
qed

lemma span_loop_sound:
  assumes "fs_good T s" and "loader_sound loader T" and "geometry_ok (fsFile s) T" and "f = fsFile s"
    and "\<forall>sp \<in> set sps. span_good f T sp" and "tiles a (map (span_range (fPieceLength (rfRef f))) sps) b"
    and "out = tbytes T a0 (a - a0)" and "0 \<le> a0" and "a0 \<le> a" and "b - a0 \<le> int n" and "a \<le> int (length T)"
    and "span_loop loader patient alive t k sps n out s = ((res, err), s')"
  shows "fs_good T s' \<and> fsFile s' = f \<and> (\<exists>m. 0 \<le> m \<and> m \<le> b - a0 \<and> res = tbytes T a0 m \<and> int (length res) = m \<and>
    (err = None \<longrightarrow> m = b - a0 \<and> m = int n))"
  using assms
proof (induction sps arbitrary: a out s k)
  case Nil
  then show ?case
    using tbytes_length [of a0 "a - a0" T] by (auto split: if_splits intro!: exI [of _ "a - a0"])
next
  case (Cons sp sps)
  let ?p = "fPieceLength (rfRef f)"
  have len: "int (length out) = a - a0" using Cons.prems by (simp add: tbytes_length)
  have sp: "span_good f T sp" "Index sp * ?p + Offset sp = a" "0 < SpanLength sp"
      "tiles (a + SpanLength sp) (map (span_range ?p) sps) b"
    using Cons.prems(5,6) by (simp_all add: span_range_def [of _ sp])
  have le: "a + SpanLength sp \<le> b" using tiles_le [OF sp(4)] .
  have here: "\<exists>m. 0 \<le> m \<and> m \<le> b - a0 \<and> out = tbytes T a0 m \<and> int (length out) = m"
    using Cons.prems(7,9) len le sp(3) by (intro exI [of _ "a - a0"]) auto
  show ?case
  proof (cases "alive k")
    case False
    with Cons.prems here show ?thesis
      by (auto intro!: on_coord_good piece_holds split: if_splits)
  next
    case True
    obtain r s1 where o: "one_span loader patient t sp s = (r, s1)" by (cases "one_span loader patient t sp s")
    have s1: "fs_good T s1" "fsFile s1 = f" "\<And>v. r = Inr v \<Longrightarrow> v = tbytes T a (SpanLength sp)"
      using one_span_sound [OF Cons.prems(1-3) _ o] sp Cons.prems(4) by auto
    show ?thesis
    proof (cases r)
      case (Inl e)
      with Cons.prems here True o s1 show ?thesis
        by (auto intro!: on_coord_good piece_holds split: if_splits)
    next
      case (Inr v)
      have v: "v = tbytes T a (SpanLength sp)" using s1(3) Inr by blast
      have Tl: "a + SpanLength sp \<le> int (length T)" using sp by (simp add: span_good_def)
      have "int (length v) = SpanLength sp" using v Tl sp(3) Cons.prems(8,9) by (simp add: tbytes_length)
      then have "take (n - length out) v = v" using len le Cons.prems(10) by simp
      then have "out @ take (n - length out) v = tbytes T a0 (a + SpanLength sp - a0)"
        using tbytes_append [of a0 "a - a0" "SpanLength sp" T] Cons.prems(7-9) sp(3) v by (simp add: algebra_simps)
      then show ?thesis
        using Cons.prems True o Inr s1 sp Tl
        by (intro Cons.IH [of s1 "a + SpanLength sp" "out @ take (n - length out) v" "Suc k"]) auto
    qed
  qed
qed

lemma file_request_valid:
  assumes "geometry_ok f T" and "0 \<le> off" and "off < fSize (rfRef f)" and "0 < n"
  shows "request_valid (file_request f off (int n))"
    and "request_start (file_request f off (int n)) = fOffset (rfRef f) + off"
    and "request_end (file_request f off (int n)) = fOffset (rfRef f) + min (off + int n) (fSize (rfRef f))"
proof -
  note g = assms(1) [unfolded geometry_ok_def]
  show e: "request_end (file_request f off (int n)) = fOffset (rfRef f) + min (off + int n) (fSize (rfRef f))"
    using g assms by (auto simp: request_end_def file_request_def Let_def min_def)
  show st: "request_start (file_request f off (int n)) = fOffset (rfRef f) + off"
    by (simp add: request_start_def file_request_def)
  show "request_valid (file_request f off (int n))"
    unfolding request_valid_def e st using g assms by (auto simp: file_request_def is_int64_def)
qed

lemma fold_holds: "cache_holds P c \<Longrightarrow> (\<And>k c. cache_holds P c \<Longrightarrow> cache_holds P (g k c)) \<Longrightarrow> cache_holds P (fold g xs c)"
  by (induction xs arbitrary: c) simp_all

lemma protectWindow_good:
  assumes "fs_good T s" shows "fs_good T (protectWindow w s) \<and> rfRef (fsFile (protectWindow w s)) = rfRef (fsFile s) \<and>
    rfKey (fsFile (protectWindow w s)) = rfKey (fsFile s) \<and> rfClosed (fsFile (protectWindow w s)) = rfClosed (fsFile s)"
proof -
  let ?P = "piece_good (fsFile s) T"
  have h: "cache_holds ?P (fold Unpin (rfWindow (fsFile s)) (fsCache s))"
    by (rule fold_holds) (use assms in \<open>simp_all add: fs_good_def cache_holds_ops\<close>)
  have "cache_holds ?P (fold (\<lambda>k c. snd (PinSize k (g k) c)) ks c)" if "cache_holds ?P c" for g ks c
    by (rule fold_holds [OF that]) (rule cache_holds_ops)
  moreover have "piece_good (fsFile s\<lparr>rfWindow := w\<rparr>) T = ?P" for w by (simp add: piece_good_def fun_eq_iff)
  ultimately show ?thesis
    using assms h
    by (simp add: fs_good_def protectWindow_def Let_def case_prod_beta cache_holds_ops split: list.split)
qed

lemma begin_read_good:
  assumes "fs_good T s" and "begin_read req plan s = (t, s')"
  shows "fs_good T s' \<and> rfRef (fsFile s') = rfRef (fsFile s) \<and> rfKey (fsFile s') = rfKey (fsFile s) \<and>
    rfClosed (fsFile s') = rfClosed (fsFile s)"
proof (cases "fsCoord s")
  case None
  with assms protectWindow_good [OF assms(1)] show ?thesis by (auto simp: begin_read_def)
next
  case (Some c)
  have "coord_holds (piece_good (fsFile s) T) (c\<lparr>pcache := fsCache s\<rparr>)" using assms(1) by (simp add: fs_good_def coord_holds_def)
  from begin_holds [OF this, of "rfRef (fsFile s)" req plan] assms(2) Some show ?thesis
    by (auto simp: begin_read_def fs_good_def coord_holds_def split: prod.splits)
qed

lemma end_read_good: "fs_good T s \<Longrightarrow> fs_good T (end_read t off out err s)"
  by (auto simp: end_read_def intro!: on_coord_good finish_holds split: option.split)

lemma plan_spans_good:
  assumes "request_valid req" and "request_end req \<le> int (length T)" and "PieceLength req = fPieceLength (rfRef f)"
  shows "\<forall>sp \<in> set (Spans (Plan req)). span_good f T sp"
proof
  fix sp assume sp: "sp \<in> set (Spans (Plan req))"
  then have "span_range (PieceLength req) sp \<in> set (map (span_range (PieceLength req)) (Spans (Plan req)))" by simp
  then have "Index sp * fPieceLength (rfRef f) + Offset sp + SpanLength sp \<le> request_end req"
    using tiles_upper [OF Plan_tiles [OF assms(1)]] by (force simp: span_range_def assms(3))
  with assms(2) Plan_span_bounds [OF assms(1) sp] show "span_good f T sp" by (simp add: span_good_def assms(3))
qed

lemma ReadAtContext_sound:
  assumes "fs_good T s" and "loader_sound loader T" and "geometry_ok (fsFile s) T" and "f = fsFile s"
    and "ReadAtContext loader patient alive n off s = ((out, err), s')"
  shows "fs_good T s' \<and> out = tbytes T (fOffset (rfRef f) + off) (int (length out)) \<and> length out \<le> n \<and>
    (0 \<le> off \<longrightarrow> out \<noteq> [] \<longrightarrow> off + int (length out) \<le> fSize (rfRef f)) \<and> (err = None \<longrightarrow> length out = n)"
proof (cases "off < 0 \<or> n = 0 \<or> rfClosed f \<or> \<not> alive 0 \<or> Spans (Plan (file_request f off (int n))) = []")
  case True
  with assms(1,4,5) show ?thesis by (auto simp: ReadAtContext_def tbytes_def split: if_splits)
next
  case False
  let ?req = "file_request f off (int n)"
  have offs: "off < fSize (rfRef f)"
  proof (rule ccontr)
    assume "\<not> off < fSize (rfRef f)"
    then have "Plan ?req = emptyPlan" by (simp add: Plan_def file_request_def)
    with False show False by (simp add: emptyPlan_def)
  qed
  then have v: "request_valid ?req" "request_start ?req = fOffset (rfRef f) + off"
      "request_end ?req = fOffset (rfRef f) + min (off + int n) (fSize (rfRef f))"
    using file_request_valid [of f T off n] offs assms(3,4) False by auto
  obtain t s1 where b: "begin_read ?req (Plan ?req) s = (t, s1)" by (cases "begin_read ?req (Plan ?req) s")
  have s1: "fs_good T s1" "rfRef (fsFile s1) = rfRef f" "rfKey (fsFile s1) = rfKey f"
    using begin_read_good [OF assms(1) b] assms(4) by auto
  obtain s2 where l: "span_loop loader patient alive t 0 (Spans (Plan ?req)) n [] s1 = ((out, err), s2)"
      and s': "s' = end_read t off out err s2"
    using assms(4,5) False b by (auto simp: ReadAtContext_def Let_def split: prod.splits)
  have p: "PieceLength ?req = fPieceLength (rfRef f)" by (simp add: file_request_def)
  have T: "request_end ?req \<le> int (length T)" using assms(3,4) v(3) by (auto simp: geometry_ok_def)
  have sps: "\<forall>sp \<in> set (Spans (Plan ?req)). span_good (fsFile s1) T sp"
    using plan_spans_good [OF v(1) T p] s1(2) by (simp add: span_good_def)
  have r: "fs_good T s2 \<and> fsFile s2 = fsFile s1 \<and> (\<exists>m. 0 \<le> m \<and> m \<le> request_end ?req - request_start ?req \<and>
      out = tbytes T (request_start ?req) m \<and> int (length out) = m \<and>
      (err = None \<longrightarrow> m = request_end ?req - request_start ?req \<and> m = int n))"
    by (rule span_loop_sound [OF s1(1) assms(2) _ refl sps _ _ _ _ _ _ l, of "request_start ?req"])
      (use assms(3,4) False offs v T Plan_tiles [OF v(1)] p s1 in \<open>auto simp: geometry_ok_def tbytes_def\<close>)
  then have m: "fs_good T s2" "out = tbytes T (request_start ?req) (int (length out))"
      "int (length out) \<le> request_end ?req - request_start ?req" "err = None \<longrightarrow> length out = n"
    by auto
  with False v show ?thesis unfolding s' by (auto simp: end_read_good)
qed

text \<open>
  A piece source that recovers: for every piece of the torrent one of the five attempts delivers
  it completely, and the attempts before it come back short with no error or an end of file.
\<close>

definition loader_recovers :: "loader \<Rightarrow> bytes \<Rightarrow> bool" where
  "loader_recovers loader T \<longleftrightarrow> (\<forall>start len. 0 \<le> start \<longrightarrow> start + int len \<le> int (length T) \<longrightarrow>
     (\<exists>a \<in> {1..5}. loader start len a = (take len (drop (nat start) T), None) \<and>
        (\<forall>b \<in> {1..<a}. length (fst (loader start len b)) < len \<and>
           (snd (loader start len b) = None \<or> snd (loader start len b) = Some ReadEOF))))"

lemma readPiece_loop_recovers:
  assumes "attempt \<le> a" and "a \<le> attempt + left" and "loader start len a = (v, None)" and "length v = len"
    and "\<forall>b \<in> {attempt..<a}. length (fst (loader start len b)) < len \<and>
           (snd (loader start len b) = None \<or> snd (loader start len b) = Some ReadEOF)"
  shows "readPiece_loop loader (\<lambda>_ _. True) start len attempt left = Inr v"
  using assms
proof (induction left arbitrary: attempt)
  case 0
  then have "a = attempt" by simp
  with 0 show ?case by simp
next
  case (Suc left)
  show ?case
  proof (cases "a = attempt")
    case True
    with Suc.prems show ?thesis by simp
  next
    case False
    obtain got err where l: "loader start len attempt = (got, err)" by (cases "loader start len attempt")
    have "attempt \<in> {attempt..<a}" using Suc.prems(1) False by simp
    then have "length got < len" "err = None \<or> err = Some ReadEOF" using Suc.prems(5) l by fastforce+
    moreover have "readPiece_loop loader (\<lambda>_ _. True) start len (Suc attempt) left = Inr v"
      using Suc.prems False by (intro Suc.IH) auto
    ultimately show ?thesis using l by (auto simp: Let_def)
  qed
qed

lemma readPiece_recovers:
  assumes "loader_recovers loader T" and "0 \<le> start" and "start + int len \<le> int (length T)"
  shows "readPiece loader (\<lambda>_ _. True) start len = Inr (take len (drop (nat start) T))"
proof -
  from assms obtain a where a: "a \<in> {1..5}" "loader start len a = (take len (drop (nat start) T), None)"
    "\<forall>b \<in> {1..<a}. length (fst (loader start len b)) < len \<and>
       (snd (loader start len b) = None \<or> snd (loader start len b) = Some ReadEOF)"
    unfolding loader_recovers_def by blast
  show ?thesis
    unfolding readPiece_def by (rule readPiece_loop_recovers [of _ a]) (use a assms(2,3) in auto)
qed

lemma read_span_recovers:
  assumes "cache_holds (piece_good f T) c" and "loader_recovers loader T" and "geometry_ok f T" and "span_good f T sp"
    and "\<not> rfClosed f"
  shows "\<exists>v c'. read_span loader (\<lambda>_ _. True) f sp c = (Inr v, c')"
proof -
  let ?p = "fPieceLength (rfRef f)" and ?k = "Key (rfKey f) (Index sp)"
  let ?e = "Offset sp + SpanLength sp" and ?s = "Index sp * fPieceLength (rfRef f)"
  note sp = assms(4) [unfolded span_good_def]
  have w: "wrap64 ?e = ?e" using sp assms(3) by (intro wrap64_id) (auto simp: geometry_ok_def is_int64_def)
  have s0: "0 \<le> ?s" using sp assms(3) by (simp add: geometry_ok_def)
  have long: "?e \<le> int (length (tbytes T ?s ?p))" using sp s0 assms(3)
    by (subst length_tbytes) (auto simp: geometry_ok_def)
  obtain g c1 where g: "Get ?k c = (g, c1)" by (cases "Get ?k c")
  have c1: "cache_holds (piece_good f T) c1" using cache_holds_ops(1) [OF assms(1), of ?k] g by simp
  have res: "v = tbytes T ?s ?p" if "Get ?k d = (Some v, d')" "cache_holds (piece_good f T) d" for d d' v
  proof -
    have "content d ?k = Some v" using that pc.get_value [of d ?k] by (simp add: cache_holds_def)
    then have "piece_good f T ?k v" using that(2) by (simp add: cache_holds_def pc.all_resident_def)
    then show ?thesis using sp by (simp add: piece_good_def)
  qed
  show ?thesis
  proof (cases g)
    case (Some v)
    with res g assms(1) have "v = tbytes T ?s ?p" by blast
    with Some g sp long show ?thesis by (simp add: read_span_def Let_def w)
  next
    case None
    let ?len = "if fTorrentSize (rfRef f) - ?s < ?p then fTorrentSize (rfRef f) - ?s else ?p"
    have len: "0 < ?len" "?s + int (nat ?len) \<le> int (length T)" using sp s0 assms(3) by (auto simp: geometry_ok_def)
    have blob: "take (nat ?len) (drop (nat ?s) T) = tbytes T ?s ?p"
      using sp s0 assms(3) by (auto simp: tbytes_def geometry_ok_def)
    have "\<exists>c'. load_piece loader (\<lambda>_ _. True) f (Index sp) c1 = (Inr (tbytes T ?s ?p), c')"
    proof (cases "Get ?k c1")
      case (Pair h c2)
      show ?thesis
      proof (cases h)
        case None
        then show ?thesis
          using readPiece_recovers [OF assms(2) s0 len(2)] blob Pair s0 len(1) assms(5)
          by (simp add: load_piece_def Let_def del: of_nat_nat)
      next
        case (Some v)
        with res [OF _ c1] Pair show ?thesis by (auto simp: load_piece_def)
      qed
    qed
    then obtain c' where "load_piece loader (\<lambda>_ _. True) f (Index sp) c1 = (Inr (tbytes T ?s ?p), c')" by blast
    with None g sp long show ?thesis by (simp add: read_span_def Let_def w)
  qed
qed

lemma one_span_recovers:
  assumes "fs_good T s" and "loader_recovers loader T" and "geometry_ok (fsFile s) T" and "span_good (fsFile s) T sp"
    and "\<not> rfClosed (fsFile s)"
  shows "\<exists>v s'. one_span loader (\<lambda>_ _. True) t sp s = (Inr v, s')"
proof (cases t)
  case None
  with read_span_recovers [OF assms(1) [unfolded fs_good_def] assms(2-5)] show ?thesis by (auto simp: one_span_def)
next
  case (Some i)
  obtain cached c0 where g: "Get (Key (rfKey (fsFile s)) (Index sp)) (fsCache s) = (cached, c0)"
    by (cases "Get (Key (rfKey (fsFile s)) (Index sp)) (fsCache s)")
  let ?s1 = "if cached = None then on_coord (startPiece i (Index sp)) (s\<lparr>fsCache := c0\<rparr>) else s\<lparr>fsCache := c0\<rparr>"
  have "fs_good T (s\<lparr>fsCache := c0\<rparr>)"
    using cache_holds_ops(1) [OF assms(1) [unfolded fs_good_def], of "Key (rfKey (fsFile s)) (Index sp)"] g
    by (simp add: fs_good_def)
  then have "fs_good T ?s1" by (auto intro: on_coord_good piece_holds)
  then have "cache_holds (piece_good (fsFile s) T) (fsCache ?s1)" by (cases cached) (simp_all add: fs_good_def)
  from read_span_recovers [OF this assms(2-5)] obtain v c where
    "read_span loader (\<lambda>_ _. True) (fsFile s) sp (fsCache ?s1) = (Inr v, c)" by blast
  with Some g show ?thesis by (auto simp: one_span_def Let_def split: if_splits)
qed

lemma span_loop_recovers:
  assumes "fs_good T s" and "loader_sound loader T" and "loader_recovers loader T" and "geometry_ok (fsFile s) T"
    and "\<not> rfClosed (fsFile s)" and "f = fsFile s"
    and "\<forall>sp \<in> set sps. span_good f T sp" and "tiles a (map (span_range (fPieceLength (rfRef f))) sps) b"
    and "out = tbytes T a0 (a - a0)" and "0 \<le> a0" and "a0 \<le> a" and "b - a0 \<le> int n" and "a \<le> int (length T)"
  shows "fst (span_loop loader (\<lambda>_ _. True) (\<lambda>_. True) t k sps n out s) =
    (tbytes T a0 (b - a0), if b - a0 < int n then Some ReadEOF else None)"
  using assms
proof (induction sps arbitrary: a out s k)
  case Nil
  then show ?case using tbytes_length [of a0 "a - a0" T] by auto
next
  case (Cons sp sps)
  let ?p = "fPieceLength (rfRef f)"
  have len: "int (length out) = a - a0" using Cons.prems by (simp add: tbytes_length)
  have sp: "span_good f T sp" "Index sp * ?p + Offset sp = a" "0 < SpanLength sp"
      "tiles (a + SpanLength sp) (map (span_range ?p) sps) b"
    using Cons.prems(7,8) by (simp_all add: span_range_def [of _ sp])
  have le: "a + SpanLength sp \<le> b" using tiles_le [OF sp(4)] .
  obtain v s1 where o: "one_span loader (\<lambda>_ _. True) t sp s = (Inr v, s1)"
    using one_span_recovers [OF Cons.prems(1,3,4), of sp t] sp Cons.prems(5,6) by blast
  have s1: "fs_good T s1" "fsFile s1 = f" "v = tbytes T a (SpanLength sp)"
    using one_span_sound [OF Cons.prems(1,2,4) _ o] sp Cons.prems(6) by auto
  have Tl: "a + SpanLength sp \<le> int (length T)" using sp by (simp add: span_good_def)
  have "int (length v) = SpanLength sp" using s1(3) Tl sp(3) Cons.prems(10,11) by (simp add: tbytes_length)
  then have "take (n - length out) v = v" using len le Cons.prems(12) by simp
  then have "out @ take (n - length out) v = tbytes T a0 (a + SpanLength sp - a0)"
    using tbytes_append [of a0 "a - a0" "SpanLength sp" T] Cons.prems(9-11) sp(3) s1(3) by (simp add: algebra_simps)
  moreover have "fst (span_loop loader (\<lambda>_ _. True) (\<lambda>_. True) t k (sp # sps) n out s) =
      fst (span_loop loader (\<lambda>_ _. True) (\<lambda>_. True) t (Suc k) sps n (out @ take (n - length out) v) s1)"
    using o by simp
  moreover have "fst (span_loop loader (\<lambda>_ _. True) (\<lambda>_. True) t (Suc k) sps n (tbytes T a0 (a + SpanLength sp - a0)) s1) =
      (tbytes T a0 (b - a0), if b - a0 < int n then Some ReadEOF else None)"
    by (rule Cons.IH [of s1 "a + SpanLength sp"]) (use Cons.prems s1 sp Tl in auto)
  ultimately show ?case by simp
qed

lemma ReadAtContext_complete:
  assumes "fs_good T s" and "loader_sound loader T" and "loader_recovers loader T" and "geometry_ok (fsFile s) T"
    and "\<not> rfClosed (fsFile s)" and "f = fsFile s" and "0 \<le> off" and "off < fSize (rfRef f)" and "0 < n"
  shows "fst (ReadAtContext loader (\<lambda>_ _. True) (\<lambda>_. True) n off s) =
    (tbytes T (fOffset (rfRef f) + off) (min (int n) (fSize (rfRef f) - off)),
     if fSize (rfRef f) - off < int n then Some ReadEOF else None)"
proof -
  let ?req = "file_request f off (int n)"
  have v: "request_valid ?req" "request_start ?req = fOffset (rfRef f) + off"
      "request_end ?req = fOffset (rfRef f) + min (off + int n) (fSize (rfRef f))"
    using file_request_valid [of f T off n] assms by auto
  have ne: "Spans (Plan ?req) \<noteq> []" using Plan_tiles [OF v(1)] v assms(8,9) by auto
  obtain t s1 where b: "begin_read ?req (Plan ?req) s = (t, s1)" by (cases "begin_read ?req (Plan ?req) s")
  have s1: "fs_good T s1" "rfRef (fsFile s1) = rfRef f" "\<not> rfClosed (fsFile s1)"
    using begin_read_good [OF assms(1) b] assms(5,6) by auto
  have p: "PieceLength ?req = fPieceLength (rfRef f)" by (simp add: file_request_def)
  have T: "request_end ?req \<le> int (length T)" using assms(4,6) v(3) by (auto simp: geometry_ok_def)
  have sps: "\<forall>sp \<in> set (Spans (Plan ?req)). span_good (fsFile s1) T sp"
    using plan_spans_good [OF v(1) T p] s1(2) by (simp add: span_good_def)
  have "fst (span_loop loader (\<lambda>_ _. True) (\<lambda>_. True) t 0 (Spans (Plan ?req)) n [] s1) =
      (tbytes T (request_start ?req) (request_end ?req - request_start ?req),
       if request_end ?req - request_start ?req < int n then Some ReadEOF else None)"
    by (rule span_loop_recovers [OF s1(1) assms(2,3) _ s1(3) refl sps, of "request_start ?req"])
      (use assms(4,6-9) v T Plan_tiles [OF v(1)] p s1 in \<open>auto simp: geometry_ok_def tbytes_def\<close>)
  moreover have "fst (ReadAtContext loader (\<lambda>_ _. True) (\<lambda>_. True) n off s) =
      fst (span_loop loader (\<lambda>_ _. True) (\<lambda>_. True) t 0 (Spans (Plan ?req)) n [] s1)"
    using assms(5-9) ne b by (simp add: ReadAtContext_def Let_def case_prod_beta)
  moreover have "request_end ?req - request_start ?req = min (int n) (fSize (rfRef f) - off)" using v by auto
  ultimately show ?thesis unfolding v(2) by auto
qed

section \<open>Properties\<close>


definition sample_torrent :: bytes where
  "sample_torrent = [0, 1, 2, 3, 4, 5, 6, 7, 8, 9]"

text \<open>A source that answers the first attempt with an early end of file and then delivers.\<close>

definition sample_loader :: loader where
  "sample_loader start len attempt =
     (if attempt = 1 \<and> 0 < len then ([], Some ReadEOF) else (take len (drop (nat start) sample_torrent), None))"

definition sample_fs :: "coord option \<Rightarrow> fileState" where
  "sample_fs co = \<lparr>fsCache = New 100, fsCoord = co, fsFile = \<lparr>rfKey = ''t'',
     rfRef = \<lparr>fid = 1, fOffset = 2, fSize = 7, fPieceLength = 4, fTorrentSize = 10\<rparr>, rfReadahead = 0,
     rfClosed = False, rfHandles = 1, rfWindow = []\<rparr>\<rparr>"

lemma sample_fs_good: "fs_good sample_torrent (sample_fs co)"
  using New_wf [of 100] by (simp add: fs_good_def sample_fs_def cache_holds_def pc.all_resident_def content_def) (simp add: New_def)

lemma sample_geometry: "geometry_ok (fsFile (sample_fs co)) sample_torrent"
  by (simp add: geometry_ok_def sample_fs_def sample_torrent_def is_int64_def)

lemma sample_loader_sound: "loader_sound sample_loader sample_torrent"
  by (auto simp: loader_sound_def sample_loader_def split: if_splits)

lemma sample_loader_recovers: "loader_recovers sample_loader sample_torrent"
  unfolding loader_recovers_def
proof (intro allI impI)
  fix start :: int and len :: nat
  assume "0 \<le> start" "start + int len \<le> int (length sample_torrent)"
  show "\<exists>a \<in> {1..5}. sample_loader start len a = (take len (drop (nat start) sample_torrent), None) \<and>
        (\<forall>b \<in> {1..<a}. length (fst (sample_loader start len b)) < len \<and>
           (snd (sample_loader start len b) = None \<or> snd (sample_loader start len b) = Some ReadEOF))"
  proof (cases "len = 0")
    case True
    then show ?thesis by (intro bexI [of _ 1]) (auto simp: sample_loader_def)
  next
    case False
    then have "\<forall>b \<in> {1..<2}. b = (1::nat)" by auto
    with False show ?thesis by (intro bexI [of _ 2]) (auto simp: sample_loader_def)
  qed
qed


text \<open>
  C2: with a source that delivers every piece within the five attempts and a
  context that stays live, a read of an open file returns exactly the requested bytes up to the
  end of the file, with an end-of-file error exactly when the buffer is longer than that.
\<close>
theorem file_read_complete:
  assumes "fs_good T s" and "loader_sound loader T" and "loader_recovers loader T" and "geometry_ok (fsFile s) T"
    and "\<not> rfClosed (fsFile s)" and "f = fsFile s" and "0 \<le> off" and "off < fSize (rfRef f)" and "0 < n"
  shows "fst (ReadAtContext loader (\<lambda>_ _. True) (\<lambda>_. True) n off s) =
    (tbytes T (fOffset (rfRef f) + off) (min (int n) (fSize (rfRef f) - off)),
     if fSize (rfRef f) - off < int n then Some ReadEOF else None)"
  using assms by (rule ReadAtContext_complete)

theorem file_read_complete_witness:
  "fst (ReadAtContext sample_loader (\<lambda>_ _. True) (\<lambda>_. True) 20 1 (sample_fs None)) = ([3, 4, 5, 6, 7, 8], Some ReadEOF)"
proof -
  have "\<not> rfClosed (fsFile (sample_fs None))" "1 < fSize (rfRef (fsFile (sample_fs None)))" by (simp_all add: sample_fs_def)
  from file_read_complete [OF sample_fs_good sample_loader_sound sample_loader_recovers sample_geometry this(1) refl _ this(2), of 20]
  show ?thesis by (simp add: sample_fs_def tbytes_def sample_torrent_def)
qed

end
