(* ===== verification/Flights.thy ===== *)
theory Flights
  imports ReadFile
begin

text \<open>
  The piece fetcher (\<open>pieceFetcher\<close> in \<open>internal/session/file.go\<close>): all readers that wait for one
  missing piece share one flight, a reader that gives up detaches, and the last one to detach
  cancels the download.

  A flight object is an address into \<open>pfHeap\<close>. Each locked section is one step: \<open>joinFlight\<close>,
  \<open>detachFlight\<close>, the end of \<open>runFlight\<close> and \<open>CloseFetcher\<close>. What the torrent's reader delivers is a
  parameter of the end of a flight: the error of the seek, the bytes and the error of
  \<open>io.ReadFull\<close>, and the error of closing the reader.
\<close>

record pieceFlight =
  flIndex :: int
  flData :: bytes
  flErr :: "read_error option"
  flWaiters :: int
  flFinished :: bool
  flCancelled :: bool

record pieceFetcher =
  pfKey :: string
  pfPieceLength :: int
  pfTorrentSize :: int
  pfCache :: Cache
  pfInflight :: "int \<rightharpoonup> nat"
  pfFlights :: "nat list"
  pfHeap :: "nat \<Rightarrow> pieceFlight"
  pfNext :: nat
  pfClosed :: bool

definition noFlight :: pieceFlight where
  "noFlight = \<lparr>flIndex = 0, flData = [], flErr = None, flWaiters = 0, flFinished = True, flCancelled = True\<rparr>"

definition newPieceFetcher :: "string \<Rightarrow> int \<Rightarrow> int \<Rightarrow> Cache \<Rightarrow> pieceFetcher" where
  "newPieceFetcher key pieceLength torrentSize c =
     \<lparr>pfKey = key, pfPieceLength = pieceLength, pfTorrentSize = torrentSize, pfCache = c, pfInflight = Map.empty,
      pfFlights = [], pfHeap = (\<lambda>_. noFlight), pfNext = 0, pfClosed = False\<rparr>"

text \<open>The first part of \<open>ReadAtContext\<close>: the piece of an offset, its start and its length.\<close>

definition fetch_piece :: "pieceFetcher \<Rightarrow> int \<Rightarrow> read_error + (int \<times> int \<times> int)" where
  "fetch_piece f off =
     (if off < 0 \<or> pfPieceLength f \<le> 0 then Inl ErrInvalidName
      else
        let index = off sdiv pfPieceLength f;
            start = index * pfPieceLength f;
            len = (if pfTorrentSize f - start < pfPieceLength f then pfTorrentSize f - start else pfPieceLength f)
        in if start < 0 \<or> len \<le> 0 \<or> off \<ge> start + len then Inl ReadEOF else Inr (index, start, len))"

definition joinFlight :: "int \<Rightarrow> pieceFetcher \<Rightarrow> (read_error + nat) \<times> pieceFetcher" where
  "joinFlight index f =
     (if pfClosed f then (Inl ErrFileClosed, f)
      else
        case pfInflight f index of
          Some a \<Rightarrow>
            (Inr a, f\<lparr>pfHeap := (pfHeap f)(a := (pfHeap f a)\<lparr>flWaiters := flWaiters (pfHeap f a) + 1\<rparr>)\<rparr>)
        | None \<Rightarrow>
            let a = pfNext f
            in (Inr a, f\<lparr>pfHeap := (pfHeap f)(a := \<lparr>flIndex = index, flData = [], flErr = None, flWaiters = 1,
                           flFinished = False, flCancelled = False\<rparr>),
                         pfInflight := (pfInflight f)(index \<mapsto> a), pfFlights := a # pfFlights f, pfNext := a + 1\<rparr>))"

definition flight_error :: "nat \<Rightarrow> read_error option \<Rightarrow> bytes \<Rightarrow> read_error option \<Rightarrow> read_error option \<Rightarrow> read_error option" where
  "flight_error len seekErr got readErr closeErr =
     (let err = (case seekErr of
                   Some e \<Rightarrow> Some e
                 | None \<Rightarrow>
                     if readErr = Some ReadUnexpectedEOF then Some ReadEOF
                     else if readErr = None \<and> length got \<noteq> len then Some ReadUnexpectedEOF
                     else readErr)
      in if err = None \<and> closeErr \<noteq> None \<and> closeErr \<noteq> Some ErrFileClosed then closeErr else err)"

definition runFlight :: "nat \<Rightarrow> nat \<Rightarrow> read_error option \<Rightarrow> bytes \<Rightarrow> read_error option \<Rightarrow> read_error option \<Rightarrow> pieceFetcher \<Rightarrow> pieceFetcher" where
  "runFlight a len seekErr got readErr closeErr f =
     (let err = flight_error len seekErr got readErr closeErr;
          blob = take len got @ replicate (len - length got) 0;
          fl = pfHeap f a;
          f1 = (if err = None then f\<lparr>pfCache := Put (Key (pfKey f) (flIndex fl)) blob (pfCache f)\<rparr> else f)
      in f1\<lparr>pfHeap := (pfHeap f1)(a := fl\<lparr>flData := blob, flErr := err, flFinished := True, flCancelled := True\<rparr>),
            pfInflight := (if pfInflight f1 (flIndex fl) = Some a then (pfInflight f1)(flIndex fl := None) else pfInflight f1),
            pfFlights := removeAll a (pfFlights f1)\<rparr>)"

definition detachFlight :: "nat \<Rightarrow> pieceFetcher \<Rightarrow> pieceFetcher" where
  "detachFlight a f =
     (let fl = pfHeap f a;
          w = (if flWaiters fl > 0 then flWaiters fl - 1 else flWaiters fl);
          fl1 = fl\<lparr>flWaiters := w\<rparr>
      in if w = 0 \<and> \<not> flFinished fl
         then f\<lparr>pfHeap := (pfHeap f)(a := fl1\<lparr>flCancelled := True\<rparr>),
                pfInflight := (if pfInflight f (flIndex fl) = Some a then (pfInflight f)(flIndex fl := None) else pfInflight f)\<rparr>
         else f\<lparr>pfHeap := (pfHeap f)(a := fl1)\<rparr>)"

text \<open>Closing marks the fetcher and cancels every flight; it then waits for the flights to end.\<close>

definition CloseFetcher :: "pieceFetcher \<Rightarrow> pieceFetcher" where
  "CloseFetcher f =
     (if pfClosed f then f
      else f\<lparr>pfClosed := True,
             pfHeap := (\<lambda>a. if a \<in> set (pfFlights f) then (pfHeap f a)\<lparr>flCancelled := True\<rparr> else pfHeap f a)\<rparr>)"

text \<open>The last part of \<open>ReadAtContext\<close>: what a reader of \<open>n\<close> bytes takes from its finished flight.\<close>

definition flight_result :: "pieceFlight \<Rightarrow> nat \<Rightarrow> int \<Rightarrow> int \<Rightarrow> bytes \<times> read_error option" where
  "flight_result fl n off start =
     (if flErr fl \<noteq> None then ([], flErr fl)
      else
        let from' = off - start
        in if from' < 0 \<or> from' \<ge> int (length (flData fl)) then ([], Some ReadEOF)
           else let out = take n (drop (nat from') (flData fl))
                in (out, if length out < n then Some ReadEOF else None))"

section \<open>Sharing\<close>

text \<open>
  States under any interleaving of readers. The list \<open>att\<close> holds one entry per reader that joined a
  flight and has not detached from it yet.
\<close>

inductive fetch_reach :: "nat list \<Rightarrow> pieceFetcher \<Rightarrow> bool" where
  init: "fetch_reach [] (newPieceFetcher key pl ts c)"
| join: "fetch_reach att f \<Longrightarrow> joinFlight index f = (Inr a, f') \<Longrightarrow> fetch_reach (a # att) f'"
| detach: "fetch_reach att f \<Longrightarrow> a \<in> set att \<Longrightarrow> fetch_reach (remove1 a att) (detachFlight a f)"
| run: "fetch_reach att f \<Longrightarrow> a \<in> set (pfFlights f) \<Longrightarrow> fetch_reach att (runFlight a len se got re ce f)"
| close: "fetch_reach att f \<Longrightarrow> fetch_reach att (CloseFetcher f)"
| cache_user: "fetch_reach att f \<Longrightarrow> fetch_reach att (f\<lparr>pfCache := c\<rparr>)"

definition flights_ok :: "nat list \<Rightarrow> pieceFetcher \<Rightarrow> bool" where
  "flights_ok att f \<longleftrightarrow>
     (\<forall>a. flWaiters (pfHeap f a) = int (count_list att a)) \<and>
     (\<forall>a. a \<in> set (pfFlights f) \<longleftrightarrow> a < pfNext f \<and> \<not> flFinished (pfHeap f a)) \<and>
     (\<forall>a. pfNext f \<le> a \<longrightarrow> flFinished (pfHeap f a) \<and> a \<notin> set att) \<and>
     (\<forall>i a. pfInflight f i = Some a \<longleftrightarrow> flIndex (pfHeap f a) = i \<and> \<not> flFinished (pfHeap f a) \<and> 0 < flWaiters (pfHeap f a)) \<and>
     (\<not> pfClosed f \<longrightarrow> (\<forall>a. \<not> flFinished (pfHeap f a) \<longrightarrow> (flCancelled (pfHeap f a) \<longleftrightarrow> flWaiters (pfHeap f a) = 0)))"

lemma count_list_remove1: "a \<in> set xs \<Longrightarrow> count_list (remove1 a xs) b = count_list xs b - (if a = b then 1 else 0)"
  by (induction xs) (auto simp: count_list_0_iff Suc_diff_le Suc_le_eq gr0_conv_Suc count_notin)

lemma flights_unique:
  assumes "flights_ok att f" and "flIndex (pfHeap f a) = flIndex (pfHeap f b)"
    and "\<not> flFinished (pfHeap f a)" "0 < flWaiters (pfHeap f a)" "\<not> flFinished (pfHeap f b)" "0 < flWaiters (pfHeap f b)"
  shows "a = b"
proof -
  have "\<forall>i a. pfInflight f i = Some a \<longleftrightarrow> flIndex (pfHeap f a) = i \<and> \<not> flFinished (pfHeap f a) \<and> 0 < flWaiters (pfHeap f a)"
    using assms(1) unfolding flights_ok_def by (elim conjE)
  then have "pfInflight f (flIndex (pfHeap f a)) = Some a" "pfInflight f (flIndex (pfHeap f b)) = Some b"
    using assms(3-6) by simp_all
  with assms(2) show ?thesis by (metis option.inject)
qed

lemma joinFlight_ok:
  assumes "flights_ok att f" and "joinFlight i f = (Inr a, f')"
  shows "flights_ok (a # att) f'"
proof (cases "pfInflight f i")
  case None
  have none: "\<And>b. \<not> (flIndex (pfHeap f b) = i \<and> \<not> flFinished (pfHeap f b) \<and> 0 < flWaiters (pfHeap f b))"
    using assms(1) None unfolding flights_ok_def by (metis option.distinct(1))
  have f': "\<not> pfClosed f" "a = pfNext f" "f' = f\<lparr>pfHeap := (pfHeap f)(a := \<lparr>flIndex = i, flData = [], flErr = None, flWaiters = 1,
      flFinished = False, flCancelled = False\<rparr>), pfInflight := (pfInflight f)(i \<mapsto> a), pfFlights := a # pfFlights f, pfNext := a + 1\<rparr>"
      (is "_ = ?g")
    using assms(2) None by (auto simp: joinFlight_def Let_def split: if_splits)
  have fresh: "flFinished (pfHeap f a)" "count_list att a = 0"
    using assms(1) f'(2) unfolding flights_ok_def by (auto simp: f'(2) count_notin dest: spec [of _ "pfNext f"])
  note ok = assms(1) [unfolded flights_ok_def]
  show ?thesis
    unfolding flights_ok_def f'(3)
  proof (intro conjI)
    show "\<forall>b. flWaiters (pfHeap ?g b) = int (count_list (a # att) b)" using ok fresh by simp
    show "\<forall>b. b \<in> set (pfFlights ?g) \<longleftrightarrow> b < pfNext ?g \<and> \<not> flFinished (pfHeap ?g b)"
      using ok by (auto simp: f'(2) less_Suc_eq)
    show "\<forall>b. pfNext ?g \<le> b \<longrightarrow> flFinished (pfHeap ?g b) \<and> b \<notin> set (a # att)" using ok by (auto simp: f'(2))
    show "\<forall>j b. pfInflight ?g j = Some b \<longleftrightarrow> flIndex (pfHeap ?g b) = j \<and> \<not> flFinished (pfHeap ?g b) \<and> 0 < flWaiters (pfHeap ?g b)"
    proof (intro allI)
      fix j b
      show "pfInflight ?g j = Some b \<longleftrightarrow> flIndex (pfHeap ?g b) = j \<and> \<not> flFinished (pfHeap ?g b) \<and> 0 < flWaiters (pfHeap ?g b)"
        using conjunct1 [OF conjunct2 [OF conjunct2 [OF conjunct2 [OF ok]]], THEN spec [of _ j], THEN spec [of _ b]] none [of b] fresh
        by (cases "b = a"; cases "j = i") auto
    qed
    show "\<not> pfClosed ?g \<longrightarrow> (\<forall>b. \<not> flFinished (pfHeap ?g b) \<longrightarrow> (flCancelled (pfHeap ?g b) \<longleftrightarrow> flWaiters (pfHeap ?g b) = 0))"
      using ok f'(1) by simp
  qed
next
  case (Some b)
  have f': "\<not> pfClosed f" "a = b" "f' = f\<lparr>pfHeap := (pfHeap f)(b := (pfHeap f b)\<lparr>flWaiters := flWaiters (pfHeap f b) + 1\<rparr>)\<rparr>"
    using assms(2) Some by (auto simp: joinFlight_def Let_def split: if_splits)
  have b: "\<not> flFinished (pfHeap f b)" "0 < flWaiters (pfHeap f b)" "b < pfNext f"
  proof -
    note ok = assms(1) [unfolded flights_ok_def]
    show f: "\<not> flFinished (pfHeap f b)" and "0 < flWaiters (pfHeap f b)" using ok Some by blast+
    show "b < pfNext f" using ok f by (metis not_le)
  qed
  note ok = assms(1) [unfolded flights_ok_def]
  show ?thesis
    unfolding flights_ok_def f'(2,3)
  proof (intro conjI, goal_cases)
    case 1
    show ?case using ok by simp
  next
    case 2
    show ?case using ok b by simp
  next
    case 3
    show ?case using ok b by auto
  next
    case 4
    show ?case using ok b by auto
  next
    case 5
    show ?case using ok b by auto
  qed
qed

lemma detachFlight_ok:
  assumes "flights_ok att f" and "a \<in> set att"
  shows "flights_ok (remove1 a att) (detachFlight a f)"
proof -
  have c: "0 < count_list att a" using assms(2) by (metis count_list_0_iff neq0_conv)
  have w: "flWaiters (pfHeap f a) = int (count_list att a)" using assms(1) by (simp add: flights_ok_def)
  have r: "int (count_list (remove1 a att) b) = int (count_list att b) - (if a = b then 1 else 0)" for b
    using c by (auto simp: count_list_remove1 [OF assms(2)] of_nat_diff)
  show ?thesis
  proof (cases "count_list att a = 1 \<and> \<not> flFinished (pfHeap f a)")
    case True
    then have d: "detachFlight a f = f\<lparr>pfHeap := (pfHeap f)(a := (pfHeap f a)\<lparr>flWaiters := 0, flCancelled := True\<rparr>),
        pfInflight := (if pfInflight f (flIndex (pfHeap f a)) = Some a then (pfInflight f)(flIndex (pfHeap f a) := None) else pfInflight f)\<rparr>"
      using w by (simp add: detachFlight_def Let_def)
    have "pfInflight f (flIndex (pfHeap f a)) = Some a" using assms(1) True w unfolding flights_ok_def by auto
    note inf = this
    note ok = assms(1) [unfolded flights_ok_def]
    show ?thesis
      unfolding flights_ok_def d
    proof (intro conjI, goal_cases)
      case 1
      show ?case using ok True by (simp add: r)
    next
      case 3
      show ?case using ok True by (auto dest: notin_set_remove1)
    next
      case 4
      show ?case using ok inf flights_unique [OF assms(1), of _ a] True w by auto
    qed (use ok True w in auto)
  next
    case False
    then have d: "detachFlight a f = f\<lparr>pfHeap := (pfHeap f)(a := (pfHeap f a)\<lparr>flWaiters := int (count_list att a) - 1\<rparr>)\<rparr>"
      using w c by (auto simp: detachFlight_def Let_def)
    note ok = assms(1) [unfolded flights_ok_def]
    show ?thesis
      unfolding flights_ok_def d
    proof (intro conjI, goal_cases)
      case 1
      show ?case using ok c by (auto simp: of_nat_diff Suc_le_eq count_list_remove1 [OF assms(2)])
    next
      case 3
      show ?case using ok by (auto dest: notin_set_remove1)
    next
      case 4
      show ?case using ok False w c by auto
    next
      case 5
      show ?case using ok False w c by auto
    qed (use ok in auto)
  qed
qed

lemma runFlight_ok:
  assumes "flights_ok att f" and "a \<in> set (pfFlights f)"
  shows "flights_ok att (runFlight a len se got re ce f)"
proof -
  note ok = assms(1) [unfolded flights_ok_def]
  define blob where "blob = take len got @ replicate (len - length got) (0::byte)"
  define err where "err = flight_error len se got re ce"
  obtain c where r: "runFlight a len se got re ce f = f\<lparr>pfCache := c,
      pfHeap := (pfHeap f)(a := (pfHeap f a)\<lparr>flData := blob, flErr := err, flFinished := True, flCancelled := True\<rparr>),
      pfInflight := (if pfInflight f (flIndex (pfHeap f a)) = Some a then (pfInflight f)(flIndex (pfHeap f a) := None) else pfInflight f),
      pfFlights := removeAll a (pfFlights f)\<rparr>"
  proof (cases "err = None")
    case True
    then show ?thesis
      by (intro that [of "Put (Key (pfKey f) (flIndex (pfHeap f a))) blob (pfCache f)"])
         (simp add: runFlight_def Let_def blob_def err_def)
  next
    case False
    then have "flight_error len se got re ce \<noteq> None" by (simp add: err_def)
    then show ?thesis by (intro that [of "pfCache f"]) (simp only: runFlight_def Let_def blob_def err_def if_False simp_thms, simp)
  qed
  have inf: "\<And>j b. pfInflight f j = Some b \<longleftrightarrow> flIndex (pfHeap f b) = j \<and> \<not> flFinished (pfHeap f b) \<and> 0 < flWaiters (pfHeap f b)"
    using ok by blast
  show ?thesis
    unfolding flights_ok_def r
  proof (intro conjI, goal_cases)
    case 4
    show ?case using inf flights_unique [OF assms(1), of _ a] by (auto split: if_splits)
  qed (use ok in auto)
qed

lemma CloseFetcher_ok: "flights_ok att f \<Longrightarrow> flights_ok att (CloseFetcher f)"
  by (auto simp: flights_ok_def CloseFetcher_def)

lemma fetch_reach_ok: "fetch_reach att f \<Longrightarrow> flights_ok att f"
proof (induction rule: fetch_reach.induct)
  case (init key pl ts c)
  then show ?case by (simp add: flights_ok_def newPieceFetcher_def noFlight_def)
next
  case (cache_user att f c)
  then show ?case by (simp add: flights_ok_def)
qed (simp_all add: joinFlight_ok detachFlight_ok runFlight_ok CloseFetcher_ok)

section \<open>Properties\<close>

text \<open>
  C37: while the fetcher is open, a flight that some reader still waits for is never
  cancelled, whoever else gives up; it is the flight every new reader of the piece joins, so two
  readers waiting for the same piece wait for the same download.
\<close>
theorem flight_shared:
  assumes "fetch_reach att f" and "\<not> pfClosed f" and "a \<in> set att" and "\<not> flFinished (pfHeap f a)"
  shows "\<not> flCancelled (pfHeap f a) \<and> pfInflight f (flIndex (pfHeap f a)) = Some a \<and>
    (\<forall>b. b \<in> set att \<and> \<not> flFinished (pfHeap f b) \<and> flIndex (pfHeap f b) = flIndex (pfHeap f a) \<longrightarrow> b = a)"
proof -
  note ok = fetch_reach_ok [OF assms(1), unfolded flights_ok_def]
  have w: "0 < flWaiters (pfHeap f b)" if "b \<in> set att" for b
    using ok that by (metis count_list_0_iff neq0_conv of_nat_0_less_iff)
  then have "pfInflight f (flIndex (pfHeap f b)) = Some b" if "b \<in> set att" "\<not> flFinished (pfHeap f b)" for b
    using ok that by blast
  moreover have "\<not> flCancelled (pfHeap f a)" using ok assms w [OF assms(3)] by auto
  ultimately show ?thesis using assms(3,4) by (metis option.inject)
qed

theorem flight_shared_witness:
  "let f = snd (joinFlight 7 (newPieceFetcher ''t'' 4 40 (New 100)));
       g = detachFlight 0 (snd (joinFlight 7 f))
   in \<not> flCancelled (pfHeap g 0) \<and> pfInflight g 7 = Some 0"
proof -
  let ?f = "snd (joinFlight 7 (newPieceFetcher ''t'' 4 40 (New 100)))"
  let ?h = "snd (joinFlight 7 ?f)"
  have "joinFlight 7 (newPieceFetcher ''t'' 4 40 (New 100)) = (Inr 0, ?f)"
    by (simp add: joinFlight_def newPieceFetcher_def)
  then have "fetch_reach [0] ?f" using fetch_reach.join [OF fetch_reach.init] by blast
  moreover have "joinFlight 7 ?f = (Inr 0, ?h)" by (simp add: joinFlight_def newPieceFetcher_def)
  ultimately have "fetch_reach [0, 0] ?h" using fetch_reach.join by blast
  from fetch_reach.detach [OF this, of 0] have r: "fetch_reach [0] (detachFlight 0 ?h)" by simp
  have "\<not> pfClosed (detachFlight 0 ?h)" "\<not> flFinished (pfHeap (detachFlight 0 ?h) 0)" "flIndex (pfHeap (detachFlight 0 ?h) 0) = 7"
    by (simp_all add: joinFlight_def newPieceFetcher_def detachFlight_def)
  with flight_shared [OF r, of 0] show ?thesis by simp
qed

text \<open>
  flight_last_detach_cancels: the last reader that gives up on an unfinished flight cancels it and
  takes it out of the map, so that the next reader of the piece starts a new download.
\<close>
theorem flight_last_detach_cancels:
  assumes "fetch_reach att f" and "count_list att a = 1" and "\<not> flFinished (pfHeap f a)"
  shows "flCancelled (pfHeap (detachFlight a f) a) \<and> pfInflight (detachFlight a f) (flIndex (pfHeap f a)) = None"
proof -
  note ok = fetch_reach_ok [OF assms(1), unfolded flights_ok_def]
  have w: "flWaiters (pfHeap f a) = 1" using ok assms(2) by simp
  then have "pfInflight f (flIndex (pfHeap f a)) = Some a" using ok assms(3) by auto
  with w assms(3) show ?thesis by (simp add: detachFlight_def Let_def)
qed

theorem flight_last_detach_cancels_witness:
  "pfInflight (detachFlight 0 (snd (joinFlight 7 (newPieceFetcher ''t'' 4 40 (New 100))))) 7 = None"
proof -
  let ?f = "snd (joinFlight 7 (newPieceFetcher ''t'' 4 40 (New 100)))"
  have "joinFlight 7 (newPieceFetcher ''t'' 4 40 (New 100)) = (Inr 0, ?f)"
    by (simp add: joinFlight_def newPieceFetcher_def)
  then have r: "fetch_reach [0] ?f" using fetch_reach.join [OF fetch_reach.init] by blast
  have "\<not> flFinished (pfHeap ?f 0)" "flIndex (pfHeap ?f 0) = 7" by (simp_all add: joinFlight_def newPieceFetcher_def)
  with flight_last_detach_cancels [OF r, of 0] show ?thesis by simp
qed

end
