(* ===== verification/PieceStore.thy ===== *)
theory PieceStore
  imports Cache
begin

text \<open>
  The piece store (\<open>internal/piecestore/store.go\<close>): chunks that peers deliver are collected in a
  staging buffer per piece, a hash run over the whole piece issues a verification token, and
  \<open>MarkComplete\<close> promotes a verified buffer into the cache.

  A lifecycle object is an address; \<open>lifeClosed\<close> holds its closed bit, and \<open>torrents\<close> lists the
  entries of the map from torrents to lifecycles. Every method holds the
  store's mutex for its whole body, so it is a function on the state; \<open>WriteTo\<close>, which reads
  in several locked sections, is built from the steps \<open>ReadAt\<close> and \<open>markVerified\<close>. A slice
  expression out of range is the error \<open>SlicePanic\<close>. The buffer a reader passes is modelled by
  its length, and the bytes copied into it are the result.
\<close>

datatype store_error =
    ErrTorrentClosed | ErrStoreClosed | ErrPieceLength | ErrExceedsCapacity | ErrStaleEpoch
  | ErrStaleGeneration | ErrNotVerified | ErrOutside | ErrNegativeOffset | EOF | ErrUnexpectedEOF
  | SlicePanic

section \<open>Staging buffers\<close>

record byteRange =
  br_start :: int
  br_end :: int

record stagingBuffer =
  generation :: u64
  bufData :: bytes
  received :: "byteRange list"

fun cover_loop :: "byteRange list \<Rightarrow> int \<Rightarrow> int \<Rightarrow> bool \<Rightarrow> byteRange list \<Rightarrow> byteRange list" where
  "cover_loop [] start end' placed merged =
     (if placed then merged else merged @ [\<lparr>br_start = start, br_end = end'\<rparr>])"
| "cover_loop (span # rest) start end' placed merged =
     (if br_end span < start then cover_loop rest start end' placed (merged @ [span])
      else if end' < br_start span then
        cover_loop rest start end' True
          ((if placed then merged else merged @ [\<lparr>br_start = start, br_end = end'\<rparr>]) @ [span])
      else
        cover_loop rest (if br_start span < start then br_start span else start)
          (if br_end span > end' then br_end span else end') placed merged)"

definition cover :: "int \<Rightarrow> int \<Rightarrow> stagingBuffer \<Rightarrow> stagingBuffer" where
  "cover start end' b =
     (if start \<ge> end' then b else b\<lparr>received := cover_loop (received b) start end' False []\<rparr>)"

definition covers :: "stagingBuffer \<Rightarrow> int \<Rightarrow> int \<Rightarrow> bool" where
  "covers b start end' \<longleftrightarrow> (\<exists>span \<in> set (received b). br_start span \<le> start \<and> end' \<le> br_end span)"

definition blit :: "bytes \<Rightarrow> nat \<Rightarrow> bytes \<Rightarrow> bytes" where
  "blit dst off src = take off dst @ take (length dst - off) src @ drop (off + length src) dst"

definition write_chunk :: "int \<Rightarrow> bytes \<Rightarrow> stagingBuffer \<Rightarrow> store_error + stagingBuffer" where
  "write_chunk off src b =
     (if off < 0 \<or> off > int (length (bufData b)) then Inl SlicePanic
      else
        let n = min (int (length (bufData b)) - off) (int (length src));
            b' = b\<lparr>bufData := blit (bufData b) (nat off) src\<rparr>
        in Inr (if n > 0 then cover off (off + n) b' else b'))"

section \<open>The store\<close>

record Store =
  storeCapacity :: int
  pieceCache :: Cache
  staging :: "Key \<rightharpoonup> stagingBuffer"
  lastRead :: "Key \<rightharpoonup> u64"
  epochs :: "Key \<rightharpoonup> u64"
  verifiedEpoch :: "Key \<rightharpoonup> u64"
  torrents :: "(string \<times> nat) list"
  nextGeneration :: u64
  storeClosed :: bool
  lifeClosed :: "nat \<Rightarrow> bool"
  nextLife :: nat

record piece =
  pkey :: Key
  plength :: int
  pgeneration :: u64
  plifecycle :: nat

definition NewStore :: "Cache \<Rightarrow> Store" where
  "NewStore c = \<lparr>storeCapacity = Capacity c, pieceCache = c, staging = Map.empty, lastRead = Map.empty,
     epochs = Map.empty, verifiedEpoch = Map.empty, torrents = [], nextGeneration = 0,
     storeClosed = False, lifeClosed = (\<lambda>_. False), nextLife = 0\<rparr>"

definition OpenTorrent :: "string \<Rightarrow> int \<Rightarrow> Store \<Rightarrow> (store_error + nat) \<times> Store" where
  "OpenTorrent key pieceLength s =
     (if pieceLength \<le> 0 then (Inl ErrPieceLength, s)
      else if pieceLength > storeCapacity s then (Inl ErrExceedsCapacity, s)
      else if storeClosed s then (Inl ErrStoreClosed, s)
      else
        case map_of (torrents s) key of
          Some l \<Rightarrow>
            if lifeClosed s l
            then (Inr (nextLife s), s\<lparr>torrents := (key, nextLife s) # filter (\<lambda>x. fst x \<noteq> key) (torrents s), nextLife := nextLife s + 1\<rparr>)
            else (Inr l, s)
        | None \<Rightarrow>
            (Inr (nextLife s), s\<lparr>torrents := (key, nextLife s) # filter (\<lambda>x. fst x \<noteq> key) (torrents s), nextLife := nextLife s + 1\<rparr>))"

definition epoch :: "Store \<Rightarrow> Key \<Rightarrow> u64" where
  "epoch s key = zget (epochs s) key"

definition PieceWithHash :: "string \<Rightarrow> nat \<Rightarrow> int \<Rightarrow> int \<Rightarrow> Store \<Rightarrow> piece" where
  "PieceWithHash key lifecycle index len s =
     \<lparr>pkey = Key key index, plength = len, pgeneration = epoch s (Key key index), plifecycle = lifecycle\<rparr>"

definition drop_torrent :: "string \<Rightarrow> (Key \<rightharpoonup> 'v) \<Rightarrow> (Key \<rightharpoonup> 'v)" where
  "drop_torrent t m = (\<lambda>k. if Torrent k = t then None else m k)"

definition closeTorrentLocked :: "string \<Rightarrow> nat \<Rightarrow> Store \<Rightarrow> Store" where
  "closeTorrentLocked t lifecycle s =
     (let s1 = s\<lparr>lifeClosed := (lifeClosed s)(lifecycle := True)\<rparr>
      in if map_of (torrents s1) t \<noteq> Some lifecycle then s1
         else s1\<lparr>torrents := filter (\<lambda>x. fst x \<noteq> t) (torrents s1),
                 staging := drop_torrent t (staging s1),
                 lastRead := drop_torrent t (lastRead s1),
                 epochs := drop_torrent t (epochs s1),
                 verifiedEpoch := drop_torrent t (verifiedEpoch s1)\<rparr>)"

definition closeTorrent :: "string \<Rightarrow> nat \<Rightarrow> Store \<Rightarrow> Store" where
  "closeTorrent t lifecycle s = closeTorrentLocked t lifecycle s"

definition CloseTorrent :: "string \<Rightarrow> Store \<Rightarrow> Store" where
  "CloseTorrent t s = (case map_of (torrents s) t of None \<Rightarrow> s | Some l \<Rightarrow> closeTorrentLocked t l s)"

definition StagingStats :: "Key list \<Rightarrow> Store \<Rightarrow> int \<times> int" where
  "StagingStats ks s =
     fold (\<lambda>k (pieces, n). case staging s k of
             None \<Rightarrow> (pieces, n)
           | Some b \<Rightarrow> (pieces + 1, n + int (length (bufData b)))) ks (0, 0)"

definition lifecycleOpenLocked :: "Store \<Rightarrow> string \<Rightarrow> nat \<Rightarrow> bool" where
  "lifecycleOpenLocked s t lifecycle \<longleftrightarrow>
     \<not> storeClosed s \<and> \<not> lifeClosed s lifecycle \<and> map_of (torrents s) t = Some lifecycle"

definition pieceOpenLocked :: "Store \<Rightarrow> piece \<Rightarrow> bool" where
  "pieceOpenLocked s p \<longleftrightarrow> lifecycleOpenLocked s (Torrent (pkey p)) (plifecycle p)"

definition markVerified :: "Key \<Rightarrow> nat \<Rightarrow> u64 \<Rightarrow> int \<Rightarrow> Store \<Rightarrow> store_error option \<times> Store" where
  "markVerified key lifecycle gen len s =
     (if storeClosed s \<or> lifeClosed s lifecycle \<or> map_of (torrents s) (Torrent key) \<noteq> Some lifecycle
      then (Some ErrTorrentClosed, s)
      else if gen = 0 \<or> zget (epochs s) key \<noteq> gen then (Some ErrStaleEpoch, s)
      else
        case staging s key of
          Some b \<Rightarrow>
            if generation b \<noteq> gen \<or> \<not> covers b 0 len \<or> zget (lastRead s) key \<noteq> gen
            then (Some ErrUnexpectedEOF, s)
            else (None, s\<lparr>verifiedEpoch := (verifiedEpoch s)(key \<mapsto> gen)\<rparr>)
        | None \<Rightarrow>
            if \<not> Has (pieceCache s) key then (Some EOF, s)
            else (None, s\<lparr>verifiedEpoch := (verifiedEpoch s)(key \<mapsto> gen)\<rparr>))"

definition CloseStore :: "Store \<Rightarrow> Store" where
  "CloseStore s =
     s\<lparr>storeClosed := True,
       lifeClosed := (\<lambda>l. lifeClosed s l \<or> l \<in> snd ` set (torrents s)),
       torrents := [], staging := Map.empty, lastRead := Map.empty, epochs := Map.empty,
       verifiedEpoch := Map.empty\<rparr>"

definition copyResident :: "nat \<Rightarrow> bytes \<Rightarrow> int \<Rightarrow> bytes \<times> store_error option" where
  "copyResident len blob off =
     (if off > int (length blob) then ([], Some ErrUnexpectedEOF)
      else
        let out = take len (drop (nat off) blob)
        in (out, if length out < len then Some ErrUnexpectedEOF else None))"

text \<open>The result is the copied bytes, whether the read was served, and the error. The caller has
  clamped the window to the piece, so its end is an \<open>int64\<close>.\<close>

definition read :: "Key \<Rightarrow> nat \<Rightarrow> nat \<Rightarrow> int \<Rightarrow> Store \<Rightarrow> (bytes \<times> bool \<times> store_error option) \<times> Store" where
  "read key lifecycle len off s =
     (if \<not> lifecycleOpenLocked s (Torrent key) lifecycle then (([], False, Some ErrTorrentClosed), s)
      else
        case staging s key of
          Some b \<Rightarrow>
            if off < 0 \<or> \<not> covers b off (off + int len) then (([], False, None), s)
            else
              ((take len (drop (nat off) (bufData b)), True, None),
               s\<lparr>lastRead := (lastRead s)(key \<mapsto> generation b)\<rparr>)
        | None \<Rightarrow>
            (case Get key (pieceCache s) of
               (None, c) \<Rightarrow> (([], False, None), s\<lparr>pieceCache := c\<rparr>)
             | (Some blob, c) \<Rightarrow>
                 let r = copyResident len blob off
                 in ((fst r, True, snd r), s\<lparr>pieceCache := c\<rparr>)))"

definition shortRead :: "bytes \<Rightarrow> nat \<Rightarrow> store_error option \<Rightarrow> bytes \<times> store_error option" where
  "shortRead out requested err =
     (case err of
        Some e \<Rightarrow> (out, Some e)
      | None \<Rightarrow> (out, if length out < requested then Some EOF else None))"

definition ReadAt :: "piece \<Rightarrow> nat \<Rightarrow> int \<Rightarrow> Store \<Rightarrow> (bytes \<times> store_error option) \<times> Store" where
  "ReadAt p requested off s =
     (if off < 0 then (([], Some ErrNegativeOffset), s)
      else if off \<ge> plength p then (([], Some EOF), s)
      else
        let len = nat (min (int requested) (plength p - off))
        in if len = 0 then (([], None), s)
           else
             (case read (pkey p) (plifecycle p) len off s of
                ((out, served, err), s') \<Rightarrow>
                  if served \<or> err \<noteq> None then (shortRead out requested err, s')
                  else (([], Some EOF), s')))"

definition staged :: "piece \<Rightarrow> Store \<Rightarrow> Store" where
  "staged p s =
     (if staging s (pkey p) = None
      then let g = nextGeneration s + 1
           in s\<lparr>nextGeneration := g,
                epochs := (epochs s)(pkey p \<mapsto> g),
                pieceCache := Remove (pkey p) (pieceCache s),
                lastRead := (lastRead s)(pkey p := None),
                staging := (staging s)(pkey p \<mapsto>
                  \<lparr>generation = g, bufData = replicate (nat (plength p)) 0, received = []\<rparr>)\<rparr>
      else s)"

definition WriteAt :: "bytes \<Rightarrow> int \<Rightarrow> piece \<Rightarrow> Store \<Rightarrow> (store_error + nat) \<times> piece \<times> Store" where
  "WriteAt b off p s =
     (if storeClosed s then (Inl ErrStoreClosed, p, s)
      else if \<not> pieceOpenLocked s p then (Inl ErrTorrentClosed, p, s)
      else
        let s1 = staged p s;
            buf = the (staging s1 (pkey p));
            p1 = p\<lparr>pgeneration := generation buf\<rparr>
        in if off < 0 \<or> wrap64 (off + int (length b)) > int (length (bufData buf))
           then (Inl ErrOutside, p1, s1)
           else
             (case write_chunk off b buf of
                Inl e \<Rightarrow> (Inl e, p1, s1)
              | Inr buf' \<Rightarrow> (Inr (length b), p1, s1\<lparr>staging := (staging s1)(pkey p \<mapsto> buf')\<rparr>)))"

definition MarkComplete :: "piece \<Rightarrow> Store \<Rightarrow> store_error option \<times> Store" where
  "MarkComplete p s =
     (if \<not> pieceOpenLocked s p then (Some ErrTorrentClosed, s)
      else
        case staging s (pkey p) of
          None \<Rightarrow> (None, s)
        | Some buf \<Rightarrow>
            if pgeneration p = 0 \<or> generation buf \<noteq> pgeneration p then (Some ErrStaleGeneration, s)
            else if zget (verifiedEpoch s) (pkey p) \<noteq> generation buf then (Some ErrNotVerified, s)
            else if \<not> covers buf 0 (plength p) then (Some ErrUnexpectedEOF, s)
            else
              (None, s\<lparr>staging := (staging s)(pkey p := None),
                       lastRead := (lastRead s)(pkey p := None),
                       verifiedEpoch := (verifiedEpoch s)(pkey p := None),
                       pieceCache := Put (pkey p) (bufData buf) (pieceCache s)\<rparr>))"

definition MarkNotComplete :: "piece \<Rightarrow> Store \<Rightarrow> store_error option \<times> Store" where
  "MarkNotComplete p s =
     (if \<not> pieceOpenLocked s p then (Some ErrTorrentClosed, s)
      else
        let s1 = (case staging s (pkey p) of
                    None \<Rightarrow> s
                  | Some buf \<Rightarrow>
                      if pgeneration p \<noteq> 0 \<and> generation buf = pgeneration p
                      then s\<lparr>staging := (staging s)(pkey p := None), lastRead := (lastRead s)(pkey p := None)\<rparr>
                      else s)
        in (None, s1\<lparr>pieceCache := Remove (pkey p) (pieceCache s1)\<rparr>))"

definition Completion :: "Store \<Rightarrow> piece \<Rightarrow> bool" where
  "Completion s p \<longleftrightarrow> pieceOpenLocked s p \<and> Has (pieceCache s) (pkey p)"

text \<open>
  \<open>io.Copy\<close> over the section reader: reads of at most 32768 bytes until the end of the section or
  an error. A hash, the writer here, accepts every byte.
\<close>

function copy_loop :: "piece \<Rightarrow> int \<Rightarrow> bytes \<Rightarrow> Store \<Rightarrow> (bytes \<times> store_error option) \<times> Store" where
  "copy_loop p off acc s =
     (if off < 0 \<or> off \<ge> plength p then ((acc, None), s)
      else
        case ReadAt p (nat (min 32768 (plength p - off))) off s of
          ((out, err), s') \<Rightarrow>
            (case err of
               None \<Rightarrow> if out = [] then ((acc, None), s') else copy_loop p (off + int (length out)) (acc @ out) s'
             | Some e \<Rightarrow> ((acc @ out, if e = EOF then None else Some e), s')))"
  by pat_completeness auto
termination
  by (relation "measure (\<lambda>(p, off, acc, s). nat (plength p - off))")
     (auto split: if_splits simp: neq_Nil_conv)

declare copy_loop.simps [simp del]

definition WriteTo :: "piece \<Rightarrow> Store \<Rightarrow> (bytes \<times> store_error option) \<times> Store" where
  "WriteTo p s =
     (case copy_loop p 0 [] s of
        ((out, Some e), s') \<Rightarrow> ((out, Some e), s')
      | ((out, None), s') \<Rightarrow>
          if int (length out) \<noteq> plength p then ((out, Some ErrUnexpectedEOF), s')
          else let (err, s'') = markVerified (pkey p) (plifecycle p) (pgeneration p) (plength p) s'
               in ((out, err), s''))"

section \<open>Received ranges\<close>

definition range_before :: "byteRange \<Rightarrow> byteRange \<Rightarrow> bool" where
  "range_before x y \<longleftrightarrow> br_end x < br_start y"

definition ranges_ok :: "byteRange list \<Rightarrow> bool" where
  "ranges_ok rs \<longleftrightarrow> sorted_wrt range_before rs \<and> (\<forall>x \<in> set rs. br_start x < br_end x)"

definition range_bytes :: "byteRange list \<Rightarrow> int set" where
  "range_bytes rs = (\<Union>x \<in> set rs. {br_start x..<br_end x})"

lemma range_bytes_simps [simp]:
  "range_bytes [] = {}"
  "range_bytes (x # xs) = {br_start x..<br_end x} \<union> range_bytes xs"
  "range_bytes (xs @ ys) = range_bytes xs \<union> range_bytes ys"
  by (auto simp: range_bytes_def)

lemma cover_loop_placed:
  "\<forall>x \<in> set rest. end' < br_start x \<and> start \<le> br_end x \<Longrightarrow>
     cover_loop rest start end' True merged = merged @ rest"
  by (induction rest arbitrary: merged) auto

lemma cover_loop_spec:
  assumes "ranges_ok (merged @ rest)" and "\<forall>x \<in> set merged. br_end x < start" and "start < end'"
  shows "ranges_ok (cover_loop rest start end' False merged) \<and>
    range_bytes (cover_loop rest start end' False merged) =
      range_bytes merged \<union> range_bytes rest \<union> {start..<end'}"
  using assms
proof (induction rest arbitrary: start end' merged)
  case Nil
  then show ?case by (auto simp: ranges_ok_def sorted_wrt_append range_before_def)
next
  case (Cons span rest)
  consider (before) "br_end span < start" | (after) "start \<le> br_end span" "end' < br_start span"
    | (absorb) "start \<le> br_end span" "br_start span \<le> end'"
    by linarith
  then show ?case
  proof cases
    case before
    with Cons.IH [of "merged @ [span]" start end'] Cons.prems show ?thesis by auto
  next
    case after
    have sorted: "\<forall>x \<in> set merged. br_end x < start" "\<forall>x \<in> set rest. br_end span < br_start x \<and> br_start x < br_end x"
      using Cons.prems by (auto simp: ranges_ok_def sorted_wrt_append range_before_def)
    then have "\<forall>x \<in> set rest. end' < br_start x \<and> start \<le> br_end x"
      using after Cons.prems(1,3) by (force simp: ranges_ok_def)
    then have "cover_loop (span # rest) start end' False merged =
        merged @ [\<lparr>br_start = start, br_end = end'\<rparr>] @ span # rest"
      using after by (simp add: cover_loop_placed)
    then show ?thesis
      using Cons.prems after sorted
      by (fastforce simp: ranges_ok_def sorted_wrt_append range_before_def)
  next
    case absorb
    have "\<forall>x \<in> set merged. br_end x < br_start span" and ne: "br_start span < br_end span"
      using Cons.prems by (auto simp: ranges_ok_def sorted_wrt_append range_before_def)
    moreover have "ranges_ok (merged @ rest)"
      using Cons.prems(1) by (auto simp: ranges_ok_def sorted_wrt_append)
    ultimately have "ranges_ok (cover_loop rest (min (br_start span) start) (max (br_end span) end') False merged) \<and>
      range_bytes (cover_loop rest (min (br_start span) start) (max (br_end span) end') False merged) =
        range_bytes merged \<union> range_bytes rest \<union> {min (br_start span) start..<max (br_end span) end'}"
      using Cons.prems by (intro Cons.IH) auto
    moreover have "cover_loop (span # rest) start end' False merged =
        cover_loop rest (min (br_start span) start) (max (br_end span) end') False merged"
      using absorb by (auto simp: min_def max_def not_less intro!: arg_cong2 [where f = "\<lambda>a b. cover_loop rest a b False merged"])
    moreover have "{min (br_start span) start..<max (br_end span) end'} = {br_start span..<br_end span} \<union> {start..<end'}"
      using absorb ne Cons.prems(3) by auto
    ultimately show ?thesis by auto
  qed
qed

lemma ranges_ordered:
  assumes "ranges_ok rs" and "x \<in> set rs" and "y \<in> set rs" and "x \<noteq> y"
  shows "range_before x y \<or> range_before y x"
proof -
  from assms obtain i j where "i < length rs" "j < length rs" "x = rs ! i" "y = rs ! j" "i \<noteq> j"
    by (metis in_set_conv_nth)
  with assms(1) show ?thesis
    by (cases "i < j") (auto simp: ranges_ok_def sorted_wrt_iff_nth_less)
qed

lemma covers_iff:
  assumes "ranges_ok (received b)" and "start < end'"
  shows "covers b start end' \<longleftrightarrow> {start..<end'} \<subseteq> range_bytes (received b)"
proof
  assume "covers b start end'"
  then obtain x where "x \<in> set (received b)" "br_start x \<le> start" "end' \<le> br_end x"
    by (auto simp: covers_def)
  then have "{start..<end'} \<subseteq> {br_start x..<br_end x}" by auto
  with \<open>x \<in> _\<close> show "{start..<end'} \<subseteq> range_bytes (received b)" unfolding range_bytes_def by blast
next
  assume sub: "{start..<end'} \<subseteq> range_bytes (received b)"
  with assms(2) obtain x where x: "x \<in> set (received b)" "br_start x \<le> start" "start < br_end x"
    by (force simp: range_bytes_def)
  have "end' \<le> br_end x"
  proof (rule ccontr)
    assume "\<not> end' \<le> br_end x"
    with x have "br_end x \<in> {start..<end'}" by auto
    with sub have "br_end x \<in> range_bytes (received b)" by blast
    then obtain y where y: "y \<in> set (received b)" "br_start y \<le> br_end x" "br_end x < br_end y"
      by (auto simp: range_bytes_def)
    then have "x \<noteq> y" by auto
    with ranges_ordered [OF assms(1) x(1) y(1)] x y show False by (auto simp: range_before_def)
  qed
  with x show "covers b start end'" by (auto simp: covers_def)
qed

text \<open>A set of received bytes, as the store uses it: recording a chunk and asking for a window.\<close>

locale byte_cover =
  fixes ok :: "'b \<Rightarrow> bool"
    and bytes_of :: "'b \<Rightarrow> int set"
    and add :: "int \<Rightarrow> int \<Rightarrow> 'b \<Rightarrow> 'b"
    and has :: "'b \<Rightarrow> int \<Rightarrow> int \<Rightarrow> bool"
  assumes add_ok: "ok b \<Longrightarrow> ok (add s e b)"
    and add_bytes: "ok b \<Longrightarrow> bytes_of (add s e b) = bytes_of b \<union> {s..<e}"
    and has_iff: "ok b \<Longrightarrow> s < e \<Longrightarrow> has b s e \<longleftrightarrow> {s..<e} \<subseteq> bytes_of b"
begin

definition add_all :: "(int \<times> int) list \<Rightarrow> 'b \<Rightarrow> 'b" where
  "add_all cs = fold (\<lambda>(s, e). add s e) cs"

lemma add_all_ok: "ok b \<Longrightarrow> ok (add_all cs b) \<and> bytes_of (add_all cs b) = bytes_of b \<union> (\<Union>(s, e) \<in> set cs. {s..<e})"
  unfolding add_all_def
proof (induction cs arbitrary: b)
  case (Cons c cs)
  then show ?case by (cases c) (simp add: add_ok add_bytes Un_assoc)
qed simp

lemma arrival_order_irrelevant:
  "ok b \<Longrightarrow> s < e \<Longrightarrow> set cs = set ds \<Longrightarrow> has (add_all cs b) s e \<longleftrightarrow> has (add_all ds b) s e"
  by (simp add: has_iff add_all_ok)

lemma chunks_complete:
  "ok b \<Longrightarrow> s < e \<Longrightarrow> {s..<e} \<subseteq> (\<Union>(s, e) \<in> set cs. {s..<e}) \<Longrightarrow> has (add_all cs b) s e"
  by (subst has_iff) (auto simp: add_all_ok)

end

lemma cover_ok:
  "ranges_ok (received b) \<Longrightarrow> ranges_ok (received (cover start end' b)) \<and>
     range_bytes (received (cover start end' b)) = range_bytes (received b) \<union> {start..<end'}"
  using cover_loop_spec [of "[]" "received b" start end'] by (auto simp: cover_def)

interpretation sb: byte_cover "\<lambda>b. ranges_ok (received b)" "\<lambda>b. range_bytes (received b)" cover covers
  by unfold_locales (simp_all add: cover_ok covers_iff)

section \<open>A staging buffer as a partial content\<close>

definition buf_abs :: "stagingBuffer \<Rightarrow> int \<rightharpoonup> byte" where
  "buf_abs b i = (if i \<in> range_bytes (received b) then Some (bufData b ! nat i) else None)"

definition chunk_abs :: "int \<Rightarrow> bytes \<Rightarrow> int \<rightharpoonup> byte" where
  "chunk_abs off src i = (if off \<le> i \<and> i < off + int (length src) then Some (src ! nat (i - off)) else None)"

definition buf_ok :: "stagingBuffer \<Rightarrow> bool" where
  "buf_ok b \<longleftrightarrow> ranges_ok (received b) \<and> range_bytes (received b) \<subseteq> {0..<int (length (bufData b))}"

lemma length_blit: "off \<le> length dst \<Longrightarrow> length (blit dst off src) = length dst"
  by (auto simp: blit_def)

lemma nth_blit:
  "off + length src \<le> length dst \<Longrightarrow> i < length dst \<Longrightarrow>
     blit dst off src ! i = (if off \<le> i \<and> i < off + length src then src ! (i - off) else dst ! i)"
  by (auto simp: blit_def nth_append)

lemma cover_frame [simp]:
  "bufData (cover a e b) = bufData b" "generation (cover a e b) = generation b"
  by (simp_all add: cover_def)

lemma cover_received: "received (cover a e (b\<lparr>bufData := d\<rparr>)) = received (cover a e b)"
  by (simp add: cover_def)

lemma write_chunk_ok:
  assumes "buf_ok b" and "0 \<le> off" and "off + int (length src) \<le> int (length (bufData b))"
  obtains b' where "write_chunk off src b = Inr b'" and "buf_ok b'" and "length (bufData b') = length (bufData b)"
    and "generation b' = generation b" and "buf_abs b' = buf_abs b ++ chunk_abs off src"
    and "range_bytes (received b') = range_bytes (received b) \<union> {off..<off + int (length src)}"
proof -
  let ?b' = "cover off (off + int (length src)) (b\<lparr>bufData := blit (bufData b) (nat off) src\<rparr>)"
  have n: "min (int (length (bufData b)) - off) (int (length src)) = int (length src)"
    using assms by simp
  have eq: "write_chunk off src b = Inr ?b'"
    using assms by (simp add: write_chunk_def n Let_def) (simp add: cover_def)
  have len: "length (bufData ?b') = length (bufData b)"
    using assms by (simp add: length_blit)
  have r: "ranges_ok (received ?b')"
    "range_bytes (received ?b') = range_bytes (received b) \<union> {off..<off + int (length src)}"
    using cover_ok [of "b\<lparr>bufData := blit (bufData b) (nat off) src\<rparr>"] assms(1) by (auto simp: buf_ok_def)
  have ok: "buf_ok ?b'" unfolding buf_ok_def len using r assms by (auto simp: buf_ok_def)
  have "buf_abs ?b' i = (buf_abs b ++ chunk_abs off src) i" for i
  proof (cases "i \<in> range_bytes (received b) \<union> {off..<off + int (length src)}")
    case False
    then show ?thesis by (auto simp: buf_abs_def r(2) map_add_def chunk_abs_def)
  next
    case True
    then have "i \<in> {0..<int (length (bufData b))}"
      using assms unfolding buf_ok_def by auto
    then have "0 \<le> i" "nat i < length (bufData b)" by auto
    then have "blit (bufData b) (nat off) src ! nat i =
        (if off \<le> i \<and> i < off + int (length src) then src ! nat (i - off) else bufData b ! nat i)"
      using assms(2,3) by (subst nth_blit) (auto simp: nat_diff_distrib nat_less_iff)
    with True show ?thesis by (auto simp: buf_abs_def r(2) map_add_def chunk_abs_def)
  qed
  with eq ok len r show thesis by (intro that [of ?b']) auto
qed

lemma covers_window:
  assumes "buf_ok b" and "covers b off (off + int len)" and "0 \<le> off" and "0 < len"
  shows "length (take len (drop (nat off) (bufData b))) = len"
    and "\<forall>i < len. buf_abs b (off + int i) = Some (take len (drop (nat off) (bufData b)) ! i)"
proof -
  have sub: "{off..<off + int len} \<subseteq> range_bytes (received b)"
    using assms covers_iff [of b off "off + int len"] by (simp add: buf_ok_def)
  then have "off + int len - 1 \<in> {0..<int (length (bufData b))}"
    using assms(1,4) unfolding buf_ok_def by fastforce
  then have le: "nat off + len \<le> length (bufData b)" using assms(3) by auto
  then show "length (take len (drop (nat off) (bufData b))) = len" by simp
  show "\<forall>i < len. buf_abs b (off + int i) = Some (take len (drop (nat off) (bufData b)) ! i)"
    using subsetD [OF sub] le assms(3) by (simp add: buf_abs_def nat_add_distrib)
qed

lemma covers_all:
  assumes "buf_ok b" and "covers b 0 (int (length (bufData b)))"
  shows "\<forall>i < length (bufData b). buf_abs b (int i) = Some (bufData b ! i)"
  using covers_window(2) [OF assms(1), of 0 "length (bufData b)"] assms by (cases "bufData b = []") simp_all

section \<open>The invariant of the store\<close>

definition cache_full :: "(Key \<Rightarrow> nat) \<Rightarrow> Cache \<Rightarrow> bool" where
  "cache_full plen c \<longleftrightarrow> cache_wf c \<and> pc.all_resident (\<lambda>k v. length v = plen k) c"

definition store_wf :: "(Key \<Rightarrow> nat) \<Rightarrow> Store \<Rightarrow> bool" where
  "store_wf plen s \<longleftrightarrow> cache_full plen (pieceCache s) \<and>
     (\<forall>k b. staging s k = Some b \<longrightarrow> buf_ok b \<and> length (bufData b) = plen k) \<and>
     (\<forall>l. lifeClosed s l \<or> l \<in> snd ` set (torrents s) \<longrightarrow> l < nextLife s)"

datatype store_op =
    OpOpen string int | OpCloseLife string nat | OpCloseTorrent string | OpCloseStore
  | OpRead piece nat int | OpWrite piece bytes int | OpVerify piece | OpComplete piece | OpNotComplete piece

fun store_step :: "store_op \<Rightarrow> Store \<Rightarrow> Store" where
  "store_step (OpOpen t n) s = snd (OpenTorrent t n s)"
| "store_step (OpCloseLife t l) s = closeTorrent t l s"
| "store_step (OpCloseTorrent t) s = CloseTorrent t s"
| "store_step OpCloseStore s = CloseStore s"
| "store_step (OpRead p n off) s = snd (ReadAt p n off s)"
| "store_step (OpWrite p b off) s = snd (snd (WriteAt b off p s))"
| "store_step (OpVerify p) s = snd (markVerified (pkey p) (plifecycle p) (pgeneration p) (plength p) s)"
| "store_step (OpComplete p) s = snd (MarkComplete p s)"
| "store_step (OpNotComplete p) s = snd (MarkNotComplete p s)"

definition piece_ok :: "(Key \<Rightarrow> nat) \<Rightarrow> piece \<Rightarrow> bool" where
  "piece_ok plen p \<longleftrightarrow> plength p = int (plen (pkey p)) \<and> 0 < plength p \<and> is_int64 (plength p)"

text \<open>
  What the torrent library keeps to: the pieces it uses have the length the metainfo gives them,
  chunk offsets and lengths add up to an \<open>int64\<close>, and it closes only lifetimes it was given.
\<close>

fun op_ok :: "(Key \<Rightarrow> nat) \<Rightarrow> Store \<Rightarrow> store_op \<Rightarrow> bool" where
  "op_ok plen s (OpRead p n off) \<longleftrightarrow> piece_ok plen p"
| "op_ok plen s (OpWrite p b off) \<longleftrightarrow> piece_ok plen p \<and> is_int64 (off + int (length b))"
| "op_ok plen s (OpVerify p) \<longleftrightarrow> piece_ok plen p"
| "op_ok plen s (OpComplete p) \<longleftrightarrow> piece_ok plen p"
| "op_ok plen s (OpNotComplete p) \<longleftrightarrow> piece_ok plen p"
| "op_ok plen s (OpCloseLife t l) \<longleftrightarrow> l < nextLife s"
| "op_ok plen s _ \<longleftrightarrow> True"

inductive store_run :: "(Key \<Rightarrow> nat) \<Rightarrow> int \<Rightarrow> store_op list \<Rightarrow> Store \<Rightarrow> bool" for plen cap where
  start: "store_run plen cap [] (NewStore (New cap))"
| step: "store_run plen cap ops s \<Longrightarrow> op_ok plen s opn \<Longrightarrow> store_run plen cap (ops @ [opn]) (store_step opn s)"

lemma cache_full_ops [wf_intros]:
  "cache_full plen c \<Longrightarrow> cache_full plen (snd (Get k c))"
  "cache_full plen c \<Longrightarrow> cache_full plen (Remove k c)"
  "cache_full plen c \<Longrightarrow> length v = plen k \<Longrightarrow> cache_full plen (Put k v c)"
  by (simp_all add: cache_full_def pc.get_wf pc.del_wf pc.put_wf pc.all_resident_get pc.all_resident_del
      pc.all_resident_put)

lemma cache_full_New: "cache_full plen (New cap)"
  using New_wf [of cap] by (simp add: cache_full_def pc.all_resident_def content_def) (simp add: New_def)

lemma NewStore_wf [wf_intros]: "store_wf plen (NewStore (New cap))"
  by (simp add: store_wf_def NewStore_def cache_full_New)

lemma OpenTorrent_wf [wf_intros]: "store_wf plen s \<Longrightarrow> store_wf plen (snd (OpenTorrent t n s))"
  by (simp add: store_wf_def OpenTorrent_def split: option.split)
     (auto simp: less_Suc_eq split: if_splits)

lemma closeTorrentLocked_wf [wf_intros]:
  "store_wf plen s \<Longrightarrow> l < nextLife s \<Longrightarrow> store_wf plen (closeTorrentLocked t l s)"
  by (auto simp: store_wf_def closeTorrentLocked_def Let_def drop_torrent_def split: if_splits)

lemma life_known: "store_wf plen s \<Longrightarrow> map_of (torrents s) t = Some l \<Longrightarrow> l < nextLife s"
  unfolding store_wf_def by (auto dest!: map_of_SomeD)

lemma CloseTorrent_wf [wf_intros]: "store_wf plen s \<Longrightarrow> store_wf plen (CloseTorrent t s)"
  by (simp add: CloseTorrent_def life_known closeTorrentLocked_wf split: option.split)

lemma CloseStore_wf [wf_intros]: "store_wf plen s \<Longrightarrow> store_wf plen (CloseStore s)"
  by (simp add: store_wf_def CloseStore_def)

lemma store_wf_marks [simp]:
  "store_wf plen (s\<lparr>lastRead := m\<rparr>) = store_wf plen s"
  "store_wf plen (s\<lparr>verifiedEpoch := m\<rparr>) = store_wf plen s"
  by (simp_all add: store_wf_def)

lemma markVerified_wf [wf_intros]: "store_wf plen s \<Longrightarrow> store_wf plen (snd (markVerified k l g n s))"
  by (simp add: markVerified_def split: option.split)

lemma store_wf_cache:
  "store_wf plen s \<Longrightarrow> cache_full plen c \<Longrightarrow> store_wf plen (s\<lparr>pieceCache := c\<rparr>)"
  by (simp add: store_wf_def)

lemma read_wf [wf_intros]: "store_wf plen s \<Longrightarrow> store_wf plen (snd (read k l n off s))"
  using cache_full_ops(1) [of plen "pieceCache s" k]
  by (auto simp: read_def Let_def store_wf_def split: option.splits prod.splits)

lemma ReadAt_wf [wf_intros]: "store_wf plen s \<Longrightarrow> store_wf plen (snd (ReadAt p n off s))"
  using read_wf [of plen s] by (auto simp: ReadAt_def Let_def split: prod.split) (metis snd_conv)+

lemma empty_buffer_ok: "buf_ok \<lparr>generation = g, bufData = xs, received = []\<rparr>"
  by (simp add: buf_ok_def ranges_ok_def)

lemma staged_wf:
  "store_wf plen s \<Longrightarrow> piece_ok plen p \<Longrightarrow> store_wf plen (staged p s)"
  using cache_full_ops(2) [of plen "pieceCache s" "pkey p"] empty_buffer_ok
  by (auto simp: staged_def store_wf_def Let_def piece_ok_def)

lemma staged_buffer: obtains b where "staging (staged p s) (pkey p) = Some b"
  by (cases "staging s (pkey p)") (auto simp: staged_def Let_def)

lemma store_wf_buffer:
  "store_wf plen s \<Longrightarrow> staging s k = Some b \<Longrightarrow> buf_ok b \<and> length (bufData b) = plen k"
  by (simp add: store_wf_def)

lemma store_wf_set_buffer:
  "store_wf plen s \<Longrightarrow> buf_ok b \<Longrightarrow> length (bufData b) = plen k \<Longrightarrow> store_wf plen (s\<lparr>staging := (staging s)(k \<mapsto> b)\<rparr>)"
  by (simp add: store_wf_def)

lemma WriteAt_result:
  assumes "store_wf plen s" and "piece_ok plen p" and "is_int64 (off + int (length b))"
    and "\<not> storeClosed s" and "pieceOpenLocked s p" and "0 \<le> off" and "off + int (length b) \<le> plength p"
  obtains buf buf' where "staging (staged p s) (pkey p) = Some buf" and "buf_ok buf'"
    and "length (bufData buf') = plen (pkey p)" and "generation buf' = generation buf"
    and "buf_abs buf' = buf_abs buf ++ chunk_abs off b"
    and "range_bytes (received buf') = range_bytes (received buf) \<union> {off..<off + int (length b)}"
    and "WriteAt b off p s = (Inr (length b), p\<lparr>pgeneration := generation buf\<rparr>,
          (staged p s)\<lparr>staging := (staging (staged p s))(pkey p \<mapsto> buf')\<rparr>)"
proof -
  obtain buf where buf: "staging (staged p s) (pkey p) = Some buf" by (rule staged_buffer)
  have ok: "buf_ok buf" "length (bufData buf) = plen (pkey p)"
    using store_wf_buffer [OF staged_wf [OF assms(1,2)] buf] by auto
  then have "off + int (length b) \<le> int (length (bufData buf))" using assms(2,7) by (simp add: piece_ok_def)
  from write_chunk_ok [OF ok(1) assms(6) this] obtain buf' where w: "write_chunk off b buf = Inr buf'" "buf_ok buf'"
      "length (bufData buf') = length (bufData buf)" "generation buf' = generation buf"
      "buf_abs buf' = buf_abs buf ++ chunk_abs off b"
      "range_bytes (received buf') = range_bytes (received buf) \<union> {off..<off + int (length b)}"
    by blast
  show thesis
    using assms buf ok w by (intro that [of buf buf']) (simp_all add: WriteAt_def Let_def piece_ok_def)
qed

lemma WriteAt_wf [wf_intros]:
  assumes "store_wf plen s" and "piece_ok plen p" and "is_int64 (off + int (length b))"
  shows "store_wf plen (snd (snd (WriteAt b off p s)))"
proof (cases "storeClosed s \<or> \<not> pieceOpenLocked s p")
  case True
  then show ?thesis using assms by (auto simp: WriteAt_def Let_def)
next
  case live: False
  obtain buf where buf: "staging (staged p s) (pkey p) = Some buf" by (rule staged_buffer)
  have len: "int (length (bufData buf)) = plength p"
    using store_wf_buffer [OF staged_wf [OF assms(1,2)] buf] assms(2) by (simp add: piece_ok_def)
  show ?thesis
  proof (cases "0 \<le> off \<and> off + int (length b) \<le> plength p")
    case True
    with WriteAt_result [OF assms] live obtain s1 buf' where "store_wf plen s1" "buf_ok buf'"
        "length (bufData buf') = plen (pkey p)"
        "snd (snd (WriteAt b off p s)) = s1\<lparr>staging := (staging s1)(pkey p \<mapsto> buf')\<rparr>"
      by (metis snd_conv staged_wf [OF assms(1,2)])
    then show ?thesis by (simp add: store_wf_set_buffer)
  next
    case False
    then show ?thesis using live assms staged_wf [OF assms(1,2)] len
      by (auto simp: WriteAt_def Let_def buf Let_def)
  qed
qed

lemma MarkComplete_wf [wf_intros]:
  assumes "store_wf plen s" shows "store_wf plen (snd (MarkComplete p s))"
proof (cases "staging s (pkey p)")
  case None
  with assms show ?thesis by (simp add: MarkComplete_def)
next
  case (Some b)
  have "cache_full plen (Put (pkey p) (bufData b) (pieceCache s))"
    using assms Some store_wf_buffer [OF assms Some] by (intro wf_intros) (auto simp: store_wf_def)
  with assms Some show ?thesis by (simp add: MarkComplete_def store_wf_def)
qed

lemma MarkNotComplete_wf [wf_intros]: "store_wf plen s \<Longrightarrow> store_wf plen (snd (MarkNotComplete p s))"
  using cache_full_ops(2) [of plen "pieceCache s" "pkey p"]
  by (auto simp: MarkNotComplete_def Let_def store_wf_def split: option.split if_splits)

lemma store_step_wf: "store_wf plen s \<Longrightarrow> op_ok plen s opn \<Longrightarrow> store_wf plen (store_step opn s)"
  by (cases opn) (simp_all add: wf_intros closeTorrent_def)

lemma store_run_wf: "store_run plen cap ops s \<Longrightarrow> store_wf plen s"
  by (induction rule: store_run.induct) (simp_all add: NewStore_wf store_step_wf)

section \<open>Steps and what they keep\<close>

lemma read_frame:
  "verifiedEpoch (snd (read k l n off s)) = verifiedEpoch s"
  "lifeClosed (snd (read k l n off s)) = lifeClosed s"
  by (auto simp: read_def Let_def split: option.splits prod.splits)

lemma ReadAt_frame [simp]:
  "verifiedEpoch (snd (ReadAt p n off s)) = verifiedEpoch s"
  "lifeClosed (snd (ReadAt p n off s)) = lifeClosed s"
  using read_frame [of "pkey p" "plifecycle p" _ off s]
  by (auto simp: ReadAt_def Let_def split: prod.split) (metis snd_conv)+

lemma staged_frame [simp]:
  "verifiedEpoch (staged p s) = verifiedEpoch s" "lifeClosed (staged p s) = lifeClosed s"
  by (simp_all add: staged_def Let_def)

lemma WriteAt_frame [simp]:
  "verifiedEpoch (snd (snd (WriteAt b off p s))) = verifiedEpoch s"
  "lifeClosed (snd (snd (WriteAt b off p s))) = lifeClosed s"
  by (simp_all add: WriteAt_def Let_def split: sum.split)

lemma verified_step:
  assumes "verifiedEpoch (store_step opn s) k = Some g" and "\<forall>p. opn \<noteq> OpVerify p"
  shows "verifiedEpoch s k = Some g"
  using assms
  by (cases opn)
    (auto simp: OpenTorrent_def closeTorrent_def CloseTorrent_def closeTorrentLocked_def drop_torrent_def
      CloseStore_def MarkComplete_def MarkNotComplete_def Let_def split: option.splits if_splits)

lemma verify_token:
  assumes "verifiedEpoch (store_step (OpVerify p) s) k = Some g" and "verifiedEpoch s k \<noteq> Some g"
  shows "pkey p = k \<and> pgeneration p = g \<and> fst (markVerified (pkey p) (plifecycle p) (pgeneration p) (plength p) s) = None"
  using assms by (auto simp: markVerified_def split: option.splits if_splits)

lemma verified_history:
  assumes "store_run plen cap ops s" and "verifiedEpoch s k = Some g"
  shows "\<exists>xs q ys t. ops = xs @ OpVerify q # ys \<and> store_run plen cap xs t \<and> pkey q = k \<and> pgeneration q = g \<and>
    fst (markVerified k (plifecycle q) g (plength q) t) = None"
  using assms
proof (induction rule: store_run.induct)
  case start
  then show ?case by (simp add: NewStore_def)
next
  case (step ops s opn)
  show ?case
  proof (cases "verifiedEpoch s k = Some g")
    case True
    with step.IH obtain xs q ys t where "ops = xs @ OpVerify q # ys" "store_run plen cap xs t" "pkey q = k"
        "pgeneration q = g" "fst (markVerified k (plifecycle q) g (plength q) t) = None"
      by blast
    then show ?thesis by (intro exI [of _ xs] exI [of _ q] exI [of _ "ys @ [opn]"] exI [of _ t]) simp
  next
    case False
    with verified_step [OF step.prems] obtain q where "opn = OpVerify q" by blast
    with verify_token [of q s k g] step False show ?thesis
      by (intro exI [of _ ops] exI [of _ q] exI [of _ "[]"] exI [of _ s]) auto
  qed
qed

lemma lifeClosed_step: "lifeClosed s l \<Longrightarrow> lifeClosed (store_step opn s) l"
  by (cases opn)
    (auto simp: OpenTorrent_def closeTorrent_def CloseTorrent_def closeTorrentLocked_def
      CloseStore_def MarkComplete_def MarkNotComplete_def markVerified_def Let_def split: option.splits)

lemma lifeClosed_fold: "lifeClosed s l \<Longrightarrow> lifeClosed (fold store_step ops s) l"
  by (induction ops arbitrary: s) (simp_all add: lifeClosed_step)

lemma lifecycle_closed: "lifeClosed s l \<Longrightarrow> \<not> lifecycleOpenLocked s t l"
  by (simp add: lifecycleOpenLocked_def)

section \<open>The hash run\<close>

lemma copyResident_window:
  "0 \<le> off \<Longrightarrow> nat off + n \<le> length blob \<Longrightarrow> copyResident n blob off = (take n (drop (nat off) blob), None)"
  by (auto simp: copyResident_def Let_def)

lemma covers_sub: "covers b 0 n \<Longrightarrow> 0 \<le> s \<Longrightarrow> e \<le> n \<Longrightarrow> covers b s e"
  by (force simp: covers_def)

lemma ReadAt_staged:
  assumes "pieceOpenLocked s p" and "staging s (pkey p) = Some b" and "covers b 0 (plength p)"
    and "0 \<le> off" and "off < plength p" and "0 < n" and "off + int n \<le> plength p"
    and "length (bufData b) = nat (plength p)"
  shows "ReadAt p n off s =
    ((take n (drop (nat off) (bufData b)), None), s\<lparr>lastRead := (lastRead s)(pkey p \<mapsto> generation b)\<rparr>)"
proof -
  have "min (int n) (plength p - off) = int n" using assms by simp
  moreover have "covers b off (off + int n)" using covers_sub assms by blast
  moreover have "n \<le> length (bufData b) - nat off" using assms by linarith
  ultimately show ?thesis
    using assms by (simp add: ReadAt_def read_def pieceOpenLocked_def shortRead_def)
qed

lemma copy_loop_staged:
  assumes "pieceOpenLocked s p" and "staging s (pkey p) = Some b" and "covers b 0 (plength p)"
    and "length (bufData b) = nat (plength p)" and "0 \<le> off" and "off < plength p"
  shows "copy_loop p off acc s =
    ((acc @ drop (nat off) (bufData b), None), s\<lparr>lastRead := (lastRead s)(pkey p \<mapsto> generation b)\<rparr>)"
  using assms
proof (induction "nat (plength p - off)" arbitrary: off acc s rule: less_induct)
  case less
  let ?n = "nat (min 32768 (plength p - off))"
  let ?s' = "s\<lparr>lastRead := (lastRead s)(pkey p \<mapsto> generation b)\<rparr>"
  let ?out = "take ?n (drop (nat off) (bufData b))"
  have r: "ReadAt p ?n off s = ((?out, None), ?s')"
    using less.prems by (intro ReadAt_staged) auto
  have out: "length ?out = ?n" "?out \<noteq> []" using less.prems by auto
  have step: "copy_loop p off acc s = copy_loop p (off + int ?n) (acc @ ?out) ?s'"
    using less.prems r out by (subst copy_loop.simps) simp
  show ?case
  proof (cases "off + int ?n < plength p")
    case True
    have "copy_loop p (off + int ?n) (acc @ ?out) ?s' =
        ((acc @ ?out @ drop (nat (off + int ?n)) (bufData b), None), ?s'\<lparr>lastRead := (lastRead ?s')(pkey p \<mapsto> generation b)\<rparr>)"
      by (subst less.hyps) (use True less.prems in \<open>auto simp: pieceOpenLocked_def lifecycleOpenLocked_def\<close>)
    moreover have "?out @ drop (nat (off + int ?n)) (bufData b) = drop (nat off) (bufData b)"
    proof -
      have "drop (nat (off + int ?n)) (bufData b) = drop ?n (drop (nat off) (bufData b))"
        using less.prems by (simp add: nat_add_distrib add.commute)
      then show ?thesis by (simp only: append_take_drop_id)
    qed
    ultimately show ?thesis unfolding step by simp
  next
    case False
    then have "?n = length (bufData b) - nat off" using less.prems by linarith
    then have "?out = drop (nat off) (bufData b)" by simp
    moreover have "copy_loop p (off + int ?n) (acc @ ?out) ?s' = ((acc @ ?out, None), ?s')"
      using False by (subst copy_loop.simps) simp
    ultimately show ?thesis unfolding step by simp
  qed
qed

lemma WriteTo_staged:
  assumes "pieceOpenLocked s p" and "staging s (pkey p) = Some b" and "covers b 0 (plength p)"
    and "length (bufData b) = nat (plength p)" and "0 < plength p"
    and "generation b = pgeneration p" and "pgeneration p \<noteq> 0" and "epochs s (pkey p) = Some (pgeneration p)"
  shows "WriteTo p s = ((bufData b, None),
    s\<lparr>lastRead := (lastRead s)(pkey p \<mapsto> generation b), verifiedEpoch := (verifiedEpoch s)(pkey p \<mapsto> generation b)\<rparr>)"
  using assms copy_loop_staged [OF assms(1-4), of 0 "[]"]
  by (auto simp: WriteTo_def markVerified_def pieceOpenLocked_def lifecycleOpenLocked_def zget_Some Let_def)

lemma nat_min_le: "nat (min (int n) x) \<le> n"
  by simp

fun ops_ok :: "(Key \<Rightarrow> nat) \<Rightarrow> Store \<Rightarrow> store_op list \<Rightarrow> bool" where
  "ops_ok plen s [] \<longleftrightarrow> True"
| "ops_ok plen s (opn # ops) \<longleftrightarrow> op_ok plen s opn \<and> ops_ok plen (store_step opn s) ops"

lemma store_run_fold:
  "store_run plen cap xs s \<Longrightarrow> ops_ok plen s ys \<Longrightarrow> store_run plen cap (xs @ ys) (fold store_step ys s)"
proof (induction ys arbitrary: xs s)
  case (Cons y ys)
  from Cons.IH [of "xs @ [y]" "store_step y s"] Cons.prems show ?case by (simp add: store_run.step)
qed simp

lemmas store_run_ops = store_run_fold [OF store_run.start, simplified]

text \<open>A download of a two-byte piece, used by the instances below.\<close>

definition sample_piece :: piece where
  "sample_piece = \<lparr>pkey = Key ''t'' 0, plength = 2, pgeneration = 1, plifecycle = 0\<rparr>"

definition sample_ops :: "store_op list" where
  "sample_ops = [OpOpen ''t'' 2, OpWrite (sample_piece\<lparr>pgeneration := 0\<rparr>) [1, 2] 0, OpRead sample_piece 2 0, OpVerify sample_piece]"

definition sample_store :: Store where
  "sample_store = fold store_step sample_ops (NewStore (New 100))"

lemma sample_run: "store_run (\<lambda>_. 2) 100 sample_ops sample_store"
proof -
  have "ops_ok (\<lambda>_. 2) (NewStore (New 100)) sample_ops" by code_simp
  then show ?thesis unfolding sample_store_def by (rule store_run_ops)
qed

lemma sample_piece_ok: "piece_ok (\<lambda>_. 2) sample_piece"
  by code_simp

lemma sample_staging:
  "staging sample_store (pkey sample_piece) =
     Some \<lparr>generation = 1, bufData = [1, 2], received = [\<lparr>br_start = 0, br_end = 2\<rparr>]\<rparr>"
  by code_simp

section \<open>Properties\<close>





text \<open>
  store_readat_contract: \<open>ReadAt\<close> keeps the contract of \<open>io.ReaderAt\<close>: fewer bytes than
  requested always come with an error, and never more than requested.
\<close>
theorem store_readat_contract:
  assumes "ReadAt p n off s = ((out, err), s')"
  shows "length out \<le> n \<and> (length out < n \<longrightarrow> err \<noteq> None)"
  using assms
  by (auto simp: ReadAt_def read_def shortRead_def copyResident_def Let_def intro: le_trans [OF min.cobounded2 nat_min_le]
      split: if_splits option.splits prod.splits)

theorem store_readat_contract_witness:
  "snd (fst (ReadAt sample_piece 5 1 sample_store)) \<noteq> None"
proof -
  have "fst (fst (ReadAt sample_piece 5 1 sample_store)) = [2]" by code_simp
  then show ?thesis
    using store_readat_contract [of sample_piece 5 1 sample_store "[2]" "snd (fst (ReadAt sample_piece 5 1 sample_store))"
        "snd (ReadAt sample_piece 5 1 sample_store)"] by (auto simp: prod_eq_iff)
qed

text \<open>
  store_chunks_any_order: whatever the order, overlap or repetition in which chunks arrive, the
  buffer reports a window as received exactly when the chunks cover it.
\<close>
theorem store_chunks_any_order:
  assumes "start < end'"
  shows "covers (fold (\<lambda>(s, e). cover s e) cs \<lparr>generation = g, bufData = d, received = []\<rparr>) start end' \<longleftrightarrow>
    {start..<end'} \<subseteq> (\<Union>(s, e) \<in> set cs. {s..<e})"
proof -
  let ?b = "\<lparr>generation = g, bufData = d, received = []\<rparr>"
  have ok: "ranges_ok (received ?b)" by (simp add: ranges_ok_def)
  show ?thesis
    using sb.has_iff [of "sb.add_all cs ?b" start end'] sb.add_all_ok [OF ok, of cs] assms
    unfolding sb.add_all_def by simp
qed

theorem store_chunks_any_order_witness:
  "covers (fold (\<lambda>(s, e). cover s e) [(4, 8), (0, 2), (1, 4)] \<lparr>generation = 1, bufData = [], received = []\<rparr>) 0 8"
  by (subst store_chunks_any_order) auto

text \<open>
  store_closed_lifetime: after a torrent is closed, its old piece objects can never again change
  the store: in every later state, reads fail, writes and completions are refused and leave the
  state as it is, and the piece counts as incomplete.
\<close>
theorem store_closed_lifetime:
  assumes "map_of (torrents s) t = Some (plifecycle p)" and "s' = fold store_step ops (CloseTorrent t s)" and "0 < n"
  shows "MarkComplete p s' = (Some ErrTorrentClosed, s') \<and> MarkNotComplete p s' = (Some ErrTorrentClosed, s') \<and>
    (\<exists>e. WriteAt b off p s' = (Inl e, p, s')) \<and> (\<exists>e. ReadAt p n off s' = (([], Some e), s')) \<and> \<not> Completion s' p"
proof -
  have "lifeClosed (CloseTorrent t s) (plifecycle p)"
    using assms(1) by (simp add: CloseTorrent_def closeTorrentLocked_def Let_def)
  then have "lifeClosed s' (plifecycle p)" unfolding assms(2) by (rule lifeClosed_fold)
  then have c: "\<not> lifecycleOpenLocked s' u (plifecycle p)" for u by (rule lifecycle_closed)
  then show ?thesis
    using assms(3)
    by (auto simp: MarkComplete_def MarkNotComplete_def WriteAt_def ReadAt_def read_def Completion_def
        pieceOpenLocked_def shortRead_def Let_def)
qed

theorem store_closed_lifetime_witness:
  "MarkComplete sample_piece (store_step (OpOpen ''t'' 2) (CloseTorrent ''t'' sample_store)) =
     (Some ErrTorrentClosed, store_step (OpOpen ''t'' 2) (CloseTorrent ''t'' sample_store))"
proof -
  have "map_of (torrents sample_store) ''t'' = Some (plifecycle sample_piece)" by code_simp
  from store_closed_lifetime [OF this, of _ "[OpOpen ''t'' 2]" 1] show ?thesis by simp
qed



text \<open>
  store_write_after_hash: a chunk that arrives between the hash run and the completion is
  promoted although no hash has seen it: the token is bound to the staging generation, which a
  later chunk does not change. Here the hash reads \<open>[1, 2]\<close> and the cache receives \<open>[9, 2]\<close>.
\<close>
theorem store_write_after_hash:
  "let s0 = snd (OpenTorrent ''t'' 2 (NewStore (New 100)));
       (_, p, s1) = WriteAt [1, 2] 0 (PieceWithHash ''t'' 0 0 2 s0) s0;
       (hashed, s2) = WriteTo p s1;
       (_, _, s3) = WriteAt [9] 0 p s2;
       (done', s4) = MarkComplete p s3
   in hashed = ([1, 2], None) \<and> done' = None \<and> content (pieceCache s4) (Key ''t'' 0) = Some [9, 2]"
  by code_simp

text \<open>
  store_write_overflow: the range check of \<open>WriteAt\<close> adds offset and length in 64 bits: an offset
  next to the largest \<open>int64\<close> passes it and the copy then slices out of range.
\<close>
theorem store_write_overflow:
  "let s0 = snd (OpenTorrent ''t'' 2 (NewStore (New 100)))
   in fst (WriteAt [1] (2 ^ 63 - 1) (PieceWithHash ''t'' 0 0 2 s0) s0) = Inl SlicePanic"
  by code_simp

end
