(* ===== verification/Encodings.thy ===== *)
theory Encodings
  imports Prelude
begin

text \<open>
  Text encodings of the Go standard library that several components use, on strings as lists of bytes:
  splitting and joining at a separator, hexadecimal digits (\<open>encoding/hex\<close>), base64 for URLs
  (\<open>encoding/base64\<close>), and percent escapes (\<open>net/url\<close>), with the laws that decoding inverts
  encoding and that strict decoding accepts nothing but encodings.
\<close>

section \<open>Separators\<close>

definition slash :: char where
  "slash = CHR ''/''"

text \<open>\<open>strings.Split\<close> at one separator.\<close>

fun split_at :: "'a \<Rightarrow> 'a list \<Rightarrow> 'a list list" where
  "split_at sep [] = [[]]"
| "split_at sep (c # s) =
     (if c = sep then [] # split_at sep s
      else case split_at sep s of [] \<Rightarrow> [[c]] | p # ps \<Rightarrow> (c # p) # ps)"

lemma split_at_ne: "split_at sep s \<noteq> []"
  by (induction s) (auto split: list.splits)

lemma split_at_parts: "p \<in> set (split_at sep s) \<Longrightarrow> sep \<notin> set p \<and> set p \<subseteq> set s"
proof (induction s arbitrary: p)
  case Nil
  then show ?case by simp
next
  case (Cons c s)
  show ?case
  proof (cases "c = sep")
    case True
    then show ?thesis using Cons by auto
  next
    case False
    obtain q qs where q: "split_at sep s = q # qs" using split_at_ne by (metis neq_Nil_conv)
    then show ?thesis using Cons.IH [of q] Cons.IH [of p] Cons.prems False by auto
  qed
qed

lemma split_at_append: "split_at sep (a @ sep # b) = split_at sep a @ split_at sep b"
proof (induction a)
  case (Cons c a)
  have "split_at sep s \<noteq> []" for s by (cases s) (auto split: list.splits)
  then show ?case using Cons by (cases "split_at sep a") auto
qed simp

lemma split_at_single: "sep \<notin> set s \<Longrightarrow> split_at sep s = [s]"
  by (induction s) auto

section \<open>Hexadecimal digits\<close>

definition nibble :: "nat \<Rightarrow> char" where
  "nibble n = ''0123456789abcdef'' ! (n mod 16)"

definition hex_bytes :: "string \<Rightarrow> string" where
  "hex_bytes h = concat (map (\<lambda>c. [nibble (of_char c div 16), nibble (of_char c mod 16)]) h)"

lemma nibble_eq: "m < 16 \<Longrightarrow> n < 16 \<Longrightarrow> nibble m = nibble n \<longleftrightarrow> m = n"
  by (simp add: nibble_def nth_eq_iff_index_eq)

lemma hex_byte_eq:
  "nibble (of_char c div 16) = nibble (of_char d div 16) \<and> nibble (of_char c mod 16) = nibble (of_char d mod 16) \<longleftrightarrow> c = d"
proof -
  have "of_char c div 16 < (16 :: nat)" "of_char d div 16 < (16 :: nat)"
    using less_mult_imp_div_less [of "of_char c" 16 16] less_mult_imp_div_less [of "of_char d" 16 16] by simp_all
  then have "nibble (of_char c div 16) = nibble (of_char d div 16) \<and> nibble (of_char c mod 16) = nibble (of_char d mod 16)
        \<longleftrightarrow> of_char c div 16 = (of_char d div 16 :: nat) \<and> of_char c mod 16 = (of_char d mod 16 :: nat)"
    by (simp add: nibble_eq)
  also have "\<dots> \<longleftrightarrow> of_char c = (of_char d :: nat)" by (metis div_mult_mod_eq)
  finally show ?thesis by simp
qed

lemma hex_bytes_inj: "hex_bytes a = hex_bytes b \<Longrightarrow> a = b"
proof (induction a arbitrary: b)
  case Nil
  then show ?case by (cases b) (simp_all add: hex_bytes_def)
next
  case (Cons c a)
  then obtain d b' where b: "b = d # b'" by (cases b) (simp_all add: hex_bytes_def)
  then have "hex_bytes a = hex_bytes b'" "c = d"
    using Cons.prems hex_byte_eq [of c d] by (simp_all add: hex_bytes_def)
  then show ?case using Cons.IH b by simp
qed

lemma slash_not_nibble: "nibble n \<noteq> slash"
proof -
  have "nibble n \<in> set ''0123456789abcdef''" unfolding nibble_def by (rule nth_mem) simp
  then show ?thesis by (auto simp: slash_def)
qed

section \<open>Base64\<close>

text \<open>\<open>base64.RawURLEncoding\<close>: groups of three bytes become four characters, without padding.\<close>

definition url_alphabet :: string where
  "url_alphabet = ''ABCDEFGHIJKLMNOPQRSTUVWXYZabcdefghijklmnopqrstuvwxyz0123456789-_''"

definition url_char :: "nat \<Rightarrow> char" where
  "url_char n = url_alphabet ! (n mod 64)"

fun RawURLEncoding :: "8 word list \<Rightarrow> string" where
  "RawURLEncoding [] = []"
| "RawURLEncoding [a] = [url_char (unat a div 4), url_char (unat a mod 4 * 16)]"
| "RawURLEncoding [a, b] =
     [url_char (unat a div 4), url_char (unat a mod 4 * 16 + unat b div 16), url_char (unat b mod 16 * 4)]"
| "RawURLEncoding (a # b # c # rest) =
     url_char (unat a div 4) # url_char (unat a mod 4 * 16 + unat b div 16)
     # url_char (unat b mod 16 * 4 + unat c div 64) # url_char (unat c mod 64) # RawURLEncoding rest"

subsection \<open>Encodings of different bytes differ\<close>

lemma url_alphabet_distinct: "distinct url_alphabet" "length url_alphabet = 64"
  by (simp_all add: url_alphabet_def)

lemma url_char_eq: "m < 64 \<Longrightarrow> n < 64 \<Longrightarrow> url_char m = url_char n \<longleftrightarrow> m = n"
  using url_alphabet_distinct by (simp add: url_char_def nth_eq_iff_index_eq)

lemma unat_byte_less: "unat (a :: 8 word) < 256"
  using unsigned_less [of a] by simp

lemma pair_bound: "q < m \<Longrightarrow> (r::nat) < n \<Longrightarrow> q * n + r < m * n"
  using mult_le_mono1 [of "Suc q" m n] by simp

lemma pair_eq:
  assumes "q * n + r = q' * n + r'" "(r::nat) < n" "r' < n"
  shows "q = q' \<and> r = r'"
proof -
  have "(q * n + r) div n = q" "(q' * n + r') div n = q'" "(q * n + r) mod n = r" "(q' * n + r') mod n = r'"
    using assms(2,3) by simp_all
  with assms(1) show ?thesis by metis
qed

lemma byte_div:
  assumes "(y::nat) < 256"
  shows "y div 4 < 64" "y div 16 < 16" "y div 64 < 4"
  using assms less_mult_imp_div_less [of y 64 4] less_mult_imp_div_less [of y 16 16] less_mult_imp_div_less [of y 4 64]
  by simp_all

lemma sextets:
  fixes x y z :: nat
  assumes "x < 256" "y < 256" "z < 256"
  shows "x div 4 < 64" "x mod 4 * 16 + y div 16 < 64" "y mod 16 * 4 + z div 64 < 64" "z mod 64 < 64"
    "x mod 4 * 16 < 64" "y mod 16 * 4 < 64"
  using assms pair_bound [of "x mod 4" 4 "y div 16" 16] pair_bound [of "y mod 16" 16 "z div 64" 4]
    pair_bound [of "x mod 4" 4 0 16] pair_bound [of "y mod 16" 16 0 4] byte_div [of x] byte_div [of y] byte_div [of z]
  by simp_all

lemma first_byte_eq:
  fixes x y x' y' :: nat
  assumes "x div 4 = x' div 4" "x mod 4 * 16 + y div 16 = x' mod 4 * 16 + y' div 16" "y < 256" "y' < 256"
  shows "x = x' \<and> y div 16 = y' div 16"
proof -
  have "x mod 4 = x' mod 4 \<and> y div 16 = y' div 16"
    by (rule pair_eq [OF assms(2) byte_div(2) [OF assms(3)] byte_div(2) [OF assms(4)]])
  with assms(1) show ?thesis by (metis div_mult_mod_eq)
qed

lemma second_byte_eq:
  fixes y z y' z' :: nat
  assumes "y div 16 = y' div 16" "y mod 16 * 4 + z div 64 = y' mod 16 * 4 + z' div 64" "z mod 64 = z' mod 64"
    "z < 256" "z' < 256"
  shows "y = y' \<and> z = z'"
proof -
  have "y mod 16 = y' mod 16 \<and> z div 64 = z' div 64"
    by (rule pair_eq [OF assms(2) byte_div(3) [OF assms(4)] byte_div(3) [OF assms(5)]])
  with assms(1,3) show ?thesis by (metis div_mult_mod_eq)
qed

lemma RawURLEncoding_inj:
  "length xs = length ys \<Longrightarrow> RawURLEncoding xs = RawURLEncoding ys \<Longrightarrow> xs = ys"
proof (induction xs arbitrary: ys rule: RawURLEncoding.induct)
  case 1
  then show ?case by simp
next
  case (2 a)
  then obtain a' where "ys = [a']" by (cases ys) auto
  with 2 show ?case
    using first_byte_eq [of "unat a" "unat a'" 0 0] sextets [OF unat_byte_less [of a], of 0 0] sextets [OF unat_byte_less [of a'], of 0 0]
    by (simp add: url_char_eq word_unat_eq_iff)
next
  case (3 a b)
  then obtain a' b' where ys: "ys = [a', b']" by (cases ys; cases "tl ys") auto
  note s = sextets [OF unat_byte_less [of a] unat_byte_less [of b], of 0]
    sextets [OF unat_byte_less [of a'] unat_byte_less [of b'], of 0]
  show ?case using 3 s unfolding ys
    using first_byte_eq [of "unat a" "unat a'" "unat b" "unat b'"] second_byte_eq [of "unat b" "unat b'" 0 0]
      unat_byte_less [of b] unat_byte_less [of b']
    by (simp add: url_char_eq word_unat_eq_iff)
next
  case (4 a b c rest)
  then obtain a' b' c' rest' where ys: "ys = a' # b' # c' # rest'" "length rest = length rest'"
    by (cases ys; cases "tl ys"; cases "tl (tl ys)") auto
  note s = sextets [OF unat_byte_less [of a] unat_byte_less [of b] unat_byte_less [of c]]
    sextets [OF unat_byte_less [of a'] unat_byte_less [of b'] unat_byte_less [of c']]
  have r: "rest = rest'" using "4.IH" [OF ys(2)] "4.prems" ys by simp
  have e: "unat a div 4 = unat a' div 4" "unat a mod 4 * 16 + unat b div 16 = unat a' mod 4 * 16 + unat b' div 16"
    "unat b mod 16 * 4 + unat c div 64 = unat b' mod 16 * 4 + unat c' div 64" "unat c mod 64 = unat c' mod 64"
    using "4.prems" s unfolding ys by (simp_all add: url_char_eq)
  have ab: "unat a = unat a' \<and> unat b div 16 = unat b' div 16"
    by (rule first_byte_eq [OF e(1,2) unat_byte_less unat_byte_less])
  then have "unat b = unat b' \<and> unat c = unat c'"
    using second_byte_eq [OF _ e(3,4) unat_byte_less unat_byte_less] by blast
  then show ?case using ab r by (simp add: ys word_unat_eq_iff)
qed


subsection \<open>Strict decoding\<close>

text \<open>The value of a character of the alphabet.\<close>

definition url_value :: "char \<Rightarrow> nat option" where
  "url_value c = find (\<lambda>n. url_alphabet ! n = c) [0..<64]"

text \<open>
  \<open>base64.RawURLEncoding.Strict\<close> on a text without line breaks: unused trailing bits have to be zero.
\<close>

fun RawURLDecoding :: "string \<Rightarrow> 8 word list option" where
  "RawURLDecoding [] = Some []"
| "RawURLDecoding [a] = None"
| "RawURLDecoding [a, b] =
     (case (url_value a, url_value b) of
        (Some x, Some y) \<Rightarrow> if y mod 16 = 0 then Some [of_nat (x * 4 + y div 16)] else None
      | _ \<Rightarrow> None)"
| "RawURLDecoding [a, b, c] =
     (case (url_value a, url_value b, url_value c) of
        (Some x, Some y, Some z) \<Rightarrow>
          if z mod 4 = 0 then Some [of_nat (x * 4 + y div 16), of_nat (y mod 16 * 16 + z div 4)] else None
      | _ \<Rightarrow> None)"
| "RawURLDecoding (a # b # c # d # rest) =
     (case (url_value a, url_value b, url_value c, url_value d, RawURLDecoding rest) of
        (Some x, Some y, Some z, Some u, Some out) \<Rightarrow>
          Some (of_nat (x * 4 + y div 16) # of_nat (y mod 16 * 16 + z div 4) # of_nat (z mod 4 * 64 + u) # out)
      | _ \<Rightarrow> None)"

lemma url_value_char [simp]: "n < 64 \<Longrightarrow> url_value (url_char n) = Some n"
proof -
  assume n: "n < 64"
  have "url_alphabet ! m = url_alphabet ! n \<longleftrightarrow> m = n" if "m < 64" for m
    using that n url_alphabet_distinct by (simp add: nth_eq_iff_index_eq)
  then have "find (\<lambda>m. url_alphabet ! m = url_alphabet ! n) [0..<64] = Some n"
    using n by (subst find_Some_iff) (rule exI [of _ n], simp)
  then show ?thesis using n by (simp add: url_value_def url_char_def)
qed

lemma url_value_Some: "url_value c = Some n \<Longrightarrow> n < 64 \<and> url_char n = c"
  by (auto simp: url_value_def url_char_def find_Some_iff)

lemma byte_joins:
  fixes x y z :: nat
  assumes "x < 256" "y < 256" "z < 256"
  shows "x div 4 * 4 + (x mod 4 * 16 + y div 16) div 16 = x" "(x mod 4 * 16 + y div 16) mod 16 * 16 + (y mod 16 * 4 + z div 64) div 4 = y"
    "(y mod 16 * 4 + z div 64) mod 4 * 64 + z mod 64 = z" "x div 4 * 4 + x mod 4 * 16 div 16 = x"
    "(x mod 4 * 16 + y div 16) mod 16 * 16 + y mod 16 * 4 div 4 = y"
  using byte_div [OF assms(2)] byte_div [OF assms(3)] by (simp_all add: mult.commute)

lemma RawURLDecoding_encoding [simp]: "RawURLDecoding (RawURLEncoding xs) = Some xs"
proof (induction xs rule: RawURLEncoding.induct)
  case (2 a)
  note s = sextets [OF unat_byte_less [of a], of 0 0]
  show ?case using s byte_joins [OF unat_byte_less [of a], of 0 0] by simp
next
  case (3 a b)
  note s = sextets [OF unat_byte_less [of a] unat_byte_less [of b], of 0]
  show ?case using s byte_joins [OF unat_byte_less [of a] unat_byte_less [of b], of 0] by simp
next
  case (4 a b c rest)
  note s = sextets [OF unat_byte_less [of a] unat_byte_less [of b] unat_byte_less [of c]]
  show ?case using s 4 byte_joins [OF unat_byte_less [of a] unat_byte_less [of b] unat_byte_less [of c]] by simp
qed simp

lemma unat_of_nat_byte: "n < 256 \<Longrightarrow> unat (of_nat n :: 8 word) = n"
  by (simp add: unat_of_nat)

lemma sextet_joins:
  fixes x y z u :: nat
  assumes "x < 64" "y < 64" "z < 64" "u < 64"
  shows "x * 4 + y div 16 < 256" "y mod 16 * 16 + z div 4 < 256" "z mod 4 * 64 + u < 256"
    "(x * 4 + y div 16) div 4 = x" "(x * 4 + y div 16) mod 4 * 16 + (y mod 16 * 16 + z div 4) div 16 = y"
    "(y mod 16 * 16 + z div 4) mod 16 * 4 + (z mod 4 * 64 + u) div 64 = z" "(z mod 4 * 64 + u) mod 64 = u"
    "y mod 16 = 0 \<Longrightarrow> (x * 4 + y div 16) mod 4 * 16 = y" "z mod 4 = 0 \<Longrightarrow> (y mod 16 * 16 + z div 4) mod 16 * 4 = z"
proof -
  have d: "y div 16 < 4" "z div 4 < 16" using assms less_mult_imp_div_less [of y 4 16] less_mult_imp_div_less [of z 16 4] by simp_all
  show "x * 4 + y div 16 < 256" "y mod 16 * 16 + z div 4 < 256" "z mod 4 * 64 + u < 256"
    using assms d pair_bound [of x 64 "y div 16" 4] pair_bound [of "y mod 16" 16 "z div 4" 16] pair_bound [of "z mod 4" 4 u 64]
    by simp_all
  show "(x * 4 + y div 16) div 4 = x" "(z mod 4 * 64 + u) mod 64 = u" using d assms by simp_all
  have y: "(x * 4 + y div 16) mod 4 * 16 = y div 16 * 16" "(y mod 16 * 16 + z div 4) div 16 = y mod 16" using d by simp_all
  then show "(x * 4 + y div 16) mod 4 * 16 + (y mod 16 * 16 + z div 4) div 16 = y" by simp
  have z: "(y mod 16 * 16 + z div 4) mod 16 * 4 = z div 4 * 4" "(z mod 4 * 64 + u) div 64 = z mod 4" using d assms by simp_all
  then show "(y mod 16 * 16 + z div 4) mod 16 * 4 + (z mod 4 * 64 + u) div 64 = z" by simp
  show "(x * 4 + y div 16) mod 4 * 16 = y" if "y mod 16 = 0" using y(1) that by (metis div_mult_mod_eq add_0_right)
  show "(y mod 16 * 16 + z div 4) mod 16 * 4 = z" if "z mod 4 = 0" using z(1) that by (metis div_mult_mod_eq add_0_right)
qed

text \<open>Strict decoding accepts nothing but encodings.\<close>

lemma RawURLEncoding_decoding: "RawURLDecoding s = Some xs \<Longrightarrow> RawURLEncoding xs = s"
proof (induction s arbitrary: xs rule: RawURLDecoding.induct)
  case (3 a b)
  then obtain x y where v: "url_value a = Some x" "url_value b = Some y" "y mod 16 = 0" "xs = [of_nat (x * 4 + y div 16)]"
    by (auto split: option.splits if_splits)
  note n = url_value_Some [OF v(1)] url_value_Some [OF v(2)]
  show ?case using n v(3) sextet_joins [of x y 0 0] unfolding v(4) by (simp add: unat_of_nat_byte del: of_nat_add of_nat_mult)
next
  case (4 a b c)
  then obtain x y z where v: "url_value a = Some x" "url_value b = Some y" "url_value c = Some z" "z mod 4 = 0"
      "xs = [of_nat (x * 4 + y div 16), of_nat (y mod 16 * 16 + z div 4)]"
    by (auto split: option.splits if_splits)
  note n = url_value_Some [OF v(1)] url_value_Some [OF v(2)] url_value_Some [OF v(3)]
  show ?case using n v(4) sextet_joins [of x y z 0] unfolding v(5) by (simp add: unat_of_nat_byte del: of_nat_add of_nat_mult)
next
  case (5 a b c d rest)
  then obtain x y z u out where v: "url_value a = Some x" "url_value b = Some y" "url_value c = Some z" "url_value d = Some u"
      "RawURLDecoding rest = Some out"
      "xs = of_nat (x * 4 + y div 16) # of_nat (y mod 16 * 16 + z div 4) # of_nat (z mod 4 * 64 + u) # out"
    by (auto split: option.splits)
  note n = url_value_Some [OF v(1)] url_value_Some [OF v(2)] url_value_Some [OF v(3)] url_value_Some [OF v(4)]
  show ?case using n "5.IH" [OF v(5)] sextet_joins [of x y z u] unfolding v(6) by (simp add: unat_of_nat_byte del: of_nat_add of_nat_mult)
qed simp_all

lemma RawURLEncoding_length: "length (RawURLEncoding xs) = (length xs * 4 + 2) div 3"
  by (induction xs rule: RawURLEncoding.induct) simp_all

lemma RawURLEncoding_chars: "set (RawURLEncoding xs) \<subseteq> set url_alphabet"
proof -
  have "url_char n \<in> set url_alphabet" for n
    unfolding url_char_def by (rule nth_mem) (simp add: url_alphabet_distinct)
  then show ?thesis by (induction xs rule: RawURLEncoding.induct) auto
qed

section \<open>Joining\<close>

text \<open>\<open>strings.Join\<close>.\<close>

fun join :: "'a \<Rightarrow> 'a list list \<Rightarrow> 'a list" where
  "join sep [] = []"
| "join sep [p] = p"
| "join sep (p # q # ps) = p @ sep # join sep (q # ps)"

lemma join_Cons: "ps \<noteq> [] \<Longrightarrow> join sep (p # ps) = p @ sep # join sep ps"
  by (cases ps) simp_all

lemma split_at_join: "ps \<noteq> [] \<Longrightarrow> (\<And>p. p \<in> set ps \<Longrightarrow> sep \<notin> set p) \<Longrightarrow> split_at sep (join sep ps) = ps"
  by (induction ps rule: join.induct) (simp_all add: split_at_single split_at_append)

lemma join_split_at [simp]: "join sep (split_at sep s) = s"
proof (induction s)
  case (Cons c s)
  obtain q qs where q: "split_at sep s = q # qs" using split_at_ne by (metis neq_Nil_conv)
  show ?case using Cons q by (cases qs) auto
qed simp

section \<open>Decoding hexadecimal digits\<close>

text \<open>The value of a digit, small or capital.\<close>

definition unnibble :: "char \<Rightarrow> nat option" where
  "unnibble c =
     (let n = of_char c in
      if 48 \<le> n \<and> n \<le> 57 then Some (n - 48)
      else if 97 \<le> n \<and> n \<le> 102 then Some (n - 87)
      else if 65 \<le> n \<and> n \<le> 70 then Some (n - 55)
      else None)"

text \<open>\<open>hex.DecodeString\<close>.\<close>

fun unhex :: "string \<Rightarrow> string option" where
  "unhex [] = Some []"
| "unhex [a] = None"
| "unhex (a # b # s) =
     (case (unnibble a, unnibble b, unhex s) of
        (Some x, Some y, Some out) \<Rightarrow> Some (char_of (x * 16 + y) # out)
      | _ \<Rightarrow> None)"

lemma unnibble_nibble [simp]: "n < 16 \<Longrightarrow> unnibble (nibble n) = Some n"
proof -
  assume "n < 16"
  then have "n \<in> set [0..<16]" by simp
  moreover have "list_all (\<lambda>n. unnibble (nibble n) = Some n) [0..<16]" by code_simp
  ultimately show ?thesis by (auto simp: list_all_iff)
qed

lemma of_char_less: "of_char (c :: char) < (256 :: nat)"
  by simp

lemma byte_split: "of_char (c :: char) div 16 < (16 :: nat)"
  using of_char_less [of c] less_mult_imp_div_less [of "of_char c" 16 16] by simp

lemma unhex_hex_bytes [simp]: "unhex (hex_bytes h) = Some h"
  by (induction h) (simp_all add: hex_bytes_def byte_split)

lemma hex_bytes_length: "length (hex_bytes h) = 2 * length h"
  by (induction h) (simp_all add: hex_bytes_def)

lemma unhex_length: "unhex s = Some h \<Longrightarrow> length s = 2 * length h"
  by (induction s arbitrary: h rule: unhex.induct) (auto split: option.splits)

lemma hex_bytes_chars: "set (hex_bytes h) \<subseteq> set ''0123456789abcdef''"
proof -
  have "nibble n \<in> set ''0123456789abcdef''" for n unfolding nibble_def by (rule nth_mem) simp
  then show ?thesis by (induction h) (auto simp: hex_bytes_def)
qed

section \<open>Percent escapes\<close>

text \<open>
  \<open>url.PathEscape\<close> keeps letters, digits and some marks of a path segment; \<open>unescape\<close> is
  \<open>url.PathUnescape\<close>, which fails on a percent sign without two digits.
\<close>

definition capital_nibble :: "nat \<Rightarrow> char" where
  "capital_nibble n = ''0123456789ABCDEF'' ! (n mod 16)"

definition alnum :: "char \<Rightarrow> bool" where
  "alnum c \<longleftrightarrow> (let n = (of_char c :: nat) in (97 \<le> n \<and> n \<le> 122) \<or> (65 \<le> n \<and> n \<le> 90) \<or> (48 \<le> n \<and> n \<le> 57))"

definition escape_char :: "char \<Rightarrow> string" where
  "escape_char c = CHR ''%'' # [capital_nibble (of_char c div 16), capital_nibble (of_char c mod 16)]"

definition escape_with :: "(char \<Rightarrow> bool) \<Rightarrow> string \<Rightarrow> string" where
  "escape_with keep s = concat (map (\<lambda>c. if keep c then [c] else escape_char c) s)"

definition keep_segment :: "char \<Rightarrow> bool" where
  "keep_segment c \<longleftrightarrow> alnum c \<or> c \<in> set ''-_.~$&+:=@''"

definition PathEscape :: "string \<Rightarrow> string" where
  "PathEscape = escape_with keep_segment"

fun unescape :: "string \<Rightarrow> string option" where
  "unescape [] = Some []"
| "unescape (c # s) =
     (if c = CHR ''%''
      then (case s of
              a # b # rest \<Rightarrow>
                (case (unnibble a, unnibble b) of
                   (Some x, Some y) \<Rightarrow> map_option (\<lambda>out. char_of (x * 16 + y) # out) (unescape rest)
                 | _ \<Rightarrow> None)
            | _ \<Rightarrow> None)
      else map_option (\<lambda>out. c # out) (unescape s))"

lemma unnibble_capital [simp]: "n < 16 \<Longrightarrow> unnibble (capital_nibble n) = Some n"
proof -
  assume "n < 16"
  then have "n \<in> set [0..<16]" by simp
  moreover have "list_all (\<lambda>n. unnibble (capital_nibble n) = Some n) [0..<16]" by code_simp
  ultimately show ?thesis by (auto simp: list_all_iff)
qed

lemma unescape_append: "unescape a = Some x \<Longrightarrow> unescape (a @ b) = map_option (\<lambda>y. x @ y) (unescape b)"
proof (induction a arbitrary: x rule: unescape.induct)
  case 1
  then show ?case by (simp add: option.map_ident)
next
  case (2 c s)
  show ?case
  proof (cases "c = CHR ''%''")
    case True
    then obtain a b rest u v out where s: "s = a # b # rest" "unnibble a = Some u" "unnibble b = Some v"
        "unescape rest = Some out" "x = char_of (u * 16 + v) # out"
      using "2.prems" by (auto split: list.splits option.splits)
    then show ?thesis using "2.IH"(1) [OF True s(1) refl refl s(2,3,4)] True s
      by (auto simp: option.map_comp comp_def split: option.splits)
  next
    case False
    then obtain out where "unescape s = Some out" "x = c # out" using "2.prems" by auto
    then show ?thesis using "2.IH"(2) [OF False] False by (simp add: option.map_comp comp_def)
  qed
qed

lemma unescape_escape_with: "\<not> keep (CHR ''%'') \<Longrightarrow> unescape (escape_with keep s) = Some s"
proof (induction s)
  case (Cons c s)
  have "unescape (escape_char c) = Some [c]" by (simp add: escape_char_def byte_split)
  moreover have "keep c \<Longrightarrow> unescape [c] = Some [c]" using Cons.prems by auto
  ultimately have "unescape (if keep c then [c] else escape_char c) = Some [c]" by simp
  from unescape_append [OF this] show ?case using Cons by (simp add: escape_with_def)
qed (simp add: escape_with_def)

lemma unescape_plain: "CHR ''%'' \<notin> set s \<Longrightarrow> unescape s = Some s"
  by (induction s) auto

lemma unescape_PathEscape [simp]: "unescape (PathEscape s) = Some s"
proof -
  have "\<not> keep_segment (CHR ''%'')" by (simp add: keep_segment_def alnum_def)
  then show ?thesis unfolding PathEscape_def by (rule unescape_escape_with)
qed

section \<open>The contract of an encoding\<close>

text \<open>
  What the components rely on: decoding inverts encoding; a strict decoder moreover accepts nothing
  but encodings, so a text and its meaning determine each other.
\<close>

locale codec =
  fixes encode :: "'a \<Rightarrow> string" and decode :: "string \<Rightarrow> 'a option"
  assumes decode_encode: "decode (encode x) = Some x"
begin

lemma encode_inj: "encode x = encode y \<longleftrightarrow> x = y"
  by (metis decode_encode option.inject)

end

locale strict_codec = codec +
  assumes encode_decode: "decode s = Some x \<Longrightarrow> encode x = s"
begin

lemma decode_iff: "decode s = Some x \<longleftrightarrow> s = encode x"
  using decode_encode encode_decode by metis

lemma decode_unique: "decode s = Some x \<Longrightarrow> decode t = Some x \<Longrightarrow> s = t"
  by (simp add: decode_iff)

end

interpretation hexc: codec hex_bytes unhex
  by unfold_locales simp

interpretation pct: codec PathEscape unescape
  by unfold_locales simp

interpretation b64: strict_codec RawURLEncoding RawURLDecoding
  by unfold_locales (simp_all add: RawURLEncoding_decoding)

section \<open>White space\<close>

text \<open>
  The UTF-8 encodings of the runes that \<open>unicode.IsSpace\<close> accepts, and \<open>strings.TrimSpace\<close>.
\<close>

definition spaces :: "string list" where
  "spaces = map (\<lambda>n. [char_of (n :: nat)]) [9, 10, 11, 12, 13, 32]
     @ map (\<lambda>n. [CHR 0xC2, char_of (n :: nat)]) [0x85, 0xA0]
     @ [[CHR 0xE1, CHR 0x9A, CHR 0x80]]
     @ map (\<lambda>n. [CHR 0xE2, CHR 0x80, char_of (n :: nat)])
         [0x80, 0x81, 0x82, 0x83, 0x84, 0x85, 0x86, 0x87, 0x88, 0x89, 0x8A, 0xA8, 0xA9, 0xAF]
     @ [[CHR 0xE2, CHR 0x81, CHR 0x9F], [CHR 0xE3, CHR 0x80, CHR 0x80]]"

definition space_prefix :: "string \<Rightarrow> string option" where
  "space_prefix s = find (\<lambda>p. take (length p) s = p) spaces"

definition space_suffix :: "string \<Rightarrow> string option" where
  "space_suffix s = find (\<lambda>p. length p \<le> length s \<and> drop (length s - length p) s = p) spaces"

lemma spaces_ne: "p \<in> set spaces \<Longrightarrow> p \<noteq> []"
  by (auto simp: spaces_def)

lemma find_mem: "find P xs = Some x \<Longrightarrow> x \<in> set xs \<and> P x"
  by (induction xs) (auto split: if_splits)

lemma space_prefix_Some: "space_prefix s = Some p \<Longrightarrow> p \<noteq> [] \<and> s = p @ drop (length p) s"
  using find_mem [of _ spaces p] spaces_ne append_take_drop_id [of "length p" s] by (fastforce simp: space_prefix_def)

lemma space_suffix_Some: "space_suffix s = Some p \<Longrightarrow> p \<noteq> [] \<and> s = take (length s - length p) s @ p"
  using find_mem [of _ spaces p] spaces_ne append_take_drop_id [of "length s - length p" s] by (fastforce simp: space_suffix_def)

function trim_left :: "string \<Rightarrow> string" where
  "trim_left s = (case space_prefix s of None \<Rightarrow> s | Some p \<Rightarrow> trim_left (drop (length p) s))"
  by auto
termination
proof (relation "measure length", goal_cases)
  case (2 s p)
  then have "p \<noteq> []" "s = p @ drop (length p) s" using space_prefix_Some by blast+
  then have "length s = length p + length (drop (length p) s)" by (metis length_append)
  moreover have "0 < length p" using \<open>p \<noteq> []\<close> by simp
  ultimately have "length (drop (length p) s) < length s" by linarith
  then show ?case by (simp only: in_measure)
qed simp

function trim_right :: "string \<Rightarrow> string" where
  "trim_right s = (case space_suffix s of None \<Rightarrow> s | Some p \<Rightarrow> trim_right (take (length s - length p) s))"
  by auto
termination
proof (relation "measure length", goal_cases)
  case (2 s p)
  then have "p \<noteq> []" "s = take (length s - length p) s @ p" using space_suffix_Some by blast+
  then have "length s = length (take (length s - length p) s) + length p" by (metis length_append)
  moreover have "0 < length p" using \<open>p \<noteq> []\<close> by simp
  ultimately have "length (take (length s - length p) s) < length s" by linarith
  then show ?case by (simp only: in_measure)
qed simp

declare trim_left.simps [simp del] trim_right.simps [simp del]

definition TrimSpace :: "string \<Rightarrow> string" where
  "TrimSpace s = trim_right (trim_left s)"

lemma trim_left_none: "space_prefix s = None \<Longrightarrow> trim_left s = s"
  by (simp add: trim_left.simps)

lemma trim_right_none: "space_suffix s = None \<Longrightarrow> trim_right s = s"
  by (simp add: trim_right.simps)

lemma trim_left_result: "space_prefix (trim_left s) = None"
proof (induction s rule: trim_left.induct)
  case (1 s)
  show ?case using 1 by (cases "space_prefix s") (simp_all add: trim_left.simps [of s])
qed

lemma trim_right_result: "space_suffix (trim_right s) = None \<and> (\<exists>r. s = trim_right s @ r)"
proof (induction s rule: trim_right.induct)
  case (1 s)
  show ?case
  proof (cases "space_suffix s")
    case None
    then show ?thesis by (simp add: trim_right.simps [of s])
  next
    case (Some p)
    then have e: "trim_right s = trim_right (take (length s - length p) s)" "s = take (length s - length p) s @ p"
      using space_suffix_Some [OF Some] by (simp_all add: trim_right.simps [of s])
    then show ?thesis using 1 [OF Some] by (metis append.assoc)
  qed
qed

lemma space_prefix_append: "space_prefix (a @ b) = None \<Longrightarrow> space_prefix a = None"
proof -
  assume "space_prefix (a @ b) = None"
  then have n: "\<And>p. p \<in> set spaces \<Longrightarrow> take (length p) (a @ b) \<noteq> p" by (auto simp: space_prefix_def find_None_iff)
  have "take (length p) a \<noteq> p" if p: "p \<in> set spaces" for p
  proof
    assume t: "take (length p) a = p"
    then have "length p \<le> length a" by (metis length_take min.cobounded1)
    then have "take (length p) (a @ b) = p" using t by simp
    then show False using n [OF p] by blast
  qed
  then show ?thesis by (auto simp: space_prefix_def find_None_iff)
qed

lemma trim_ends: "space_prefix (TrimSpace s) = None" "space_suffix (TrimSpace s) = None"
proof -
  show "space_suffix (TrimSpace s) = None" using trim_right_result by (simp add: TrimSpace_def)
  obtain r where "trim_left s = trim_right (trim_left s) @ r" using trim_right_result by blast
  then show "space_prefix (TrimSpace s) = None"
    using trim_left_result [of s] space_prefix_append [of "trim_right (trim_left s)" r] by (simp add: TrimSpace_def)
qed

lemma TrimSpace_id: "space_prefix s = None \<Longrightarrow> space_suffix s = None \<Longrightarrow> TrimSpace s = s"
  by (simp add: TrimSpace_def trim_left_none trim_right_none)

lemma TrimSpace_idem [simp]: "TrimSpace (TrimSpace s) = TrimSpace s"
  by (simp add: TrimSpace_id trim_ends)

text \<open>A final line break is trimmed.\<close>

lemma newline_spaces: "p \<in> set spaces \<Longrightarrow> CHR 0x0A \<in> set p \<longleftrightarrow> p = [CHR 0x0A]"
proof -
  have "list_all (\<lambda>p. CHR 0x0A \<in> set p \<longleftrightarrow> p = [CHR 0x0A]) spaces" by code_simp
  then show "p \<in> set spaces \<Longrightarrow> ?thesis" by (auto simp: list_all_iff)
qed

lemma TrimSpace_newline:
  assumes "space_prefix s = None" "space_suffix s = None" "s \<noteq> []"
  shows "TrimSpace (s @ [CHR 0x0A]) = s"
proof -
  let ?n = "[CHR 0x0A] :: string"
  have "take (length p) (s @ ?n) \<noteq> p" if p: "p \<in> set spaces" for p
  proof
    assume t: "take (length p) (s @ ?n) = p"
    show False
    proof (cases "length p \<le> length s")
      case True
      then have "take (length p) s = p" using t by simp
      then show ?thesis using assms(1) p by (auto simp: space_prefix_def find_None_iff)
    next
      case False
      then have "p = s @ ?n" using t by (simp add: not_le take_Cons')
      then have "p = ?n" using newline_spaces [OF p] by auto
      then show ?thesis using \<open>p = s @ ?n\<close> assms(3) by simp
    qed
  qed
  then have l: "trim_left (s @ ?n) = s @ ?n" by (intro trim_left_none) (auto simp: space_prefix_def find_None_iff)
  have "?n \<in> set spaces" by code_simp
  moreover have "length ?n \<le> length (s @ ?n) \<and> drop (length (s @ ?n) - length ?n) (s @ ?n) = ?n" by simp
  ultimately have "space_suffix (s @ ?n) \<noteq> None" unfolding space_suffix_def find_None_iff by blast
  then obtain q where q: "space_suffix (s @ ?n) = Some q" by blast
  then have "q \<in> set spaces" using find_mem [of _ spaces q] unfolding space_suffix_def by blast
  moreover have "s @ ?n = take (length (s @ ?n) - length q) (s @ ?n) @ q" "q \<noteq> []" using space_suffix_Some [OF q] by blast+
  moreover from this have "CHR 0x0A \<in> set q" by (metis last_appendR last_in_set last_snoc)
  ultimately have "q = ?n" using newline_spaces by blast
  then have "trim_right (s @ ?n) = trim_right s" using q by (simp add: trim_right.simps [of "s @ ?n"])
  then show ?thesis using l assms(2) by (simp add: TrimSpace_def trim_right_none)
qed

end
