(* ===== verification/Auth.thy ===== *)
theory Auth
  imports Encodings
begin

text \<open>
  The authentication service (\<open>internal/auth/service.go\<close>): a password login that mints opaque tokens,
  tokens with a sliding expiry, revocation and shutdown.

  Every locked section is one step on the record \<open>Service\<close>. The clock is an argument of each step (a
  number of nanoseconds), \<open>bcrypt\<close> and the digest of a token are parameters, and the random source is
  the sequence of what \<open>io.ReadFull\<close> delivers. A Go string is a \<open>string\<close> of bytes. The specification
  \<open>spec_step\<close> keeps an expiry per digest and never cleans up.
\<close>

section \<open>Model\<close>

datatype auth_error =
    ErrInvalidCredentials
  | ErrInvalidToken
  | errClosed
  | RandomFailed
  | ConfigError string string

record auth_config =
  Enabled :: bool
  TokenTTL :: int

type_synonym digest = string

record tokenEntry =
  expiresAt :: int

record Service =
  passwordHash :: string
  tokenTTL :: int
  tokens :: "digest \<rightharpoonup> tokenEntry"
  closed :: bool

definition tokenSize :: nat where
  "tokenSize = 32"

definition minimumPasswordCost :: int where
  "minimumPasswordCost = 10"

definition hours24 :: int where
  "hours24 = 24 * 60 * 60 * 1000000000"

definition invalidConfig :: "string \<Rightarrow> string \<Rightarrow> auth_error" where
  "invalidConfig field cause = ConfigError field cause"

text \<open>\<open>cost\<close> is \<open>bcrypt.Cost\<close>: None for a string that is no bcrypt hash.\<close>

definition NewService :: "(string \<Rightarrow> int option) \<Rightarrow> auth_config \<Rightarrow> string \<Rightarrow> auth_error + Service" where
  "NewService cost cfg hash =
     (if \<not> Enabled cfg then Inl (invalidConfig ''http.auth.enabled'' ''authentication is disabled'')
      else if TokenTTL cfg \<le> 0 then Inl (invalidConfig ''http.auth.token_ttl'' ''must be positive'')
      else if TokenTTL cfg > hours24 then Inl (invalidConfig ''http.auth.token_ttl'' ''must not exceed 24 hours'')
      else if length hash = 0 then Inl (invalidConfig ''password'' ''a password hash is required'')
      else case cost hash of
             None \<Rightarrow> Inl (invalidConfig ''password'' ''must be a valid bcrypt hash'')
           | Some c \<Rightarrow>
               if c < minimumPasswordCost
               then Inl (invalidConfig ''password'' ''bcrypt cost must be at least 10'')
               else Inr \<lparr>passwordHash = hash, tokenTTL = TokenTTL cfg, tokens = Map.empty, closed = False\<rparr>)"

definition removeExpiredLocked :: "int \<Rightarrow> Service \<Rightarrow> Service" where
  "removeExpiredLocked now s =
     s\<lparr>tokens := (\<lambda>key. case tokens s key of
                          None \<Rightarrow> None
                        | Some e \<Rightarrow> if \<not> now < expiresAt e then None else Some e)\<rparr>"

text \<open>The first locked section of \<open>Login\<close> and the comparison of the password outside the lock.\<close>

definition login_check :: "(string \<Rightarrow> string \<Rightarrow> bool) \<Rightarrow> string \<Rightarrow> Service \<Rightarrow> auth_error option" where
  "login_check compareHash password s =
     (if closed s then Some errClosed
      else if \<not> compareHash (passwordHash s) password then Some ErrInvalidCredentials
      else None)"

text \<open>One round of the loop of \<open>Login\<close>: None asks for another round.\<close>

definition login_attempt ::
  "(string \<Rightarrow> digest) \<Rightarrow> int \<Rightarrow> 8 word list option \<Rightarrow> Service \<Rightarrow> (auth_error + string \<times> int) option \<times> Service" where
  "login_attempt tokenKey now rnd s =
     (case rnd of
        None \<Rightarrow> (Some (Inl RandomFailed), s)
      | Some raw \<Rightarrow>
          let token = RawURLEncoding raw; key = tokenKey token
          in if closed s then (Some (Inl errClosed), s)
             else
               let s1 = removeExpiredLocked now s
               in if tokens s1 key \<noteq> None then (None, s1)
                  else (Some (Inr (token, now + tokenTTL s1)),
                        s1\<lparr>tokens := (tokens s1)(key \<mapsto> \<lparr>expiresAt = now + tokenTTL s1\<rparr>)\<rparr>))"

text \<open>
  The loop consumes one delivery of the random source and one reading of the clock per round; it is
  None when the given deliveries are used up without a result.
\<close>

fun login_loop ::
  "(string \<Rightarrow> digest) \<Rightarrow> (8 word list option \<times> int) list \<Rightarrow> Service \<Rightarrow> ((auth_error + string \<times> int) \<times> Service) option" where
  "login_loop tokenKey [] s = None"
| "login_loop tokenKey ((rnd, now) # later) s =
     (case login_attempt tokenKey now rnd s of
        (Some r, s') \<Rightarrow> Some (r, s')
      | (None, s') \<Rightarrow> login_loop tokenKey later s')"

definition Login ::
  "(string \<Rightarrow> string \<Rightarrow> bool) \<Rightarrow> (string \<Rightarrow> digest) \<Rightarrow> string \<Rightarrow> (8 word list option \<times> int) list \<Rightarrow> Service
   \<Rightarrow> ((auth_error + string \<times> int) \<times> Service) option" where
  "Login compareHash tokenKey password deliveries s =
     (case login_check compareHash password s of
        Some e \<Rightarrow> Some (Inl e, s)
      | None \<Rightarrow> login_loop tokenKey deliveries s)"

definition Authenticate ::
  "(string \<Rightarrow> digest) \<Rightarrow> int \<Rightarrow> string \<Rightarrow> bool \<Rightarrow> Service \<Rightarrow> (auth_error + int) \<times> Service" where
  "Authenticate tokenKey now token renew s =
     (let key = tokenKey token in
      if closed s then (Inl ErrInvalidToken, s)
      else
        let s1 = removeExpiredLocked now s
        in case tokens s1 key of
             None \<Rightarrow> (Inl ErrInvalidToken, s1\<lparr>tokens := (tokens s1)(key := None)\<rparr>)
           | Some entry \<Rightarrow>
               if \<not> now < expiresAt entry then (Inl ErrInvalidToken, s1\<lparr>tokens := (tokens s1)(key := None)\<rparr>)
               else if renew
               then (Inr (now + tokenTTL s1),
                     s1\<lparr>tokens := (tokens s1)(key \<mapsto> entry\<lparr>expiresAt := now + tokenTTL s1\<rparr>)\<rparr>)
               else (Inr (expiresAt entry), s1))"

definition Revoke :: "(string \<Rightarrow> digest) \<Rightarrow> int \<Rightarrow> string \<Rightarrow> Service \<Rightarrow> auth_error option \<times> Service" where
  "Revoke tokenKey now token s =
     (let key = tokenKey token in
      if closed s then (Some ErrInvalidToken, s)
      else
        let s1 = removeExpiredLocked now s
        in if tokens s1 key = None then (Some ErrInvalidToken, s1)
           else (None, s1\<lparr>tokens := (tokens s1)(key := None)\<rparr>))"

definition CloseService :: "Service \<Rightarrow> Service" where
  "CloseService s = s\<lparr>closed := True, tokens := Map.empty\<rparr>"

section \<open>Sequences of calls\<close>

text \<open>
  The locked sections of concurrent calls in the order the mutex grants them, each with the clock it
  reads. \<open>Mint\<close> is one round of a login whose password was accepted.
\<close>

datatype auth_call =
    Mint "8 word list option"
  | Check string bool
  | Drop string
  | Shut

datatype auth_reply =
    MintReply "(auth_error + string \<times> int) option"
  | CheckReply "auth_error + int"
  | DropReply "auth_error option"
  | ShutReply

fun auth_step :: "(string \<Rightarrow> digest) \<Rightarrow> Service \<Rightarrow> auth_call \<times> int \<Rightarrow> auth_reply \<times> Service" where
  "auth_step dg s (Mint rnd, now) = (case login_attempt dg now rnd s of (r, s') \<Rightarrow> (MintReply r, s'))"
| "auth_step dg s (Check token renew, now) =
     (case Authenticate dg now token renew s of (r, s') \<Rightarrow> (CheckReply r, s'))"
| "auth_step dg s (Drop token, now) = (case Revoke dg now token s of (r, s') \<Rightarrow> (DropReply r, s'))"
| "auth_step dg s (Shut, now) = (ShutReply, CloseService s)"

fun auth_run :: "(string \<Rightarrow> digest) \<Rightarrow> Service \<Rightarrow> (auth_call \<times> int) list \<Rightarrow> auth_reply list \<times> Service" where
  "auth_run dg s [] = ([], s)"
| "auth_run dg s (c # cs) =
     (let (r, s1) = auth_step dg s c; (rs, s2) = auth_run dg s1 cs in (r # rs, s2))"

text \<open>
  The specification: a map from digests to expiries that forgets a token only when it is revoked or
  the service is closed; a token is live at a time before its expiry.
\<close>

record auth_spec =
  specTTL :: int
  expiry :: "digest \<rightharpoonup> int"
  shut :: bool

definition live :: "auth_spec \<Rightarrow> digest \<Rightarrow> int \<Rightarrow> bool" where
  "live a k t = (\<not> shut a \<and> (case expiry a k of None \<Rightarrow> False | Some e \<Rightarrow> t < e))"

fun spec_step :: "(string \<Rightarrow> digest) \<Rightarrow> auth_spec \<Rightarrow> auth_call \<times> int \<Rightarrow> auth_reply \<times> auth_spec" where
  "spec_step dg a (Mint None, now) = (MintReply (Some (Inl RandomFailed)), a)"
| "spec_step dg a (Mint (Some raw), now) =
     (if shut a then (MintReply (Some (Inl errClosed)), a)
      else if live a (dg (RawURLEncoding raw)) now then (MintReply None, a)
      else (MintReply (Some (Inr (RawURLEncoding raw, now + specTTL a))),
            a\<lparr>expiry := (expiry a)(dg (RawURLEncoding raw) \<mapsto> now + specTTL a)\<rparr>))"
| "spec_step dg a (Check token renew, now) =
     (if \<not> live a (dg token) now then (CheckReply (Inl ErrInvalidToken), a)
      else if renew
      then (CheckReply (Inr (now + specTTL a)), a\<lparr>expiry := (expiry a)(dg token \<mapsto> now + specTTL a)\<rparr>)
      else (CheckReply (Inr (the (expiry a (dg token)))), a))"
| "spec_step dg a (Drop token, now) =
     (if live a (dg token) now then (DropReply None, a\<lparr>expiry := (expiry a)(dg token := None)\<rparr>)
      else (DropReply (Some ErrInvalidToken), a))"
| "spec_step dg a (Shut, now) = (ShutReply, a\<lparr>shut := True\<rparr>)"

fun spec_run :: "(string \<Rightarrow> digest) \<Rightarrow> auth_spec \<Rightarrow> (auth_call \<times> int) list \<Rightarrow> auth_reply list \<times> auth_spec" where
  "spec_run dg a [] = ([], a)"
| "spec_run dg a (c # cs) =
     (let (r, a1) = spec_step dg a c; (rs, a2) = spec_run dg a1 cs in (r # rs, a2))"

definition spec_init :: "int \<Rightarrow> auth_spec" where
  "spec_init ttl = \<lparr>specTTL = ttl, expiry = Map.empty, shut = False\<rparr>"

section \<open>The clean-up is not observable\<close>

text \<open>
  At time \<open>t\<close> the service and the specification agree on every entry that has not expired, and the
  service keeps nothing the specification does not have.
\<close>

definition auth_sim :: "int \<Rightarrow> Service \<Rightarrow> auth_spec \<Rightarrow> bool" where
  "auth_sim t s a \<longleftrightarrow>
     tokenTTL s = specTTL a \<and> closed s = shut a
     \<and> (\<not> shut a \<longrightarrow> (\<forall>k. map_option expiresAt (tokens s k) = expiry a k
              \<or> tokens s k = None \<and> (case expiry a k of None \<Rightarrow> True | Some e \<Rightarrow> e \<le> t)))"

lemma tokens_removeExpired:
  "tokens (removeExpiredLocked now s) k =
     (case tokens s k of None \<Rightarrow> None | Some e \<Rightarrow> if now < expiresAt e then Some e else None)"
  by (simp add: removeExpiredLocked_def split: option.splits)

lemma removeExpired_frame [simp]:
  "tokenTTL (removeExpiredLocked now s) = tokenTTL s"
  "closed (removeExpiredLocked now s) = closed s"
  by (simp_all add: removeExpiredLocked_def)

lemma auth_sim_lookup:
  assumes "auth_sim t s a" "t \<le> now" "\<not> shut a"
  shows "map_option expiresAt (tokens (removeExpiredLocked now s) k) =
           (if live a k now then expiry a k else None)"
proof -
  have "map_option expiresAt (tokens s k) = expiry a k
        \<or> tokens s k = None \<and> (case expiry a k of None \<Rightarrow> True | Some e \<Rightarrow> e \<le> t)"
    using assms by (simp add: auth_sim_def)
  then show ?thesis
    using assms(2,3)
    by (cases "tokens s k"; cases "expiry a k") (auto simp: live_def tokens_removeExpired)
qed

lemma auth_sim_remove:
  assumes "auth_sim t s a" "t \<le> now"
  shows "auth_sim now (removeExpiredLocked now s) a"
proof (cases "shut a")
  case True
  then show ?thesis using assms by (simp add: auth_sim_def)
next
  case False
  have "map_option expiresAt (tokens (removeExpiredLocked now s) k) = expiry a k
        \<or> tokens (removeExpiredLocked now s) k = None \<and> (case expiry a k of None \<Rightarrow> True | Some e \<Rightarrow> e \<le> now)" for k
    using auth_sim_lookup [OF assms False, of k] False
    by (auto simp: live_def split: if_splits option.splits)
  then show ?thesis using assms False by (simp add: auth_sim_def)
qed

lemma auth_sim_put:
  assumes "auth_sim t s a"
  shows "auth_sim t (s\<lparr>tokens := (tokens s)(k \<mapsto> \<lparr>expiresAt = e\<rparr>)\<rparr>) (a\<lparr>expiry := (expiry a)(k \<mapsto> e)\<rparr>)"
  using assms by (auto simp: auth_sim_def)

lemma auth_sim_drop:
  assumes "auth_sim t s a"
  shows "auth_sim t (s\<lparr>tokens := (tokens s)(k := None)\<rparr>) (a\<lparr>expiry := (expiry a)(k := None)\<rparr>)"
  using assms by (auto simp: auth_sim_def)

lemma auth_sim_lookup_none:
  assumes "auth_sim t s a" "t \<le> now" "\<not> shut a"
  shows "tokens (removeExpiredLocked now s) k = None \<longleftrightarrow> \<not> live a k now"
  using auth_sim_lookup [OF assms, of k] by (auto simp: live_def split: if_splits option.splits)

lemma tokenEntry_update [simp]: "(e :: tokenEntry)\<lparr>expiresAt := x\<rparr> = \<lparr>expiresAt = x\<rparr>"
  by simp

lemma auth_sim_mint:
  assumes "auth_sim t s a" "t \<le> now"
  shows "fst (auth_step dg s (Mint rnd, now)) = fst (spec_step dg a (Mint rnd, now))
         \<and> auth_sim now (snd (auth_step dg s (Mint rnd, now))) (snd (spec_step dg a (Mint rnd, now)))"
proof (cases rnd)
  case None
  then show ?thesis using assms
    by (force simp: login_attempt_def auth_sim_def split: option.splits)
next
  case (Some raw)
  have c: "closed s = shut a" "tokenTTL s = specTTL a" using assms by (auto simp: auth_sim_def)
  show ?thesis
  proof (cases "shut a")
    case True
    then show ?thesis using assms Some c by (simp add: login_attempt_def auth_sim_def)
  next
    case False
    note sim = auth_sim_remove [OF assms]
    show ?thesis
      using False Some c sim auth_sim_lookup_none [OF assms False, of "dg (RawURLEncoding raw)"]
        auth_sim_put [OF sim, of "dg (RawURLEncoding raw)" "now + specTTL a"]
      by (auto simp: login_attempt_def Let_def)
  qed
qed

lemma auth_sim_check:
  assumes "auth_sim t s a" "t \<le> now"
  shows "fst (auth_step dg s (Check token renew, now)) = fst (spec_step dg a (Check token renew, now))
         \<and> auth_sim now (snd (auth_step dg s (Check token renew, now))) (snd (spec_step dg a (Check token renew, now)))"
proof (cases "shut a")
  case True
  then show ?thesis using assms by (auto simp: Authenticate_def auth_sim_def live_def)
next
  case False
  have c: "closed s = shut a" "tokenTTL s = specTTL a" using assms by (auto simp: auth_sim_def)
  note sim = auth_sim_remove [OF assms]
  note look = auth_sim_lookup [OF assms False, of "dg token"]
  show ?thesis
  proof (cases "tokens (removeExpiredLocked now s) (dg token)")
    case None
    moreover have "(removeExpiredLocked now s)\<lparr>tokens := (tokens (removeExpiredLocked now s))(dg token := None)\<rparr>
                   = removeExpiredLocked now s"
      using None by (simp add: fun_upd_idem)
    ultimately show ?thesis
      using False c sim auth_sim_lookup_none [OF assms False, of "dg token"]
      by (simp add: Authenticate_def Let_def)
  next
    case (Some e)
    then have l: "live a (dg token) now" and x: "expiry a (dg token) = Some (expiresAt e)"
      using look by (auto split: if_splits)
    have "now < expiresAt e" using l x by (simp add: live_def)
    then show ?thesis
      using False Some c sim l x auth_sim_put [OF sim, of "dg token" "now + specTTL a"]
      by (simp add: Authenticate_def Let_def)
  qed
qed

lemma auth_sim_revoke:
  assumes "auth_sim t s a" "t \<le> now"
  shows "fst (auth_step dg s (Drop token, now)) = fst (spec_step dg a (Drop token, now))
         \<and> auth_sim now (snd (auth_step dg s (Drop token, now))) (snd (spec_step dg a (Drop token, now)))"
proof (cases "shut a")
  case True
  then show ?thesis using assms by (auto simp: Revoke_def auth_sim_def live_def)
next
  case False
  have c: "closed s = shut a" "tokenTTL s = specTTL a" using assms by (auto simp: auth_sim_def)
  note sim = auth_sim_remove [OF assms]
  show ?thesis
    using False c sim auth_sim_lookup_none [OF assms False, of "dg token"] auth_sim_drop [OF sim, of "dg token"]
    by (auto simp: Revoke_def Let_def)
qed

lemma auth_sim_step:
  assumes "auth_sim t s a" "t \<le> snd c"
  shows "fst (auth_step dg s c) = fst (spec_step dg a c)
         \<and> auth_sim (snd c) (snd (auth_step dg s c)) (snd (spec_step dg a c))"
proof -
  obtain call now where c: "c = (call, now)" by (cases c)
  with assms have t: "t \<le> now" by simp
  show ?thesis
  proof (cases call)
    case (Mint r)
    then show ?thesis using auth_sim_mint [OF assms(1) t] c by simp
  next
    case (Check tok rn)
    then show ?thesis using auth_sim_check [OF assms(1) t] c by simp
  next
    case (Drop tok)
    then show ?thesis using auth_sim_revoke [OF assms(1) t] c by simp
  next
    case Shut
    then show ?thesis using assms c by (simp add: auth_sim_def CloseService_def)
  qed
qed

fun clock_ok :: "int \<Rightarrow> (auth_call \<times> int) list \<Rightarrow> bool" where
  "clock_ok t [] = True"
| "clock_ok t (c # cs) = (t \<le> snd c \<and> clock_ok (snd c) cs)"

fun clock_end :: "int \<Rightarrow> (auth_call \<times> int) list \<Rightarrow> int" where
  "clock_end t [] = t"
| "clock_end t (c # cs) = clock_end (snd c) cs"

lemma auth_sim_run:
  "auth_sim t s a \<Longrightarrow> clock_ok t cs \<Longrightarrow>
     fst (auth_run dg s cs) = fst (spec_run dg a cs)
     \<and> auth_sim (clock_end t cs) (snd (auth_run dg s cs)) (snd (spec_run dg a cs))"
proof (induction cs arbitrary: t s a)
  case Nil
  then show ?case by simp
next
  case (Cons c cs)
  have st: "fst (auth_step dg s c) = fst (spec_step dg a c)"
    "auth_sim (snd c) (snd (auth_step dg s c)) (snd (spec_step dg a c))"
    using auth_sim_step [of t s a c dg] Cons.prems by auto
  show ?case using Cons.IH [OF st(2)] Cons.prems st(1)
    by (simp add: Let_def split_beta)
qed

lemma auth_sim_new:
  "NewService cost cfg hash = Inr s \<Longrightarrow> auth_sim t s (spec_init (TokenTTL cfg))"
  by (auto simp: NewService_def auth_sim_def spec_init_def split: if_splits option.splits)

section \<open>Life of a token\<close>

text \<open>
  The expiry of the token with digest \<open>k\<close> after a sequence of calls that neither revoke nor close:
  every renewing check before the expiry moves it to one lifetime after that check.
\<close>

fun window :: "(string \<Rightarrow> digest) \<Rightarrow> digest \<Rightarrow> int \<Rightarrow> int \<Rightarrow> (auth_call \<times> int) list \<Rightarrow> int" where
  "window dg k ttl e [] = e"
| "window dg k ttl e ((Check token renew, now) # cs) =
     window dg k ttl (if dg token = k \<and> renew \<and> now < e then now + ttl else e) cs"
| "window dg k ttl e ((Mint rnd, now) # cs) = window dg k ttl e cs"
| "window dg k ttl e ((Drop token, now) # cs) = window dg k ttl e cs"
| "window dg k ttl e ((Shut, now) # cs) = window dg k ttl e cs"

fun mints :: "(string \<Rightarrow> digest) \<Rightarrow> digest \<Rightarrow> auth_call \<Rightarrow> bool" where
  "mints dg k (Mint (Some raw)) = (dg (RawURLEncoding raw) = k)"
| "mints dg k c = False"

fun kills :: "(string \<Rightarrow> digest) \<Rightarrow> digest \<Rightarrow> auth_call \<Rightarrow> bool" where
  "kills dg k (Drop token) = (dg token = k)"
| "kills dg k Shut = True"
| "kills dg k c = False"

lemma spec_step_shut: "shut a \<Longrightarrow> shut (snd (spec_step dg a c))"
  by (cases "(dg, a, c)" rule: spec_step.cases) (auto simp: live_def)

lemma spec_step_ttl [simp]: "specTTL (snd (spec_step dg a c)) = specTTL a"
  by (cases "(dg, a, c)" rule: spec_step.cases) auto

lemma spec_step_window:
  assumes "\<not> mints dg k (fst c)" "\<not> kills dg k (fst c)" "\<not> shut a" "expiry a k = Some e"
  shows "\<not> shut (snd (spec_step dg a c)) \<and> expiry (snd (spec_step dg a c)) k = Some (window dg k (specTTL a) e [c])"
  using assms by (cases "(dg, a, c)" rule: spec_step.cases) (auto simp: live_def)

lemma window_Cons: "window dg k ttl e (c # cs) = window dg k ttl (window dg k ttl e [c]) cs"
  by (cases c; cases "fst c") auto

lemma spec_run_window:
  "list_all (\<lambda>c. \<not> mints dg k (fst c) \<and> \<not> kills dg k (fst c)) cs \<Longrightarrow> \<not> shut a \<Longrightarrow> expiry a k = Some e \<Longrightarrow>
     \<not> shut (snd (spec_run dg a cs)) \<and> expiry (snd (spec_run dg a cs)) k = Some (window dg k (specTTL a) e cs)"
proof (induction cs arbitrary: a e)
  case Nil
  then show ?case by simp
next
  case (Cons c cs)
  have "\<not> shut (snd (spec_step dg a c))"
    "expiry (snd (spec_step dg a c)) k = Some (window dg k (specTTL a) e [c])"
    using spec_step_window [of dg k c a e] Cons.prems by auto
  then show ?case using Cons.IH [of "snd (spec_step dg a c)"] Cons.prems
    by (simp add: Let_def split_beta window_Cons [of dg k _ e c cs])
qed

text \<open>A token that is not live stays so until its digest is minted again.\<close>

lemma spec_step_dead:
  assumes "\<not> live a k t" "t \<le> snd c" "\<not> mints dg k (fst c)"
  shows "\<not> live (snd (spec_step dg a c)) k (snd c)"
  using assms by (cases "(dg, a, c)" rule: spec_step.cases) (auto simp: live_def split: option.splits)

lemma spec_run_dead:
  "\<not> live a k t \<Longrightarrow> clock_ok t cs \<Longrightarrow> list_all (\<lambda>c. \<not> mints dg k (fst c)) cs \<Longrightarrow>
     \<not> live (snd (spec_run dg a cs)) k (clock_end t cs)"
proof (induction cs arbitrary: a t)
  case Nil
  then show ?case by simp
next
  case (Cons c cs)
  then show ?case using spec_step_dead [of a k t c dg]
    by (simp add: Let_def split_beta)
qed

lemma live_antimono: "live a k t' \<Longrightarrow> t \<le> t' \<Longrightarrow> live a k t"
  by (auto simp: live_def split: option.splits)

lemma Authenticate_live:
  assumes "auth_sim t s a" "t \<le> now"
  shows "fst (Authenticate dg now token renew s) =
           (if live a (dg token) now
            then Inr (if renew then now + specTTL a else the (expiry a (dg token))) else Inl ErrInvalidToken)"
  using auth_sim_check [OF assms, of dg token renew]
  by (cases "live a (dg token) now"; cases renew) (simp_all add: split_beta)

lemma clock_ok_append: "clock_ok t (xs @ ys) \<longleftrightarrow> clock_ok t xs \<and> clock_ok (clock_end t xs) ys"
  by (induction xs arbitrary: t) auto

lemma clock_end_append: "clock_end t (xs @ ys) = clock_end (clock_end t xs) ys"
  by (induction xs arbitrary: t) auto

lemma auth_run_append: "snd (auth_run dg s (xs @ ys)) = snd (auth_run dg (snd (auth_run dg s xs)) ys)"
  by (induction xs arbitrary: s) (simp_all add: Let_def split_beta)

lemma auth_step_hash: "passwordHash (snd (auth_step dg s c)) = passwordHash s"
proof -
  have r: "passwordHash (removeExpiredLocked n s) = passwordHash s" for n by (simp add: removeExpiredLocked_def)
  show ?thesis
    by (cases "(dg, s, c)" rule: auth_step.cases)
      (auto simp: login_attempt_def Authenticate_def Revoke_def CloseService_def Let_def r split: option.splits)
qed

lemma auth_run_hash: "passwordHash (snd (auth_run dg s cs)) = passwordHash s"
  by (induction cs arbitrary: s) (simp_all add: Let_def split_beta auth_step_hash)

lemma spec_run_ttl [simp]: "specTTL (snd (spec_run dg a cs)) = specTTL a"
  by (induction cs arbitrary: a) (simp_all add: Let_def split_beta)

lemma login_loop_collisions:
  assumes "auth_sim t s a" "\<not> shut a"
    "clock_ok t (map (\<lambda>(r, n). (Mint r, n)) (pre @ [(Some raw, now)]))"
    "list_all (\<lambda>(r, n). \<exists>x. r = Some x \<and> live a (dg (RawURLEncoding x)) n) pre"
    "\<not> live a (dg (RawURLEncoding raw)) now"
  shows "\<exists>s'. login_loop dg (pre @ (Some raw, now) # post) s = Some (Inr (RawURLEncoding raw, now + specTTL a), s')
              \<and> auth_sim now s' (a\<lparr>expiry := (expiry a)(dg (RawURLEncoding raw) \<mapsto> now + specTTL a)\<rparr>)"
  using assms
proof (induction pre arbitrary: t s)
  case Nil
  obtain r s1 where at: "login_attempt dg now (Some raw) s = (r, s1)" by (cases "login_attempt dg now (Some raw) s")
  have "r = Some (Inr (RawURLEncoding raw, now + specTTL a))"
    "auth_sim now s1 (a\<lparr>expiry := (expiry a)(dg (RawURLEncoding raw) \<mapsto> now + specTTL a)\<rparr>)"
    using auth_sim_mint [of t s a now dg "Some raw"] Nil at by simp_all
  then show ?case by (simp add: at del: fun_upd_apply)
next
  case (Cons c pre)
  obtain x n where c: "c = (Some x, n)" and l: "live a (dg (RawURLEncoding x)) n"
    using Cons.prems(4) by (cases c) auto
  obtain r s1 where at: "login_attempt dg n (Some x) s = (r, s1)" by (cases "login_attempt dg n (Some x) s")
  have "r = None" "auth_sim n s1 a"
    using auth_sim_mint [of t s a n dg "Some x"] Cons.prems(1,2,3) c l at by auto
  then show ?case using Cons.IH [of n s1] Cons.prems c at by simp
qed

section \<open>Properties\<close>

text \<open>
  C8: For a service that \<open>New\<close> accepts, and for every interleaving of logins, checks,
  revocations and a shutdown at times that do not run backwards, every call is answered as the
  specification answers it: dropping expired entries on the way is not observable. The configured
  lifetime is positive and at most 24 hours.
\<close>

theorem auth_refines_spec:
  assumes "NewService cost cfg hash = Inr s" "clock_ok t cs"
  shows "fst (auth_run dg s cs) = fst (spec_run dg (spec_init (TokenTTL cfg)) cs)
         \<and> 0 < TokenTTL cfg \<and> TokenTTL cfg \<le> hours24"
  using auth_sim_run [OF auth_sim_new [OF assms(1)] assms(2)] assms(1)
  by (auto simp: NewService_def split: if_splits option.splits)

theorem auth_refines_spec_witness:
  "fst (auth_run id \<lparr>passwordHash = ''h'', tokenTTL = 5, tokens = Map.empty, closed = False\<rparr>
          [(Mint (Some [1, 2, 3]), 10), (Check (RawURLEncoding [1, 2, 3]) True, 14), (Mint (Some [1, 2, 3]), 18),
           (Check (RawURLEncoding [1, 2, 3]) False, 19)])
     = [MintReply (Some (Inr (RawURLEncoding [1, 2, 3], 15))), CheckReply (Inr 19), MintReply None,
        CheckReply (Inl ErrInvalidToken)]"
  using auth_refines_spec [of "\<lambda>_. Some 12" "\<lparr>Enabled = True, TokenTTL = 5\<rparr>" "''h''"
      "\<lparr>passwordHash = ''h'', tokenTTL = 5, tokens = Map.empty, closed = False\<rparr>" 0
      "[(Mint (Some [1, 2, 3]), 10), (Check (RawURLEncoding [1, 2, 3]) True, 14), (Mint (Some [1, 2, 3]), 18),
        (Check (RawURLEncoding [1, 2, 3]) False, 19)]" id]
  by (simp add: NewService_def hours24_def minimumPasswordCost_def spec_init_def live_def)

text \<open>
  auth_sliding_window: Let \<open>Login\<close> hand out a token after any history. Then, whatever other calls follow
  that neither revoke the token, nor close the service, nor mint its digest again, a check at a later
  time accepts the token exactly while the clock is before its window: one lifetime after the login or
  after the last renewing check that came in time.
\<close>

theorem auth_sliding_window:
  assumes "NewService cost cfg hash = Inr s0" "clock_ok t0 (cs0 @ (Mint (Some raw), t1) # cs)" "clock_end t0 (cs0 @ (Mint (Some raw), t1) # cs) \<le> now"
    "auth_run dg s0 cs0 = (rs, s1)" "login_attempt dg t1 (Some raw) s1 = (Some (Inr (token, e)), s2)"
    "list_all (\<lambda>c. \<not> mints dg (dg token) (fst c) \<and> \<not> kills dg (dg token) (fst c)) cs"
  shows "(\<exists>x. fst (Authenticate dg now token renew (snd (auth_run dg s2 cs))) = Inr x)
           \<longleftrightarrow> now < window dg (dg token) (TokenTTL cfg) (t1 + TokenTTL cfg) cs"
proof -
  let ?a = "snd (spec_run dg (spec_init (TokenTTL cfg)) cs0)"
  let ?a2 = "snd (spec_step dg ?a (Mint (Some raw), t1))"
  have ck: "clock_ok t0 cs0" "clock_end t0 cs0 \<le> t1" "clock_ok t1 cs" "clock_end t1 cs \<le> now"
    using assms(2,3) by (simp_all add: clock_ok_append clock_end_append)
  have s1: "auth_sim (clock_end t0 cs0) s1 ?a"
    using auth_sim_run [OF auth_sim_new [OF assms(1)] ck(1), of dg] assms(4) by simp
  have st: "fst (spec_step dg ?a (Mint (Some raw), t1)) = MintReply (Some (Inr (token, e)))" "auth_sim t1 s2 ?a2"
    using auth_sim_mint [OF s1 ck(2), of dg "Some raw"] assms(5) by auto
  have ttl: "specTTL ?a2 = TokenTTL cfg" by (simp add: spec_init_def)
  have "\<not> shut ?a2" "expiry ?a2 (dg token) = Some (t1 + TokenTTL cfg)"
    using st(1) ttl by (auto split: if_splits)
  note w = spec_run_window [OF assms(6) this, unfolded ttl]
  have "auth_sim (clock_end t1 cs) (snd (auth_run dg s2 cs)) (snd (spec_run dg ?a2 cs))"
    using auth_sim_run [OF st(2) ck(3), of dg] by simp
  note Authenticate_live [OF this ck(4), of dg token renew]
  then show ?thesis using w by (simp add: live_def)
qed

theorem auth_sliding_window_witness:
  "(\<exists>x. fst (Authenticate id 18 (RawURLEncoding [1, 2, 3]) False
      (snd (auth_run id (snd (login_attempt id 10 (Some [1, 2, 3]) \<lparr>passwordHash = ''h'', tokenTTL = 5, tokens = Map.empty, closed = False\<rparr>))
        [(Check (RawURLEncoding [1, 2, 3]) True, 14), (Mint (Some [4, 5, 6]), 17)]))) = Inr x)
   \<longleftrightarrow> 18 < window id (id (RawURLEncoding [1, 2, 3])) (TokenTTL \<lparr>Enabled = True, TokenTTL = 5\<rparr>)
           (10 + TokenTTL \<lparr>Enabled = True, TokenTTL = 5\<rparr>)
           [(Check (RawURLEncoding [1, 2, 3]) True, 14), (Mint (Some [4, 5, 6]), 17)]"
  by (rule auth_sliding_window [of "\<lambda>_. Some 12" _ "''h''"
      "\<lparr>passwordHash = ''h'', tokenTTL = 5, tokens = Map.empty, closed = False\<rparr>" 0 "[]" "[1, 2, 3]" _ _ _ _ "[]"
      "\<lparr>passwordHash = ''h'', tokenTTL = 5, tokens = Map.empty, closed = False\<rparr>" _ 15])
    (simp_all add: NewService_def hours24_def minimumPasswordCost_def url_char_def url_alphabet_def
      login_attempt_def tokens_removeExpired Let_def)

text \<open>
  auth_no_resurrection: After any history, once a token is revoked, or the service is closed, or a check
  refuses the token, every later check refuses it, whatever calls come in between, until a login
  mints its digest again.
\<close>

theorem auth_no_resurrection:
  assumes "NewService cost cfg hash = Inr s0" "clock_ok t0 (cs0 @ c # cs)" "clock_end t0 (cs0 @ c # cs) \<le> now"
    "fst c = Drop token \<or> fst c = Shut
     \<or> fst c = Check token b \<and> fst (auth_step dg (snd (auth_run dg s0 cs0)) c) = CheckReply (Inl ErrInvalidToken)"
    "list_all (\<lambda>c. \<not> mints dg (dg token) (fst c)) cs"
  shows "fst (Authenticate dg now token renew (snd (auth_run dg s0 (cs0 @ c # cs)))) = Inl ErrInvalidToken"
proof -
  let ?a = "snd (spec_run dg (spec_init (TokenTTL cfg)) cs0)"
  let ?a1 = "snd (spec_step dg ?a c)"
  let ?s1 = "snd (auth_step dg (snd (auth_run dg s0 cs0)) c)"
  have ck: "clock_ok t0 cs0" "clock_end t0 cs0 \<le> snd c" "clock_ok (snd c) cs" "clock_end (snd c) cs \<le> now"
    using assms(2,3) by (simp_all add: clock_ok_append clock_end_append)
  have "auth_sim (clock_end t0 cs0) (snd (auth_run dg s0 cs0)) ?a"
    using auth_sim_run [OF auth_sim_new [OF assms(1)] ck(1), of dg] by simp
  note st = auth_sim_step [OF this ck(2), of dg]
  have "\<not> live ?a1 (dg token) (snd c)"
    using assms(4) st by (cases c) (auto simp: live_def split: if_splits)
  note dead = spec_run_dead [OF this ck(3) assms(5)]
  have "auth_sim (clock_end (snd c) cs) (snd (auth_run dg ?s1 cs)) (snd (spec_run dg ?a1 cs))"
    using auth_sim_run [OF _ ck(3), of ?s1 ?a1 dg] st by simp
  note Authenticate_live [OF this ck(4), of dg token renew]
  then show ?thesis using dead live_antimono [OF _ ck(4)] by (auto simp: auth_run_append split_beta)
qed

theorem auth_no_resurrection_witness:
  "fst (Authenticate id 9 (RawURLEncoding [1, 2, 3]) True
     (snd (auth_run id \<lparr>passwordHash = ''h'', tokenTTL = 5, tokens = Map.empty, closed = False\<rparr>
       ([(Mint (Some [1, 2, 3]), 5)] @ (Drop (RawURLEncoding [1, 2, 3]), 6) # [(Mint (Some [4, 5, 6]), 8)])))) = Inl ErrInvalidToken"
  by (rule auth_no_resurrection [of "\<lambda>_. Some 12" "\<lparr>Enabled = True, TokenTTL = 5\<rparr>" "''h''" _ 0 _ _ _ _ _ True])
    (simp_all add: NewService_def hours24_def minimumPasswordCost_def url_char_def url_alphabet_def)

text \<open>
  auth_login_returns: A login with the right password on an open service returns as soon as the random
  source delivers a draw whose digest is not live: however many colliding draws come first, the loop
  ends with that draw's token, its expiry is one lifetime away, and the token is accepted at once.
\<close>

theorem auth_login_returns:
  assumes "NewService cost cfg hash = Inr s0" "clock_ok t0 cs0" "shut (snd (spec_run dg (spec_init (TokenTTL cfg)) cs0)) = False"
    "compareHash hash password"
    "clock_ok (clock_end t0 cs0) (map (\<lambda>(r, n). (Mint r, n)) (pre @ [(Some raw, now)]))"
    "list_all (\<lambda>(r, n). \<exists>x. r = Some x \<and> live (snd (spec_run dg (spec_init (TokenTTL cfg)) cs0)) (dg (RawURLEncoding x)) n) pre"
    "\<not> live (snd (spec_run dg (spec_init (TokenTTL cfg)) cs0)) (dg (RawURLEncoding raw)) now"
  shows "\<exists>s'. Login compareHash dg password (pre @ (Some raw, now) # post) (snd (auth_run dg s0 cs0))
                = Some (Inr (RawURLEncoding raw, now + TokenTTL cfg), s')
              \<and> fst (Authenticate dg now (RawURLEncoding raw) False s') = Inr (now + TokenTTL cfg)"
proof -
  let ?a = "snd (spec_run dg (spec_init (TokenTTL cfg)) cs0)"
  have sim: "auth_sim (clock_end t0 cs0) (snd (auth_run dg s0 cs0)) ?a"
    using auth_sim_run [OF auth_sim_new [OF assms(1)] assms(2), of dg] by simp
  have ttl: "specTTL ?a = TokenTTL cfg" by (simp add: spec_init_def)
  have pos: "0 < TokenTTL cfg" and h: "passwordHash s0 = hash"
    using assms(1) by (auto simp: NewService_def split: if_splits option.splits)
  obtain s' where s': "login_loop dg (pre @ (Some raw, now) # post) (snd (auth_run dg s0 cs0))
                        = Some (Inr (RawURLEncoding raw, now + specTTL ?a), s')"
    "auth_sim now s' (?a\<lparr>expiry := (expiry ?a)(dg (RawURLEncoding raw) \<mapsto> now + specTTL ?a)\<rparr>)"
    using login_loop_collisions [OF sim _ assms(5-7)] assms(3) by blast
  have "login_check compareHash password (snd (auth_run dg s0 cs0)) = None"
    using sim assms(3,4) by (simp add: login_check_def auth_sim_def auth_run_hash h)
  moreover have "fst (Authenticate dg now (RawURLEncoding raw) False s') = Inr (now + TokenTTL cfg)"
    using Authenticate_live [OF s'(2) order_refl, of dg "RawURLEncoding raw" False] assms(3) pos ttl
    by (simp add: live_def)
  ultimately show ?thesis using s'(1) ttl by (simp add: Login_def)
qed

theorem auth_login_returns_witness:
  "\<exists>s'. Login (=) id ''h'' ([(Some [1, 2, 3], 7)] @ (Some [4, 5, 6], 8) # [])
          (snd (auth_run id \<lparr>passwordHash = ''h'', tokenTTL = 5, tokens = Map.empty, closed = False\<rparr> [(Mint (Some [1, 2, 3]), 5)]))
        = Some (Inr (RawURLEncoding [4, 5, 6], 8 + 5), s')
        \<and> fst (Authenticate id 8 (RawURLEncoding [4, 5, 6]) False s') = Inr (8 + 5)"
  using auth_login_returns [of "\<lambda>_. Some 12" "\<lparr>Enabled = True, TokenTTL = 5\<rparr>" "''h''"
      "\<lparr>passwordHash = ''h'', tokenTTL = 5, tokens = Map.empty, closed = False\<rparr>" 0 "[(Mint (Some [1, 2, 3]), 5)]"
      id "(=)" "''h''" "[(Some [1, 2, 3], 7)]" "[4, 5, 6]" 8 "[]"]
  by (simp add: NewService_def hours24_def minimumPasswordCost_def url_char_def url_alphabet_def
      spec_init_def live_def)

end
