(* ===== verification/Quantities.thy ===== *)
theory Quantities
  imports Encodings
begin

text \<open>
  Byte quantities of the configuration (\<open>internal/config/quantities.go\<close>): the text of a quantity is a
  decimal integer followed by an SI or IEC unit. Values are \<open>int64\<close>, held as \<open>int\<close> with the bounds
  of the type written out; strings are lists of bytes.
\<close>

section \<open>Units\<close>

datatype quantity_error = errByteQuantityRequired | errByteQuantityFormat | errByteQuantityUnit | errByteQuantityOverflow

definition byteQuantityMultipliers :: "(string \<times> int) list" where
  "byteQuantityMultipliers =
     [(''B'', 1), (''KB'', 1000), (''MB'', 1000 * 1000), (''GB'', 1000 * 1000 * 1000),
      (''TB'', 1000 * 1000 * 1000 * 1000), (''KiB'', 2 ^ 10), (''MiB'', 2 ^ 20), (''GiB'', 2 ^ 30), (''TiB'', 2 ^ 40)]"

definition byteQuantityUnitsDescending :: "(string \<times> int) list" where
  "byteQuantityUnitsDescending =
     [(''TiB'', 2 ^ 40), (''TB'', 1000 * 1000 * 1000 * 1000), (''GiB'', 2 ^ 30), (''GB'', 1000 * 1000 * 1000),
      (''MiB'', 2 ^ 20), (''MB'', 1000 * 1000), (''KiB'', 2 ^ 10), (''KB'', 1000)]"

section \<open>Parsing and printing\<close>

definition is_digit :: "char \<Rightarrow> bool" where
  "is_digit c \<longleftrightarrow> 48 \<le> (of_char c :: nat) \<and> of_char c \<le> (57 :: nat)"

definition is_letter :: "char \<Rightarrow> bool" where
  "is_letter c \<longleftrightarrow> \<not> ((of_char c < (65 :: nat) \<or> of_char c > (90 :: nat)) \<and> (of_char c < (97 :: nat) \<or> of_char c > (122 :: nat)))"

definition isASCIILetters :: "string \<Rightarrow> bool" where
  "isASCIILetters value \<longleftrightarrow> list_all is_letter value"

text \<open>\<open>strings.IndexFunc(s, unicode.IsSpace) >= 0\<close>.\<close>

definition has_space :: "string \<Rightarrow> bool" where
  "has_space s \<longleftrightarrow> list_ex (\<lambda>i. space_prefix (drop i s) \<noteq> None) [0..<length s]"

text \<open>\<open>strconv.ParseUint(s, 10, 64)\<close> on a sequence of digits: the value, or the range error.\<close>

definition ParseUint64 :: "string \<Rightarrow> int option" where
  "ParseUint64 s = (if int (undecimal s) < 2 ^ 64 then Some (int (undecimal s)) else None)"

definition ParseByteQuantity :: "string \<Rightarrow> quantity_error + int" where
  "ParseByteQuantity raw =
     (let value = TrimSpace raw
      in if value = [] then Inl errByteQuantityRequired
         else
           let digits = takeWhile is_digit value; suffix = dropWhile is_digit value
           in if digits = [] then Inl errByteQuantityFormat
              else if suffix = [] then Inl errByteQuantityUnit
              else if has_space suffix \<or> \<not> isASCIILetters suffix then Inl errByteQuantityFormat
              else case map_of byteQuantityMultipliers suffix of
                     None \<Rightarrow> Inl errByteQuantityUnit
                   | Some multiplier \<Rightarrow>
                       (case ParseUint64 digits of
                          None \<Rightarrow> Inl errByteQuantityOverflow
                        | Some amount \<Rightarrow>
                            if amount > max_int64 sdiv multiplier then Inl errByteQuantityOverflow
                            else Inr (wrap64 (wrap64 amount * multiplier))))"

text \<open>\<open>strconv.FormatInt(v, 10)\<close>.\<close>

definition FormatInt :: "int \<Rightarrow> string" where
  "FormatInt v = (if v < 0 then CHR ''-'' # decimal (nat (- v)) else decimal (nat v))"

definition formatByteQuantity :: "int \<Rightarrow> string" where
  "formatByteQuantity value =
     (case find (\<lambda>(_, m). value \<ge> m \<and> value smod m = 0) byteQuantityUnitsDescending of
        Some (u, m) \<Rightarrow> FormatInt (value sdiv m) @ u
      | None \<Rightarrow> FormatInt value @ ''B'')"

text \<open>The text methods of \<open>ByteQuantity\<close>: a value that does not parse leaves the receiver as it is.\<close>

definition UnmarshalText :: "string \<Rightarrow> int \<Rightarrow> quantity_error option \<times> int" where
  "UnmarshalText txt q = (case ParseByteQuantity txt of Inl e \<Rightarrow> (Some e, q) | Inr v \<Rightarrow> (None, v))"

definition String :: "int \<Rightarrow> string" where
  "String q = formatByteQuantity q"

section \<open>Lemmas\<close>

lemma space_chars: "p \<in> set spaces \<Longrightarrow> c \<in> set p \<Longrightarrow> \<not> is_digit c \<and> \<not> is_letter c"
  by (auto simp: spaces_def is_digit_def is_letter_def)

lemma space_prefix_head: "space_prefix s = Some p \<Longrightarrow> p \<in> set spaces \<and> p \<noteq> [] \<and> hd p \<in> set p \<and> set p \<subseteq> set s"
proof -
  assume p: "space_prefix s = Some p"
  then have "p \<in> set spaces" using find_mem by (fastforce simp: space_prefix_def)
  moreover have "p \<noteq> []" "s = p @ drop (length p) s" using space_prefix_Some [OF p] by auto
  moreover from this have "set p \<subseteq> set s" by (metis Un_upper1 set_append)
  ultimately show ?thesis by simp
qed

lemma space_suffix_head: "space_suffix s = Some p \<Longrightarrow> p \<in> set spaces \<and> p \<noteq> [] \<and> hd p \<in> set p \<and> set p \<subseteq> set s"
proof -
  assume p: "space_suffix s = Some p"
  then have "p \<in> set spaces" using find_mem by (fastforce simp: space_suffix_def)
  moreover have "p \<noteq> []" "s = take (length s - length p) s @ p" using space_suffix_Some [OF p] by auto
  moreover from this have "set p \<subseteq> set s" by (metis Un_upper2 set_append)
  ultimately show ?thesis by simp
qed

lemma letters_no_space: "list_all is_letter s \<Longrightarrow> \<not> has_space s"
  using space_prefix_head space_chars set_drop_subset unfolding has_space_def list_all_iff list_ex_iff
  by (metis not_Some_eq subsetD)

lemma unit_facts:
  assumes "map_of byteQuantityMultipliers u = Some m"
  shows "0 < m" and "u \<noteq> []" and "list_all is_letter u" and "\<not> has_space u" and "m \<le> 2 ^ 40"
proof -
  show l: "list_all is_letter u" using assms by (auto simp: byteQuantityMultipliers_def is_letter_def split: if_splits)
  show "0 < m" and "u \<noteq> []" and "m \<le> 2 ^ 40" using assms by (auto simp: byteQuantityMultipliers_def split: if_splits)
  show "\<not> has_space u" using l by (rule letters_no_space)
qed

lemma letter_not_digit: "is_letter c \<Longrightarrow> \<not> is_digit c"
  by (auto simp: is_letter_def is_digit_def)

lemma digits_then_unit:
  assumes "list_all is_digit ds" and "u \<noteq> []" and "list_all is_letter u"
  shows "takeWhile is_digit (ds @ u) = ds" and "dropWhile is_digit (ds @ u) = u"
proof -
  have h: "\<not> is_digit (hd u)" using assms letter_not_digit by (cases u) auto
  have "takeWhile is_digit u = []" "dropWhile is_digit u = u" using h assms(2) by (cases u; simp)+
  moreover have "\<And>x. x \<in> set ds \<Longrightarrow> is_digit x" using assms(1) by (simp add: list_all_iff)
  ultimately show "takeWhile is_digit (ds @ u) = ds" and "dropWhile is_digit (ds @ u) = u"
    by (simp_all add: takeWhile_append2 dropWhile_append2)
qed

lemma digits_of_decimal: "list_all is_digit (decimal n)" "decimal n \<noteq> []"
proof (induction n rule: decimal.induct)
  case (1 n)
  have d: "is_digit (digit_char k)" if "k < 10" for k using that by (simp add: digit_char_def is_digit_def)
  { case 1 show ?case using "1.IH"(1) d by (cases "n < 10") (simp_all add: decimal.simps [of n]) }
  { case 2 show ?case by (simp add: decimal.simps [of n]) }
qed


text \<open>White space around a number with a unit: neither end of such a text is a space.\<close>

lemma no_space_ends:
  assumes "\<And>c. c \<in> set s \<Longrightarrow> is_digit c \<or> is_letter c"
  shows "TrimSpace s = s"
proof (rule TrimSpace_id)
  show "space_prefix s = None" using space_prefix_head space_chars assms by (metis not_Some_eq subsetD)
  show "space_suffix s = None" using space_suffix_head space_chars assms by (metis not_Some_eq subsetD)
qed

lemma quantity_value:
  assumes "0 < m" and "m \<le> max_int64" and "0 \<le> a"
  shows "a > max_int64 sdiv m \<longleftrightarrow> a * m > max_int64"
proof -
  have "max_int64 sdiv m = max_int64 div m" using assms by simp
  moreover have "a \<le> max_int64 div m \<longleftrightarrow> a * m \<le> max_int64"
    using assms le_div_int [of m a max_int64] div_less_int [of m max_int64 a] by (meson not_le)
  ultimately show ?thesis by linarith
qed

text \<open>The parser on a text of the right shape.\<close>

lemma ParseByteQuantity_shape:
  assumes t: "TrimSpace raw = ds @ u" and ds: "ds \<noteq> []" "list_all is_digit ds" and u: "map_of byteQuantityMultipliers u = Some m"
  shows "ParseByteQuantity raw =
           (if int (undecimal ds) * m \<le> max_int64 then Inr (int (undecimal ds) * m) else Inl errByteQuantityOverflow)"
proof -
  note uf = unit_facts [OF u]
  let ?a = "int (undecimal ds)"
  have big: "\<not> ?a * m \<le> max_int64" if "\<not> ?a < 2 ^ 64"
  proof -
    have "?a \<le> ?a * m" using uf(1) by (simp add: mult_le_cancel_left1)
    moreover have "2 ^ 64 \<le> ?a" using that by linarith
    moreover have "max_int64 < 2 ^ 64" by simp
    ultimately show ?thesis by linarith
  qed
  have small: "?a \<le> max_int64" if "?a * m \<le> max_int64"
  proof -
    have "?a * 1 \<le> ?a * m" using uf(1) by (intro mult_left_mono) auto
    then show ?thesis using that by auto
  qed
  have eq: "wrap64 (wrap64 ?a * m) = ?a * m" if "?a * m \<le> max_int64"
  proof -
    have "wrap64 ?a = ?a" using small [OF that] by (intro wrap64_id is_int64_between) auto
    moreover have "wrap64 (?a * m) = ?a * m" using that uf(1) by (intro wrap64_id is_int64_between) auto
    ultimately show ?thesis by simp
  qed
  have "m \<le> max_int64" using uf(5) by auto
  then have cmp: "?a > max_int64 sdiv m \<longleftrightarrow> ?a * m > max_int64" using uf(1) quantity_value by simp
  have ne: "ds @ u \<noteq> []" using ds by simp
  show ?thesis
    using ds u uf ne big eq cmp
    by (simp add: ParseByteQuantity_def Let_def t digits_then_unit isASCIILetters_def ParseUint64_def not_le)
qed

section \<open>Properties\<close>

text \<open>
  C40: a text is accepted exactly when, without the white space around it, it is a nonempty
  sequence of decimal digits followed by one of the nine units and the product fits into \<open>int64\<close>; the
  value is that product, so no accepted quantity has wrapped around.
\<close>

theorem quantity_parse_exact:
  "ParseByteQuantity raw = Inr v \<longleftrightarrow>
     (\<exists>ds u m. TrimSpace raw = ds @ u \<and> ds \<noteq> [] \<and> list_all is_digit ds
        \<and> map_of byteQuantityMultipliers u = Some m \<and> v = int (undecimal ds) * m \<and> v \<le> max_int64)"
proof
  assume p: "ParseByteQuantity raw = Inr v"
  let ?t = "TrimSpace raw"
  let ?ds = "takeWhile is_digit ?t" and ?u = "dropWhile is_digit ?t"
  from p have ds: "?ds \<noteq> []" by (auto simp: ParseByteQuantity_def Let_def split: if_splits)
  from p obtain m where u: "map_of byteQuantityMultipliers ?u = Some m"
    by (auto simp: ParseByteQuantity_def Let_def split: if_splits option.splits)
  have d: "list_all is_digit ?ds" by (auto simp: list_all_iff dest: set_takeWhileD)
  have t: "?t = ?ds @ ?u" by simp
  from p ParseByteQuantity_shape [OF t ds d u] t ds d u
  show "\<exists>ds u m. ?t = ds @ u \<and> ds \<noteq> [] \<and> list_all is_digit ds
        \<and> map_of byteQuantityMultipliers u = Some m \<and> v = int (undecimal ds) * m \<and> v \<le> max_int64"
    by (metis Inl_Inr_False sum.inject(2))
next
  assume "\<exists>ds u m. TrimSpace raw = ds @ u \<and> ds \<noteq> [] \<and> list_all is_digit ds
        \<and> map_of byteQuantityMultipliers u = Some m \<and> v = int (undecimal ds) * m \<and> v \<le> max_int64"
  then show "ParseByteQuantity raw = Inr v" using ParseByteQuantity_shape by force
qed

lemma formatByteQuantity_cases:
  obtains u m where "formatByteQuantity v = FormatInt (v sdiv m) @ u" and "map_of byteQuantityMultipliers u = Some m"
    and "v smod m = 0" and "0 < m"
proof (cases "find (\<lambda>(_, m). v \<ge> m \<and> v smod m = 0) byteQuantityUnitsDescending")
  case None
  have "formatByteQuantity v = FormatInt (v sdiv 1) @ ''B''" using None by (simp add: formatByteQuantity_def)
  moreover have "v smod 1 = 0" by (simp add: signed_modulo_int_def)
  ultimately show ?thesis using that [of 1 "''B''"] by (simp add: byteQuantityMultipliers_def)
next
  case (Some p)
  obtain u m where p: "p = (u, m)" by force
  have in1: "(u, m) \<in> set byteQuantityUnitsDescending" and z: "v smod m = 0" using find_mem [OF Some] p by auto
  have "map_of byteQuantityMultipliers u = Some m" "0 < m"
    using in1 by (auto simp: byteQuantityUnitsDescending_def byteQuantityMultipliers_def)
  then show ?thesis using that Some p z by (simp add: formatByteQuantity_def)
qed

text \<open>
  quantity_roundtrip: every nonnegative \<open>int64\<close> is printed as a quantity that parses back to it, whatever
  unit the printer chose.
\<close>

theorem quantity_roundtrip:
  assumes "0 \<le> v" and "v \<le> max_int64"
  shows "ParseByteQuantity (formatByteQuantity v) = Inr v"
proof -
  obtain u m where f: "formatByteQuantity v = FormatInt (v sdiv m) @ u" and u: "map_of byteQuantityMultipliers u = Some m"
    and z: "v smod m = 0" and m: "0 < m" by (rule formatByteQuantity_cases)
  note uf = unit_facts [OF u]
  have q: "v sdiv m = v div m" "0 \<le> v div m" using assms m by (simp_all add: pos_imp_zdiv_nonneg_iff)
  have "v mod m = 0" using z assms m by (auto simp: signed_modulo_int_def sgn_if split: if_splits)
  then have v: "v div m * m = v" by auto
  let ?ds = "decimal (nat (v div m))"
  have f': "formatByteQuantity v = ?ds @ u" using f q by (simp add: FormatInt_def)
  have t: "TrimSpace (formatByteQuantity v) = ?ds @ u"
    unfolding f' using digits_of_decimal [of "nat (v div m)"] uf by (intro no_space_ends) (auto simp: list_all_iff)
  show ?thesis using ParseByteQuantity_shape [OF t _ _ u] digits_of_decimal [of "nat (v div m)"] q v assms by simp
qed

theorem quantity_roundtrip_witness: "ParseByteQuantity (formatByteQuantity 2147483648) = Inr 2147483648"
  by (rule quantity_roundtrip) simp_all

end
