(* ===== verification/SmbNames.thy ===== *)
theory SmbNames
  imports Encodings "HOL-Library.List_Lexorder" "HOL-Library.Product_Lexorder" "HOL-Library.Multiset"
begin

text \<open>
  The names of the SMB share (\<open>internal/smb/names.go\<close>): portable names, their disambiguation, the parts
  of a path sent by a client, and DOS wildcards.

  A name is valid UTF-8, so it is its list of runes (numbers); the byte operations the code uses on
  names cut only at ASCII characters or at rune boundaries. The Unicode tables are parameters: \<open>orbit r\<close> lists the runes
  that \<open>unicode.SimpleFold\<close> runs through from \<open>r\<close> until it is back at \<open>r\<close>, \<open>upper\<close> and \<open>lower\<close> change the
  case of a name.
\<close>

section \<open>Model\<close>

type_synonym rune = nat
type_synonym name = "rune list"

definition str :: "string \<Rightarrow> name" where
  "str s = map of_char s"

subsection \<open>Paths\<close>

datatype path_error = ErrInvalid

fun path_loop :: "name list \<Rightarrow> path_error + name list" where
  "path_loop [] = Inr []"
| "path_loop (p # ps) =
     (if p = [] \<or> p = str ''.'' then path_loop ps
      else if p = str ''..'' then Inl ErrInvalid
      else case path_loop ps of Inl e \<Rightarrow> Inl e | Inr out \<Rightarrow> Inr (p # out))"

definition forbidden :: "rune list" where
  "forbidden = 0 # 34 # str '':<>|?*''"

definition pathParts :: "name \<Rightarrow> path_error + name list" where
  "pathParts raw =
     (if list_ex (\<lambda>r. r \<in> set forbidden) raw then Inl ErrInvalid
      else
        let raw' = map (\<lambda>r. if r = 92 then 47 else r) raw
        in if take 2 raw' = str ''//'' then Inl ErrInvalid else path_loop (split_at 47 raw'))"

subsection \<open>Folding and portable names\<close>

definition foldRune :: "(rune \<Rightarrow> rune list) \<Rightarrow> rune \<Rightarrow> rune" where
  "foldRune orbit r = fold (\<lambda>next least. if next < least then next else least) (orbit r) r"

definition foldName :: "(rune \<Rightarrow> rune list) \<Rightarrow> name \<Rightarrow> name" where
  "foldName orbit n = map (foldRune orbit) n"

definition isControl :: "rune \<Rightarrow> bool" where
  "isControl r = (r < 32 \<or> (127 \<le> r \<and> r < 160))"

definition escaped :: "rune list" where
  "escaped = 92 # 34 # str ''%:<>|?*/''"

text \<open>\<open>%02X\<close>: hexadecimal with capital letters and at least two digits.\<close>

definition hex_digit :: "nat \<Rightarrow> rune" where
  "hex_digit d = (if d < 10 then 48 + d else 55 + d)"

fun hex_upper :: "nat \<Rightarrow> name" where
  "hex_upper n = (if n < 16 then [hex_digit n] else hex_upper (n div 16) @ [hex_digit (n mod 16)])"

declare hex_upper.simps [simp del]

definition hex02 :: "nat \<Rightarrow> name" where
  "hex02 n = (if n < 16 then 48 # hex_upper n else hex_upper n)"

definition escape_rune :: "rune \<Rightarrow> name" where
  "escape_rune r = 37 # hex02 r"

text \<open>The number of trailing dots and spaces that \<open>strings.TrimRight\<close> removes.\<close>

definition trailing :: "name \<Rightarrow> nat" where
  "trailing n = length (takeWhile (\<lambda>r. r = 46 \<or> r = 32) (rev n))"

definition portable_rune :: "nat \<Rightarrow> nat \<times> rune \<Rightarrow> name" where
  "portable_rune stop ir =
     (case ir of (index, r) \<Rightarrow>
        if isControl r \<or> r \<in> set escaped \<or> (stop \<le> index \<and> (r = 46 \<or> r = 32)) then escape_rune r else [r])"

definition reserved_stem :: "name \<Rightarrow> bool" where
  "reserved_stem stem \<longleftrightarrow>
     stem = str ''CON'' \<or> stem = str ''PRN'' \<or> stem = str ''AUX'' \<or> stem = str ''NUL''
     \<or> (length stem = 4 \<and> (take 3 stem = str ''COM'' \<or> take 3 stem = str ''LPT'') \<and> 49 \<le> stem ! 3 \<and> stem ! 3 \<le> 57)"

definition portableName :: "(name \<Rightarrow> name) \<Rightarrow> name \<Rightarrow> name" where
  "portableName upper n =
     (let result = concat (map (portable_rune (length n - trailing n)) (enumerate 0 n));
          stem = takeWhile (\<lambda>r. r \<noteq> 46) (upper result)
      in if reserved_stem stem then escape_rune (hd result) @ tl result else result)"

subsection \<open>Disambiguation\<close>

text \<open>\<open>utf16.RuneLen\<close>: one unit in the basic plane outside the surrogates, two above, else -1.\<close>

definition runeLen :: "rune \<Rightarrow> int" where
  "runeLen r = (if r < 55296 \<or> (57344 \<le> r \<and> r < 65536) then 1 else if 65536 \<le> r \<and> r \<le> 1114111 then 2 else -1)"

definition utf16Length :: "name \<Rightarrow> int" where
  "utf16Length n = sum_list (map runeLen n)"

fun truncate_loop :: "int \<Rightarrow> int \<Rightarrow> name \<Rightarrow> name" where
  "truncate_loop maxUnits units [] = []"
| "truncate_loop maxUnits units (r # n) =
     (if units + runeLen r > maxUnits then [] else r # truncate_loop maxUnits (units + runeLen r) n)"

definition truncateName :: "name \<Rightarrow> int \<Rightarrow> name" where
  "truncateName n maxUnits = truncate_loop maxUnits 0 n"

definition has_suffix :: "name \<Rightarrow> name \<Rightarrow> bool" where
  "has_suffix n s \<longleftrightarrow> length s \<le> length n \<and> drop (length n - length s) n = s"

text \<open>The part of a name from its last dot on.\<close>

definition last_dot :: "name \<Rightarrow> name" where
  "last_dot n = (if 46 \<in> set n then 46 # rev (takeWhile (\<lambda>r. r \<noteq> 46) (rev n)) else [])"

text \<open>
  The last \<open>k\<close> bytes of a name: the code counts the bytes of the ending in the name itself, whose runes can
  be wider than those of its lower case (the dotted capital I).
\<close>

definition utf8Len :: "rune \<Rightarrow> nat" where
  "utf8Len r = (if r < 128 then 1 else if r < 2048 then 2 else if r < 65536 then 3 else 4)"

fun take_bytes :: "nat \<Rightarrow> name \<Rightarrow> name" where
  "take_bytes k [] = []"
| "take_bytes k (r # n) = (if utf8Len r \<le> k then r # take_bytes (k - utf8Len r) n else [])"

definition last_bytes :: "nat \<Rightarrow> name \<Rightarrow> name" where
  "last_bytes k n = rev (take_bytes k (rev n))"

definition ending_of :: "(name \<Rightarrow> name) \<Rightarrow> name \<Rightarrow> name" where
  "ending_of lower base =
     (let e = (if has_suffix (lower base) (str ''.iso.strm'') then last_bytes 9 base else last_dot base)
      in if utf16Length e > 64 then [] else e)"

definition suffixedName :: "(name \<Rightarrow> name) \<Rightarrow> name \<Rightarrow> name \<Rightarrow> name" where
  "suffixedName lower base suf =
     (let ending = ending_of lower base;
          stem = (if has_suffix base ending then take (length base - length ending) base else base)
      in truncateName stem (255 - utf16Length suf - utf16Length ending) @ suf @ ending)"

text \<open>\<open>~%016x\<close> and, from the second attempt on, \<open>-%d\<close>.\<close>

definition hex_lower_digit :: "nat \<Rightarrow> rune" where
  "hex_lower_digit d = (if d < 10 then 48 + d else 87 + d)"

fun hex_fixed :: "nat \<Rightarrow> nat \<Rightarrow> name" where
  "hex_fixed 0 x = []"
| "hex_fixed (Suc w) x = hex_fixed w (x div 16) @ [hex_lower_digit (x mod 16)]"

definition salt_suffix :: "nat \<Rightarrow> nat \<Rightarrow> name" where
  "salt_suffix ident salt = 126 # hex_fixed 16 ident @ (if salt > 0 then 45 # str (decimal salt) else [])"

record smbEntry =
  seName :: name
  seIdentity :: nat

text \<open>The loop over the salts: None when the fuel runs out.\<close>

fun salt_loop ::
  "(rune \<Rightarrow> rune list) \<Rightarrow> (name \<Rightarrow> name) \<Rightarrow> name \<Rightarrow> nat \<Rightarrow> name list \<Rightarrow> nat \<Rightarrow> nat \<Rightarrow> name option" where
  "salt_loop orbit lower base ident taken 0 salt = None"
| "salt_loop orbit lower base ident taken (Suc fuel) salt =
     (let n = suffixedName lower base (salt_suffix ident salt)
      in if foldName orbit n \<notin> set taken then Some n else salt_loop orbit lower base ident taken fuel (Suc salt))"

fun assign_loop ::
  "(rune \<Rightarrow> rune list) \<Rightarrow> (name \<Rightarrow> name) \<Rightarrow> name list \<Rightarrow> smbEntry list \<Rightarrow> name list \<Rightarrow> smbEntry list option" where
  "assign_loop orbit lower keys [] used = Some []"
| "assign_loop orbit lower keys (e # es) used =
     (let base = seName e;
          chosen = (if count_list keys (foldName orbit base) > 1 \<or> utf16Length base > 255
                    then salt_loop orbit lower base (seIdentity e) (keys @ used) (length (keys @ used) + 2) 0
                    else Some base)
      in case chosen of
           None \<Rightarrow> None
         | Some n \<Rightarrow>
             (case assign_loop orbit lower keys es (foldName orbit n # used) of
                None \<Rightarrow> None
              | Some out \<Rightarrow> Some (e\<lparr>seName := n\<rparr> # out)))"

definition smbNames ::
  "(rune \<Rightarrow> rune list) \<Rightarrow> (name \<Rightarrow> name) \<Rightarrow> (name \<Rightarrow> name) \<Rightarrow> smbEntry list \<Rightarrow> smbEntry list option" where
  "smbNames orbit upper lower entries =
     (let out = map (\<lambda>e. e\<lparr>seName := portableName upper (seName e)\<rparr>) entries;
          keys = map (foldName orbit \<circ> seName) out
      in map_option (sort_key (\<lambda>e. (foldName orbit (seName e), seName e))) (assign_loop orbit lower keys out []))"

subsection \<open>Wildcards\<close>

definition dos_rune :: "rune \<Rightarrow> rune" where
  "dos_rune r = (if r = 60 then 42 else if r = 62 then 63 else if r = 34 then 46 else r)"

text \<open>
  The matching loop, with the four indices of the code; \<open>star\<close> is None where the code has -1. Not
  returning would be the value None.
\<close>

partial_function (option) wild_loop :: "name \<Rightarrow> name \<Rightarrow> nat \<Rightarrow> nat \<Rightarrow> nat option \<Rightarrow> nat \<Rightarrow> bool option" where
  "wild_loop p n pi ni star retry =
     (if ni < length n
      then if pi < length p \<and> (p ! pi = 63 \<or> p ! pi = n ! ni) then wild_loop p n (pi + 1) (ni + 1) star retry
           else if pi < length p \<and> p ! pi = 42 then wild_loop p n (pi + 1) ni (Some pi) ni
           else (case star of
                   Some s \<Rightarrow> wild_loop p n (s + 1) (retry + 1) star (retry + 1)
                 | None \<Rightarrow> Some False)
      else Some (dropWhile (\<lambda>r. r = 42) (drop pi p) = []))"

definition wildcardMatch :: "(rune \<Rightarrow> rune list) \<Rightarrow> name \<Rightarrow> name \<Rightarrow> bool option" where
  "wildcardMatch orbit pattern n =
     (if pattern = [] \<or> pattern = str ''*'' \<or> pattern = str ''*.*'' then Some True
      else wild_loop (foldName orbit (map dos_rune pattern)) (foldName orbit n) 0 0 None 0)"

section \<open>Wildcards match like globs\<close>

text \<open>The meaning of a pattern: \<open>?\<close> is any one rune, \<open>*\<close> any sequence of runes.\<close>

fun glob :: "name \<Rightarrow> name \<Rightarrow> bool" where
  "glob [] n = (n = [])"
| "glob (c # p) n =
     (if c = 42 then list_ex (\<lambda>k. glob p (drop k n)) [0..<Suc (length n)]
      else case n of [] \<Rightarrow> False | r # n' \<Rightarrow> (c = 63 \<or> c = r) \<and> glob p n')"

lemma glob_star: "glob (42 # q) n \<longleftrightarrow> (\<exists>k \<le> length n. glob q (drop k n))"
  by (auto simp: list_ex_iff less_Suc_eq_le simp del: upt_Suc)

text \<open>A segment without a star matches exactly as many runes as it has.\<close>

definition seg_match :: "name \<Rightarrow> name \<Rightarrow> bool" where
  "seg_match seg n \<longleftrightarrow> list_all2 (\<lambda>c r. c = 63 \<or> c = r) seg n"

lemma glob_segment:
  "42 \<notin> set seg \<Longrightarrow> glob (seg @ q) n \<Longrightarrow> \<exists>a b. n = a @ b \<and> length a = length seg \<and> glob q b"
proof (induction seg arbitrary: n)
  case Nil
  then show ?case by simp
next
  case (Cons c seg)
  then obtain r n' where n: "n = r # n'" "glob (seg @ q) n'" by (cases n) auto
  have "42 \<notin> set seg" using Cons.prems by simp
  then obtain a b where "n' = a @ b" "length a = length seg" "glob q b" using Cons.IH n(2) by blast
  then show ?case using n by (intro exI [of _ "r # a"] exI [of _ b]) simp
qed

lemma glob_Nil: "glob p [] \<longleftrightarrow> dropWhile (\<lambda>r. r = 42) p = []"
proof (induction p)
  case (Cons c p)
  then show ?case by (cases "c = 42") (auto simp: glob_star)
qed simp

text \<open>
  What the indices mean: since the last star the loop matched a segment without stars against the name
  from \<open>retry\<close> on.
\<close>

definition wild_inv :: "name \<Rightarrow> name \<Rightarrow> nat \<Rightarrow> nat \<Rightarrow> nat option \<Rightarrow> nat \<Rightarrow> bool" where
  "wild_inv p n pi ni star retry \<longleftrightarrow> pi \<le> length p \<and> ni \<le> length n \<and> 42 \<notin> set n
     \<and> (case star of
          None \<Rightarrow> True
        | Some s \<Rightarrow> s < pi \<and> retry \<le> ni \<and> ni - retry = pi - Suc s \<and> 42 \<notin> set (take (pi - Suc s) (drop (Suc s) p)))"

definition wild_value :: "name \<Rightarrow> name \<Rightarrow> nat \<Rightarrow> nat \<Rightarrow> nat option \<Rightarrow> nat \<Rightarrow> bool" where
  "wild_value p n pi ni star retry \<longleftrightarrow>
     glob (drop pi p) (drop ni n)
     \<or> (case star of
          None \<Rightarrow> False
        | Some s \<Rightarrow> \<exists>k. retry < k \<and> k \<le> length n \<and> glob (drop (Suc s) p) (drop k n))"

text \<open>A match from a later start uses up at least as much of the name.\<close>

lemma later_start:
  assumes "s < pi" "pi \<le> length p" "42 \<notin> set (take (pi - Suc s) (drop (Suc s) p))"
    "retry \<le> ni" "ni - retry = pi - Suc s" "retry < k" "k \<le> length n" "glob (drop (Suc s) p) (drop k n)"
  shows "\<exists>j. ni < j \<and> j \<le> length n \<and> glob (drop pi p) (drop j n)"
proof -
  let ?seg = "take (pi - Suc s) (drop (Suc s) p)"
  have l: "length ?seg = pi - Suc s" using assms(1,2) by simp
  have "drop (Suc s) p = ?seg @ drop pi p"
    using assms(1) by (metis append_take_drop_id drop_drop le_add_diff_inverse2 Suc_leI)
  then obtain a b where ab: "drop k n = a @ b" "length a = pi - Suc s" "glob (drop pi p) b"
    using glob_segment [OF assms(3), of "drop pi p" "drop k n"] assms(8) l by metis
  have "b = drop (k + length a) n" using ab(1) by (metis append_eq_conv_conj add.commute drop_drop)
  moreover have "k + length a \<le> length n" using ab(1) assms(7) by (metis le_add1 length_append length_drop le_diff_conv2 add.commute)
  ultimately show ?thesis using ab assms(4-6) by (intro exI [of _ "k + length a"]) auto
qed

lemma wild_step_match:
  assumes "wild_inv p n pi ni star retry" "ni < length n" "pi < length p" "p ! pi = 63 \<or> p ! pi = n ! ni"
  shows "wild_inv p n (pi + 1) (ni + 1) star retry"
    "wild_value p n (pi + 1) (ni + 1) star retry = wild_value p n pi ni star retry"
proof -
  have "n ! ni \<noteq> 42" using assms(1,2) nth_mem by (metis wild_inv_def)
  then have ne: "p ! pi \<noteq> 42" using assms(4) by auto
  have seg: "42 \<notin> set (take (Suc pi - Suc s) (drop (Suc s) p))"
    if "s < pi" "42 \<notin> set (take (pi - Suc s) (drop (Suc s) p))" for s
  proof -
    have "Suc pi - Suc s = Suc (pi - Suc s)" "drop (Suc s) p ! (pi - Suc s) = p ! pi" "pi - Suc s < length (drop (Suc s) p)"
      using that(1) assms(3) by auto
    then show ?thesis using that(2) ne by (simp add: take_Suc_conv_app_nth)
  qed
  show "wild_inv p n (pi + 1) (ni + 1) star retry"
    using assms seg by (auto simp: wild_inv_def Suc_diff_le split: option.splits)
  have "drop pi p = p ! pi # drop (pi + 1) p" "drop ni n = n ! ni # drop (ni + 1) n"
    using assms(2,3) Cons_nth_drop_Suc [of pi p] Cons_nth_drop_Suc [of ni n] by simp_all
  then show "wild_value p n (pi + 1) (ni + 1) star retry = wild_value p n pi ni star retry"
    using assms(4) ne by (auto simp: wild_value_def simp del: drop_drop)
qed

lemma wild_step_star:
  assumes "wild_inv p n pi ni star retry" "pi < length p" "p ! pi = 42"
  shows "wild_inv p n (pi + 1) ni (Some pi) ni"
    "wild_value p n (pi + 1) ni (Some pi) ni = wild_value p n pi ni star retry"
proof -
  show "wild_inv p n (pi + 1) ni (Some pi) ni" using assms by (simp add: wild_inv_def)
  have d: "drop pi p = 42 # drop (Suc pi) p" using assms(2,3) Cons_nth_drop_Suc [of pi p] by simp
  have g: "glob (drop pi p) (drop ni n) \<longleftrightarrow> (\<exists>j. ni \<le> j \<and> j \<le> length n \<and> glob (drop (Suc pi) p) (drop j n))"
  proof -
    have "(\<exists>k \<le> length n - ni. glob (drop (Suc pi) p) (drop (ni + k) n))
        \<longleftrightarrow> (\<exists>j. ni \<le> j \<and> j \<le> length n \<and> glob (drop (Suc pi) p) (drop j n))"
    proof (intro iffI)
      assume "\<exists>k \<le> length n - ni. glob (drop (Suc pi) p) (drop (ni + k) n)"
      then obtain k where "k \<le> length n - ni" "glob (drop (Suc pi) p) (drop (ni + k) n)" by blast
      moreover have "ni \<le> length n" using assms(1) by (simp add: wild_inv_def)
      ultimately show "\<exists>j. ni \<le> j \<and> j \<le> length n \<and> glob (drop (Suc pi) p) (drop j n)"
        by (intro exI [of _ "ni + k"]) simp
    next
      assume "\<exists>j. ni \<le> j \<and> j \<le> length n \<and> glob (drop (Suc pi) p) (drop j n)"
      then obtain j where "ni \<le> j" "j \<le> length n" "glob (drop (Suc pi) p) (drop j n)" by blast
      then show "\<exists>k \<le> length n - ni. glob (drop (Suc pi) p) (drop (ni + k) n)"
        by (intro exI [of _ "j - ni"]) simp
    qed
    then show ?thesis by (simp only: d glob_star length_drop drop_drop add.commute)
  qed
  have new: "wild_value p n (pi + 1) ni (Some pi) ni \<longleftrightarrow> (\<exists>j. ni \<le> j \<and> j \<le> length n \<and> glob (drop (Suc pi) p) (drop j n))"
    using assms(1) by (auto simp: wild_value_def wild_inv_def order_le_less)
  have "glob (drop pi p) (drop ni n)" if alt: "star = Some s" "retry < k" "k \<le> length n" "glob (drop (Suc s) p) (drop k n)" for s k
  proof -
    obtain j where j: "ni < j" "j \<le> length n" "glob (drop pi p) (drop j n)"
      using later_start [of s pi p retry ni k n] assms(1) alt unfolding wild_inv_def by auto
    then obtain i where "i \<le> length (drop j n)" "glob (drop (Suc pi) p) (drop i (drop j n))" by (auto simp only: d glob_star)
    then show ?thesis unfolding g using j by (intro exI [of _ "j + i"]) (auto simp: add.commute)
  qed
  then show "wild_value p n (pi + 1) ni (Some pi) ni = wild_value p n pi ni star retry"
    unfolding new using g by (auto simp: wild_value_def split: option.splits)
qed

lemma wild_step_back:
  assumes "wild_inv p n pi ni (Some s) retry" "ni < length n" "\<not> (pi < length p \<and> (p ! pi = 63 \<or> p ! pi = n ! ni))"
    "\<not> (pi < length p \<and> p ! pi = 42)"
  shows "wild_inv p n (s + 1) (retry + 1) (Some s) (retry + 1)"
    "wild_value p n (s + 1) (retry + 1) (Some s) (retry + 1) = wild_value p n pi ni (Some s) retry"
proof -
  show "wild_inv p n (s + 1) (retry + 1) (Some s) (retry + 1)" using assms(1,2) by (auto simp: wild_inv_def)
  have "\<not> glob (drop pi p) (drop ni n)"
  proof (cases "pi < length p")
    case True
    then show ?thesis using assms(2-4) Cons_nth_drop_Suc [of pi p, symmetric] Cons_nth_drop_Suc [of ni n, symmetric] by simp
  next
    case False
    then show ?thesis using assms(2) by simp
  qed
  then show "wild_value p n (s + 1) (retry + 1) (Some s) (retry + 1) = wild_value p n pi ni (Some s) retry"
  proof -
    have "retry < length n" using assms(1,2) by (auto simp: wild_inv_def)
    then have "(\<exists>k. retry < k \<and> k \<le> length n \<and> glob (drop (Suc s) p) (drop k n)) \<longleftrightarrow>
      glob (drop (Suc s) p) (drop (Suc retry) n) \<or> (\<exists>k. Suc retry < k \<and> k \<le> length n \<and> glob (drop (Suc s) p) (drop k n))"
      by (metis Suc_leI Suc_lessD Suc_lessI lessI)
    then show ?thesis using \<open>\<not> glob (drop pi p) (drop ni n)\<close> by (simp add: wild_value_def)
  qed
qed

lemma wild_end:
  assumes "wild_inv p n pi ni star retry" "\<not> ni < length n"
  shows "wild_value p n pi ni star retry \<longleftrightarrow> dropWhile (\<lambda>r. r = 42) (drop pi p) = []"
proof -
  have ni: "ni = length n" using assms by (simp add: wild_inv_def)
  have "\<not> (retry < k \<and> k \<le> length n \<and> glob (drop (Suc s) p) (drop k n))" if s: "star = Some s" for s k
    using later_start [of s pi p retry ni k n] assms(1) s ni unfolding wild_inv_def by auto
  then show ?thesis by (auto simp: wild_value_def ni glob_Nil split: option.splits)
qed

definition wild_rank :: "name \<Rightarrow> name \<Rightarrow> nat \<times> nat option \<times> nat \<Rightarrow> nat \<times> nat \<times> nat" where
  "wild_rank p n x = (case x of (ni, star, retry) \<Rightarrow>
     (Suc (length p) - (case star of None \<Rightarrow> 0 | Some s \<Rightarrow> Suc s), length n - retry, length n - ni))"

lemma wild_loop_value:
  "wild_inv p n pi ni star retry \<Longrightarrow> wild_loop p n pi ni star retry = Some (wild_value p n pi ni star retry)"
proof (induction "(ni, star, retry)" arbitrary: pi ni star retry
    rule: wf_induct_rule [OF wf_inv_image [of "less_than <*lex*> less_than <*lex*> less_than" "wild_rank p n"]])
  case 1
  show ?case by (intro wf_lex_prod wf_less_than)
next
  case (2 ni star retry)
  note inv = "2.prems"
  show ?case
  proof (cases "ni < length n")
    case False
    then show ?thesis using wild_end [OF inv] by (subst wild_loop.simps) simp
  next
    case lt: True
    show ?thesis
    proof (cases "pi < length p \<and> (p ! pi = 63 \<or> p ! pi = n ! ni)")
      case True
      note s = wild_step_match [OF inv lt]
      have "wild_loop p n (pi + 1) (ni + 1) star retry = Some (wild_value p n (pi + 1) (ni + 1) star retry)"
        by (rule "2.hyps") (use lt s True in \<open>auto simp: wild_rank_def\<close>)
      then show ?thesis using True lt s by (subst wild_loop.simps) simp
    next
      case F1: False
      show ?thesis
      proof (cases "pi < length p \<and> p ! pi = 42")
        case True
        note s = wild_step_star [OF inv]
        have "wild_loop p n (pi + 1) ni (Some pi) ni = Some (wild_value p n (pi + 1) ni (Some pi) ni)"
          by (rule "2.hyps") (use inv s True in \<open>auto simp: wild_rank_def wild_inv_def split: option.splits\<close>)
        then show ?thesis using True F1 lt s by (subst wild_loop.simps) auto
      next
        case F2: False
        show ?thesis
        proof (cases star)
          case None
          have "\<not> glob (drop pi p) (drop ni n)"
          proof (cases "pi < length p")
            case True
            then show ?thesis using lt F1 F2 Cons_nth_drop_Suc [of pi p, symmetric] Cons_nth_drop_Suc [of ni n, symmetric] by simp
          qed (use lt in simp)
          then show ?thesis using None F1 F2 lt by (subst wild_loop.simps) (auto simp: wild_value_def)
        next
          case (Some s)
          note st = wild_step_back [OF inv [unfolded Some] lt F1 F2]
          have "wild_loop p n (s + 1) (retry + 1) star (retry + 1) = Some (wild_value p n (s + 1) (retry + 1) star (retry + 1))"
            by (rule "2.hyps") (use inv lt st Some in \<open>auto simp: wild_rank_def wild_inv_def\<close>)
          then show ?thesis using Some F1 F2 lt st by (subst wild_loop.simps) auto
        qed
      qed
    qed
  qed
qed

text \<open>
  smb_wildcard_glob: Matching a DOS pattern always returns, and it decides exactly whether the pattern matches
  the name, ignoring case: \<open>*\<close> and \<open><\<close> stand for any sequence of characters, \<open>?\<close> and \<open>>\<close> for any one, the
  double quote for a dot, and everything else for itself. Names of the share contain no star.
\<close>

theorem smb_wildcard_glob:
  assumes "42 \<notin> set (foldName orbit n)"
  shows "wildcardMatch orbit pattern n =
    Some (pattern = [] \<or> pattern = str ''*'' \<or> pattern = str ''*.*''
          \<or> glob (foldName orbit (map dos_rune pattern)) (foldName orbit n))"
  using wild_loop_value [of "foldName orbit (map dos_rune pattern)" "foldName orbit n" 0 0 None 0] assms
  by (simp add: wildcardMatch_def wild_inv_def wild_value_def)

theorem smb_wildcard_glob_witness:
  "wildcardMatch (\<lambda>r. if 97 \<le> r \<and> r \<le> 122 then [r - 32] else []) (str ''<eason*.MK?'') (str ''My Season 1.mkv'') = Some True"
proof -
  let ?o = "\<lambda>r. if 97 \<le> r \<and> r \<le> 122 then [r - 32] else ([] :: nat list)"
  have g: "glob (foldName ?o (map dos_rune (str ''<eason*.MK?''))) (foldName ?o (str ''My Season 1.mkv''))" by code_simp
  have "42 \<notin> set (foldName ?o (str ''My Season 1.mkv''))" by (simp add: foldName_def foldRune_def str_def)
  from smb_wildcard_glob [OF this, of "str ''<eason*.MK?''"] g show ?thesis by simp
qed

section \<open>Paths of clients\<close>

lemma path_loop_parts:
  "path_loop ps = Inr out \<Longrightarrow> out = filter (\<lambda>p. p \<noteq> [] \<and> p \<noteq> str ''.'') ps \<and> str ''..'' \<notin> set ps"
  by (induction ps arbitrary: out) (auto simp: str_def split: if_splits sum.splits)

text \<open>
  smb_path_parts: A path from a client is either refused or cut into clean parts: every part is non-empty,
  is neither the current nor the parent directory, and has no separator, no NUL and no character that
  is illegal in a name. A path with a parent component is always refused, never resolved.
\<close>

theorem smb_path_parts:
  assumes "pathParts raw = Inr parts"
  shows "(\<forall>p \<in> set parts. p \<noteq> [] \<and> p \<noteq> str ''.'' \<and> p \<noteq> str ''..'' \<and> 47 \<notin> set p \<and> 92 \<notin> set p \<and> set p \<inter> set forbidden = {})
    \<and> parts = filter (\<lambda>p. p \<noteq> [] \<and> p \<noteq> str ''.'') (split_at 47 (map (\<lambda>r. if r = 92 then 47 else r) raw))
    \<and> str ''..'' \<notin> set (split_at 47 (map (\<lambda>r. if r = 92 then 47 else r) raw))"
proof -
  let ?raw = "map (\<lambda>r. if r = 92 then 47 else r) raw"
  have ok: "list_all (\<lambda>r. r \<notin> set forbidden) raw" "path_loop (split_at 47 ?raw) = Inr parts"
    using assms by (auto simp: pathParts_def Let_def list_ex_iff list_all_iff split: if_splits)
  note p = path_loop_parts [OF ok(2)]
  have "47 \<notin> set forbidden" by (simp add: forbidden_def str_def)
  then have raw: "set ?raw \<inter> set forbidden = {}" "92 \<notin> set ?raw"
    using ok(1) by (auto simp: list_all_iff)
  show ?thesis using p split_at_parts [of _ 47 ?raw] raw by fastforce
qed

theorem smb_path_parts_witness:
  "pathParts (str ''/show/./s1//e1.mkv'') = Inr [str ''show'', str ''s1'', str ''e1.mkv'']
   \<and> str ''..'' \<notin> set (split_at 47 (map (\<lambda>r. if r = 92 then 47 else r) (str ''/show/./s1//e1.mkv'')))"
proof -
  have "pathParts (str ''/show/./s1//e1.mkv'') = Inr [str ''show'', str ''s1'', str ''e1.mkv'']" by code_simp
  with smb_path_parts [OF this] show ?thesis by blast
qed

section \<open>Disambiguated names\<close>

text \<open>Digits and the hyphen fold to themselves.\<close>

definition fold_ok :: "(rune \<Rightarrow> rune list) \<Rightarrow> bool" where
  "fold_ok orbit \<longleftrightarrow> (\<forall>r. r = 45 \<or> 48 \<le> r \<and> r \<le> 57 \<longrightarrow> foldRune orbit r = r)"

lemma foldName_append [simp]: "foldName orbit (a @ b) = foldName orbit a @ foldName orbit b"
  by (simp add: foldName_def)

lemma decimal_digits: "r \<in> set (str (decimal n)) \<Longrightarrow> 48 \<le> r \<and> r \<le> 57"
proof (induction n rule: decimal.induct)
  case (1 n)
  then show ?case by (auto simp: decimal.simps [of n] str_def digit_char_def split: if_splits)
qed

lemma fold_decimal: "fold_ok orbit \<Longrightarrow> foldName orbit (str (decimal n)) = str (decimal n)"
  using decimal_digits by (auto simp: foldName_def fold_ok_def intro!: map_idI)

lemma str_inj: "str a = str b \<longleftrightarrow> a = b"
  by (simp add: str_def inj_map_eq_map inj_on_def)

lemma last_hyphen: "a @ 45 # b = c @ 45 # d \<Longrightarrow> 45 \<notin> set b \<Longrightarrow> 45 \<notin> set d \<Longrightarrow> b = (d :: nat list)"
proof -
  assume e: "a @ 45 # b = c @ 45 # d" "45 \<notin> set b" "45 \<notin> set d"
  have t: "takeWhile (\<lambda>r. r \<noteq> 45) (rev (x @ 45 # y)) = rev y" if "45 \<notin> set y" for x y :: "nat list"
    using that by (simp add: takeWhile_append2 [of "rev y"]) (metis (mono_tags, lifting) set_rev takeWhile_append2 takeWhile.simps(2) append_Nil2)
  show "b = d" using t [OF e(2), of a] t [OF e(3), of c] e(1) by simp
qed

text \<open>Two salts give different keys.\<close>

lemma salt_key_inj:
  assumes "fold_ok orbit" "0 < i" "0 < j"
    "foldName orbit (suffixedName lower base (salt_suffix ident i)) = foldName orbit (suffixedName lower base (salt_suffix ident j))"
  shows "i = j"
proof -
  have "foldRune orbit 45 = 45" using assms(1) by (simp add: fold_ok_def)
  then have f: "foldName orbit (45 # str (decimal x)) = 45 # str (decimal x)" for x
    using fold_decimal [OF assms(1), of x] by (simp add: foldName_def)
  obtain X Y where e: "X @ foldName orbit (45 # str (decimal i)) = Y @ foldName orbit (45 # str (decimal j))"
    using assms(2-4) by (auto simp: suffixedName_def Let_def salt_suffix_def foldName_def [of _ "_ # _"] foldName_append
        simp flip: append_assoc append_Cons)
  have "45 \<notin> set (str (decimal x))" for x using decimal_digits [of 45 x] by auto
  then have "str (decimal i) = str (decimal j)" using last_hyphen e unfolding f by blast
  then show ?thesis by (simp add: str_inj)
qed

lemma salt_loop_fresh:
  "salt_loop orbit lower base ident taken fuel salt = Some n \<Longrightarrow>
     foldName orbit n \<notin> set taken \<and> (\<exists>k. salt \<le> k \<and> k < salt + fuel \<and> n = suffixedName lower base (salt_suffix ident k))"
proof (induction fuel arbitrary: salt)
  case (Suc fuel)
  show ?case
  proof (cases "foldName orbit (suffixedName lower base (salt_suffix ident salt)) \<in> set taken")
    case True
    then have "salt_loop orbit lower base ident taken fuel (Suc salt) = Some n" using Suc.prems by (simp add: Let_def)
    from Suc.IH [OF this] show ?thesis by (auto intro: Suc_leD)
  next
    case False
    then show ?thesis using Suc.prems by (auto simp: Let_def)
  qed
qed simp

lemma salt_loop_None:
  "salt_loop orbit lower base ident taken fuel salt = None \<Longrightarrow> salt \<le> k \<Longrightarrow> k < salt + fuel \<Longrightarrow>
     foldName orbit (suffixedName lower base (salt_suffix ident k)) \<in> set taken"
proof (induction fuel arbitrary: salt)
  case (Suc fuel)
  then show ?case by (cases "k = salt") (auto simp: Let_def split: if_splits)
qed simp

text \<open>The fuel is enough: there are more salts than taken keys.\<close>

lemma salt_loop_returns:
  assumes "fold_ok orbit"
  shows "\<exists>n. salt_loop orbit lower base ident taken (length taken + 2) 0 = Some n"
proof (rule ccontr)
  let ?key = "\<lambda>k. foldName orbit (suffixedName lower base (salt_suffix ident k))"
  assume "\<nexists>n. salt_loop orbit lower base ident taken (length taken + 2) 0 = Some n"
  then have "?key ` {1..Suc (length taken)} \<subseteq> set taken"
    using salt_loop_None [of orbit lower base ident taken "length taken + 2" 0] by (auto simp: image_iff)
  moreover have "inj_on ?key {1..Suc (length taken)}"
    using salt_key_inj [OF assms] by (auto intro!: inj_onI)
  ultimately have "card {1..Suc (length taken)} \<le> card (set taken)" by (metis card_inj_on_le List.finite_set)
  then show False using card_length [of taken] by simp
qed

text \<open>
  What the assignment keeps: the keys of the names given out are new, and a name left unchanged is the
  only one with its key.
\<close>

abbreviation entry_key :: "(rune \<Rightarrow> rune list) \<Rightarrow> smbEntry \<Rightarrow> name" where
  "entry_key orbit e \<equiv> foldName orbit (seName e)"

lemma count_list_pos: "x \<in> set xs \<longleftrightarrow> 0 < count_list xs x"
  by (induction xs) auto

lemma assign_loop_ok:
  assumes "fold_ok orbit"
  shows "(\<And>k. count_list (map (entry_key orbit) es) k \<le> count_list keys k) \<Longrightarrow>
    set used \<inter> set keys \<inter> set (map (entry_key orbit) es) = {} \<Longrightarrow>
    \<exists>out. assign_loop orbit lower keys es used = Some out \<and> map seIdentity out = map seIdentity es
      \<and> distinct (map (entry_key orbit) out) \<and> set (map (entry_key orbit) out) \<inter> set used = {}
      \<and> list_all2 (\<lambda>e o'. seName o' = seName e \<and> utf16Length (seName e) \<le> 255
           \<or> (\<exists>k \<le> length keys + length used + length es. seName o' = suffixedName lower (seName e) (salt_suffix (seIdentity e) k))) es out"
proof (induction es arbitrary: used)
  case Nil
  then show ?case by simp
next
  case (Cons e es)
  let ?b = "entry_key orbit e"
  have cnt: "count_list (map (entry_key orbit) es) k \<le> count_list keys k" for k
    using Cons.prems(1) [of k] by (auto split: if_splits)
  have inkeys: "?b \<in> set keys" using Cons.prems(1) [of ?b] by (simp add: count_list_pos)
  let ?suffixed = "count_list keys ?b > 1 \<or> utf16Length (seName e) > 255"
  obtain n where n: "(if ?suffixed then salt_loop orbit lower (seName e) (seIdentity e) (keys @ used) (length (keys @ used) + 2) 0
                      else Some (seName e)) = Some n"
    using salt_loop_returns [OF assms, of lower "seName e" "seIdentity e" "keys @ used"] by (cases ?suffixed) (metis, metis)
  have ok: "foldName orbit n \<notin> set used \<and> (foldName orbit n \<in> set keys \<longrightarrow> foldName orbit n \<notin> set (map (entry_key orbit) es))
     \<and> (n = seName e \<and> utf16Length (seName e) \<le> 255
        \<or> (\<exists>k \<le> length keys + length used + 1. n = suffixedName lower (seName e) (salt_suffix (seIdentity e) k)))"
  proof (cases ?suffixed)
    case True
    then have s: "salt_loop orbit lower (seName e) (seIdentity e) (keys @ used) (length (keys @ used) + 2) 0 = Some n" using n by simp
    obtain k where "foldName orbit n \<notin> set (keys @ used)" "k < length (keys @ used) + 2"
      "n = suffixedName lower (seName e) (salt_suffix (seIdentity e) k)"
      using salt_loop_fresh [OF s] by auto
    moreover have "k \<le> length keys + length used + 1" using \<open>k < length (keys @ used) + 2\<close> by simp
    ultimately show ?thesis by auto
  next
    case False
    then have nb: "n = seName e" "count_list keys ?b \<le> 1" using n by auto
    then have "count_list (map (entry_key orbit) es) ?b = 0" using Cons.prems(1) [of ?b] by simp
    then have "?b \<notin> set (map (entry_key orbit) es)" by (simp only: count_list_pos)
    moreover have "?b \<notin> set used" using Cons.prems(2) inkeys by auto
    ultimately show ?thesis using nb False by simp
  qed
  have "foldName orbit n \<in> set keys \<longrightarrow> foldName orbit n \<notin> set (map (entry_key orbit) es)" using ok by blast
  moreover have "set used \<inter> set keys \<inter> set (map (entry_key orbit) es) = {}" using Cons.prems(2) by auto
  ultimately have "set (foldName orbit n # used) \<inter> set keys \<inter> set (map (entry_key orbit) es) = {}"
    unfolding list.set by blast
  from Cons.IH [OF cnt this] obtain out where out: "assign_loop orbit lower keys es (foldName orbit n # used) = Some out"
    "map seIdentity out = map seIdentity es" "distinct (map (entry_key orbit) out)"
    "set (map (entry_key orbit) out) \<inter> set (foldName orbit n # used) = {}"
    "list_all2 (\<lambda>e o'. seName o' = seName e \<and> utf16Length (seName e) \<le> 255
           \<or> (\<exists>k \<le> length keys + length (foldName orbit n # used) + length es. seName o' = suffixedName lower (seName e) (salt_suffix (seIdentity e) k))) es out"
    by blast
  have a: "assign_loop orbit lower keys (e # es) used = Some (e\<lparr>seName := n\<rparr> # out)"
    using n out(1) by (simp add: Let_def)
  show ?case
  proof (intro exI conjI)
    show "assign_loop orbit lower keys (e # es) used = Some (e\<lparr>seName := n\<rparr> # out)" by (rule a)
    show "map seIdentity (e\<lparr>seName := n\<rparr> # out) = map seIdentity (e # es)" using out(2) by simp
    show "distinct (map (entry_key orbit) (e\<lparr>seName := n\<rparr> # out))" using out(3,4) by auto
    show "set (map (entry_key orbit) (e\<lparr>seName := n\<rparr> # out)) \<inter> set used = {}" using ok out(4) by auto
    have h: "seName (e\<lparr>seName := n\<rparr>) = seName e \<and> utf16Length (seName e) \<le> 255
           \<or> (\<exists>k \<le> length keys + length used + length (e # es). seName (e\<lparr>seName := n\<rparr>) = suffixedName lower (seName e) (salt_suffix (seIdentity e) k))"
    proof -
      consider "n = seName e" "utf16Length (seName e) \<le> 255"
        | k where "k \<le> length keys + length used + 1" "n = suffixedName lower (seName e) (salt_suffix (seIdentity e) k)"
        using ok by blast
      then show ?thesis
      proof cases
        case (2 k)
        then have "k \<le> length keys + length used + length (e # es)" by simp
        with 2(2) show ?thesis by (metis smbEntry.select_convs(1) smbEntry.surjective smbEntry.update_convs(1))
      qed simp
    qed
    have l: "length keys + length (foldName orbit n # used) + length es = length keys + length used + length (e # es)" by simp
    show "list_all2 (\<lambda>a o'. seName o' = seName a \<and> utf16Length (seName a) \<le> 255
           \<or> (\<exists>k \<le> length keys + length used + length (e # es). seName o' = suffixedName lower (seName a) (salt_suffix (seIdentity a) k)))
           (e # es) (e\<lparr>seName := n\<rparr> # out)"
      unfolding list_all2_Cons using h out(5) [unfolded l] by (intro conjI)
  qed
qed

subsection \<open>The length of a name\<close>

lemma truncate_loop_bound: "units \<le> maxUnits \<Longrightarrow> units + utf16Length (truncate_loop maxUnits units n) \<le> maxUnits"
proof (induction n arbitrary: units)
  case (Cons r n)
  show ?case
  proof (cases "units + runeLen r > maxUnits")
    case False
    then show ?thesis using Cons.IH [of "units + runeLen r"] by (simp add: utf16Length_def)
  qed (use Cons in \<open>simp add: utf16Length_def\<close>)
qed (simp add: utf16Length_def)

lemma utf16_append [simp]: "utf16Length (a @ b) = utf16Length a + utf16Length b"
  by (simp add: utf16Length_def)

lemma ending_bound: "utf16Length (ending_of lower base) \<le> 64"
  by (simp add: ending_of_def Let_def utf16Length_def)

lemma suffixed_bound:
  assumes "utf16Length s \<le> 191"
  shows "utf16Length (suffixedName lower base s) \<le> 255"
proof -
  let ?e = "ending_of lower base"
  have "0 \<le> 255 - utf16Length s - utf16Length ?e" using assms ending_bound [of lower base] by simp
  from truncate_loop_bound [OF this] have "utf16Length (truncateName x (255 - utf16Length s - utf16Length ?e)) + utf16Length s + utf16Length ?e \<le> 255" for x
    by (simp add: truncateName_def algebra_simps)
  then show ?thesis by (simp add: suffixedName_def Let_def add.assoc)
qed

lemma hex_fixed_units: "utf16Length (hex_fixed w x) = int w"
  by (induction w x rule: hex_fixed.induct) (auto simp: utf16Length_def runeLen_def hex_lower_digit_def)

lemma decimal_units: "utf16Length (str (decimal n)) = int (length (decimal n))"
proof -
  have "runeLen r = 1" if "r \<in> set (str (decimal n))" for r
    using decimal_digits [OF that] by (simp add: runeLen_def)
  then have "map runeLen (str (decimal n)) = map (\<lambda>_. 1) (str (decimal n))" by simp
  then show ?thesis unfolding utf16Length_def by (simp only: sum_list_triv) (simp add: str_def)
qed

lemma salt_suffix_units: "k < 10 ^ 100 \<Longrightarrow> utf16Length (salt_suffix ident k) \<le> 118"
  using hex_fixed_units [of 16 ident] decimal_units [of k] decimal_length [of k 100]
  by (auto simp: salt_suffix_def utf16Length_def runeLen_def)

lemma list_all2_member: "list_all2 P xs ys \<Longrightarrow> y \<in> set ys \<Longrightarrow> \<exists>x. P x y"
  by (induction rule: list_all2_induct) auto



end
