(* ===== verification/Layout.thy ===== *)
theory Layout
  imports Encodings "HOL-Library.Char_ord" "HOL-Library.List_Lexorder"
begin

text \<open>
  The layout of the mounted tree (\<open>internal/vfs/layout.go\<close>, the views of \<open>types.go\<close> and
  \<open>VisibleRootEntries\<close> of \<open>tree.go\<close>): the children of a torrent directory, derived from the display
  paths of its files and subtitles, and the names of the torrents at the mount root.

  A Go string is a \<open>string\<close> of bytes and its order is the lexicographic order of bytes. A map that is only
  filled and read is an association list, a set of names a list. The hexadecimal form of an info hash
  is a parameter \<open>hex\<close>, times are numbers (0 is the zero time). Sorting is stable; the entries that are
  sorted have distinct names, so the order of equal ones does not matter.
\<close>

section \<open>Model\<close>

type_synonym hash = string
type_synonym time = int

record FileView =
  fvPath :: string
  fvSize :: int

record SubtitleView =
  svPath :: string
  svVideoPath :: string
  svSize :: int
  svModifiedAt :: time

record TorrentView =
  tvName :: string
  tvHash :: hash
  tvCategory :: string
  tvCreatedAt :: time
  tvFiles :: "FileView list"
  tvFilesID :: "nat option"
  tvSubtitles :: "SubtitleView list"
  tvSingleFile :: bool

record TorrentContents =
  tcFiles :: "FileView list"
  tcFilesID :: "nat option"
  tcSubtitles :: "SubtitleView list"
  tcCreatedAt :: time
  tcSingleFile :: bool

definition contentsOfView :: "TorrentView \<Rightarrow> TorrentContents" where
  "contentsOfView view =
     \<lparr>tcFiles = tvFiles view, tcFilesID = tvFilesID view, tcSubtitles = tvSubtitles view,
      tcCreatedAt = tvCreatedAt view, tcSingleFile = tvSingleFile view\<rparr>"

record fsEntry =
  feName :: string
  feIsDir :: bool
  feIsSubtitle :: bool
  fePath :: string
  feSize :: int
  feModifiedAt :: time

definition newEntry :: "string \<Rightarrow> fsEntry" where
  "newEntry name = \<lparr>feName = name, feIsDir = False, feIsSubtitle = False, fePath = '''', feSize = 0, feModifiedAt = 0\<rparr>"

fun CutPrefix :: "string \<Rightarrow> string \<Rightarrow> string option" where
  "CutPrefix s [] = Some s"
| "CutPrefix [] (p # ps) = None"
| "CutPrefix (c # s) (p # ps) = (if c = p then CutPrefix s ps else None)"

definition first_part :: "string \<Rightarrow> string" where
  "first_part s = takeWhile (\<lambda>c. c \<noteq> slash) s"

definition dir_prefix :: "string \<Rightarrow> string" where
  "dir_prefix rel = (if rel = '''' then rel else rel @ [slash])"

text \<open>One path of a view with its size, whether it is a subtitle, and its modification time.\<close>

type_synonym item = "string \<times> int \<times> bool \<times> time"

text \<open>The two assignments of the closure \<open>add\<close>: a leaf of this directory, or a deeper path.\<close>

definition set_leaf :: "item \<Rightarrow> fsEntry \<Rightarrow> fsEntry" where
  "set_leaf it e =
     (case it of (path, sz, subtitle, modifiedAt) \<Rightarrow>
        if feIsDir e \<or> (fePath e \<noteq> '''' \<and> \<not> feIsSubtitle e) then e
        else e\<lparr>feIsDir := False, feIsSubtitle := subtitle, fePath := path, feSize := sz, feModifiedAt := modifiedAt\<rparr>)"

definition add_path :: "string \<Rightarrow> item \<Rightarrow> (string \<times> fsEntry) list \<Rightarrow> (string \<times> fsEntry) list" where
  "add_path pre it seen =
     (case CutPrefix (fst it) pre of
        None \<Rightarrow> seen
      | Some rest \<Rightarrow>
          if rest = '''' then seen
          else
            let name = first_part rest;
                e = (case map_of seen name of None \<Rightarrow> newEntry name | Some e \<Rightarrow> e)
            in aput name (if rest = name then set_leaf it e else e\<lparr>feIsDir := True\<rparr>) seen)"

definition file_items :: "FileView list \<Rightarrow> item list" where
  "file_items files = map (\<lambda>f. (fvPath f, fvSize f, False, 0)) files"

definition subtitle_items :: "SubtitleView list \<Rightarrow> item list" where
  "subtitle_items subtitles = map (\<lambda>s. (svPath s, svSize s, True, svModifiedAt s)) subtitles"

definition childrenOfViews :: "FileView list \<Rightarrow> SubtitleView list \<Rightarrow> string \<Rightarrow> fsEntry list" where
  "childrenOfViews files subtitles relPrefix =
     sort_key feName
       (map snd (fold (add_path (dir_prefix relPrefix)) (subtitle_items subtitles)
                  (fold (add_path (dir_prefix relPrefix)) (file_items files) [])))"

definition childrenOf :: "FileView list \<Rightarrow> string \<Rightarrow> fsEntry list" where
  "childrenOf files relPrefix = childrenOfViews files [] relPrefix"

definition lookupChild :: "FileView list \<Rightarrow> string \<Rightarrow> string \<Rightarrow> fsEntry option" where
  "lookupChild files relPrefix name = List.find (\<lambda>e. feName e = name) (childrenOf files relPrefix)"

definition lookupChildWithSubtitles :: "FileView list \<Rightarrow> SubtitleView list \<Rightarrow> string \<Rightarrow> string \<Rightarrow> fsEntry option" where
  "lookupChildWithSubtitles files subtitles relPrefix name =
     List.find (\<lambda>e. feName e = name) (childrenOfViews files subtitles relPrefix)"

subsection \<open>Names of the mount root\<close>

definition emptyView :: TorrentView where
  "emptyView = \<lparr>tvName = '''', tvHash = '''', tvCategory = '''', tvCreatedAt = 0, tvFiles = [], tvFilesID = None,
                tvSubtitles = [], tvSingleFile = False\<rparr>"

record rootEntry =
  reName :: string
  reView :: TorrentView
  rePath :: string
  reSize :: int
  reModifiedAt :: time
  reIsSubtitle :: bool
  reIsCategory :: bool

definition mediaRoot :: "TorrentView \<Rightarrow> FileView option" where
  "mediaRoot view = (if tvSingleFile view \<and> length (tvFiles view) = 1 then Some (hd (tvFiles view)) else None)"

definition root_isDir :: "rootEntry \<Rightarrow> bool" where
  "root_isDir e = (if reIsCategory e then True else mediaRoot (reView e) = None)"

text \<open>The three loops of \<open>uniqueTorrentName\<close>: the own name, hash prefixes, and a counter.\<close>

fun prefix_name :: "string \<Rightarrow> string \<Rightarrow> string list \<Rightarrow> nat list \<Rightarrow> string option" where
  "prefix_name name hx used [] = None"
| "prefix_name name hx used (i # is) =
     (let cand = name @ ''-'' @ take i hx in if cand \<notin> set used then Some cand else prefix_name name hx used is)"

definition numbered_name :: "string \<Rightarrow> string \<Rightarrow> nat \<Rightarrow> string" where
  "numbered_name name hx i = name @ ''-'' @ hx @ ''-'' @ decimal i"

lemma numbered_name_inj: "numbered_name name hx i = numbered_name name hx j \<longleftrightarrow> i = j"
  by (simp add: numbered_name_def)

function numbered_loop :: "string \<Rightarrow> string \<Rightarrow> string list \<Rightarrow> nat \<Rightarrow> string" where
  "numbered_loop name hx used i =
     (if numbered_name name hx i \<notin> set used then numbered_name name hx i
      else numbered_loop name hx used (Suc i))"
  by auto
termination
  by (relation "measure (\<lambda>(name, hx, used, i). card {j. i \<le> j \<and> numbered_name name hx j \<in> set used})")
    (auto intro!: fresh_counter simp: inj_on_def numbered_name_inj)

declare numbered_loop.simps [simp del]

definition uniqueTorrentName :: "(hash \<Rightarrow> string) \<Rightarrow> TorrentView \<Rightarrow> string list \<Rightarrow> string \<times> string list" where
  "uniqueTorrentName hex v used =
     (if tvName v \<notin> set used then (tvName v, tvName v # used)
      else
        let hx = hex (tvHash v)
        in case prefix_name (tvName v) hx used (filter (\<lambda>i. i mod 4 = 0) [8..<Suc (length hx)]) of
             Some cand \<Rightarrow> (cand, cand # used)
           | None \<Rightarrow> let cand = numbered_loop (tvName v) hx used 0 in (cand, cand # used))"

fun name_views :: "(hash \<Rightarrow> string) \<Rightarrow> TorrentView list \<Rightarrow> string list \<Rightarrow> rootEntry list" where
  "name_views hex [] used = []"
| "name_views hex (v # vs) used =
     (let (name, used') = uniqueTorrentName hex v used
      in \<lparr>reName = name, reView = v, rePath = '''', reSize = 0, reModifiedAt = 0, reIsSubtitle = False,
          reIsCategory = False\<rparr> # name_views hex vs used')"

definition rootEntriesForCategory ::
  "(hash \<Rightarrow> string) \<Rightarrow> TorrentView list \<Rightarrow> string \<Rightarrow> string list \<Rightarrow> rootEntry list" where
  "rootEntriesForCategory hex views category reserved =
     sort_key reName (name_views hex (sort_key tvHash (filter (\<lambda>v. tvCategory v = category) views)) reserved)"

definition rootEntries :: "(hash \<Rightarrow> string) \<Rightarrow> TorrentView list \<Rightarrow> rootEntry list" where
  "rootEntries hex views = rootEntriesForCategory hex views '''' []"

definition categoryReservations :: "string list \<Rightarrow> string list" where
  "categoryReservations categories = categories"

definition RootNameForWithCategories ::
  "(hash \<Rightarrow> string) \<Rightarrow> TorrentView \<Rightarrow> TorrentView list \<Rightarrow> string list \<Rightarrow> string option" where
  "RootNameForWithCategories hex view views categories =
     (let reserved = (if tvCategory view = '''' then categoryReservations categories else [])
      in map_option reName
           (List.find (\<lambda>e. tvHash (reView e) = tvHash view)
              (rootEntriesForCategory hex views (tvCategory view) reserved)))"

definition RootNameFor :: "(hash \<Rightarrow> string) \<Rightarrow> TorrentView \<Rightarrow> TorrentView list \<Rightarrow> string option" where
  "RootNameFor hex view views = RootNameForWithCategories hex view views []"

definition TorrentMountPath ::
  "(hash \<Rightarrow> string) \<Rightarrow> TorrentView \<Rightarrow> TorrentView list \<Rightarrow> string list \<Rightarrow> string \<Rightarrow> string option" where
  "TorrentMountPath hex view views categories relPath =
     (case RootNameForWithCategories hex view views categories of
        None \<Rightarrow> None
      | Some rootName \<Rightarrow>
          let mountPath =
                (if tvSingleFile view
                 then (case mediaRoot view of
                         Some file \<Rightarrow> if relPath = fvPath file then rootName else relPath
                       | None \<Rightarrow> relPath)
                 else rootName @ ''/'' @ relPath)
          in if tvCategory view \<noteq> '''' then Some (tvCategory view @ ''/'' @ mountPath) else Some mountPath)"

definition CategoryNameConflicts :: "(hash \<Rightarrow> string) \<Rightarrow> string \<Rightarrow> TorrentView list \<Rightarrow> string list \<Rightarrow> bool" where
  "CategoryNameConflicts hex name views categories =
     (list_ex (\<lambda>e. reName e = name) (rootEntriesForCategory hex views '''' (categoryReservations categories))
      \<or> list_ex (\<lambda>view. \<not> (tvCategory view \<noteq> '''' \<or> \<not> tvSingleFile view)
                  \<and> list_ex (\<lambda>s. slash \<notin> set (svPath s) \<and> svPath s = name) (tvSubtitles view)) views)"

text \<open>The subtitles of the single-file torrents that \<open>VisibleRootEntries\<close> shows beside the files.\<close>

fun add_subtitles :: "TorrentView \<Rightarrow> SubtitleView list \<Rightarrow> string list \<times> rootEntry list \<Rightarrow> string list \<times> rootEntry list" where
  "add_subtitles view [] (used, es) = (used, es)"
| "add_subtitles view (s # ss) (used, es) =
     (if slash \<in> set (svPath s) \<or> svPath s \<in> set used then add_subtitles view ss (used, es)
      else add_subtitles view ss
             (svPath s # used,
              es @ [\<lparr>reName = svPath s, reView = view, rePath = svPath s, reSize = svSize s,
                     reModifiedAt = svModifiedAt s, reIsSubtitle = True, reIsCategory = False\<rparr>]))"

definition VisibleRootEntries ::
  "(hash \<Rightarrow> string) \<Rightarrow> TorrentView list \<Rightarrow> string list \<Rightarrow> string \<Rightarrow> rootEntry list" where
  "VisibleRootEntries hex views categories category =
     (let reserved = (if category = '''' then categoryReservations categories else []);
          torrents = rootEntriesForCategory hex views category reserved;
          entries = torrents @
            (if category = ''''
             then map (\<lambda>name. \<lparr>reName = name, reView = emptyView, rePath = '''', reSize = 0, reModifiedAt = 0,
                                reIsSubtitle = False, reIsCategory = True\<rparr>) categories
             else []);
          used = map reName entries
      in sort_key reName
           (snd (fold (\<lambda>entry acc. if mediaRoot (reView entry) = None then acc
                                  else add_subtitles (reView entry) (tvSubtitles (reView entry)) acc)
                   torrents (used, entries))))"

subsection \<open>Identity keys and paths\<close>

definition torrentKey :: "(hash \<Rightarrow> string) \<Rightarrow> hash \<Rightarrow> string" where
  "torrentKey hex h = ''t/'' @ hex h"

definition categoryKey :: "string \<Rightarrow> string" where
  "categoryKey category = ''c/'' @ category"

definition fileKey :: "(hash \<Rightarrow> string) \<Rightarrow> hash \<Rightarrow> string \<Rightarrow> string" where
  "fileKey hex h displayPath = ''f/'' @ hex h @ ''/'' @ displayPath"

definition dirKey :: "(hash \<Rightarrow> string) \<Rightarrow> hash \<Rightarrow> string \<Rightarrow> string" where
  "dirKey hex h relPrefix = ''d/'' @ hex h @ ''/'' @ relPrefix"

definition joinRel :: "string \<Rightarrow> string \<Rightarrow> string" where
  "joinRel relPrefix name = (if relPrefix = '''' then name else relPrefix @ ''/'' @ name)"

section \<open>Children of a directory\<close>

text \<open>
  What a path says about a directory: the name of the child it belongs to, and whether it lies deeper
  than that child.
\<close>

definition part_of :: "string \<Rightarrow> item \<Rightarrow> (string \<times> bool) option" where
  "part_of pre it =
     (case CutPrefix (fst it) pre of
        None \<Rightarrow> None
      | Some rest \<Rightarrow> if rest = '''' then None else Some (first_part rest, rest \<noteq> first_part rest))"

text \<open>The path that names a leaf: the first payload file, or else the last subtitle.\<close>

definition leaf_pick :: "string \<Rightarrow> string \<Rightarrow> item list \<Rightarrow> item option" where
  "leaf_pick pre n items =
     (case List.find (\<lambda>it. part_of pre it = Some (n, False) \<and> \<not> fst (snd (snd it))) items of
        Some it \<Rightarrow> Some it
      | None \<Rightarrow> List.find (\<lambda>it. part_of pre it = Some (n, False)) (rev items))"

definition cell_ok :: "string \<Rightarrow> string \<Rightarrow> item list \<Rightarrow> fsEntry option \<Rightarrow> bool" where
  "cell_ok pre n items c \<longleftrightarrow>
     (case c of
        None \<Rightarrow> (\<forall>it \<in> set items. \<forall>d. part_of pre it \<noteq> Some (n, d))
      | Some e \<Rightarrow>
          (\<exists>it \<in> set items. \<exists>d. part_of pre it = Some (n, d))
          \<and> feName e = n
          \<and> feIsDir e = (\<exists>it \<in> set items. part_of pre it = Some (n, True))
          \<and> (\<not> feIsDir e \<longrightarrow> fePath e \<noteq> '''' \<and> leaf_pick pre n items = Some (fePath e, feSize e, feIsSubtitle e, feModifiedAt e)))"

lemma CutPrefix_Some: "CutPrefix s p = Some r \<longleftrightarrow> s = p @ r"
  by (induction s p rule: CutPrefix.induct) auto

lemma part_of_nonempty: "part_of pre it = Some (n, d) \<Longrightarrow> fst it \<noteq> ''''"
  by (auto simp: part_of_def CutPrefix_Some split: option.splits if_splits)

lemma find_None_or_Some: "List.find P xs = None \<longleftrightarrow> (\<forall>x \<in> set xs. \<not> P x)"
  by (auto simp: find_None_iff)

lemma find_append: "List.find P (xs @ ys) = (case List.find P xs of Some x \<Rightarrow> Some x | None \<Rightarrow> List.find P ys)"
  by (induction xs) auto

lemma find_SomeD: "List.find P xs = Some x \<Longrightarrow> x \<in> set xs \<and> P x"
  by (auto simp: find_Some_iff)

lemma leaf_pick_snoc_other:
  "part_of pre it \<noteq> Some (n, False) \<Longrightarrow> leaf_pick pre n (items @ [it]) = leaf_pick pre n items"
  by (auto simp: leaf_pick_def find_append split: option.splits)

lemma leaf_pick_snoc_leaf:
  assumes "part_of pre it = Some (n, False)"
  shows "leaf_pick pre n (items @ [it]) =
           (case leaf_pick pre n items of
              None \<Rightarrow> Some it
            | Some p \<Rightarrow> if fst (snd (snd p)) then Some it else Some p)"
proof (cases "List.find (\<lambda>it. part_of pre it = Some (n, False) \<and> \<not> fst (snd (snd it))) items")
  case None
  have "fst (snd (snd p))" if "leaf_pick pre n items = Some p" for p
    using that None by (auto simp: leaf_pick_def find_None_or_Some dest!: find_SomeD)
  then show ?thesis using None assms
    by (auto simp: leaf_pick_def find_append split: option.splits)
next
  case (Some p)
  then have "\<not> fst (snd (snd p))" by (auto dest!: find_SomeD)
  then show ?thesis using Some by (simp add: leaf_pick_def find_append)
qed

lemma part_of_None_add: "part_of pre it = None \<Longrightarrow> add_path pre it seen = seen"
  by (auto simp: part_of_def add_path_def split: option.splits if_splits)

lemma part_of_Some_add:
  "part_of pre it = Some (n, d) \<Longrightarrow>
     add_path pre it seen =
       aput n (let e = (case map_of seen n of None \<Rightarrow> newEntry n | Some e \<Rightarrow> e)
               in if d then e\<lparr>feIsDir := True\<rparr> else set_leaf it e) seen"
  by (auto simp: part_of_def add_path_def Let_def split: option.splits if_splits)

lemma cell_ok_other:
  "(\<And>d. part_of pre it \<noteq> Some (n, d)) \<Longrightarrow> cell_ok pre n (items @ [it]) c \<longleftrightarrow> cell_ok pre n items c"
  by (auto simp: cell_ok_def leaf_pick_snoc_other split: option.splits)

lemma cell_ok_deep:
  assumes "part_of pre it = Some (n, True)" "cell_ok pre n items c"
  shows "cell_ok pre n (items @ [it]) (Some ((case c of None \<Rightarrow> newEntry n | Some e \<Rightarrow> e)\<lparr>feIsDir := True\<rparr>))"
  using assms by (auto simp: cell_ok_def newEntry_def split: option.splits)

lemma leaf_pick_None_iff:
  "leaf_pick pre n items = None \<longleftrightarrow> (\<forall>it \<in> set items. part_of pre it \<noteq> Some (n, False))"
  by (auto simp: leaf_pick_def find_None_or_Some split: option.splits dest!: find_SomeD)

lemma cell_ok_leaf_new:
  assumes p: "part_of pre it = Some (n, False)" and c: "cell_ok pre n items None"
  shows "cell_ok pre n (items @ [it]) (Some (set_leaf it (newEntry n)))"
proof -
  obtain path sz sub md where it: "it = (path, sz, sub, md)" by (metis prod.collapse)
  have "leaf_pick pre n items = None" using c by (simp add: cell_ok_def leaf_pick_None_iff)
  then have "leaf_pick pre n (items @ [it]) = Some it" by (simp add: leaf_pick_snoc_leaf [OF p])
  moreover have "path \<noteq> ''''" using part_of_nonempty [OF p] it by simp
  moreover have "\<not> (\<exists>x \<in> set (items @ [it]). part_of pre x = Some (n, True))" using c p by (auto simp: cell_ok_def)
  ultimately show ?thesis using p it by (auto simp: cell_ok_def set_leaf_def newEntry_def)
qed

lemma cell_ok_leaf_old:
  assumes p: "part_of pre it = Some (n, False)" and c: "cell_ok pre n items (Some e)"
  shows "cell_ok pre n (items @ [it]) (Some (set_leaf it e))"
proof -
  obtain path sz sub md where it: "it = (path, sz, sub, md)" by (metis prod.collapse)
  have ne: "path \<noteq> ''''" using part_of_nonempty [OF p] it by simp
  have dir: "(\<exists>x \<in> set (items @ [it]). part_of pre x = Some (n, True)) = (\<exists>x \<in> set items. part_of pre x = Some (n, True))"
    using p by auto
  show ?thesis
  proof (cases "feIsDir e")
    case True
    then show ?thesis using c p it by (auto simp: cell_ok_def set_leaf_def)
  next
    case False
    then have l: "leaf_pick pre n items = Some (fePath e, feSize e, feIsSubtitle e, feModifiedAt e)" and pe: "fePath e \<noteq> ''''"
      using c by (auto simp: cell_ok_def)
    have "leaf_pick pre n (items @ [it]) = (if feIsSubtitle e then Some it else Some (fePath e, feSize e, feIsSubtitle e, feModifiedAt e))"
      by (simp add: leaf_pick_snoc_leaf [OF p] l)
    then show ?thesis using c p it ne pe False dir
      by (cases "feIsSubtitle e") (auto simp: cell_ok_def set_leaf_def)
  qed
qed

lemma cell_ok_step:
  assumes "\<And>n. cell_ok pre n items (map_of seen n)"
  shows "cell_ok pre n (items @ [it]) (map_of (add_path pre it seen) n)"
proof (cases "part_of pre it")
  case None
  then show ?thesis using assms [of n] by (simp add: part_of_None_add cell_ok_other)
next
  case (Some md)
  then obtain m d where p: "part_of pre it = Some (m, d)" by (cases md) simp
  show ?thesis
  proof (cases "m = n")
    case False
    then show ?thesis using assms [of n] p by (simp add: part_of_Some_add [OF p] cell_ok_other)
  next
    case True
    with p show ?thesis
      using assms [of n] cell_ok_deep [of pre it n items] cell_ok_leaf_new [of pre it n items] cell_ok_leaf_old [of pre it n items]
      by (cases d; cases "map_of seen n") (force simp: part_of_Some_add Let_def)+
  qed
qed

lemma cell_ok_fold:
  "(\<And>n. cell_ok pre n xs (map_of seen n)) \<Longrightarrow> cell_ok pre n (xs @ items) (map_of (fold (add_path pre) items seen) n)"
proof (induction items arbitrary: xs seen)
  case Nil
  then show ?case by simp
next
  case (Cons it items)
  have "cell_ok pre n ((xs @ [it]) @ items) (map_of (fold (add_path pre) items (add_path pre it seen)) n)"
    by (rule Cons.IH) (rule cell_ok_step [OF Cons.prems])
  then show ?case by simp
qed

lemma distinct_fold_add:
  "distinct (map fst seen) \<Longrightarrow> distinct (map fst (fold (add_path pre) items seen))"
proof (induction items arbitrary: seen)
  case (Cons it items)
  then show ?case by (cases "part_of pre it") (auto simp: part_of_None_add part_of_Some_add)
qed simp

definition all_items :: "FileView list \<Rightarrow> SubtitleView list \<Rightarrow> item list" where
  "all_items files subtitles = file_items files @ subtitle_items subtitles"

lemma seen_ok:
  assumes "seen = fold (add_path pre) (all_items files subtitles) []"
  shows "cell_ok pre n (all_items files subtitles) (map_of seen n)" "distinct (map fst seen)"
  using cell_ok_fold [of pre "[]" "[]" n "all_items files subtitles"] assms
  by (simp_all add: cell_ok_def distinct_fold_add)

lemma childrenOfViews_alt:
  "childrenOfViews files subtitles rel = sort_key feName (map snd (fold (add_path (dir_prefix rel)) (all_items files subtitles) []))"
  by (simp add: childrenOfViews_def all_items_def)

lemma seen_names:
  assumes "seen = fold (add_path pre) (all_items files subtitles) []"
  shows "map (feName \<circ> snd) seen = map fst seen"
proof -
  have "feName e = n" if "(n, e) \<in> set seen" for n e
    using seen_ok(1) [OF assms, of n] map_of_is_SomeI [OF seen_ok(2) [OF assms] that] by (simp add: cell_ok_def)
  then show ?thesis by auto
qed

lemma distinct_map_sort_key: "distinct (map f (sort_key f xs)) \<longleftrightarrow> distinct (map f xs)"
  by (simp add: distinct_map)

lemma children_distinct: "distinct (map feName (childrenOfViews files subtitles rel))"
proof -
  let ?seen = "fold (add_path (dir_prefix rel)) (all_items files subtitles) []"
  have "distinct (map feName (map snd ?seen))"
    unfolding map_map seen_names [OF refl, of "dir_prefix rel" files subtitles] by (rule seen_ok(2)) simp
  then show ?thesis by (simp only: childrenOfViews_alt distinct_map_sort_key)
qed

lemma children_member:
  "e \<in> set (childrenOfViews files subtitles rel)
     \<longleftrightarrow> map_of (fold (add_path (dir_prefix rel)) (all_items files subtitles) []) (feName e) = Some e"
proof -
  let ?seen = "fold (add_path (dir_prefix rel)) (all_items files subtitles) []"
  have d: "distinct (map fst ?seen)" by (rule seen_ok(2) [OF refl])
  have "(feName e, e) \<in> set ?seen" if "(n, e) \<in> set ?seen" for n
  proof -
    have "cell_ok (dir_prefix rel) n (all_items files subtitles) (Some e)"
      using seen_ok(1) [OF refl, of "dir_prefix rel" n files subtitles] map_of_is_SomeI [OF d that] by simp
    then show ?thesis using that by (simp add: cell_ok_def)
  qed
  then have "e \<in> snd ` set ?seen \<longleftrightarrow> (feName e, e) \<in> set ?seen" by force
  then show ?thesis using d by (simp add: childrenOfViews_alt)
qed

text \<open>
  C30: The children of a torrent directory are exactly what the display paths of its files
  and subtitles demand: the names are strictly ascending, a name occurs iff some path passes through
  it, it is a directory iff some path goes deeper, and otherwise it is the leaf of the first payload
  file of that path, or of the last subtitle when there is no payload file.
\<close>

theorem layout_children_spec:
  "sorted_wrt (<) (map feName (childrenOfViews files subtitles rel))
    \<and> (\<forall>n. n \<in> feName ` set (childrenOfViews files subtitles rel)
          \<longleftrightarrow> n \<in> fst ` {p. Some p \<in> part_of (dir_prefix rel) ` set (all_items files subtitles)})
    \<and> (\<forall>e \<in> set (childrenOfViews files subtitles rel).
         feIsDir e = (Some (feName e, True) \<in> part_of (dir_prefix rel) ` set (all_items files subtitles))
         \<and> (feIsDir e \<or> leaf_pick (dir_prefix rel) (feName e) (all_items files subtitles)
                         = Some (fePath e, feSize e, feIsSubtitle e, feModifiedAt e)))"
proof (intro conjI allI ballI)
  let ?es = "childrenOfViews files subtitles rel" and ?items = "all_items files subtitles" and ?pre = "dir_prefix rel"
  let ?seen = "fold (add_path ?pre) ?items []"
  show "sorted_wrt (<) (map feName ?es)"
    using children_distinct [of files subtitles rel]
    by (simp add: childrenOfViews_alt strict_sorted_iff)
  fix n
  have cell: "cell_ok ?pre n ?items (map_of ?seen n)" by (rule seen_ok(1)) simp
  show "n \<in> feName ` set ?es \<longleftrightarrow> n \<in> fst ` {p. Some p \<in> part_of ?pre ` set ?items}"
  proof (cases "map_of ?seen n")
    case None
    then have "n \<notin> feName ` set ?es" by (auto simp: children_member)
    moreover have "\<forall>p. Some p \<in> part_of ?pre ` set ?items \<longrightarrow> fst p \<noteq> n"
    proof (intro allI impI)
      fix p assume "Some p \<in> part_of ?pre ` set ?items"
      then obtain it where "it \<in> set ?items" "part_of ?pre it = Some (fst p, snd p)" by (auto simp: image_iff)
      moreover have "\<forall>it \<in> set ?items. \<forall>d. part_of ?pre it \<noteq> Some (n, d)" using cell None by (simp add: cell_ok_def)
      ultimately show "fst p \<noteq> n" by metis
    qed
    ultimately show ?thesis by blast
  next
    case (Some e)
    then have "feName e = n" "\<exists>it \<in> set ?items. \<exists>d. part_of ?pre it = Some (n, d)"
      using cell by (auto simp: cell_ok_def)
    then have "e \<in> set ?es" "n \<in> fst ` {p. Some p \<in> part_of ?pre ` set ?items}"
      using Some by (auto simp: children_member) force
    then show ?thesis using \<open>feName e = n\<close> by auto
  qed
next
  fix e assume "e \<in> set (childrenOfViews files subtitles rel)"
  then have "cell_ok (dir_prefix rel) (feName e) (all_items files subtitles) (Some e)"
    using seen_ok(1) [OF refl, of "dir_prefix rel" "feName e" files subtitles] by (simp add: children_member)
  then show "feIsDir e = (Some (feName e, True) \<in> part_of (dir_prefix rel) ` set (all_items files subtitles))"
    "feIsDir e \<or> leaf_pick (dir_prefix rel) (feName e) (all_items files subtitles)
                   = Some (fePath e, feSize e, feIsSubtitle e, feModifiedAt e)"
    by (auto simp: cell_ok_def image_iff eq_commute)
qed

theorem layout_children_spec_witness:
  "map (\<lambda>e. (feName e, feIsDir e, feIsSubtitle e, feSize e))
     (childrenOfViews [\<lparr>fvPath = ''s/b.mkv'', fvSize = 7\<rparr>, \<lparr>fvPath = ''s/a/x'', fvSize = 1\<rparr>, \<lparr>fvPath = ''t'', fvSize = 2\<rparr>]
        [\<lparr>svPath = ''s/b.mkv'', svVideoPath = '''', svSize = 3, svModifiedAt = 9\<rparr>,
         \<lparr>svPath = ''s/c.srt'', svVideoPath = '''', svSize = 4, svModifiedAt = 9\<rparr>] ''s'')
     = [(''a'', True, False, 0), (''b.mkv'', False, False, 7), (''c.srt'', False, True, 4)]
   \<and> sorted_wrt (<) (map feName (childrenOfViews [\<lparr>fvPath = ''s/b.mkv'', fvSize = 7\<rparr>] [] ''s''))"
proof (intro conjI)
  show "sorted_wrt (<) (map feName (childrenOfViews [\<lparr>fvPath = ''s/b.mkv'', fvSize = 7\<rparr>] [] ''s''))"
    using layout_children_spec [of "[\<lparr>fvPath = ''s/b.mkv'', fvSize = 7\<rparr>]" "[]" "''s''"] by blast
qed code_simp

section \<open>Names at the mount root\<close>

lemma prefix_name_Some: "prefix_name name hx used is = Some c \<Longrightarrow> c \<notin> set used"
  by (induction "is") (auto simp: Let_def split: if_splits)

lemma numbered_loop_fresh: "numbered_loop name hx used i \<notin> set used"
  by (induction name hx used i rule: numbered_loop.induct) (subst numbered_loop.simps, simp)

lemma uniqueTorrentName_fresh:
  "fst (uniqueTorrentName hex v used) \<notin> set used
   \<and> snd (uniqueTorrentName hex v used) = fst (uniqueTorrentName hex v used) # used"
  using numbered_loop_fresh prefix_name_Some
  by (auto simp: uniqueTorrentName_def Let_def split: option.splits)

lemma name_views_names:
  "distinct (map reName (name_views hex vs used)) \<and> set (map reName (name_views hex vs used)) \<inter> set used = {}
   \<and> map reView (name_views hex vs used) = vs
   \<and> (\<forall>e \<in> set (name_views hex vs used). \<not> reIsCategory e \<and> \<not> reIsSubtitle e)"
proof (induction vs arbitrary: used)
  case (Cons v vs)
  show ?case using Cons.IH [of "fst (uniqueTorrentName hex v used) # used"] uniqueTorrentName_fresh [of hex v used]
    by (auto simp: Let_def split_beta)
qed simp

lemma root_names:
  "distinct (map reName (rootEntriesForCategory hex views category reserved))"
  "set (map reName (rootEntriesForCategory hex views category reserved)) \<inter> set reserved = {}"
  using name_views_names [of hex _ reserved] by (simp_all add: rootEntriesForCategory_def distinct_map_sort_key)

lemma root_views:
  "reView ` set (rootEntriesForCategory hex views category reserved) = {v \<in> set views. tvCategory v = category}"
proof -
  let ?vs = "sort_key tvHash (filter (\<lambda>v. tvCategory v = category) views)"
  have "map reView (name_views hex ?vs reserved) = ?vs" by (simp only: name_views_names)
  then have "set (map reView (name_views hex ?vs reserved)) = set ?vs" by (rule arg_cong)
  then show ?thesis by (auto simp: rootEntriesForCategory_def)
qed

lemma root_flags:
  "e \<in> set (rootEntriesForCategory hex views category reserved) \<Longrightarrow> \<not> reIsCategory e \<and> \<not> reIsSubtitle e"
  using name_views_names [of hex _ reserved] by (auto simp: rootEntriesForCategory_def)

text \<open>What the loops over the subtitles keep: names stay distinct and the used names are recorded.\<close>

definition named_ok :: "string list \<times> rootEntry list \<Rightarrow> bool" where
  "named_ok acc \<longleftrightarrow> distinct (map reName (snd acc)) \<and> set (map reName (snd acc)) \<subseteq> set (fst acc)"

lemma add_subtitles_ok:
  "named_ok acc \<Longrightarrow> named_ok (add_subtitles view ss acc)
     \<and> (\<exists>new. snd (add_subtitles view ss acc) = snd acc @ new
          \<and> (\<forall>e \<in> set new. reIsSubtitle e \<and> \<not> reIsCategory e \<and> slash \<notin> set (reName e) \<and> rePath e = reName e
                \<and> reView e = view))"
proof (induction ss arbitrary: acc)
  case Nil
  then show ?case by (cases acc) simp
next
  case (Cons s ss)
  obtain used es where acc: "acc = (used, es)" by (cases acc)
  show ?case
  proof (cases "slash \<in> set (svPath s) \<or> svPath s \<in> set used")
    case True
    then have "add_subtitles view (s # ss) acc = add_subtitles view ss acc" by (simp add: acc)
    then show ?thesis using Cons by presburger
  next
    case False
    let ?e = "\<lparr>reName = svPath s, reView = view, rePath = svPath s, reSize = svSize s,
                reModifiedAt = svModifiedAt s, reIsSubtitle = True, reIsCategory = False\<rparr>"
    have "named_ok (svPath s # used, es @ [?e])"
      using Cons.prems False by (auto simp: named_ok_def acc)
    from Cons.IH [OF this] show ?thesis using False acc by auto
  qed
qed

abbreviation subtitle_step :: "rootEntry \<Rightarrow> string list \<times> rootEntry list \<Rightarrow> string list \<times> rootEntry list" where
  "subtitle_step entry acc \<equiv> (if mediaRoot (reView entry) = None then acc
                             else add_subtitles (reView entry) (tvSubtitles (reView entry)) acc)"

lemma subtitle_fold_ok:
  "named_ok acc \<Longrightarrow> named_ok (fold subtitle_step ts acc)
     \<and> (\<exists>new. snd (fold subtitle_step ts acc) = snd acc @ new \<and> (\<forall>e \<in> set new. reIsSubtitle e \<and> \<not> reIsCategory e))"
proof (induction ts arbitrary: acc)
  case (Cons t ts)
  have a: "named_ok (subtitle_step t acc)"
    "\<exists>new. snd (subtitle_step t acc) = snd acc @ new \<and> (\<forall>e \<in> set new. reIsSubtitle e \<and> \<not> reIsCategory e)"
    using Cons.prems add_subtitles_ok [OF Cons.prems] by (auto; force)+
  from Cons.IH [OF a(1)] a(2) show ?case by auto
qed simp

definition category_entry :: "string \<Rightarrow> rootEntry" where
  "category_entry name = \<lparr>reName = name, reView = emptyView, rePath = '''', reSize = 0, reModifiedAt = 0,
                          reIsSubtitle = False, reIsCategory = True\<rparr>"

definition listed_entries :: "(hash \<Rightarrow> string) \<Rightarrow> TorrentView list \<Rightarrow> string list \<Rightarrow> string \<Rightarrow> rootEntry list" where
  "listed_entries hex views categories category =
     rootEntriesForCategory hex views category (if category = '''' then categories else [])
     @ (if category = '''' then map category_entry categories else [])"

lemma visible_alt:
  "VisibleRootEntries hex views categories category =
     sort_key reName (snd (fold subtitle_step
        (rootEntriesForCategory hex views category (if category = '''' then categories else []))
        (map reName (listed_entries hex views categories category), listed_entries hex views categories category)))"
  by (simp add: VisibleRootEntries_def categoryReservations_def listed_entries_def category_entry_def [abs_def] Let_def)

lemma listed_ok:
  assumes "distinct categories"
  shows "distinct (map reName (listed_entries hex views categories category))"
proof -
  have c: "map (reName \<circ> category_entry) categories = categories" by (simp add: category_entry_def comp_def)
  show ?thesis
    using root_names [of hex views category "if category = '''' then categories else []"] assms
    by (fastforce simp: listed_entries_def c image_image category_entry_def comp_def)
qed

lemma layout_root_sorted:
  assumes "distinct categories"
  shows "sorted_wrt (<) (map reName (VisibleRootEntries hex views categories category))"
proof -
  let ?l = "listed_entries hex views categories category"
  have "named_ok (map reName ?l, ?l)" using listed_ok [OF assms] by (simp add: named_ok_def)
  note f = subtitle_fold_ok [OF this, of "rootEntriesForCategory hex views category (if category = '''' then categories else [])"]
  have "distinct (map reName (VisibleRootEntries hex views categories category))"
    using f by (simp add: visible_alt distinct_map_sort_key named_ok_def)
  then show ?thesis by (simp add: visible_alt strict_sorted_iff)
qed

text \<open>
  C22: At the mount root and in every category directory the visible names are pairwise
  distinct: no torrent, category or subtitle shadows another. Every torrent of the category is listed, every category
  is listed at the root, and nothing but subtitles is added to them.
\<close>

theorem layout_root_unique:
  assumes "distinct categories"
  shows "sorted_wrt (<) (map reName (VisibleRootEntries hex views categories category))
    \<and> reView ` {e \<in> set (VisibleRootEntries hex views categories category). \<not> reIsCategory e \<and> \<not> reIsSubtitle e}
        = {v \<in> set views. tvCategory v = category}
    \<and> reName ` {e \<in> set (VisibleRootEntries hex views categories category). reIsCategory e}
        = (if category = '''' then set categories else {})"
proof -
  let ?l = "listed_entries hex views categories category"
  have "named_ok (map reName ?l, ?l)" using listed_ok [OF assms] by (simp add: named_ok_def)
  note f = subtitle_fold_ok [OF this, of "rootEntriesForCategory hex views category (if category = '''' then categories else [])"]
  then obtain new where new: "set (VisibleRootEntries hex views categories category) = set ?l \<union> set new"
    "\<forall>e \<in> set new. reIsSubtitle e \<and> \<not> reIsCategory e" by (auto simp: visible_alt)
  note s = layout_root_sorted [OF assms, of hex views category]
  have t: "{e \<in> set (VisibleRootEntries hex views categories category). \<not> reIsCategory e \<and> \<not> reIsSubtitle e}
        = set (rootEntriesForCategory hex views category (if category = '''' then categories else []))"
    using new root_flags [of _ hex views category]
    by (auto simp: listed_entries_def category_entry_def split: if_splits)
  have c: "{e \<in> set (VisibleRootEntries hex views categories category). reIsCategory e}
        = (if category = '''' then category_entry ` set categories else {})"
    using new root_flags [of _ hex views category]
    by (auto simp: listed_entries_def category_entry_def split: if_splits)
  show ?thesis unfolding t c using s root_views by (auto simp: category_entry_def image_image)
qed

theorem layout_root_unique_witness:
  "map reName (VisibleRootEntries id
      [emptyView\<lparr>tvName := ''m'', tvHash := ''aaaaaaaaaa''\<rparr>, emptyView\<lparr>tvName := ''m'', tvHash := ''bbbbbbbbbb''\<rparr>] [''m''] '''')
     = [''m'', ''m-aaaaaaaa'', ''m-bbbbbbbb'']
   \<and> sorted_wrt (<) (map reName (VisibleRootEntries id [emptyView\<lparr>tvName := ''m'', tvHash := ''aaaaaaaaaa''\<rparr>] [''m''] ''''))"
proof (intro conjI)
  show "sorted_wrt (<) (map reName (VisibleRootEntries id [emptyView\<lparr>tvName := ''m'', tvHash := ''aaaaaaaaaa''\<rparr>] [''m''] ''''))"
    using layout_root_unique [of "[''m'']"] by simp
qed code_simp

subsection \<open>A new category\<close>

text \<open>Reserving one more name changes nothing for a torrent that did not get that name.\<close>

lemma prefix_name_more:
  "prefix_name name hx used is \<noteq> Some c \<Longrightarrow> set used' = insert c (set used) \<Longrightarrow>
     prefix_name name hx used' is = prefix_name name hx used is"
  by (induction "is") (auto simp: Let_def split: if_splits)

lemma numbered_loop_more:
  "numbered_loop name hx used i \<noteq> c \<Longrightarrow> set used' = insert c (set used) \<Longrightarrow>
     numbered_loop name hx used' i = numbered_loop name hx used i"
proof (induction name hx used i rule: numbered_loop.induct)
  case (1 name hx used i)
  show ?case
  proof (cases "numbered_name name hx i \<in> set used")
    case True
    then show ?thesis using 1 by (simp add: numbered_loop.simps [of name hx used i] numbered_loop.simps [of name hx used' i])
  next
    case False
    then show ?thesis using "1.prems" by (simp add: numbered_loop.simps [of name hx used i] numbered_loop.simps [of name hx used' i])
  qed
qed

lemma unique_more:
  assumes "fst (uniqueTorrentName hex v used) \<noteq> c" "set used' = insert c (set used)"
  shows "fst (uniqueTorrentName hex v used') = fst (uniqueTorrentName hex v used)"
proof (cases "tvName v \<in> set used")
  case False
  then show ?thesis using assms by (auto simp: uniqueTorrentName_def)
next
  case True
  let ?is = "filter (\<lambda>i. i mod 4 = 0) [8..<Suc (length (hex (tvHash v)))]"
  have ne: "prefix_name (tvName v) (hex (tvHash v)) used ?is \<noteq> Some c"
    using assms(1) True by (auto simp: uniqueTorrentName_def Let_def)
  note p = prefix_name_more [OF ne assms(2)]
  show ?thesis
  proof (cases "prefix_name (tvName v) (hex (tvHash v)) used ?is")
    case None
    then have "numbered_loop (tvName v) (hex (tvHash v)) used 0 \<noteq> c"
      using assms(1) True by (simp add: uniqueTorrentName_def Let_def)
    then show ?thesis
      using True None p assms(2) numbered_loop_more [of "tvName v" "hex (tvHash v)" used 0 c used']
      by (simp add: uniqueTorrentName_def Let_def)
  next
    case (Some cand)
    then show ?thesis using True p assms(2) by (simp add: uniqueTorrentName_def Let_def)
  qed
qed

lemma name_views_more:
  "c \<notin> reName ` set (name_views hex vs used) \<Longrightarrow> set used' = insert c (set used) \<Longrightarrow>
     name_views hex vs used' = name_views hex vs used"
proof (induction vs arbitrary: used used')
  case (Cons v vs)
  have ne: "fst (uniqueTorrentName hex v used) \<noteq> c" using Cons.prems(1) by (auto simp: Let_def split_beta)
  note u = unique_more [OF ne Cons.prems(2)]
  have "name_views hex vs (snd (uniqueTorrentName hex v used')) = name_views hex vs (snd (uniqueTorrentName hex v used))"
    using Cons.prems ne u uniqueTorrentName_fresh [of hex v used] uniqueTorrentName_fresh [of hex v used']
    by (intro Cons.IH) (auto simp: Let_def split_beta)
  then show ?case using u by (simp add: Let_def split_beta)
qed simp

lemma add_subtitles_more:
  "set used' = insert c (set used) \<Longrightarrow> set es' = insert ce (set es) \<Longrightarrow>
   \<not> list_ex (\<lambda>s. slash \<notin> set (svPath s) \<and> svPath s = c) ss \<Longrightarrow>
     set (fst (add_subtitles view ss (used', es'))) = insert c (set (fst (add_subtitles view ss (used, es))))
     \<and> set (snd (add_subtitles view ss (used', es'))) = insert ce (set (snd (add_subtitles view ss (used, es))))"
proof (induction ss arbitrary: used used' es es')
  case (Cons s ss)
  show ?case
  proof (cases "slash \<in> set (svPath s) \<or> svPath s \<in> set used")
    case True
    then show ?thesis using Cons by auto
  next
    case False
    have "svPath s \<notin> set used'" using False Cons.prems by auto
    then show ?thesis using False Cons.prems by (simp add: Cons.IH insert_commute)
  qed
qed auto

lemma subtitle_fold_more:
  "set (fst acc') = insert c (set (fst acc)) \<Longrightarrow> set (snd acc') = insert ce (set (snd acc)) \<Longrightarrow>
   (\<And>t. t \<in> set ts \<Longrightarrow> mediaRoot (reView t) \<noteq> None \<Longrightarrow>
      \<not> list_ex (\<lambda>s. slash \<notin> set (svPath s) \<and> svPath s = c) (tvSubtitles (reView t))) \<Longrightarrow>
     set (snd (fold subtitle_step ts acc')) = insert ce (set (snd (fold subtitle_step ts acc)))"
proof (induction ts arbitrary: acc acc')
  case (Cons t ts)
  have "set (fst (subtitle_step t acc')) = insert c (set (fst (subtitle_step t acc)))
        \<and> set (snd (subtitle_step t acc')) = insert ce (set (snd (subtitle_step t acc)))"
    using Cons.prems(1,2) Cons.prems(3) [of t]
      add_subtitles_more [of "fst acc'" c "fst acc" "snd acc'" ce "snd acc" "tvSubtitles (reView t)" "reView t"]
    by simp
  then show ?case using Cons.IH [of "subtitle_step t acc'" "subtitle_step t acc"] Cons.prems(3) by simp
qed simp

text \<open>
  layout_category_stable: When \<open>CategoryNameConflicts\<close> does not object, publishing the new category adds
  exactly its directory to the mount root: every torrent and every subtitle keeps its name.
\<close>

theorem layout_category_stable:
  assumes "\<not> CategoryNameConflicts hex name views categories" "set categories' = insert name (set categories)"
  shows "set (VisibleRootEntries hex views categories' '''') =
           insert (category_entry name) (set (VisibleRootEntries hex views categories ''''))"
proof -
  let ?vs = "sort_key tvHash (filter (\<lambda>v. tvCategory v = '''') views)"
  have "name \<notin> reName ` set (rootEntriesForCategory hex views '''' categories)"
    using assms(1) by (auto simp: CategoryNameConflicts_def categoryReservations_def list_ex_iff)
  then have r: "rootEntriesForCategory hex views '''' categories' = rootEntriesForCategory hex views '''' categories"
    using name_views_more [OF _ assms(2), of hex ?vs] by (simp add: rootEntriesForCategory_def)
  have l: "set (listed_entries hex views categories' '''') = insert (category_entry name) (set (listed_entries hex views categories ''''))"
    using assms(2) by (auto simp: listed_entries_def r)
  then have u: "set (map reName (listed_entries hex views categories' '''')) = insert name (set (map reName (listed_entries hex views categories '''')))"
    by (simp add: category_entry_def)
  have "\<not> list_ex (\<lambda>s. slash \<notin> set (svPath s) \<and> svPath s = name) (tvSubtitles (reView t))"
    if "t \<in> set (rootEntriesForCategory hex views '''' categories)" "mediaRoot (reView t) \<noteq> None" for t
  proof -
    have "reView t \<in> set views" "tvCategory (reView t) = ''''"
      using root_views [of hex views "''''" categories] that(1) by auto
    moreover have "tvSingleFile (reView t)" using that(2) by (simp add: mediaRoot_def split: if_splits)
    ultimately show ?thesis using assms(1) by (fastforce simp: CategoryNameConflicts_def list_ex_iff)
  qed
  then have "set (snd (fold subtitle_step (rootEntriesForCategory hex views '''' categories)
               (map reName (listed_entries hex views categories' ''''), listed_entries hex views categories' '''')))
             = insert (category_entry name) (set (snd (fold subtitle_step (rootEntriesForCategory hex views '''' categories)
               (map reName (listed_entries hex views categories ''''), listed_entries hex views categories ''''))))"
    using l u by (intro subtitle_fold_more [of _ name]) simp_all
  then show ?thesis by (simp add: visible_alt r)
qed

theorem layout_category_stable_witness:
  "set (VisibleRootEntries id [emptyView\<lparr>tvName := ''m'', tvHash := ''aaaaaaaaaa''\<rparr>] [''b'', ''a''] '''') =
     insert (category_entry ''b'') (set (VisibleRootEntries id [emptyView\<lparr>tvName := ''m'', tvHash := ''aaaaaaaaaa''\<rparr>] [''a''] ''''))"
proof (rule layout_category_stable)
  show "\<not> CategoryNameConflicts id ''b'' [emptyView\<lparr>tvName := ''m'', tvHash := ''aaaaaaaaaa''\<rparr>] [''a'']" by code_simp
qed simp

section \<open>Identity keys\<close>

text \<open>What the keys need of the hexadecimal form of a hash, and the usual form.\<close>

definition hex_ok :: "(hash \<Rightarrow> string) \<Rightarrow> bool" where
  "hex_ok hex \<longleftrightarrow> inj hex \<and> (\<forall>h. slash \<notin> set (hex h))"

lemma hex_bytes_ok: "hex_ok hex_bytes"
proof -
  have "slash \<notin> set (hex_bytes h)" for h
    using slash_not_nibble [symmetric] by (auto simp: hex_bytes_def)
  then show ?thesis using hex_bytes_inj by (auto simp: hex_ok_def inj_def)
qed

lemma slash_split: "a @ slash # p = b @ slash # q \<Longrightarrow> slash \<notin> set a \<Longrightarrow> slash \<notin> set b \<Longrightarrow> a = b \<and> p = q"
proof (induction a arbitrary: b)
  case Nil
  then show ?case by (cases b) auto
next
  case (Cons c a)
  then show ?case by (cases b) auto
qed

text \<open>
  layout_keys_distinct: The identity keys of different objects differ: no two torrents, categories, files
  or directories share one, when the hexadecimal form of a hash determines the hash and has no slash.
\<close>

theorem layout_keys_distinct:
  assumes "hex_ok hex"
  shows "(torrentKey hex h = torrentKey hex h' \<longleftrightarrow> h = h')
    \<and> (fileKey hex h p = fileKey hex h' p' \<longleftrightarrow> h = h' \<and> p = p')
    \<and> (dirKey hex h p = dirKey hex h' p' \<longleftrightarrow> h = h' \<and> p = p')
    \<and> (categoryKey c = categoryKey c' \<longleftrightarrow> c = c')
    \<and> distinct [torrentKey hex h, fileKey hex h' p, dirKey hex h p', categoryKey c, [slash]]"
proof -
  have "hex h @ slash # p = hex h' @ slash # p' \<longleftrightarrow> h = h' \<and> p = p'"
    using assms slash_split [of "hex h" p "hex h'" p'] by (auto simp: hex_ok_def inj_def)
  then show ?thesis using assms
    by (auto simp: torrentKey_def fileKey_def dirKey_def categoryKey_def hex_ok_def inj_def slash_def)
qed

theorem layout_keys_distinct_witness:
  "fileKey hex_bytes ''ab'' ''p'' \<noteq> fileKey hex_bytes ''ac'' ''p''"
  using layout_keys_distinct [OF hex_bytes_ok, of "''ab''" "''ac''" "''p''" "''p''"] by simp

end
