(* ===== verification/Registry.thy ===== *)
theory Registry
  imports Layout
begin

text \<open>
  The lifecycle of torrents and its durable state (\<open>internal/session\<close>: \<open>registry.go\<close>, \<open>manage.go\<close>, \<open>metadata.go\<close>,
  \<open>category.go\<close>, \<open>favorite.go\<close>, the registration of \<open>torrents.go\<close>, the start and the end of \<open>session.go\<close>, and the
  layout guards of \<open>subtitle.go\<close> and \<open>backend.go\<close>).

  Every section that runs under \<open>Session.mu\<close> is one function on the record \<open>Session\<close>, which contains the
  disk. The third-party parsers of metainfo and magnets are the record \<open>parsers\<close>, what the BitTorrent
  client answers, the clock, the random source and the context are arguments. Text of errors is the
  list of the errors it was built from; \<open>[]\<close> is the empty text. A sidecar file holds its entry (the
  JSON round trip is the library's), and every file of the layout is a regular file.
\<close>

section \<open>Data\<close>

datatype TorrentState = StateAdding | StateReady | StateError | StateDeleting | StateDeleteFailed | StateDeleted

datatype life_error =
    ErrNotActive | ErrDeleting | ErrUnknownTorrent | ErrInvalidSource | ErrContext | ErrClient | ErrStorage
  | ErrInvalidEntry | ErrRandom | ErrFavoriteSkip | ErrInvalidCategory | ErrCategoryExists | ErrUnknownCategory
  | ErrCategoryNamespaceConflict | ErrSubtitleNamespaceConflict | ErrForeignOwnedPath | ErrInvalidPendingMagnet
  | ErrInvalidMetainfo | ErrClose | ErrSubtitleCleanup | ErrNoMetainfo | ErrMissingEntry | ErrOlderThan

record registryEntry =
  rgID :: string
  rgInfoHash :: string
  rgName :: string
  rgState :: TorrentState
  rgError :: "life_error list"
  rgOperationID :: string
  rgCreatedAt :: time
  rgUpdatedAt :: time
  rgFavorite :: bool
  rgCategory :: string

record Operation =
  opID :: string
  opTorrentID :: string
  opState :: TorrentState
  opError :: "life_error list"
  opErrorCode :: string
  opCreatedAt :: time
  opUpdatedAt :: time

record CategoryView =
  cvName :: string
  cvCreatedAt :: time

record managedSubtitle =
  msVideoPath :: string
  msPath :: string
  msFormat :: string
  msSize :: int
  msUpdatedAt :: time

text \<open>A torrent object: its files are known once the metainfo has arrived.\<close>

record Torrent =
  tnName :: string
  tnFiles :: "FileView list option"
  tnFilesID :: nat
  tnSingle :: bool

record Spec =
  spHash :: hash
  spName :: string
  spDisplayName :: string

text \<open>
  \<open>pzMeta\<close> is \<open>metainfo.Load\<close> with \<open>TorrentSpecFromMetaInfoErr\<close>, \<open>pzMagnet\<close> is \<open>TorrentSpecFromMagnetUri\<close>, and
  \<open>pzShape\<close> reads the name of the torrent and whether it is a single file.
\<close>

record parsers =
  pzMeta :: "string \<Rightarrow> Spec option"
  pzMagnet :: "string \<Rightarrow> Spec option"
  pzShape :: "string \<Rightarrow> (string \<times> bool) option"

subsection \<open>Disk\<close>

text \<open>
  The files of one torrents directory. The fault script decides the fate of each update in turn: it is
  done, it is not done, it is done but the directory could not be synced, or the power fails before
  it, after which nothing changes any more. Without script every update is done.
\<close>

datatype fault = NoFault | NotDone | NotSynced | PowerOff

record Disk =
  dkFinal :: "(hash \<times> string) list"
  dkPending :: "(hash \<times> string) list"
  dkState :: "(hash \<times> registryEntry) list"
  dkCategories :: "CategoryView list option"
  dkSubtitles :: "hash list"
  dkFaults :: "fault list"
  dkOff :: bool

definition emptyDisk :: Disk where
  "emptyDisk = \<lparr>dkFinal = [], dkPending = [], dkState = [], dkCategories = None, dkSubtitles = [], dkFaults = [], dkOff = False\<rparr>"

definition disk_do :: "(Disk \<Rightarrow> Disk) \<Rightarrow> Disk \<Rightarrow> bool \<times> Disk" where
  "disk_do f d =
     (if dkOff d then (False, d)
      else case dkFaults d of
             [] \<Rightarrow> (True, f d)
           | NoFault # fs \<Rightarrow> (True, f (d\<lparr>dkFaults := fs\<rparr>))
           | NotDone # fs \<Rightarrow> (False, d\<lparr>dkFaults := fs\<rparr>)
           | NotSynced # fs \<Rightarrow> (False, f (d\<lparr>dkFaults := fs\<rparr>))
           | PowerOff # fs \<Rightarrow> (False, d\<lparr>dkFaults := fs, dkOff := True\<rparr>))"

subsection \<open>Session\<close>

record Session =
  ssActive :: bool
  ssTorrents :: "(hash \<times> Torrent) list"
  ssStates :: "(hash \<times> registryEntry) list"
  ssCategories :: "(string \<times> CategoryView) list"
  ssOperations :: "(string \<times> Operation) list"
  ssActiveOps :: "(hash \<times> string) list"
  ssLastOps :: "(hash \<times> string) list"
  ssFetches :: "(hash \<times> bool) list"
  ssSubtitles :: "(hash \<times> (string \<times> managedSubtitle) list) list"
  ssDisk :: Disk

definition ensureActiveLocked :: "Session \<Rightarrow> life_error option" where
  "ensureActiveLocked s = (if ssActive s then None else Some ErrNotActive)"

definition newSession :: "Disk \<Rightarrow> Session" where
  "newSession d =
     \<lparr>ssActive = True, ssTorrents = [], ssStates = [], ssCategories = [], ssOperations = [], ssActiveOps = [], ssLastOps = [],
      ssFetches = [], ssSubtitles = [], ssDisk = d\<rparr>"

definition on_disk :: "(Disk \<Rightarrow> Disk) \<Rightarrow> Session \<Rightarrow> life_error option \<times> Session" where
  "on_disk f s = (case disk_do f (ssDisk s) of (ok, d) \<Rightarrow> (if ok then None else Some ErrStorage, s\<lparr>ssDisk := d\<rparr>))"

definition put_entry :: "hash \<Rightarrow> registryEntry \<Rightarrow> Session \<Rightarrow> Session" where
  "put_entry h e s = s\<lparr>ssStates := aput h e (ssStates s)\<rparr>"

fun firstNonEmpty :: "string list \<Rightarrow> string" where
  "firstNonEmpty [] = ''''"
| "firstNonEmpty (v # vs) = (if v \<noteq> '''' then v else firstNonEmpty vs)"

section \<open>Registry files\<close>

definition parseInfoHash :: "string \<Rightarrow> hash option" where
  "parseInfoHash raw =
     (if length raw \<noteq> 40 then None
      else case unhex raw of None \<Rightarrow> None | Some b \<Rightarrow> if length b = 20 then Some b else None)"

definition validTorrentState :: "TorrentState \<Rightarrow> bool" where
  "validTorrentState st \<longleftrightarrow> st \<in> set [StateAdding, StateReady, StateError, StateDeleting, StateDeleteFailed]"

text \<open>The entry is returned with its new time stamp: the source sets it through the pointer.\<close>

definition writeRegistryEntryLocked ::
  "time \<Rightarrow> registryEntry \<Rightarrow> Session \<Rightarrow> life_error option \<times> registryEntry \<times> Session" where
  "writeRegistryEntryLocked now e s =
     (case parseInfoHash (rgInfoHash e) of
        None \<Rightarrow> (Some ErrInvalidEntry, e, s)
      | Some h \<Rightarrow>
          if rgID e \<noteq> hex_bytes h \<or> rgInfoHash e \<noteq> hex_bytes h then (Some ErrInvalidEntry, e, s)
          else if \<not> validTorrentState (rgState e) \<or> rgState e = StateDeleted then (Some ErrInvalidEntry, e, s)
          else if rgCategory e \<noteq> '''' \<and> map_of (ssCategories s) (rgCategory e) = None then (Some ErrInvalidEntry, e, s)
          else if rgCreatedAt e = 0 then (Some ErrInvalidEntry, e, s)
          else
            let e' = e\<lparr>rgUpdatedAt := now\<rparr>
            in case on_disk (\<lambda>d. d\<lparr>dkState := aput h e' (dkState d)\<rparr>) s of (err, s') \<Rightarrow> (err, e', s'))"

definition removeRegistryEntryLocked :: "hash \<Rightarrow> Session \<Rightarrow> life_error option \<times> Session" where
  "removeRegistryEntryLocked h s =
     (case (if map_of (dkState (ssDisk s)) h = None then (None, s)
            else on_disk (\<lambda>d. d\<lparr>dkState := adel h (dkState d)\<rparr>) s) of
        (Some e, s1) \<Rightarrow> (Some e, s1)
      | (None, s1) \<Rightarrow> (None, s1\<lparr>ssStates := adel h (ssStates s1)\<rparr>))"

definition deletionPendingLocked :: "hash \<Rightarrow> Session \<Rightarrow> bool" where
  "deletionPendingLocked h s =
     (case map_of (ssStates s) h of
        None \<Rightarrow> False
      | Some e \<Rightarrow> rgState e = StateDeleting \<or> rgState e = StateDeleteFailed)"

definition newRegistryEntry :: "time \<Rightarrow> hash \<Rightarrow> string \<Rightarrow> TorrentState \<Rightarrow> registryEntry" where
  "newRegistryEntry now h n st =
     \<lparr>rgID = hex_bytes h, rgInfoHash = hex_bytes h, rgName = n, rgState = st, rgError = [], rgOperationID = '''',
      rgCreatedAt = now, rgUpdatedAt = 0, rgFavorite = False, rgCategory = ''''\<rparr>"

section \<open>Views and layout guards\<close>

definition subtitleViewsLocked :: "hash \<Rightarrow> Session \<Rightarrow> SubtitleView list" where
  "subtitleViewsLocked h s =
     (let records = (case map_of (ssSubtitles s) h of None \<Rightarrow> [] | Some m \<Rightarrow> m)
      in map (\<lambda>p. case map_of records p of
                     Some r \<Rightarrow> \<lparr>svPath = msPath r, svVideoPath = msVideoPath r, svSize = msSize r, svModifiedAt = msUpdatedAt r\<rparr>
                   | None \<Rightarrow> \<lparr>svPath = p, svVideoPath = '''', svSize = 0, svModifiedAt = 0\<rparr>)
           (sort (map fst records)))"

definition torrentContentsLocked :: "hash \<Rightarrow> Session \<Rightarrow> TorrentContents option" where
  "torrentContentsLocked h s =
     (if ensureActiveLocked s \<noteq> None then None
      else case (map_of (ssStates s) h, map_of (ssTorrents s) h) of
             (Some e, Some t) \<Rightarrow>
               if rgState e \<noteq> StateReady then None
               else (case tnFiles t of
                       None \<Rightarrow> None
                     | Some fs \<Rightarrow> Some \<lparr>tcFiles = fs, tcFilesID = Some (tnFilesID t), tcSubtitles = subtitleViewsLocked h s,
                                       tcCreatedAt = rgCreatedAt e, tcSingleFile = tnSingle t\<rparr>)
           | _ \<Rightarrow> None)"

definition filesystemViewsLocked :: "Session \<Rightarrow> TorrentView list" where
  "filesystemViewsLocked s =
     concat (map (\<lambda>h. case (torrentContentsLocked h s, map_of (ssTorrents s) h, map_of (ssStates s) h) of
                        (Some c, Some t, Some e) \<Rightarrow>
                          [\<lparr>tvName = tnName t, tvHash = h, tvCategory = rgCategory e, tvCreatedAt = tcCreatedAt c,
                            tvFiles = tcFiles c, tvFilesID = tcFilesID c, tvSubtitles = tcSubtitles c,
                            tvSingleFile = tcSingleFile c\<rparr>]
                      | _ \<Rightarrow> [])
                  (sort (map fst (filter (\<lambda>x. rgState (snd x) = StateReady) (ssStates s)))))"

definition categoryNamesLocked :: "Session \<Rightarrow> string list" where
  "categoryNamesLocked s = sort (map fst (ssCategories s))"

definition zeroHash :: hash where
  "zeroHash = replicate 20 CHR 0x00"

text \<open>The owner of a name in the map \<open>rootNames\<close>: the last torrent that took it, or a category.\<close>

definition root_owner :: "TorrentView list \<Rightarrow> string list \<Rightarrow> string \<Rightarrow> string \<Rightarrow> hash option" where
  "root_owner views categories cat n =
     (case find (\<lambda>v. tvCategory v = cat \<and> RootNameForWithCategories hex_bytes v views categories = Some n) (rev views) of
        Some v \<Rightarrow> Some (tvHash v)
      | None \<Rightarrow> if cat = '''' \<and> n \<in> set categories then Some zeroHash else None)"

definition subtitle_paths :: "hash \<Rightarrow> Session \<Rightarrow> string list" where
  "subtitle_paths h s = (case map_of (ssSubtitles s) h of None \<Rightarrow> [] | Some m \<Rightarrow> map fst m)"

definition subtitleLayoutConflictLocked :: "TorrentView list \<Rightarrow> Session \<Rightarrow> life_error option" where
  "subtitleLayoutConflictLocked views s =
     (let categories = categoryNamesLocked s
      in if list_ex (\<lambda>v. tvSingleFile v \<and> subtitle_paths (tvHash v) s \<noteq> []
              \<and> (RootNameForWithCategories hex_bytes v views categories \<noteq> Some (tvName v)
                 \<or> list_ex (\<lambda>p. slash \<notin> set p
                     \<and> (case root_owner views categories (tvCategory v) p of None \<Rightarrow> False | Some owner \<Rightarrow> owner \<noteq> tvHash v))
                   (subtitle_paths (tvHash v) s))) views
         then Some ErrSubtitleNamespaceConflict else None)"

definition subtitleNamespaceConflictLocked ::
  "hash \<Rightarrow> string \<Rightarrow> bool \<Rightarrow> string \<Rightarrow> Session \<Rightarrow> life_error option" where
  "subtitleNamespaceConflictLocked candidate name single category s =
     (let existing = filter (\<lambda>v. tvHash v \<noteq> candidate) (filesystemViewsLocked s)
      in if \<not> list_ex (\<lambda>v. tvSingleFile v \<and> subtitle_paths (tvHash v) s \<noteq> []) existing then None
         else subtitleLayoutConflictLocked
                (existing @ [\<lparr>tvName = name, tvHash = candidate, tvCategory = category, tvCreatedAt = 0, tvFiles = [],
                              tvFilesID = None, tvSubtitles = [], tvSingleFile = single\<rparr>]) s)"

definition subtitleCategoryConflictLocked :: "hash \<Rightarrow> string \<Rightarrow> Session \<Rightarrow> life_error option" where
  "subtitleCategoryConflictLocked h category s =
     subtitleLayoutConflictLocked
       (map (\<lambda>v. if tvHash v = h then v\<lparr>tvCategory := category\<rparr> else v) (filesystemViewsLocked s)) s"

section \<open>Metainfo and magnet files\<close>

definition specFromBytes :: "parsers \<Rightarrow> string \<Rightarrow> Spec option" where
  "specFromBytes px data = (if data = '''' then None else pzMeta px data)"

definition specFromMagnet :: "parsers \<Rightarrow> string \<Rightarrow> Spec option" where
  "specFromMagnet px uri = (if uri = '''' then None else pzMagnet px uri)"

definition loadMetainfoFile :: "parsers \<Rightarrow> hash \<Rightarrow> Disk \<Rightarrow> Spec option" where
  "loadMetainfoFile px h d =
     (case map_of (dkFinal d) h of
        None \<Rightarrow> None
      | Some data \<Rightarrow> (case pzMeta px data of None \<Rightarrow> None | Some sp \<Rightarrow> if spHash sp = h then Some sp else None))"

definition readPendingMagnet :: "parsers \<Rightarrow> hash \<Rightarrow> Disk \<Rightarrow> Spec option" where
  "readPendingMagnet px h d =
     (case map_of (dkPending d) h of
        None \<Rightarrow> None
      | Some data \<Rightarrow>
          (case specFromMagnet px (TrimSpace data) of None \<Rightarrow> None | Some sp \<Rightarrow> if spHash sp = h then Some sp else None))"

text \<open>The result tells whether this call created the file.\<close>

definition publishPendingMagnet :: "parsers \<Rightarrow> bool \<Rightarrow> hash \<Rightarrow> string \<Rightarrow> Session \<Rightarrow> (life_error + bool) \<times> Session" where
  "publishPendingMagnet px alive h uri0 s =
     (if \<not> alive then (Inl ErrContext, s)
      else
        let uri = TrimSpace uri0
        in if map_option spHash (specFromMagnet px uri) \<noteq> Some h then (Inl ErrInvalidSource, s)
           else if map_of (dkPending (ssDisk s)) h \<noteq> None
           then (if readPendingMagnet px h (ssDisk s) = None then Inl ErrInvalidPendingMagnet else Inr False, s)
           else case on_disk (\<lambda>d. d\<lparr>dkPending := aput h (uri @ [CHR 0x0A]) (dkPending d)\<rparr>) s of
                  (Some e, s1) \<Rightarrow> (Inl e, s1)
                | (None, s1) \<Rightarrow> (Inr True, s1))"

definition publishMetainfo :: "parsers \<Rightarrow> bool \<Rightarrow> hash \<Rightarrow> string \<Rightarrow> Session \<Rightarrow> (life_error + bool) \<times> Session" where
  "publishMetainfo px alive h data s =
     (if \<not> alive then (Inl ErrContext, s)
      else if map_option spHash (specFromBytes px data) \<noteq> Some h then (Inl ErrInvalidSource, s)
      else if map_of (dkFinal (ssDisk s)) h \<noteq> None
      then (if loadMetainfoFile px h (ssDisk s) = None then Inl ErrInvalidMetainfo else Inr False, s)
      else case on_disk (\<lambda>d. d\<lparr>dkFinal := aput h data (dkFinal d)\<rparr>) s of
             (Some e, s1) \<Rightarrow> (Inl e, s1)
           | (None, s1) \<Rightarrow> (Inr True, s1))"

definition publishGuardedMetainfo :: "parsers \<Rightarrow> bool \<Rightarrow> hash \<Rightarrow> string \<Rightarrow> Session \<Rightarrow> (life_error + bool) \<times> Session" where
  "publishGuardedMetainfo px alive h data s =
     (case pzShape px data of
        None \<Rightarrow> (Inl ErrInvalidMetainfo, s)
      | Some (name, single) \<Rightarrow>
          let category = (case map_of (ssStates s) h of None \<Rightarrow> '''' | Some e \<Rightarrow> rgCategory e)
          in case subtitleNamespaceConflictLocked h name single category s of
               Some e \<Rightarrow> (Inl e, s)
             | None \<Rightarrow> publishMetainfo px alive h data s)"

definition removePendingMagnet :: "parsers \<Rightarrow> hash \<Rightarrow> Session \<Rightarrow> life_error option \<times> Session" where
  "removePendingMagnet px h s =
     (if map_of (dkPending (ssDisk s)) h = None then (None, s)
      else if readPendingMagnet px h (ssDisk s) = None then (Some ErrInvalidPendingMagnet, s)
      else on_disk (\<lambda>d. d\<lparr>dkPending := adel h (dkPending d)\<rparr>) s)"

definition removeFinalMetainfo :: "parsers \<Rightarrow> hash \<Rightarrow> Session \<Rightarrow> life_error option \<times> Session" where
  "removeFinalMetainfo px h s =
     (if map_of (dkFinal (ssDisk s)) h = None then (None, s)
      else if loadMetainfoFile px h (ssDisk s) = None then (Some ErrInvalidMetainfo, s)
      else on_disk (\<lambda>d. d\<lparr>dkFinal := adel h (dkFinal d)\<rparr>) s)"

text \<open>A deletion removes its file even when it cannot be read any more, but never one of another torrent.\<close>

definition removeFinalMetainfoForDelete :: "parsers \<Rightarrow> hash \<Rightarrow> Session \<Rightarrow> life_error option \<times> Session" where
  "removeFinalMetainfoForDelete px h s =
     (case map_of (dkFinal (ssDisk s)) h of
        None \<Rightarrow> (None, s)
      | Some data \<Rightarrow>
          if (case pzMeta px data of None \<Rightarrow> False | Some sp \<Rightarrow> spHash sp \<noteq> h) then (Some ErrForeignOwnedPath, s)
          else on_disk (\<lambda>d. d\<lparr>dkFinal := adel h (dkFinal d)\<rparr>) s)"

definition removePendingMagnetForDelete :: "parsers \<Rightarrow> hash \<Rightarrow> Session \<Rightarrow> life_error option \<times> Session" where
  "removePendingMagnetForDelete px h s =
     (case map_of (dkPending (ssDisk s)) h of
        None \<Rightarrow> (None, s)
      | Some data \<Rightarrow>
          if (case specFromMagnet px (TrimSpace data) of None \<Rightarrow> False | Some sp \<Rightarrow> spHash sp \<noteq> h)
          then (Some ErrForeignOwnedPath, s)
          else on_disk (\<lambda>d. d\<lparr>dkPending := adel h (dkPending d)\<rparr>) s)"

text \<open>The tree of managed subtitles of a torrent is removed as one update.\<close>

definition removeManagedSubtitlesForDelete :: "hash \<Rightarrow> Session \<Rightarrow> life_error option \<times> Session" where
  "removeManagedSubtitlesForDelete h s =
     (if h \<notin> set (dkSubtitles (ssDisk s)) then (None, s)
      else case on_disk (\<lambda>d. d\<lparr>dkSubtitles := removeAll h (dkSubtitles d)\<rparr>) s of
             (Some e, s1) \<Rightarrow> (Some ErrSubtitleCleanup, s1)
           | (None, s1) \<Rightarrow> (None, s1\<lparr>ssSubtitles := adel h (ssSubtitles s1)\<rparr>))"

section \<open>Adding\<close>

text \<open>
  \<open>alive k\<close> tells whether the context is still alive at its \<open>k\<close>-th check; \<open>cl\<close> is the torrent that the client
  returns, None when it refuses. The flag says that the object is new.
\<close>

definition prepareTorrentSpecLocked ::
  "Torrent option \<Rightarrow> (nat \<Rightarrow> bool) \<Rightarrow> hash \<Rightarrow> Session \<Rightarrow> life_error + (Torrent \<times> bool)" where
  "prepareTorrentSpecLocked cl alive h s =
     (if \<not> ssActive s then Inl ErrNotActive
      else if \<not> alive 0 then Inl ErrContext
      else if deletionPendingLocked h s then Inl ErrDeleting
      else case cl of
             None \<Rightarrow> Inl ErrClient
           | Some t \<Rightarrow>
               if \<not> alive 1 then Inl ErrContext
               else (case map_of (ssTorrents s) h of Some existing \<Rightarrow> Inr (existing, False) | None \<Rightarrow> Inr (t, True)))"

definition publishTorrentLocked :: "hash \<Rightarrow> Torrent \<Rightarrow> Session \<Rightarrow> Session" where
  "publishTorrentLocked h t s = s\<lparr>ssTorrents := aput h t (ssTorrents s), ssLastOps := adel h (ssLastOps s)\<rparr>"

definition addTorrentSpecLocked ::
  "Torrent option \<Rightarrow> (nat \<Rightarrow> bool) \<Rightarrow> hash \<Rightarrow> Session \<Rightarrow> (life_error + Torrent) \<times> Session" where
  "addTorrentSpecLocked cl alive h s =
     (case prepareTorrentSpecLocked cl alive h s of
        Inl e \<Rightarrow> (Inl e, s)
      | Inr (t, isNew) \<Rightarrow> (Inr t, if isNew then publishTorrentLocked h t s else s))"

text \<open>A worker that already runs for the torrent is asked to start again.\<close>

definition startMetadataFetch :: "hash \<Rightarrow> Session \<Rightarrow> Session" where
  "startMetadataFetch h s =
     (if map_of (ssFetches s) h \<noteq> None then s\<lparr>ssFetches := aput h True (ssFetches s)\<rparr>
      else if ssActive s then s\<lparr>ssFetches := aput h False (ssFetches s)\<rparr>
      else s)"

text \<open>The entry an add writes: ready with the metainfo at hand, else adding.\<close>

definition added_entry :: "Torrent \<Rightarrow> Spec \<Rightarrow> bool \<Rightarrow> registryEntry \<Rightarrow> registryEntry" where
  "added_entry st spec hasData e =
     (if hasData
      then e\<lparr>rgState := StateReady, rgName := firstNonEmpty [tnName st, spName spec, rgName e], rgError := [], rgOperationID := ''''\<rparr>
      else e\<lparr>rgState := StateAdding, rgName := firstNonEmpty [rgName e, tnName st, spName spec], rgError := [], rgOperationID := ''''\<rparr>)"

definition addManagedLocked ::
  "parsers \<Rightarrow> Torrent option \<Rightarrow> (nat \<Rightarrow> bool) \<Rightarrow> time \<Rightarrow> hash \<Rightarrow> Spec \<Rightarrow> string option \<Rightarrow> string \<Rightarrow> Session
   \<Rightarrow> (life_error + registryEntry) \<times> Session" where
  "addManagedLocked px cl alive now h spec data uri s =
     (if \<not> ssActive s then (Inl ErrNotActive, s)
      else if deletionPendingLocked h s then (Inl ErrDeleting, s)
      else case prepareTorrentSpecLocked cl alive h s of
             Inl e \<Rightarrow> (Inl e, s)
           | Inr (st, clientNew) \<Rightarrow>
               let entry = (case map_of (ssStates s) h of
                              Some e \<Rightarrow> e
                            | None \<Rightarrow> newRegistryEntry now h (firstNonEmpty [tnName st, spName spec])
                                        (if data = None then StateAdding else StateReady))
               in if rgState entry = StateDeleting \<or> rgState entry = StateDeleteFailed then (Inl ErrDeleting, s)
                  else
                    case (case data of
                            Some bytes \<Rightarrow> publishGuardedMetainfo px (alive 2) h bytes s
                          | None \<Rightarrow> publishPendingMagnet px (alive 2) h uri s) of
                      (Inl e, s1) \<Rightarrow> (Inl e, s1)
                    | (Inr created, s1) \<Rightarrow>
                        (case writeRegistryEntryLocked now (added_entry st spec (data \<noteq> None) entry) s1 of
                           (Some e, e', s2) \<Rightarrow>
                             (Inl e,
                              if \<not> created then s2
                              else if data \<noteq> None then snd (removeFinalMetainfo px h s2)
                              else snd (removePendingMagnet px h s2))
                         | (None, e', s2) \<Rightarrow>
                             let s3 = put_entry h e' s2;
                                 s4 = (if clientNew then publishTorrentLocked h st s3 else s3)
                             in (Inr e', if data \<noteq> None then snd (removePendingMagnet px h s4) else startMetadataFetch h s4)))"

text \<open>
  The sources of an add: bytes, a file with its content at the two times it is read, or a magnet.
\<close>

datatype Source = MetainfoBytes string | MetainfoPath "string option" "string option" | MagnetURI string | NoSource

fun specFromSource :: "parsers \<Rightarrow> Source \<Rightarrow> Spec option" where
  "specFromSource px (MetainfoBytes data) = specFromBytes px data"
| "specFromSource px (MetainfoPath first second) = (case first of None \<Rightarrow> None | Some data \<Rightarrow> pzMeta px data)"
| "specFromSource px (MagnetURI uri) = specFromMagnet px uri"
| "specFromSource px NoSource = None"

fun readManagedSource :: "Source \<Rightarrow> life_error + string option" where
  "readManagedSource (MetainfoBytes data) = Inr (if data = '''' then None else Some data)"
| "readManagedSource (MetainfoPath first second) = (case second of None \<Rightarrow> Inl ErrInvalidSource | Some data \<Rightarrow> Inr (Some data))"
| "readManagedSource (MagnetURI uri) = Inr None"
| "readManagedSource NoSource = Inr None"

definition AddTorrentAndPersist ::
  "parsers \<Rightarrow> Torrent option \<Rightarrow> (nat \<Rightarrow> bool) \<Rightarrow> time \<Rightarrow> Source \<Rightarrow> Session \<Rightarrow> (life_error + registryEntry) \<times> Session" where
  "AddTorrentAndPersist px cl alive now src s =
     (case specFromSource px src of
        None \<Rightarrow> (Inl ErrInvalidSource, s)
      | Some spec \<Rightarrow>
          let h = spHash spec
          in if h = zeroHash then (Inl ErrInvalidSource, s)
             else case readManagedSource src of
                    Inl e \<Rightarrow> (Inl e, s)
                  | Inr data \<Rightarrow>
                      (case src of
                         MagnetURI uri \<Rightarrow>
                           (case map_of (dkFinal (ssDisk s)) h of
                              None \<Rightarrow> addManagedLocked px cl alive now h spec None uri s
                            | Some bytes \<Rightarrow>
                                if loadMetainfoFile px h (ssDisk s) = None then (Inl ErrInvalidMetainfo, s)
                                else (case specFromBytes px bytes of
                                        None \<Rightarrow> (Inl ErrInvalidMetainfo, s)
                                      | Some spec' \<Rightarrow>
                                          if spHash spec' \<noteq> h then (Inl ErrInvalidMetainfo, s)
                                          else addManagedLocked px cl alive now h spec' (Some bytes) uri s))
                       | _ \<Rightarrow> addManagedLocked px cl alive now h spec data '''' s))"

section \<open>Magnet metadata\<close>

definition recordMetadataFetchFailure :: "time \<Rightarrow> hash \<Rightarrow> life_error \<Rightarrow> Session \<Rightarrow> Session" where
  "recordMetadataFetchFailure now h err s =
     (case map_of (ssStates s) h of
        None \<Rightarrow> s
      | Some e \<Rightarrow>
          if rgState e = StateDeleting \<or> rgState e = StateDeleteFailed then s
          else case writeRegistryEntryLocked now (e\<lparr>rgState := StateError, rgError := [err]\<rparr>) s of
                 (Some _, _, s1) \<Rightarrow> s1
               | (None, e', s1) \<Rightarrow> put_entry h e' s1)"

text \<open>
  What a worker does once the metainfo has arrived: \<open>bytes\<close> is its encoding, None when it could not be
  encoded, and \<open>spec\<close> its specification.
\<close>

definition finish_fetch ::
  "parsers \<Rightarrow> (nat \<Rightarrow> bool) \<Rightarrow> time \<Rightarrow> hash \<Rightarrow> Torrent \<Rightarrow> string option \<Rightarrow> Session \<Rightarrow> Session" where
  "finish_fetch px alive now h st bytes s =
     (if \<not> alive 0 then s
      else case bytes of
             None \<Rightarrow> recordMetadataFetchFailure now h ErrInvalidMetainfo s
           | Some data \<Rightarrow>
               if \<not> ssActive s \<or> deletionPendingLocked h s then s
               else
                 case publishGuardedMetainfo px (alive 1) h data s of
                   (Inl e, s1) \<Rightarrow>
                     if e = ErrContext \<or> e = ErrDeleting then s1 else recordMetadataFetchFailure now h e s1
                 | (Inr created, s1) \<Rightarrow>
                     (case map_of (ssStates s1) h of
                        None \<Rightarrow>
                          recordMetadataFetchFailure now h ErrMissingEntry
                            (if created then snd (removeFinalMetainfo px h s1) else s1)
                      | Some entry \<Rightarrow>
                          let spn = (case specFromBytes px data of Some sp \<Rightarrow> spName sp | None \<Rightarrow> '''')
                          in case writeRegistryEntryLocked now
                                    (entry\<lparr>rgState := StateReady, rgName := firstNonEmpty [tnName st, spn, rgName entry],
                                           rgError := [], rgOperationID := ''''\<rparr>) s1 of
                               (Some e, _, s2) \<Rightarrow> recordMetadataFetchFailure now h e s2
                             | (None, e', s2) \<Rightarrow> snd (removePendingMagnet px h (put_entry h e' s2))))"

definition retryMetadataFetch :: "time \<Rightarrow> hash \<Rightarrow> Session \<Rightarrow> Session" where
  "retryMetadataFetch now h s =
     (case map_of (ssStates s) h of
        None \<Rightarrow> s
      | Some entry \<Rightarrow>
          if \<not> ssActive s \<or> map_of (ssTorrents s) h = None \<or> rgState entry \<noteq> StateAdding \<and> rgState entry \<noteq> StateError then s
          else case writeRegistryEntryLocked now (entry\<lparr>rgState := StateAdding, rgError := [], rgOperationID := ''''\<rparr>) s of
                 (Some _, _, s1) \<Rightarrow> s1
               | (None, e', s1) \<Rightarrow>
                   let s2 = put_entry h e' s1
                   in if map_of (ssFetches s2) h \<noteq> None then s2 else startMetadataFetch h s2)"

text \<open>The deferred end of a worker: it leaves the table and starts again when it was asked to.\<close>

definition end_fetch :: "time \<Rightarrow> hash \<Rightarrow> Session \<Rightarrow> Session" where
  "end_fetch now h s =
     (let retry = (map_of (ssFetches s) h = Some True); s1 = s\<lparr>ssFetches := adel h (ssFetches s)\<rparr>
      in if retry then retryMetadataFetch now h s1 else s1)"

definition stopMetadataFetch :: "hash \<Rightarrow> Session \<Rightarrow> Session" where
  "stopMetadataFetch h s = s\<lparr>ssFetches := adel h (ssFetches s)\<rparr>"

section \<open>Deleting\<close>

definition findOperation :: "string \<Rightarrow> Session \<Rightarrow> Operation option" where
  "findOperation i s = map_of (ssOperations s) i"

text \<open>The deletion that a call may return without starting one.\<close>

definition known_deletion :: "hash \<Rightarrow> Session \<Rightarrow> Operation option" where
  "known_deletion h s =
     (case (case map_of (ssActiveOps s) h of None \<Rightarrow> None | Some i \<Rightarrow> map_of (ssOperations s) i) of
        Some op \<Rightarrow> Some op
      | None \<Rightarrow>
          (case map_of (ssLastOps s) h of
             None \<Rightarrow> None
           | Some i \<Rightarrow> (case map_of (ssOperations s) i of
                          Some op \<Rightarrow> if opState op = StateDeleted then Some op else None
                        | None \<Rightarrow> None)))"

text \<open>A failed deletion that is tried again keeps its operation.\<close>

definition reuse_operation :: "hash \<Rightarrow> registryEntry \<Rightarrow> Session \<Rightarrow> string" where
  "reuse_operation h entry s =
     (if rgOperationID entry \<noteq> '''' then rgOperationID entry
      else case map_of (ssLastOps s) h of
             None \<Rightarrow> ''''
           | Some i \<Rightarrow> (case map_of (ssOperations s) i of
                          Some op \<Rightarrow> if opState op = StateDeleteFailed then i else ''''
                        | None \<Rightarrow> ''''))"

text \<open>The started worker owns the hash, the torrent object and the operation.\<close>

type_synonym deletion = "hash \<times> Torrent option \<times> string"

definition deleteByHash ::
  "string option \<Rightarrow> time \<Rightarrow> hash \<Rightarrow> bool \<Rightarrow> Session \<Rightarrow> (life_error + Operation) \<times> deletion option \<times> Session" where
  "deleteByHash rnd now h skipFavorites s =
     (if \<not> ssActive s then (Inl ErrNotActive, None, s)
      else case known_deletion h s of
             Some op \<Rightarrow> (Inr op, None, s)
           | None \<Rightarrow>
               (case map_of (ssStates s) h of
                  None \<Rightarrow> (Inl ErrUnknownTorrent, None, s)
                | Some entry \<Rightarrow>
                    if skipFavorites \<and> rgFavorite entry then (Inl ErrFavoriteSkip, None, s)
                    else
                      let reused = reuse_operation h entry s
                      in case (if reused \<noteq> '''' then Some reused else rnd) of
                           None \<Rightarrow> (Inl ErrRandom, None, s)
                         | Some i \<Rightarrow>
                             (case writeRegistryEntryLocked now
                                     (entry\<lparr>rgState := StateDeleting, rgError := [], rgOperationID := i\<rparr>) s of
                                (Some e, _, s1) \<Rightarrow> (Inl e, None, s1)
                              | (None, e', s1) \<Rightarrow>
                                  let op = \<lparr>opID = i, opTorrentID = hex_bytes h, opState = StateDeleting, opError = [],
                                            opErrorCode = '''', opCreatedAt = now, opUpdatedAt = now\<rparr>;
                                      s2 = put_entry h e' s1
                                  in (Inr op, Some (h, map_of (ssTorrents s2) h, i),
                                      s2\<lparr>ssTorrents := adel h (ssTorrents s2), ssOperations := aput i op (ssOperations s2),
                                         ssActiveOps := aput h i (ssActiveOps s2), ssLastOps := aput h i (ssLastOps s2)\<rparr>))))"

definition DeleteTorrent ::
  "string option \<Rightarrow> time \<Rightarrow> string \<Rightarrow> Session \<Rightarrow> (life_error + Operation) \<times> deletion option \<times> Session" where
  "DeleteTorrent rnd now i s =
     (case parseInfoHash i of None \<Rightarrow> (Inl ErrUnknownTorrent, None, s) | Some h \<Rightarrow> deleteByHash rnd now h False s)"

definition performDelete :: "parsers \<Rightarrow> bool \<Rightarrow> hash \<Rightarrow> Torrent option \<Rightarrow> Session \<Rightarrow> life_error list \<times> Session" where
  "performDelete px closeOk h st s =
     (let e0 = (if st \<noteq> None \<and> \<not> closeOk then [ErrClose] else []);
          (e1, s1) = removeFinalMetainfoForDelete px h s;
          (e2, s2) = removePendingMagnetForDelete px h s1;
          (e3, s3) = removeManagedSubtitlesForDelete h s2
      in (e0 @ concat (map (\<lambda>e. case e of None \<Rightarrow> [] | Some x \<Rightarrow> [x]) [e1, e2, e3]), s3))"

definition deleteErrorCode :: "life_error list \<Rightarrow> string" where
  "deleteErrorCode errs = (if ErrSubtitleCleanup \<in> set errs then ''subtitle_cleanup_failed'' else '''')"

definition setDeleteFailedLocked :: "time \<Rightarrow> hash \<Rightarrow> life_error list \<Rightarrow> Session \<Rightarrow> Session" where
  "setDeleteFailedLocked now h errs s =
     (case map_of (ssStates s) h of
        None \<Rightarrow> s
      | Some entry \<Rightarrow>
          (case writeRegistryEntryLocked now (entry\<lparr>rgState := StateDeleteFailed, rgError := errs\<rparr>) s of
             (Some _, _, s1) \<Rightarrow> s1
           | (None, e', s1) \<Rightarrow> put_entry h e' s1))"

definition set_operation :: "string \<Rightarrow> TorrentState \<Rightarrow> life_error list \<Rightarrow> string \<Rightarrow> time \<Rightarrow> Session \<Rightarrow> Session" where
  "set_operation i st errs code now s =
     (case map_of (ssOperations s) i of
        None \<Rightarrow> s
      | Some op \<Rightarrow>
          s\<lparr>ssOperations := aput i (op\<lparr>opState := st, opError := errs, opErrorCode := code, opUpdatedAt := now\<rparr>) (ssOperations s)\<rparr>)"

definition failDeleteLocked :: "time \<Rightarrow> hash \<Rightarrow> string \<Rightarrow> life_error list \<Rightarrow> Session \<Rightarrow> Session" where
  "failDeleteLocked now h i errs s =
     (let s1 = set_operation i StateDeleteFailed errs (deleteErrorCode errs) now (setDeleteFailedLocked now h errs s)
      in s1\<lparr>ssActiveOps := adel h (ssActiveOps s1)\<rparr>)"

definition endDelete :: "time \<Rightarrow> hash \<Rightarrow> string \<Rightarrow> life_error list \<Rightarrow> Session \<Rightarrow> Session" where
  "endDelete now h i errs s =
     (if errs \<noteq> [] then failDeleteLocked now h i errs s
      else case removeRegistryEntryLocked h s of
             (Some e, s1) \<Rightarrow> failDeleteLocked now h i [e] s1
           | (None, s1) \<Rightarrow>
               let s2 = set_operation i StateDeleted [] '''' now s1 in s2\<lparr>ssActiveOps := adel h (ssActiveOps s2)\<rparr>)"

definition runDelete :: "parsers \<Rightarrow> bool \<Rightarrow> time \<Rightarrow> deletion \<Rightarrow> Session \<Rightarrow> Session" where
  "runDelete px closeOk now w s =
     (case w of (h, st, i) \<Rightarrow>
        case performDelete px closeOk h st (stopMetadataFetch h s) of (errs, s1) \<Rightarrow> endDelete now h i errs s1)"

section \<open>Categories and favorites\<close>

text \<open>
  \<open>utf8\<close> is \<open>utf8.ValidString\<close>. The other conditions read the bytes of the name.
\<close>

definition validateCategoryName :: "(string \<Rightarrow> bool) \<Rightarrow> string \<Rightarrow> life_error option" where
  "validateCategoryName utf8 name =
     (if name = '''' \<or> TrimSpace name \<noteq> name \<or> \<not> utf8 name \<or> name = ''.'' \<or> name = ''..''
         \<or> slash \<in> set name \<or> CHR 0x5C \<in> set name \<or> CHR 0x00 \<in> set name \<or> length name > 255
      then Some ErrInvalidCategory else None)"

definition categoryIndexLocked :: "Session \<Rightarrow> CategoryView list" where
  "categoryIndexLocked s = sort_key cvName (map snd (ssCategories s))"

definition writeCategoriesLocked :: "Session \<Rightarrow> life_error option \<times> Session" where
  "writeCategoriesLocked s = on_disk (\<lambda>d. d\<lparr>dkCategories := Some (categoryIndexLocked s)\<rparr>) s"

fun load_categories_loop :: "(string \<Rightarrow> bool) \<Rightarrow> CategoryView list \<Rightarrow> (string \<times> CategoryView) list \<Rightarrow> life_error + (string \<times> CategoryView) list" where
  "load_categories_loop utf8 [] m = Inr m"
| "load_categories_loop utf8 (c # cs) m =
     (case validateCategoryName utf8 (cvName c) of
        Some e \<Rightarrow> Inl e
      | None \<Rightarrow>
          if cvCreatedAt c = 0 then Inl ErrInvalidCategory
          else if map_of m (cvName c) \<noteq> None then Inl ErrCategoryExists
          else load_categories_loop utf8 cs (aput (cvName c) c m))"

text \<open>Every stage of the start gives the next session, or the error with the session it leaves behind.\<close>

type_synonym start_result = "life_error \<times> Session + Session"

definition loadCategories :: "(string \<Rightarrow> bool) \<Rightarrow> Session \<Rightarrow> start_result" where
  "loadCategories utf8 s =
     (case dkCategories (ssDisk s) of
        None \<Rightarrow> Inr s
      | Some cs \<Rightarrow>
          (case load_categories_loop utf8 cs [] of Inl e \<Rightarrow> Inl (e, s) | Inr m \<Rightarrow> Inr (s\<lparr>ssCategories := m\<rparr>)))"

definition ListCategories :: "Session \<Rightarrow> CategoryView list" where
  "ListCategories s = (if ssActive s then categoryIndexLocked s else [])"

definition Categories :: "Session \<Rightarrow> string list" where
  "Categories s = (if ssActive s then categoryNamesLocked s else [])"

definition CreateCategory :: "(string \<Rightarrow> bool) \<Rightarrow> bool \<Rightarrow> time \<Rightarrow> string \<Rightarrow> Session \<Rightarrow> (life_error + CategoryView) \<times> Session" where
  "CreateCategory utf8 alive now name s =
     (if \<not> alive then (Inl ErrContext, s)
      else case validateCategoryName utf8 name of
             Some e \<Rightarrow> (Inl e, s)
           | None \<Rightarrow>
               if \<not> ssActive s then (Inl ErrNotActive, s)
               else if map_of (ssCategories s) name \<noteq> None then (Inl ErrCategoryExists, s)
               else if CategoryNameConflicts hex_bytes name (filesystemViewsLocked s) (categoryNamesLocked s)
               then (Inl ErrCategoryNamespaceConflict, s)
               else
                 let category = \<lparr>cvName = name, cvCreatedAt = now\<rparr>
                 in case writeCategoriesLocked (s\<lparr>ssCategories := aput name category (ssCategories s)\<rparr>) of
                      (Some e, s1) \<Rightarrow> (Inl e, s1\<lparr>ssCategories := adel name (ssCategories s1)\<rparr>)
                    | (None, s1) \<Rightarrow> (Inr category, s1))"

definition SetTorrentCategory ::
  "(string \<Rightarrow> bool) \<Rightarrow> bool \<Rightarrow> time \<Rightarrow> string \<Rightarrow> string \<Rightarrow> Session \<Rightarrow> (life_error + registryEntry) \<times> Session" where
  "SetTorrentCategory utf8 alive now i category s =
     (if \<not> alive then (Inl ErrContext, s)
      else case parseInfoHash i of
             None \<Rightarrow> (Inl ErrUnknownTorrent, s)
           | Some h \<Rightarrow>
               (case (if category = '''' then None else validateCategoryName utf8 category) of
                  Some e \<Rightarrow> (Inl e, s)
                | None \<Rightarrow>
                    if \<not> ssActive s then (Inl ErrNotActive, s)
                    else case map_of (ssStates s) h of
                           None \<Rightarrow> (Inl ErrUnknownTorrent, s)
                         | Some entry \<Rightarrow>
                             if rgState entry = StateDeleting \<or> rgState entry = StateDeleteFailed then (Inl ErrDeleting, s)
                             else if category \<noteq> '''' \<and> map_of (ssCategories s) category = None then (Inl ErrUnknownCategory, s)
                             else if rgCategory entry = category then (Inr entry, s)
                             else case subtitleCategoryConflictLocked h category s of
                                    Some e \<Rightarrow> (Inl e, s)
                                  | None \<Rightarrow>
                                      (case writeRegistryEntryLocked now (entry\<lparr>rgCategory := category\<rparr>) s of
                                         (Some e, _, s1) \<Rightarrow> (Inl e, s1)
                                       | (None, e', s1) \<Rightarrow> (Inr e', put_entry h e' s1))))"

definition SetFavorite :: "time \<Rightarrow> string \<Rightarrow> bool \<Rightarrow> Session \<Rightarrow> (life_error + registryEntry) \<times> Session" where
  "SetFavorite now i favorite s =
     (case parseInfoHash i of
        None \<Rightarrow> (Inl ErrUnknownTorrent, s)
      | Some h \<Rightarrow>
          if \<not> ssActive s then (Inl ErrNotActive, s)
          else case map_of (ssStates s) h of
                 None \<Rightarrow> (Inl ErrUnknownTorrent, s)
               | Some entry \<Rightarrow>
                   if rgState entry = StateDeleting \<or> rgState entry = StateDeleteFailed then (Inl ErrDeleting, s)
                   else (case writeRegistryEntryLocked now (entry\<lparr>rgFavorite := favorite\<rparr>) s of
                           (Some e, _, s1) \<Rightarrow> (Inl e, s1)
                         | (None, e', s1) \<Rightarrow> (Inr e', put_entry h e' s1)))"

record PruneResult =
  prOperations :: "Operation list"
  prExcludedFavorites :: nat
  prFailures :: "(string \<times> life_error) list"

definition prune_candidates :: "time \<Rightarrow> Session \<Rightarrow> hash list" where
  "prune_candidates cutoff s =
     sort_key hex_bytes
       (map fst (filter (\<lambda>x. \<not> (rgState (snd x) = StateDeleting \<or> rgState (snd x) = StateDeleteFailed)
                             \<and> rgCreatedAt (snd x) < cutoff) (ssStates s)))"

text \<open>The batch, with the random source and the clock per deletion; it collects the workers it starts.\<close>

fun prune_loop ::
  "(hash \<Rightarrow> string option) \<Rightarrow> time \<Rightarrow> hash list \<Rightarrow> PruneResult \<Rightarrow> deletion list \<Rightarrow> Session \<Rightarrow> PruneResult \<times> deletion list \<times> Session" where
  "prune_loop rnd now [] r ws s = (r, ws, s)"
| "prune_loop rnd now (h # hs) r ws s =
     (case deleteByHash (rnd h) now h True s of
        (res, w, s1) \<Rightarrow>
          prune_loop rnd now hs
            (case res of
               Inl e \<Rightarrow>
                 if e = ErrFavoriteSkip then r\<lparr>prExcludedFavorites := prExcludedFavorites r + 1\<rparr>
                 else if e = ErrUnknownTorrent \<or> e = ErrDeleting then r
                 else r\<lparr>prFailures := prFailures r @ [(hex_bytes h, e)]\<rparr>
             | Inr op \<Rightarrow> r\<lparr>prOperations := prOperations r @ [op]\<rparr>)
            (ws @ (case w of None \<Rightarrow> [] | Some x \<Rightarrow> [x])) s1)"

definition DeleteUnfavoritedOlderThan ::
  "(hash \<Rightarrow> string option) \<Rightarrow> time \<Rightarrow> int \<Rightarrow> Session \<Rightarrow> (life_error + PruneResult) \<times> deletion list \<times> Session" where
  "DeleteUnfavoritedOlderThan rnd now olderThan s =
     (if olderThan < 0 then (Inl ErrOlderThan, [], s)
      else if \<not> ssActive s then (Inl ErrNotActive, [], s)
      else case prune_loop rnd now (prune_candidates (now - olderThan) s)
                  \<lparr>prOperations = [], prExcludedFavorites = 0, prFailures = []\<rparr> [] s of
             (r, ws, s1) \<Rightarrow> (Inr r, ws, s1))"

definition ListTorrents :: "Session \<Rightarrow> registryEntry list" where
  "ListTorrents s =
     (if \<not> ssActive s then []
      else concat (map (\<lambda>h. case map_of (ssStates s) h of None \<Rightarrow> [] | Some e \<Rightarrow> [e]) (sort_key hex_bytes (map fst (ssStates s)))))"

section \<open>Start and end of a session\<close>

definition validateRegistryEntry :: "hash \<Rightarrow> registryEntry \<Rightarrow> hash option" where
  "validateRegistryEntry file e =
     (if rgID e = '''' \<or> rgInfoHash e = '''' then None
      else case parseInfoHash (rgInfoHash e) of
             None \<Rightarrow> None
           | Some h \<Rightarrow>
               if hex_bytes file \<noteq> hex_bytes h \<or> rgID e \<noteq> hex_bytes h \<or> rgInfoHash e \<noteq> hex_bytes h
                  \<or> \<not> validTorrentState (rgState e) \<or> rgState e = StateDeleted \<or> rgCreatedAt e = 0 \<or> rgUpdatedAt e = 0
               then None else Some h)"

fun load_registry_loop ::
  "string option list \<Rightarrow> time \<Rightarrow> (hash \<times> registryEntry) list \<Rightarrow> Session \<Rightarrow> start_result" where
  "load_registry_loop rnd now [] s = Inr s"
| "load_registry_loop rnd now ((file, e) # es) s =
     (case validateRegistryEntry file e of
        None \<Rightarrow> Inl (ErrInvalidEntry, s)
      | Some h \<Rightarrow>
          if rgCategory e \<noteq> '''' \<and> map_of (ssCategories s) (rgCategory e) = None then Inl (ErrUnknownCategory, s)
          else if rgState e = StateDeleting \<and> rgOperationID e = ''''
          then (case (case rnd of [] \<Rightarrow> None | r # _ \<Rightarrow> r) of
                  None \<Rightarrow> Inl (ErrRandom, s)
                | Some i \<Rightarrow>
                    (case writeRegistryEntryLocked now (e\<lparr>rgOperationID := i\<rparr>) s of
                       (Some er, _, s1) \<Rightarrow> Inl (er, s1)
                     | (None, e', s1) \<Rightarrow> load_registry_loop (tl rnd) now es (put_entry h e' s1)))
          else load_registry_loop rnd now es (put_entry h e s))"

definition loadRegistry :: "string option list \<Rightarrow> time \<Rightarrow> Session \<Rightarrow> start_result" where
  "loadRegistry rnd now s = load_registry_loop rnd now (sort_key (hex_bytes \<circ> fst) (dkState (ssDisk s))) s"

text \<open>The first half of \<open>resumeDeletions\<close> registers the operations, the second runs the deletions in turn.\<close>

fun resume_register ::
  "string option list \<Rightarrow> time \<Rightarrow> hash list \<Rightarrow> deletion list \<Rightarrow> Session \<Rightarrow> (life_error \<times> Session) + (deletion list \<times> Session)" where
  "resume_register rnd now [] ws s = Inr (ws, s)"
| "resume_register rnd now (h # hs) ws s =
     (case map_of (ssStates s) h of
        None \<Rightarrow> Inl (ErrMissingEntry, s)
      | Some entry \<Rightarrow>
          (case (if rgOperationID entry \<noteq> '''' then Inr (rnd, entry, s)
                 else case (case rnd of [] \<Rightarrow> None | r # _ \<Rightarrow> r) of
                        None \<Rightarrow> Inl (ErrRandom, s)
                      | Some i \<Rightarrow>
                          (case writeRegistryEntryLocked now (entry\<lparr>rgOperationID := i\<rparr>) s of
                             (Some er, _, s1) \<Rightarrow> Inl (er, s1)
                           | (None, e', s1) \<Rightarrow> Inr (tl rnd, e', put_entry h e' s1))) of
             Inl er \<Rightarrow> Inl er
           | Inr (rnd', entry', s1) \<Rightarrow>
               let i = rgOperationID entry';
                   op = \<lparr>opID = i, opTorrentID = hex_bytes h, opState = StateDeleting, opError = [], opErrorCode = '''',
                         opCreatedAt = now, opUpdatedAt = now\<rparr>
               in resume_register rnd' now hs (ws @ [(h, map_of (ssTorrents s1) h, i)])
                    (s1\<lparr>ssOperations := aput i op (ssOperations s1), ssActiveOps := aput h i (ssActiveOps s1),
                        ssLastOps := aput h i (ssLastOps s1), ssTorrents := adel h (ssTorrents s1)\<rparr>)))"

definition pending_deletions :: "Session \<Rightarrow> hash list" where
  "pending_deletions s =
     sort_key hex_bytes
       (map fst (filter (\<lambda>x. rgState (snd x) = StateDeleting \<or> rgState (snd x) = StateDeleteFailed) (ssStates s)))"

definition resumeDeletions :: "parsers \<Rightarrow> string option list \<Rightarrow> time \<Rightarrow> Session \<Rightarrow> start_result" where
  "resumeDeletions px rnd now s =
     (case resume_register rnd now (pending_deletions s) [] s of
        Inl e \<Rightarrow> Inl e
      | Inr (ws, s1) \<Rightarrow> Inr (fold (runDelete px True now) ws s1))"

definition updateState :: "TorrentState \<Rightarrow> time \<Rightarrow> hash \<Rightarrow> string \<Rightarrow> Session \<Rightarrow> life_error option \<times> Session" where
  "updateState st now h name s =
     (case map_of (ssStates s) h of
        None \<Rightarrow> (Some ErrMissingEntry, s)
      | Some entry \<Rightarrow>
          (case writeRegistryEntryLocked now
                  (entry\<lparr>rgState := st, rgName := name, rgError := [], rgOperationID := ''''\<rparr>) s of
             (Some e, _, s1) \<Rightarrow> (Some e, s1)
           | (None, e', s1) \<Rightarrow> (None, put_entry h e' s1)))"

text \<open>The sidecar of a restored torrent is written again only when it has to change.\<close>

definition restored_ready :: "time \<Rightarrow> hash \<Rightarrow> registryEntry \<Rightarrow> Torrent \<Rightarrow> Session \<Rightarrow> life_error option \<times> Session" where
  "restored_ready now h entry st s =
     (if rgState entry \<noteq> StateReady \<or> rgName entry \<noteq> tnName st \<or> rgError entry \<noteq> [] \<or> rgOperationID entry \<noteq> ''''
      then updateState StateReady now h (tnName st) s else (None, s))"

text \<open>One round of \<open>restoreRegistryEntries\<close>; \<open>cl\<close> is the torrent the client returns for a specification.\<close>

definition restore_entry :: "parsers \<Rightarrow> (Spec \<Rightarrow> Torrent option) \<Rightarrow> time \<Rightarrow> hash \<Rightarrow> Session \<Rightarrow> start_result" where
  "restore_entry px cl now h s =
     (case map_of (ssStates s) h of
        None \<Rightarrow> Inr s
      | Some entry \<Rightarrow>
          if rgState entry = StateDeleting \<or> rgState entry = StateDeleteFailed then Inr s
          else
            let finalExists = (map_of (dkFinal (ssDisk s)) h \<noteq> None);
                pendingExists = (map_of (dkPending (ssDisk s)) h \<noteq> None)
            in if rgState entry = StateReady \<and> \<not> finalExists then Inl (ErrNoMetainfo, s)
               else if rgState entry \<noteq> StateReady \<and> \<not> finalExists \<and> \<not> pendingExists then Inl (ErrNoMetainfo, s)
               else if finalExists
               then (case loadMetainfoFile px h (ssDisk s) of
                       None \<Rightarrow> Inl (ErrInvalidMetainfo, s)
                     | Some spec \<Rightarrow>
                         if pendingExists \<and> readPendingMagnet px h (ssDisk s) = None then Inl (ErrInvalidPendingMagnet, s)
                         else case addTorrentSpecLocked (cl spec) (\<lambda>_. True) (spHash spec) s of
                                (Inl e, s1) \<Rightarrow> Inl (e, s1)
                              | (Inr st, s1) \<Rightarrow>
                                  (case restored_ready now h entry st s1 of
                                     (Some e, s2) \<Rightarrow> Inl (e, s2)
                                   | (None, s2) \<Rightarrow>
                                       if \<not> pendingExists then Inr s2
                                       else case removePendingMagnet px h s2 of
                                              (err, s3) \<Rightarrow> if err = Some ErrInvalidPendingMagnet then Inl (ErrInvalidPendingMagnet, s3)
                                                           else Inr s3))
               else (case readPendingMagnet px h (ssDisk s) of
                       None \<Rightarrow> Inl (ErrInvalidPendingMagnet, s)
                     | Some spec \<Rightarrow>
                         (case addTorrentSpecLocked (cl spec) (\<lambda>_. True) (spHash spec) s of
                            (Inl e, s1) \<Rightarrow> Inl (e, s1)
                          | (Inr st, s1) \<Rightarrow>
                              (case updateState StateAdding now h
                                      (firstNonEmpty [rgName entry, tnName st, spDisplayName spec]) s1 of
                                 (Some e, s2) \<Rightarrow> Inl (e, s2)
                               | (None, s2) \<Rightarrow> Inr (startMetadataFetch h s2)))))"

fun restore_loop :: "parsers \<Rightarrow> (Spec \<Rightarrow> Torrent option) \<Rightarrow> time \<Rightarrow> hash list \<Rightarrow> Session \<Rightarrow> start_result" where
  "restore_loop px cl now [] s = Inr s"
| "restore_loop px cl now (h # hs) s =
     (case restore_entry px cl now h s of Inl e \<Rightarrow> Inl e | Inr s1 \<Rightarrow> restore_loop px cl now hs s1)"

definition restoreRegistryEntries :: "parsers \<Rightarrow> (Spec \<Rightarrow> Torrent option) \<Rightarrow> time \<Rightarrow> Session \<Rightarrow> start_result" where
  "restoreRegistryEntries px cl now s = restore_loop px cl now (sort_key hex_bytes (map fst (ssStates s))) s"

text \<open>
  The start over the disk that the last session left: categories, registry, interrupted deletions, torrents. The
  directory already has the current layout, and the subtitles of the torrents are restored afterwards.
\<close>

definition startSession ::
  "parsers \<Rightarrow> (string \<Rightarrow> bool) \<Rightarrow> (Spec \<Rightarrow> Torrent option) \<Rightarrow> string option list \<Rightarrow> string option list \<Rightarrow> time \<Rightarrow> Disk
   \<Rightarrow> start_result" where
  "startSession px utf8 cl rnd rnd' now d =
     (case loadCategories utf8 (newSession d) of
        Inl e \<Rightarrow> Inl e
      | Inr s1 \<Rightarrow>
          (case loadRegistry rnd now s1 of
             Inl e \<Rightarrow> Inl e
           | Inr s2 \<Rightarrow>
               (case resumeDeletions px rnd' now s2 of
                  Inl e \<Rightarrow> Inl e
                | Inr s3 \<Rightarrow> restoreRegistryEntries px cl now s3)))"

text \<open>\<open>Close\<close> refuses new work first and forgets everything in memory when the workers have ended.\<close>

definition beginClose :: "Session \<Rightarrow> Session" where
  "beginClose s = s\<lparr>ssActive := False\<rparr>"

definition endClose :: "Session \<Rightarrow> Session" where
  "endClose s = (newSession (ssDisk s))\<lparr>ssActive := False\<rparr>"

end
