(* ===== verification/Durability.thy ===== *)
theory Durability
  imports Registry
begin

text \<open>
  What the registry promises across failures: the sidecars mirror the memory of the session, and
  whatever step the power fails at, the next start finds a consistent directory and restores it.
\<close>

section \<open>A directory that can be restored\<close>

definition files_ok :: "parsers \<Rightarrow> Disk \<Rightarrow> bool" where
  "files_ok px d \<longleftrightarrow>
     (\<forall>h data. map_of (dkFinal d) h = Some data \<longrightarrow> map_option spHash (pzMeta px data) = Some h)
     \<and> (\<forall>h data. map_of (dkPending d) h = Some data \<longrightarrow> map_option spHash (specFromMagnet px (TrimSpace data)) = Some h)"

definition restorable :: "Disk \<Rightarrow> hash \<Rightarrow> registryEntry \<Rightarrow> bool" where
  "restorable d h e \<longleftrightarrow>
     rgState e = StateDeleting \<or> rgState e = StateDeleteFailed
     \<or> rgState e = StateReady \<and> map_of (dkFinal d) h \<noteq> None
     \<or> (rgState e = StateAdding \<or> rgState e = StateError) \<and> (map_of (dkFinal d) h \<noteq> None \<or> map_of (dkPending d) h \<noteq> None)"

definition disk_categories :: "Disk \<Rightarrow> CategoryView list" where
  "disk_categories d = (case dkCategories d of None \<Rightarrow> [] | Some cs \<Rightarrow> cs)"

definition category_ok :: "(string \<Rightarrow> bool) \<Rightarrow> CategoryView \<Rightarrow> bool" where
  "category_ok utf8 c \<longleftrightarrow> validateCategoryName utf8 (cvName c) = None \<and> cvCreatedAt c \<noteq> 0"

definition known_category :: "Disk \<Rightarrow> string \<Rightarrow> bool" where
  "known_category d c \<longleftrightarrow> c = '''' \<or> c \<in> cvName ` set (disk_categories d)"

definition entry_ok :: "Disk \<Rightarrow> hash \<Rightarrow> registryEntry \<Rightarrow> bool" where
  "entry_ok d h e \<longleftrightarrow> validateRegistryEntry h e = Some h \<and> restorable d h e \<and> known_category d (rgCategory e)"

definition disk_ok :: "parsers \<Rightarrow> (string \<Rightarrow> bool) \<Rightarrow> Disk \<Rightarrow> bool" where
  "disk_ok px utf8 d \<longleftrightarrow>
     files_ok px d
     \<and> (\<forall>c \<in> set (disk_categories d). category_ok utf8 c) \<and> distinct (map cvName (disk_categories d))
     \<and> distinct (map fst (dkState d)) \<and> (\<forall>h e. map_of (dkState d) h = Some e \<longrightarrow> entry_ok d h e)"

text \<open>
  While the power is on, the entries of the hashes in \<open>K\<close> are those of the disk and there are no others,
  and the categories are those of the disk.
\<close>

definition mirror :: "hash set \<Rightarrow> Session \<Rightarrow> bool" where
  "mirror K s \<longleftrightarrow> distinct (map fst (ssStates s)) \<and> (\<forall>h. map_of (ssStates s) h = (if h \<in> K then map_of (dkState (ssDisk s)) h else None))"

definition categories_mirror :: "(string \<Rightarrow> bool) \<Rightarrow> Session \<Rightarrow> bool" where
  "categories_mirror utf8 s \<longleftrightarrow>
     distinct (map fst (ssCategories s))
     \<and> (\<forall>n c. map_of (ssCategories s) n = Some c \<longrightarrow> cvName c = n \<and> category_ok utf8 c)
     \<and> fst ` set (ssCategories s) = cvName ` set (disk_categories (ssDisk s))"

abbreviation powered :: "Session \<Rightarrow> bool" where
  "powered s \<equiv> \<not> dkOff (ssDisk s)"

definition durable :: "parsers \<Rightarrow> (string \<Rightarrow> bool) \<Rightarrow> hash set \<Rightarrow> Session \<Rightarrow> bool" where
  "durable px utf8 K s \<longleftrightarrow>
     NotSynced \<notin> set (dkFaults (ssDisk s)) \<and> disk_ok px utf8 (ssDisk s)
     \<and> (powered s \<longrightarrow> mirror K s \<and> categories_mirror utf8 s)"

named_theorems disk_simps

lemma disk_ok_env [disk_simps]:
  "disk_ok px utf8 (d\<lparr>dkFaults := fs\<rparr>) = disk_ok px utf8 d" "disk_ok px utf8 (d\<lparr>dkOff := b\<rparr>) = disk_ok px utf8 d"
  "disk_ok px utf8 (d\<lparr>dkSubtitles := hs\<rparr>) = disk_ok px utf8 d"
  by (simp_all add: disk_ok_def files_ok_def entry_ok_def restorable_def known_category_def disk_categories_def)

section \<open>One update of the disk\<close>

lemma on_disk_cases:
  assumes "on_disk f s = (err, s')" "NotSynced \<notin> set (dkFaults (ssDisk s))"
  obtains (Done) fs where "err = None" "powered s" "set fs \<subseteq> set (dkFaults (ssDisk s))"
      "s' = s\<lparr>ssDisk := f ((ssDisk s)\<lparr>dkFaults := fs\<rparr>)\<rparr>"
  | (Failed) fs b where "err = Some ErrStorage" "set fs \<subseteq> set (dkFaults (ssDisk s))" "dkOff (ssDisk s) \<longrightarrow> b"
      "s' = s\<lparr>ssDisk := (ssDisk s)\<lparr>dkFaults := fs, dkOff := b\<rparr>\<rparr>"
proof -
  let ?d = "ssDisk s"
  consider (off) "dkOff ?d" | (nil) "\<not> dkOff ?d" "dkFaults ?d = []" | (cons) x fs where "\<not> dkOff ?d" "dkFaults ?d = x # fs"
    by (cases "dkFaults ?d") auto
  then show thesis
  proof cases
    case off
    then have "err = Some ErrStorage" "s' = s" using assms(1) by (auto simp: on_disk_def disk_do_def)
    then show thesis using off by (intro Failed [of "dkFaults ?d" True]) simp_all
  next
    case nil
    then have "err = None" "s' = s\<lparr>ssDisk := f ?d\<rparr>" using assms(1) by (auto simp: on_disk_def disk_do_def)
    moreover have e: "?d\<lparr>dkFaults := []\<rparr> = ?d" using nil(2) by (metis Disk.surjective Disk.update_convs(6) Disk.select_convs(6))
    ultimately have "s' = s\<lparr>ssDisk := f (?d\<lparr>dkFaults := []\<rparr>)\<rparr>" by (simp only: e)
    then show thesis using nil(1) \<open>err = None\<close> by (intro Done [of "[]"]) simp_all
  next
    case (cons x fs)
    then have x: "x \<noteq> NotSynced" using assms(2) by auto
    show thesis
    proof (cases x)
      case NoFault
      then show thesis using assms(1) cons by (intro Done [of fs]) (auto simp: on_disk_def disk_do_def)
    next
      case NotDone
      then show thesis using assms(1) cons by (intro Failed [of fs False]) (auto simp: on_disk_def disk_do_def)
    next
      case PowerOff
      then show thesis using assms(1) cons by (intro Failed [of fs True]) (auto simp: on_disk_def disk_do_def)
    qed (use x in simp)
  qed
qed

text \<open>A failed update changes nothing but what is left of the script, and keeps the invariant.\<close>

definition quiet :: "Session \<Rightarrow> Session \<Rightarrow> bool" where
  "quiet s s' \<longleftrightarrow> (\<exists>fs b. (dkOff (ssDisk s) \<longrightarrow> b) \<and> s' = s\<lparr>ssDisk := (ssDisk s)\<lparr>dkFaults := fs, dkOff := b\<rparr>\<rparr>)"

lemma quiet_refl [simp]: "quiet s s"
proof -
  have "s = s\<lparr>ssDisk := (ssDisk s)\<lparr>dkFaults := dkFaults (ssDisk s), dkOff := dkOff (ssDisk s)\<rparr>\<rparr>" by simp
  then show ?thesis unfolding quiet_def by blast
qed

lemma quiet_fields:
  assumes "quiet s s'"
  shows "ssActive s' = ssActive s" "ssTorrents s' = ssTorrents s" "ssStates s' = ssStates s" "ssCategories s' = ssCategories s"
    "ssOperations s' = ssOperations s" "ssActiveOps s' = ssActiveOps s" "ssLastOps s' = ssLastOps s" "ssFetches s' = ssFetches s"
    "ssSubtitles s' = ssSubtitles s" "dkFinal (ssDisk s') = dkFinal (ssDisk s)" "dkPending (ssDisk s') = dkPending (ssDisk s)"
    "dkState (ssDisk s') = dkState (ssDisk s)" "dkCategories (ssDisk s') = dkCategories (ssDisk s)"
    "dkSubtitles (ssDisk s') = dkSubtitles (ssDisk s)" "powered s' \<Longrightarrow> powered s"
  using assms by (auto simp: quiet_def)

lemma durable_failed:
  assumes "durable px utf8 K s" "set fs \<subseteq> set (dkFaults (ssDisk s))" "dkOff (ssDisk s) \<longrightarrow> b"
  shows "durable px utf8 K (s\<lparr>ssDisk := (ssDisk s)\<lparr>dkFaults := fs, dkOff := b\<rparr>\<rparr>)"
  using assms by (auto simp: durable_def disk_simps mirror_def categories_mirror_def disk_categories_def)

section \<open>Sidecars\<close>

lemma parseInfoHash_hex: "parseInfoHash (hex_bytes h) = Some h' \<Longrightarrow> h' = h \<and> length h = 20"
  by (auto simp: parseInfoHash_def split: if_splits)

lemma parse_own: "length h = 20 \<Longrightarrow> parseInfoHash (hex_bytes h) = Some h"
  by (auto simp: parseInfoHash_def hex_bytes_length)

lemma validate_entry_iff:
  "validateRegistryEntry h e = Some h \<longleftrightarrow>
     length h = 20 \<and> rgID e = hex_bytes h \<and> rgInfoHash e = hex_bytes h \<and> validTorrentState (rgState e) \<and> rgState e \<noteq> StateDeleted
     \<and> rgCreatedAt e \<noteq> 0 \<and> rgUpdatedAt e \<noteq> 0"
proof -
  have "parseInfoHash (hex_bytes h) = (if length h = 20 then Some h else None)"
    by (auto simp: parseInfoHash_def hex_bytes_length)
  moreover have "length h = 20 \<Longrightarrow> hex_bytes h \<noteq> ''''" using hex_bytes_length [of h] by auto
  ultimately show ?thesis
    by (auto simp: validateRegistryEntry_def hexc.encode_inj split: option.splits if_splits dest: parseInfoHash_hex)
qed

text \<open>
  The outcome of a write for the entry of \<open>h\<close>: it fails and the files are as before, or the sidecar is replaced.
\<close>

lemma write_cases:
  assumes "writeRegistryEntryLocked now e s = (err, e', s')" "rgInfoHash e = hex_bytes h" "NotSynced \<notin> set (dkFaults (ssDisk s))" "now \<noteq> 0"
  obtains (Done) fs where "err = None" "e' = e\<lparr>rgUpdatedAt := now\<rparr>" "powered s" "set fs \<subseteq> set (dkFaults (ssDisk s))"
      "s' = s\<lparr>ssDisk := (ssDisk s)\<lparr>dkFaults := fs, dkState := aput h e' (dkState (ssDisk s))\<rparr>\<rparr>"
      "validateRegistryEntry h e' = Some h" "rgCategory e = '''' \<or> map_of (ssCategories s) (rgCategory e) \<noteq> None"
  | (Failed) fs b where "err \<noteq> None" "set fs \<subseteq> set (dkFaults (ssDisk s))" "dkOff (ssDisk s) \<longrightarrow> b"
      "s' = s\<lparr>ssDisk := (ssDisk s)\<lparr>dkFaults := fs, dkOff := b\<rparr>\<rparr>"
proof (cases "parseInfoHash (rgInfoHash e) = Some h \<and> rgID e = hex_bytes h \<and> validTorrentState (rgState e) \<and> rgState e \<noteq> StateDeleted
    \<and> (rgCategory e = '''' \<or> map_of (ssCategories s) (rgCategory e) \<noteq> None) \<and> rgCreatedAt e \<noteq> 0")
  case True
  let ?e = "e\<lparr>rgUpdatedAt := now\<rparr>"
  from True assms(1,2) have w: "on_disk (\<lambda>d. d\<lparr>dkState := aput h ?e (dkState d)\<rparr>) s = (err, s')" "e' = ?e"
    by (auto simp: writeRegistryEntryLocked_def Let_def split: prod.splits)
  have v: "validateRegistryEntry h e' = Some h"
    using True assms(2,4) w(2) parseInfoHash_hex [of h h] by (simp add: validate_entry_iff)
  show thesis
  proof (rule on_disk_cases [OF w(1) assms(3)])
    fix fs assume "err = None" "powered s" "set fs \<subseteq> set (dkFaults (ssDisk s))"
      "s' = s\<lparr>ssDisk := (ssDisk s)\<lparr>dkFaults := fs\<rparr>\<lparr>dkState := aput h ?e (dkState ((ssDisk s)\<lparr>dkFaults := fs\<rparr>))\<rparr>\<rparr>"
    then show thesis using w(2) v True by (intro Done [of fs]) simp_all
  next
    fix fs b assume "err = Some ErrStorage" "set fs \<subseteq> set (dkFaults (ssDisk s))" "dkOff (ssDisk s) \<longrightarrow> b"
      "s' = s\<lparr>ssDisk := (ssDisk s)\<lparr>dkFaults := fs, dkOff := b\<rparr>\<rparr>"
    then show thesis by (intro Failed [of fs b]) simp_all
  qed
next
  case False
  have "parseInfoHash (rgInfoHash e) = Some h' \<Longrightarrow> h' = h" for h' using parseInfoHash_hex assms(2) by simp
  then have "err \<noteq> None" "s' = s" using False assms(1,2)
    by (auto simp: writeRegistryEntryLocked_def Let_def split: option.splits if_splits prod.splits)
  moreover have "s = s\<lparr>ssDisk := (ssDisk s)\<lparr>dkFaults := dkFaults (ssDisk s), dkOff := dkOff (ssDisk s)\<rparr>\<rparr>" by simp
  ultimately show thesis by (intro Failed [of "dkFaults (ssDisk s)" "dkOff (ssDisk s)"]) simp_all
qed

lemma entry_ok_other:
  "entry_ok (d\<lparr>dkState := m\<rparr>) h e = entry_ok d h e" "entry_ok (d\<lparr>dkFaults := fs\<rparr>) h e = entry_ok d h e"
  by (simp_all add: entry_ok_def restorable_def known_category_def disk_categories_def)

lemma disk_ok_put:
  assumes "disk_ok px utf8 d" "entry_ok d h e"
  shows "disk_ok px utf8 (d\<lparr>dkFaults := fs, dkState := aput h e (dkState d)\<rparr>)"
  using assms by (auto simp: disk_ok_def files_ok_def disk_categories_def entry_ok_other entry_ok_def restorable_def known_category_def)

lemma disk_ok_drop:
  assumes "disk_ok px utf8 d"
  shows "disk_ok px utf8 (d\<lparr>dkFaults := fs, dkState := adel h (dkState d)\<rparr>)"
  using assms by (auto simp: disk_ok_def files_ok_def disk_categories_def entry_ok_def restorable_def known_category_def)

text \<open>
  Writing a sidecar and then the memory: the invariant is kept when the written entry is restorable. Of a failed
  write only the invariant is known, of a successful one also its exact effect.
\<close>

lemma write_put:
  assumes "durable px utf8 K s" "writeRegistryEntryLocked now e s = (err, e', s')" "rgInfoHash e = hex_bytes h" "now \<noteq> 0"
    "powered s \<Longrightarrow> restorable (ssDisk s) h e"
  shows "err \<noteq> None \<Longrightarrow> durable px utf8 K s'"
    "err \<noteq> None \<Longrightarrow> quiet s s'"
    "err = None \<Longrightarrow> durable px utf8 (insert h K) (put_entry h e' s')"
    "err = None \<Longrightarrow> powered s \<and> e' = e\<lparr>rgUpdatedAt := now\<rparr>
       \<and> (\<exists>fs. s' = s\<lparr>ssDisk := (ssDisk s)\<lparr>dkFaults := fs, dkState := aput h e' (dkState (ssDisk s))\<rparr>\<rparr>)"
proof -
  have ns: "NotSynced \<notin> set (dkFaults (ssDisk s))" using assms(1) by (simp add: durable_def)
  have "(err \<noteq> None \<longrightarrow> durable px utf8 K s' \<and> quiet s s')
    \<and> (err = None \<longrightarrow> durable px utf8 (insert h K) (put_entry h e' s') \<and> powered s \<and> e' = e\<lparr>rgUpdatedAt := now\<rparr>
       \<and> (\<exists>fs. s' = s\<lparr>ssDisk := (ssDisk s)\<lparr>dkFaults := fs, dkState := aput h e' (dkState (ssDisk s))\<rparr>\<rparr>))"
    using assms(2,3) ns assms(4)
  proof (cases rule: write_cases)
    case (Done fs)
    have c: "known_category (ssDisk s) (rgCategory e)"
    proof -
      have "rgCategory e \<in> fst ` set (ssCategories s)" if "rgCategory e \<noteq> ''''"
        using Done(7) that by (auto simp: map_of_eq_None_iff)
      then show ?thesis using assms(1) Done(3) by (auto simp: known_category_def durable_def categories_mirror_def)
    qed
    have "entry_ok (ssDisk s) h e'"
      using Done c assms(5) by (simp add: entry_ok_def restorable_def)
    then have "disk_ok px utf8 ((ssDisk s)\<lparr>dkFaults := fs, dkState := aput h e' (dkState (ssDisk s))\<rparr>)"
      using assms(1) disk_ok_put by (simp add: durable_def)
    moreover have "mirror (insert h K) (put_entry h e' s')" "categories_mirror utf8 (put_entry h e' s')"
      using assms(1) Done(3) unfolding Done(5) by (auto simp: durable_def mirror_def put_entry_def categories_mirror_def disk_categories_def)
    moreover have "NotSynced \<notin> set fs" using Done(4) ns by blast
    ultimately have "durable px utf8 (insert h K) (put_entry h e' s')"
      unfolding durable_def by (simp add: Done(5) put_entry_def)
    then show ?thesis using Done(1,2,3,5) by blast
  next
    case (Failed fs b)
    have "durable px utf8 K s'" "quiet s s'"
      using durable_failed [OF assms(1) Failed(2,3)] Failed(3,4) unfolding quiet_def by blast+
    then show ?thesis using Failed(1) by blast
  qed
  then show "err \<noteq> None \<Longrightarrow> durable px utf8 K s'"
    "err \<noteq> None \<Longrightarrow> quiet s s'"
    "err = None \<Longrightarrow> durable px utf8 (insert h K) (put_entry h e' s')"
    "err = None \<Longrightarrow> powered s \<and> e' = e\<lparr>rgUpdatedAt := now\<rparr>
       \<and> (\<exists>fs. s' = s\<lparr>ssDisk := (ssDisk s)\<lparr>dkFaults := fs, dkState := aput h e' (dkState (ssDisk s))\<rparr>\<rparr>)"
    by blast+
qed

text \<open>The memory apart from the entries and the categories does not matter.\<close>

lemma durable_memory [simp]:
  "durable px utf8 K (s\<lparr>ssActive := a\<rparr>) = durable px utf8 K s" "durable px utf8 K (s\<lparr>ssTorrents := b\<rparr>) = durable px utf8 K s"
  "durable px utf8 K (s\<lparr>ssOperations := c\<rparr>) = durable px utf8 K s" "durable px utf8 K (s\<lparr>ssActiveOps := e\<rparr>) = durable px utf8 K s"
  "durable px utf8 K (s\<lparr>ssLastOps := f\<rparr>) = durable px utf8 K s" "durable px utf8 K (s\<lparr>ssFetches := g\<rparr>) = durable px utf8 K s"
  "durable px utf8 K (s\<lparr>ssSubtitles := i\<rparr>) = durable px utf8 K s"
  by (simp_all add: durable_def mirror_def categories_mirror_def)

lemma durable_publishTorrent [simp]: "durable px utf8 K (publishTorrentLocked h t s) = durable px utf8 K s"
proof -
  have "publishTorrentLocked h t s = s\<lparr>ssTorrents := aput h t (ssTorrents s)\<rparr>\<lparr>ssLastOps := adel h (ssLastOps s)\<rparr>"
    by (simp add: publishTorrentLocked_def)
  then show ?thesis by (simp only: durable_memory)
qed

lemma durable_startFetch [simp]: "durable px utf8 K (startMetadataFetch h s) = durable px utf8 K s"
  by (simp add: startMetadataFetch_def)

text \<open>While the power is on, the entries in memory are sound.\<close>

lemma durable_entry:
  assumes "durable px utf8 UNIV s" "map_of (ssStates s) h = Some e" "powered s"
  shows "map_of (dkState (ssDisk s)) h = Some e" "entry_ok (ssDisk s) h e" "rgInfoHash e = hex_bytes h" "restorable (ssDisk s) h e"
proof -
  show d: "map_of (dkState (ssDisk s)) h = Some e" using assms by (simp add: durable_def mirror_def)
  show e: "entry_ok (ssDisk s) h e" using d assms(1) by (simp add: durable_def disk_ok_def)
  show "rgInfoHash e = hex_bytes h" "restorable (ssDisk s) h e" using e by (auto simp: entry_ok_def validate_entry_iff)
qed

lemma on_disk_off: "dkOff (ssDisk s) \<Longrightarrow> on_disk f s = (Some ErrStorage, s)"
  by (simp add: on_disk_def disk_do_def)

lemma write_off: "dkOff (ssDisk s) \<Longrightarrow> writeRegistryEntryLocked now e s = (err, e', s') \<Longrightarrow> err \<noteq> None \<and> s' = s"
  by (auto simp: writeRegistryEntryLocked_def Let_def on_disk_off split: option.splits if_splits)

text \<open>The rule for every operation that writes one entry and then stores it in memory.\<close>

lemma update_entry:
  assumes "durable px utf8 UNIV s" "writeRegistryEntryLocked now e s = (err, e', s')" "now \<noteq> 0"
    "powered s \<Longrightarrow> rgInfoHash e = hex_bytes h \<and> restorable (ssDisk s) h e"
  shows "err \<noteq> None \<Longrightarrow> durable px utf8 UNIV s'" "err \<noteq> None \<Longrightarrow> quiet s s'"
    "err = None \<Longrightarrow> durable px utf8 UNIV (put_entry h e' s')"
    "err = None \<Longrightarrow> powered s \<and> e' = e\<lparr>rgUpdatedAt := now\<rparr>
       \<and> (\<exists>fs. s' = s\<lparr>ssDisk := (ssDisk s)\<lparr>dkFaults := fs, dkState := aput h e' (dkState (ssDisk s))\<rparr>\<rparr>)"
proof -
  have "(err \<noteq> None \<longrightarrow> durable px utf8 UNIV s' \<and> quiet s s')
    \<and> (err = None \<longrightarrow> durable px utf8 UNIV (put_entry h e' s') \<and> powered s \<and> e' = e\<lparr>rgUpdatedAt := now\<rparr>
       \<and> (\<exists>fs. s' = s\<lparr>ssDisk := (ssDisk s)\<lparr>dkFaults := fs, dkState := aput h e' (dkState (ssDisk s))\<rparr>\<rparr>))"
  proof (cases "powered s")
    case True
    with assms(4) have "rgInfoHash e = hex_bytes h" "powered s \<Longrightarrow> restorable (ssDisk s) h e" by auto
    note w = write_put [OF assms(1,2) this(1) assms(3) this(2), unfolded insert_UNIV]
    show ?thesis using w by blast
  next
    case False
    then show ?thesis using write_off [OF _ assms(2)] assms(1) by auto
  qed
  then show "err \<noteq> None \<Longrightarrow> durable px utf8 UNIV s'" "err \<noteq> None \<Longrightarrow> quiet s s'"
    "err = None \<Longrightarrow> durable px utf8 UNIV (put_entry h e' s')"
    "err = None \<Longrightarrow> powered s \<and> e' = e\<lparr>rgUpdatedAt := now\<rparr>
       \<and> (\<exists>fs. s' = s\<lparr>ssDisk := (ssDisk s)\<lparr>dkFaults := fs, dkState := aput h e' (dkState (ssDisk s))\<rparr>\<rparr>)"
    by blast+
qed

text \<open>
  The steps of the operations that are not deletions never touch the running deletions.
\<close>

definition tame :: "Session \<Rightarrow> Session \<Rightarrow> bool" where
  "tame s s' \<longleftrightarrow> ssActive s' = ssActive s \<and> ssActiveOps s' = ssActiveOps s \<and> ssOperations s' = ssOperations s
     \<and> (\<forall>h. deletionPendingLocked h s \<longrightarrow> deletionPendingLocked h s')"

lemma tame_refl [simp]: "tame s s" by (simp add: tame_def)

lemma tame_trans: "tame s t \<Longrightarrow> tame t u \<Longrightarrow> tame s u" by (simp add: tame_def)

lemma tame_quiet: "quiet s s' \<Longrightarrow> tame s s'"
  by (simp add: tame_def deletionPendingLocked_def quiet_fields)

lemma write_memory: "writeRegistryEntryLocked now e s = (err, e', s') \<Longrightarrow> \<exists>d. s' = s\<lparr>ssDisk := d\<rparr>"
proof -
  assume w: "writeRegistryEntryLocked now e s = (err, e', s')"
  have "s' = s \<or> (\<exists>f. s' = snd (on_disk f s))" using w
    by (auto simp: writeRegistryEntryLocked_def Let_def prod.case_eq_if split: option.splits if_splits)
  moreover have "s = s\<lparr>ssDisk := ssDisk s\<rparr>" by simp
  moreover have "snd (on_disk f s) = s\<lparr>ssDisk := snd (disk_do f (ssDisk s))\<rparr>" for f
    by (simp add: on_disk_def split: prod.splits)
  ultimately show ?thesis by blast
qed

lemma tame_disk [simp]: "tame s (s\<lparr>ssDisk := d\<rparr>)"
  by (simp add: tame_def deletionPendingLocked_def)

lemma tame_write: "writeRegistryEntryLocked now e s = (err, e', s') \<Longrightarrow> tame s s'"
  using write_memory tame_disk by metis

lemma tame_put:
  assumes "\<not> deletionPendingLocked h s"
  shows "tame s (put_entry h e s)"
  using assms by (auto simp: tame_def deletionPendingLocked_def put_entry_def)

text \<open>Every step of an operation keeps the invariant and is tame.\<close>

definition sound_step :: "parsers \<Rightarrow> (string \<Rightarrow> bool) \<Rightarrow> Session \<Rightarrow> Session \<Rightarrow> bool" where
  "sound_step px utf8 s s' \<longleftrightarrow> (durable px utf8 UNIV s \<longrightarrow> durable px utf8 UNIV s') \<and> tame s s'"

lemma sound_refl [simp]: "sound_step px utf8 s s" by (simp add: sound_step_def)

lemma sound_trans: "sound_step px utf8 s t \<Longrightarrow> sound_step px utf8 t u \<Longrightarrow> sound_step px utf8 s u"
  using tame_trans by (auto simp: sound_step_def)

section \<open>Files of a torrent\<close>

text \<open>An update of other files that leaves a sound directory.\<close>

lemma on_disk_durable:
  assumes "on_disk f s = (err, s')" "durable px utf8 K s"
    "\<And>fs d. d = (ssDisk s)\<lparr>dkFaults := fs\<rparr> \<Longrightarrow> powered s \<Longrightarrow> disk_ok px utf8 d \<Longrightarrow>
       disk_ok px utf8 (f d) \<and> dkState (f d) = dkState d \<and> dkCategories (f d) = dkCategories d \<and> dkFaults (f d) = fs"
  shows "durable px utf8 K s'" "err \<noteq> None \<Longrightarrow> quiet s s'"
    "err = None \<Longrightarrow> \<exists>fs. powered s \<and> s' = s\<lparr>ssDisk := f ((ssDisk s)\<lparr>dkFaults := fs\<rparr>)\<rparr>"
proof -
  have ns: "NotSynced \<notin> set (dkFaults (ssDisk s))" using assms(2) by (simp add: durable_def)
  have "durable px utf8 K s' \<and> (err \<noteq> None \<longrightarrow> quiet s s')
    \<and> (err = None \<longrightarrow> (\<exists>fs. powered s \<and> s' = s\<lparr>ssDisk := f ((ssDisk s)\<lparr>dkFaults := fs\<rparr>)\<rparr>))"
    using assms(1) ns
  proof (cases rule: on_disk_cases)
    case (Done fs)
    let ?d = "(ssDisk s)\<lparr>dkFaults := fs\<rparr>"
    have "disk_ok px utf8 ?d" using assms(2) by (simp add: durable_def disk_simps)
    note f = assms(3) [OF refl Done(2) this]
    have "NotSynced \<notin> set fs" using ns Done(3) by auto
    moreover have "mirror K s'" "categories_mirror utf8 s'"
      using assms(2) Done(2) f by (auto simp: Done(4) durable_def mirror_def categories_mirror_def disk_categories_def)
    ultimately have "durable px utf8 K s'" using f by (simp add: Done(4) durable_def)
    then show ?thesis using Done(1,2,4) by blast
  next
    case (Failed fs b)
    have "durable px utf8 K s'" "quiet s s'"
      using durable_failed [OF assms(2) Failed(2,3)] Failed(3,4) unfolding quiet_def by blast+
    then show ?thesis using Failed(1) by blast
  qed
  then show "durable px utf8 K s'" "err \<noteq> None \<Longrightarrow> quiet s s'"
    "err = None \<Longrightarrow> \<exists>fs. powered s \<and> s' = s\<lparr>ssDisk := f ((ssDisk s)\<lparr>dkFaults := fs\<rparr>)\<rparr>"
    by blast+
qed

lemma restorable_env [disk_simps]: "restorable (d\<lparr>dkFaults := fs\<rparr>) h e = restorable d h e"
  by (simp add: restorable_def)

lemma disk_ok_files:
  assumes "disk_ok px utf8 d" "dkState d' = dkState d" "dkCategories d' = dkCategories d" "files_ok px d'"
    "\<And>h e. map_of (dkState d) h = Some e \<Longrightarrow> restorable d h e \<Longrightarrow> restorable d' h e"
  shows "disk_ok px utf8 d'"
proof -
  have "entry_ok d' h e" if "map_of (dkState d) h = Some e" for h e
  proof -
    have "entry_ok d h e" using that assms(1) by (simp add: disk_ok_def)
    then show ?thesis using assms(3) assms(5) [OF that] by (simp add: entry_ok_def known_category_def disk_categories_def)
  qed
  then show ?thesis using assms(1-4) by (simp add: disk_ok_def disk_categories_def)
qed

lemma disk_ok_final_put:
  assumes "disk_ok px utf8 d" "map_option spHash (pzMeta px data) = Some h"
  shows "disk_ok px utf8 (d\<lparr>dkFinal := aput h data (dkFinal d)\<rparr>)"
  by (rule disk_ok_files [OF assms(1)]) (use assms in \<open>auto simp: disk_ok_def files_ok_def restorable_def\<close>)

lemma disk_ok_pending_put:
  assumes "disk_ok px utf8 d" "map_option spHash (specFromMagnet px (TrimSpace data)) = Some h"
  shows "disk_ok px utf8 (d\<lparr>dkPending := aput h data (dkPending d)\<rparr>)"
  by (rule disk_ok_files [OF assms(1)]) (use assms in \<open>auto simp: disk_ok_def files_ok_def restorable_def\<close>)

lemma disk_ok_final_del:
  assumes "disk_ok px utf8 d" "\<And>e. map_of (dkState d) h = Some e \<Longrightarrow> restorable (d\<lparr>dkFinal := adel h (dkFinal d)\<rparr>) h e"
  shows "disk_ok px utf8 (d\<lparr>dkFinal := adel h (dkFinal d)\<rparr>)"
proof (rule disk_ok_files [OF assms(1)])
  fix k e assume "map_of (dkState d) k = Some e" "restorable d k e"
  then show "restorable (d\<lparr>dkFinal := adel h (dkFinal d)\<rparr>) k e"
    using assms(2) by (cases "k = h") (auto simp: restorable_def)
qed (use assms(1) in \<open>auto simp: disk_ok_def files_ok_def split: if_splits\<close>)

lemma disk_ok_pending_del:
  assumes "disk_ok px utf8 d" "\<And>e. map_of (dkState d) h = Some e \<Longrightarrow> restorable (d\<lparr>dkPending := adel h (dkPending d)\<rparr>) h e"
  shows "disk_ok px utf8 (d\<lparr>dkPending := adel h (dkPending d)\<rparr>)"
proof (rule disk_ok_files [OF assms(1)])
  fix k e assume "map_of (dkState d) k = Some e" "restorable d k e"
  then show "restorable (d\<lparr>dkPending := adel h (dkPending d)\<rparr>) k e"
    using assms(2) by (cases "k = h") (auto simp: restorable_def)
qed (use assms(1) in \<open>auto simp: disk_ok_def files_ok_def split: if_splits\<close>)

text \<open>
  The effect of a publication: an error changes nothing, otherwise the file is there, and it was not there
  before when this call created it.
\<close>

lemma publishMetainfo_effect:
  assumes "publishMetainfo px alive h data s = (r, s')" "durable px utf8 K s"
  shows "durable px utf8 K s'" "r = Inl e \<Longrightarrow> quiet s s'"
    "r = Inr created \<Longrightarrow> map_of (dkFinal (ssDisk s')) h \<noteq> None \<and> (created \<longrightarrow> map_of (dkFinal (ssDisk s)) h = None)
       \<and> ssStates s' = ssStates s \<and> dkState (ssDisk s') = dkState (ssDisk s) \<and> dkPending (ssDisk s') = dkPending (ssDisk s)
       \<and> (powered s' \<longrightarrow> powered s) \<and> tame s s'"
proof -
  let ?f = "\<lambda>d. d\<lparr>dkFinal := aput h data (dkFinal d)\<rparr>"
  have "durable px utf8 K s' \<and> (\<forall>e. r = Inl e \<longrightarrow> quiet s s')
    \<and> (\<forall>created. r = Inr created \<longrightarrow> map_of (dkFinal (ssDisk s')) h \<noteq> None \<and> (created \<longrightarrow> map_of (dkFinal (ssDisk s)) h = None)
       \<and> ssStates s' = ssStates s \<and> dkState (ssDisk s') = dkState (ssDisk s) \<and> dkPending (ssDisk s') = dkPending (ssDisk s)
       \<and> (powered s' \<longrightarrow> powered s) \<and> tame s s')"
  proof (cases "alive \<and> map_option spHash (specFromBytes px data) = Some h \<and> map_of (dkFinal (ssDisk s)) h = None")
    case True
    then have p: "map_option spHash (pzMeta px data) = Some h" by (auto simp: specFromBytes_def split: if_splits)
    obtain err t where o: "on_disk ?f s = (err, t)" by fastforce
    have r: "s' = t" "r = (case err of None \<Rightarrow> Inr True | Some e \<Rightarrow> Inl e)"
      using True assms(1) o by (auto simp: publishMetainfo_def split: option.splits)
    note f = on_disk_durable [OF o assms(2)]
    have c: "disk_ok px utf8 (?f d) \<and> dkState (?f d) = dkState d \<and> dkCategories (?f d) = dkCategories d \<and> dkFaults (?f d) = fs"
      if "d = (ssDisk s)\<lparr>dkFaults := fs\<rparr>" "powered s" "disk_ok px utf8 d" for d fs
      using disk_ok_final_put [OF that(3) p] that(1) by simp
    show ?thesis
    proof (cases err)
      case None
      obtain fs where d: "powered s" "t = s\<lparr>ssDisk := ?f ((ssDisk s)\<lparr>dkFaults := fs\<rparr>)\<rparr>"
        using f(3) [OF c None] by blast
      then show ?thesis using f(1) [OF c] r None True by (simp add: d(2))
    next
      case (Some e)
      then show ?thesis using f(1) [OF c] f(2) [OF c] r by simp
    qed
  next
    case False
    then have "s' = s" "r = Inr c \<Longrightarrow> \<not> c \<and> map_of (dkFinal (ssDisk s)) h \<noteq> None" for c
      using assms(1) by (auto simp: publishMetainfo_def split: if_splits)
    then show ?thesis using assms(2) by auto
  qed
  then show "durable px utf8 K s'" "r = Inl e \<Longrightarrow> quiet s s'"
    "r = Inr created \<Longrightarrow> map_of (dkFinal (ssDisk s')) h \<noteq> None \<and> (created \<longrightarrow> map_of (dkFinal (ssDisk s)) h = None)
       \<and> ssStates s' = ssStates s \<and> dkState (ssDisk s') = dkState (ssDisk s) \<and> dkPending (ssDisk s') = dkPending (ssDisk s)
       \<and> (powered s' \<longrightarrow> powered s) \<and> tame s s'" by blast+
qed
lemma publishPendingMagnet_effect:
  assumes "publishPendingMagnet px alive h uri s = (r, s')" "durable px utf8 K s"
  shows "durable px utf8 K s'" "r = Inl e \<Longrightarrow> quiet s s'"
    "r = Inr created \<Longrightarrow> map_of (dkPending (ssDisk s')) h \<noteq> None \<and> (created \<longrightarrow> map_of (dkPending (ssDisk s)) h = None)
       \<and> ssStates s' = ssStates s \<and> dkState (ssDisk s') = dkState (ssDisk s) \<and> dkFinal (ssDisk s') = dkFinal (ssDisk s)
       \<and> (powered s' \<longrightarrow> powered s) \<and> tame s s'"
proof -
  let ?u = "TrimSpace uri" and ?f = "\<lambda>d. d\<lparr>dkPending := aput h (TrimSpace uri @ [CHR 0x0A]) (dkPending d)\<rparr>"
  have "durable px utf8 K s' \<and> (\<forall>e. r = Inl e \<longrightarrow> quiet s s')
    \<and> (\<forall>created. r = Inr created \<longrightarrow> map_of (dkPending (ssDisk s')) h \<noteq> None \<and> (created \<longrightarrow> map_of (dkPending (ssDisk s)) h = None)
       \<and> ssStates s' = ssStates s \<and> dkState (ssDisk s') = dkState (ssDisk s) \<and> dkFinal (ssDisk s') = dkFinal (ssDisk s)
       \<and> (powered s' \<longrightarrow> powered s) \<and> tame s s')"
  proof (cases "alive \<and> map_option spHash (specFromMagnet px ?u) = Some h \<and> map_of (dkPending (ssDisk s)) h = None")
    case True
    then have "?u \<noteq> []" by (auto simp: specFromMagnet_def)
    then have p: "map_option spHash (specFromMagnet px (TrimSpace (?u @ [CHR 0x0A]))) = Some h"
      using TrimSpace_newline [OF trim_ends] True by simp
    obtain err t where o: "on_disk ?f s = (err, t)" by fastforce
    have r: "s' = t" "r = (case err of None \<Rightarrow> Inr True | Some e \<Rightarrow> Inl e)"
      using True assms(1) o by (auto simp: publishPendingMagnet_def split: option.splits)
    note f = on_disk_durable [OF o assms(2)]
    have c: "disk_ok px utf8 (?f d) \<and> dkState (?f d) = dkState d \<and> dkCategories (?f d) = dkCategories d \<and> dkFaults (?f d) = fs"
      if "d = (ssDisk s)\<lparr>dkFaults := fs\<rparr>" "powered s" "disk_ok px utf8 d" for d fs
      using disk_ok_pending_put [OF that(3) p] that(1) by simp
    show ?thesis
    proof (cases err)
      case None
      obtain fs where d: "powered s" "t = s\<lparr>ssDisk := ?f ((ssDisk s)\<lparr>dkFaults := fs\<rparr>)\<rparr>"
        using f(3) [OF c None] by blast
      then show ?thesis using f(1) [OF c] r None True by (simp add: d(2))
    next
      case (Some e)
      then show ?thesis using f(1) [OF c] f(2) [OF c] r by simp
    qed
  next
    case False
    then have "s' = s" "r = Inr c \<Longrightarrow> \<not> c \<and> map_of (dkPending (ssDisk s)) h \<noteq> None" for c
      using assms(1) by (auto simp: publishPendingMagnet_def Let_def split: if_splits)
    then show ?thesis using assms(2) by auto
  qed
  then show "durable px utf8 K s'" "r = Inl e \<Longrightarrow> quiet s s'"
    "r = Inr created \<Longrightarrow> map_of (dkPending (ssDisk s')) h \<noteq> None \<and> (created \<longrightarrow> map_of (dkPending (ssDisk s)) h = None)
       \<and> ssStates s' = ssStates s \<and> dkState (ssDisk s') = dkState (ssDisk s) \<and> dkFinal (ssDisk s') = dkFinal (ssDisk s)
       \<and> (powered s' \<longrightarrow> powered s) \<and> tame s s'" by blast+
qed

lemma publishGuarded_effect:
  assumes "publishGuardedMetainfo px alive h data s = (r, s')" "durable px utf8 K s"
  shows "durable px utf8 K s'" "r = Inl e \<Longrightarrow> quiet s s'"
    "r = Inr created \<Longrightarrow> map_of (dkFinal (ssDisk s')) h \<noteq> None \<and> (created \<longrightarrow> map_of (dkFinal (ssDisk s)) h = None)
       \<and> ssStates s' = ssStates s \<and> dkState (ssDisk s') = dkState (ssDisk s) \<and> dkPending (ssDisk s') = dkPending (ssDisk s)
       \<and> (powered s' \<longrightarrow> powered s) \<and> tame s s'"
proof -
  have "publishMetainfo px alive h data s = (r, s') \<or> s' = s \<and> (\<exists>e. r = Inl e)"
    using assms(1) by (auto simp: publishGuardedMetainfo_def Let_def split: option.splits prod.splits)
  then have "durable px utf8 K s' \<and> (\<forall>e. r = Inl e \<longrightarrow> quiet s s')
    \<and> (\<forall>created. r = Inr created \<longrightarrow> map_of (dkFinal (ssDisk s')) h \<noteq> None \<and> (created \<longrightarrow> map_of (dkFinal (ssDisk s)) h = None)
       \<and> ssStates s' = ssStates s \<and> dkState (ssDisk s') = dkState (ssDisk s) \<and> dkPending (ssDisk s') = dkPending (ssDisk s)
       \<and> (powered s' \<longrightarrow> powered s) \<and> tame s s')"
    using publishMetainfo_effect [OF _ assms(2)] assms(2) by (elim disjE) (blast, force)
  then show "durable px utf8 K s'" "r = Inl e \<Longrightarrow> quiet s s'"
    "r = Inr created \<Longrightarrow> map_of (dkFinal (ssDisk s')) h \<noteq> None \<and> (created \<longrightarrow> map_of (dkFinal (ssDisk s)) h = None)
       \<and> ssStates s' = ssStates s \<and> dkState (ssDisk s') = dkState (ssDisk s) \<and> dkPending (ssDisk s') = dkPending (ssDisk s)
       \<and> (powered s' \<longrightarrow> powered s) \<and> tame s s'" by blast+
qed

text \<open>A file may go when the entry of its torrent can be restored without it.\<close>

lemma removePending_durable:
  assumes "durable px utf8 K s"
    "\<And>e. powered s \<Longrightarrow> map_of (dkState (ssDisk s)) h = Some e \<Longrightarrow>
       rgState e = StateDeleting \<or> rgState e = StateDeleteFailed \<or> map_of (dkFinal (ssDisk s)) h \<noteq> None"
  shows "durable px utf8 K (snd (removePendingMagnet px h s))" "durable px utf8 K (snd (removePendingMagnetForDelete px h s))"
proof -
  let ?f = "\<lambda>d. d\<lparr>dkPending := adel h (dkPending d)\<rparr>"
  have "durable px utf8 K (snd (on_disk ?f s))"
  proof (rule on_disk_durable [of ?f s "fst (on_disk ?f s)", OF _ assms(1)])
    fix fs d assume d: "d = (ssDisk s)\<lparr>dkFaults := fs\<rparr>" "powered s" "disk_ok px utf8 d"
    have "restorable (?f d) h e" if "map_of (dkState d) h = Some e" for e
    proof -
      have "restorable d h e" using d(3) that by (auto simp: disk_ok_def entry_ok_def)
      then show ?thesis using assms(2) [of e] that d(1,2) by (auto simp: restorable_def)
    qed
    then have "disk_ok px utf8 (?f d)" by (rule disk_ok_pending_del [OF d(3)])
    then show "disk_ok px utf8 (?f d) \<and> dkState (?f d) = dkState d \<and> dkCategories (?f d) = dkCategories d \<and> dkFaults (?f d) = fs"
      using d(1) by simp
  qed simp
  then show "durable px utf8 K (snd (removePendingMagnet px h s))" "durable px utf8 K (snd (removePendingMagnetForDelete px h s))"
    using assms(1) by (auto simp: removePendingMagnet_def removePendingMagnetForDelete_def split: option.splits)
qed

lemma removeFinal_durable:
  assumes "durable px utf8 K s"
    "\<And>e. powered s \<Longrightarrow> map_of (dkState (ssDisk s)) h = Some e \<Longrightarrow>
       rgState e = StateDeleting \<or> rgState e = StateDeleteFailed
       \<or> (rgState e = StateAdding \<or> rgState e = StateError) \<and> map_of (dkPending (ssDisk s)) h \<noteq> None"
  shows "durable px utf8 K (snd (removeFinalMetainfo px h s))" "durable px utf8 K (snd (removeFinalMetainfoForDelete px h s))"
proof -
  let ?f = "\<lambda>d. d\<lparr>dkFinal := adel h (dkFinal d)\<rparr>"
  have "durable px utf8 K (snd (on_disk ?f s))"
  proof (rule on_disk_durable [of ?f s "fst (on_disk ?f s)", OF _ assms(1)])
    fix fs d assume d: "d = (ssDisk s)\<lparr>dkFaults := fs\<rparr>" "powered s" "disk_ok px utf8 d"
    have "restorable (?f d) h e" if "map_of (dkState d) h = Some e" for e
      using assms(2) [of e] that d(1,2) by (auto simp: restorable_def)
    then have "disk_ok px utf8 (?f d)" by (rule disk_ok_final_del [OF d(3)])
    then show "disk_ok px utf8 (?f d) \<and> dkState (?f d) = dkState d \<and> dkCategories (?f d) = dkCategories d \<and> dkFaults (?f d) = fs"
      using d(1) by simp
  qed simp
  then show "durable px utf8 K (snd (removeFinalMetainfo px h s))" "durable px utf8 K (snd (removeFinalMetainfoForDelete px h s))"
    using assms(1) by (auto simp: removeFinalMetainfo_def removeFinalMetainfoForDelete_def split: option.splits)
qed

text \<open>Removing files touches nothing else.\<close>

lemma on_disk_memory: "snd (on_disk f s) = s\<lparr>ssDisk := snd (disk_do f (ssDisk s))\<rparr>"
  by (simp add: on_disk_def split: prod.splits)

definition frame :: "Session \<Rightarrow> Session \<Rightarrow> bool" where
  "frame s s' \<longleftrightarrow> s' = s\<lparr>ssDisk := ssDisk s'\<rparr> \<and> dkState (ssDisk s') = dkState (ssDisk s) \<and> (powered s' \<longrightarrow> powered s)"

lemma frame_refl [simp]: "frame s s" by (simp add: frame_def)

lemma frame_fields:
  assumes "frame s s'"
  shows "ssActive s' = ssActive s" "ssTorrents s' = ssTorrents s" "ssStates s' = ssStates s" "ssCategories s' = ssCategories s"
    "ssOperations s' = ssOperations s" "ssActiveOps s' = ssActiveOps s" "ssLastOps s' = ssLastOps s" "ssFetches s' = ssFetches s"
    "dkState (ssDisk s') = dkState (ssDisk s)" "powered s' \<Longrightarrow> powered s" "tame s s'"
proof -
  have s': "s' = s\<lparr>ssDisk := ssDisk s'\<rparr>" using assms by (simp add: frame_def)
  show "tame s s'" by (subst s') simp
  show "ssActive s' = ssActive s" "ssTorrents s' = ssTorrents s" "ssStates s' = ssStates s" "ssCategories s' = ssCategories s"
    "ssOperations s' = ssOperations s" "ssActiveOps s' = ssActiveOps s" "ssLastOps s' = ssLastOps s" "ssFetches s' = ssFetches s"
    by (subst s', simp)+
qed (use assms in \<open>simp_all add: frame_def\<close>)

lemma removePending_frame:
  "frame s (snd (removePendingMagnet px h s))" "dkFinal (ssDisk (snd (removePendingMagnet px h s))) = dkFinal (ssDisk s)"
  "frame s (snd (removePendingMagnetForDelete px h s))" "dkFinal (ssDisk (snd (removePendingMagnetForDelete px h s))) = dkFinal (ssDisk s)"
proof -
  let ?f = "\<lambda>d. d\<lparr>dkPending := adel h (dkPending d)\<rparr>"
  have "frame s (snd (on_disk ?f s)) \<and> dkFinal (ssDisk (snd (on_disk ?f s))) = dkFinal (ssDisk s)"
    by (auto simp: on_disk_memory frame_def disk_do_def split: list.splits fault.splits)
  then show "frame s (snd (removePendingMagnet px h s))" "dkFinal (ssDisk (snd (removePendingMagnet px h s))) = dkFinal (ssDisk s)"
    "frame s (snd (removePendingMagnetForDelete px h s))" "dkFinal (ssDisk (snd (removePendingMagnetForDelete px h s))) = dkFinal (ssDisk s)"
    by (simp_all add: removePendingMagnet_def removePendingMagnetForDelete_def split: option.split)
qed

lemma removeFinal_frame:
  "frame s (snd (removeFinalMetainfo px h s))" "dkPending (ssDisk (snd (removeFinalMetainfo px h s))) = dkPending (ssDisk s)"
  "frame s (snd (removeFinalMetainfoForDelete px h s))" "dkPending (ssDisk (snd (removeFinalMetainfoForDelete px h s))) = dkPending (ssDisk s)"
proof -
  let ?f = "\<lambda>d. d\<lparr>dkFinal := adel h (dkFinal d)\<rparr>"
  have "frame s (snd (on_disk ?f s)) \<and> dkPending (ssDisk (snd (on_disk ?f s))) = dkPending (ssDisk s)"
    by (auto simp: on_disk_memory frame_def disk_do_def split: list.splits fault.splits)
  then show "frame s (snd (removeFinalMetainfo px h s))" "dkPending (ssDisk (snd (removeFinalMetainfo px h s))) = dkPending (ssDisk s)"
    "frame s (snd (removeFinalMetainfoForDelete px h s))" "dkPending (ssDisk (snd (removeFinalMetainfoForDelete px h s))) = dkPending (ssDisk s)"
    by (simp_all add: removeFinalMetainfo_def removeFinalMetainfoForDelete_def split: option.split)
qed

section \<open>Operations keep the invariant\<close>

lemma tame_publishTorrent [simp]: "tame s (publishTorrentLocked h t s)"
  by (simp add: tame_def publishTorrentLocked_def deletionPendingLocked_def)

lemma tame_startFetch [simp]: "tame s (startMetadataFetch h s)"
  by (auto simp: tame_def startMetadataFetch_def deletionPendingLocked_def)

lemma disk_restorable: "durable px utf8 K s \<Longrightarrow> map_of (dkState (ssDisk s)) h = Some e \<Longrightarrow> restorable (ssDisk s) h e"
  by (auto simp: durable_def disk_ok_def entry_ok_def)

text \<open>The cleanup after a failed write: a file that was not there before is not needed by the entry.\<close>

lemma undo_final:
  assumes "durable px utf8 UNIV s" "map_of (dkFinal (ssDisk s)) h = None" "durable px utf8 UNIV s2"
    "dkState (ssDisk s2) = dkState (ssDisk s)" "dkPending (ssDisk s2) = dkPending (ssDisk s)"
  shows "durable px utf8 UNIV (snd (removeFinalMetainfo px h s2))"
proof (rule removeFinal_durable [OF assms(3)])
  fix e assume "map_of (dkState (ssDisk s2)) h = Some e"
  then have "restorable (ssDisk s) h e" using disk_restorable [OF assms(1)] assms(4) by simp
  then show "rgState e = StateDeleting \<or> rgState e = StateDeleteFailed
       \<or> (rgState e = StateAdding \<or> rgState e = StateError) \<and> map_of (dkPending (ssDisk s2)) h \<noteq> None"
    using assms(2,5) by (auto simp: restorable_def)
qed

lemma undo_pending:
  assumes "durable px utf8 UNIV s" "map_of (dkPending (ssDisk s)) h = None" "durable px utf8 UNIV s2"
    "dkState (ssDisk s2) = dkState (ssDisk s)" "dkFinal (ssDisk s2) = dkFinal (ssDisk s)"
  shows "durable px utf8 UNIV (snd (removePendingMagnet px h s2))"
proof (rule removePending_durable [OF assms(3)])
  fix e assume "map_of (dkState (ssDisk s2)) h = Some e"
  then have "restorable (ssDisk s) h e" using disk_restorable [OF assms(1)] assms(4) by simp
  then show "rgState e = StateDeleting \<or> rgState e = StateDeleteFailed \<or> map_of (dkFinal (ssDisk s2)) h \<noteq> None"
    using assms(2,5) by (auto simp: restorable_def)
qed

lemma quiet_disk:
  "quiet s s' \<Longrightarrow> dkState (ssDisk s') = dkState (ssDisk s) \<and> dkFinal (ssDisk s') = dkFinal (ssDisk s) \<and> dkPending (ssDisk s') = dkPending (ssDisk s)"
  by (simp add: quiet_fields)

text \<open>Both halves of an add: the file comes first, then the entry that needs it.\<close>

lemma add_final:
  assumes "durable px utf8 UNIV s" "publishGuardedMetainfo px alive h bytes s = (Inr created, s1)"
    "writeRegistryEntryLocked now e s1 = (err, e', s2)" "now \<noteq> 0" "powered s \<Longrightarrow> rgInfoHash e = hex_bytes h" "rgState e = StateReady"
  shows "err \<noteq> None \<Longrightarrow> durable px utf8 UNIV s2" "err \<noteq> None \<Longrightarrow> created \<Longrightarrow> durable px utf8 UNIV (snd (removeFinalMetainfo px h s2))"
    "err = None \<Longrightarrow> durable px utf8 UNIV (put_entry h e' s2)"
    "err = None \<Longrightarrow> map_of (dkFinal (ssDisk s2)) h \<noteq> None"
proof -
  note p = publishGuarded_effect(1) [OF assms(2,1)] publishGuarded_effect(3) [OF assms(2,1) refl]
  have "powered s1 \<Longrightarrow> rgInfoHash e = hex_bytes h \<and> restorable (ssDisk s1) h e"
    using p assms(5,6) by (simp add: restorable_def)
  note w = update_entry [OF p(1) assms(3,4) this]
  show "err \<noteq> None \<Longrightarrow> durable px utf8 UNIV s2" by (rule w(1))
  show "durable px utf8 UNIV (snd (removeFinalMetainfo px h s2))" if "err \<noteq> None" created
    using undo_final [OF assms(1) _ w(1)] quiet_disk [OF w(2)] p that by auto
  show "err = None \<Longrightarrow> durable px utf8 UNIV (put_entry h e' s2)" by (rule w(3))
  show "err = None \<Longrightarrow> map_of (dkFinal (ssDisk s2)) h \<noteq> None" using w(4) p by force
qed

lemma add_pending:
  assumes "durable px utf8 UNIV s" "publishPendingMagnet px alive h uri s = (Inr created, s1)"
    "writeRegistryEntryLocked now e s1 = (err, e', s2)" "now \<noteq> 0" "powered s \<Longrightarrow> rgInfoHash e = hex_bytes h" "rgState e = StateAdding"
  shows "err \<noteq> None \<Longrightarrow> durable px utf8 UNIV s2" "err \<noteq> None \<Longrightarrow> created \<Longrightarrow> durable px utf8 UNIV (snd (removePendingMagnet px h s2))"
    "err = None \<Longrightarrow> durable px utf8 UNIV (put_entry h e' s2)"
proof -
  note p = publishPendingMagnet_effect(1) [OF assms(2,1)] publishPendingMagnet_effect(3) [OF assms(2,1) refl]
  have "powered s1 \<Longrightarrow> rgInfoHash e = hex_bytes h \<and> restorable (ssDisk s1) h e"
    using p assms(5,6) by (simp add: restorable_def)
  note w = update_entry [OF p(1) assms(3,4) this]
  show "err \<noteq> None \<Longrightarrow> durable px utf8 UNIV s2" by (rule w(1))
  show "durable px utf8 UNIV (snd (removePendingMagnet px h s2))" if "err \<noteq> None" created
    using undo_pending [OF assms(1) _ w(1)] quiet_disk [OF w(2)] p that by auto
  show "err = None \<Longrightarrow> durable px utf8 UNIV (put_entry h e' s2)" by (rule w(3))
qed

text \<open>With its metainfo on disk the magnet of a torrent is not needed.\<close>

lemma drop_pending:
  assumes "durable px utf8 UNIV s" "map_of (dkFinal (ssDisk s)) h \<noteq> None"
  shows "sound_step px utf8 s (snd (removePendingMagnet px h s))"
  using removePending_durable(1) [OF assms(1)] assms(2) frame_fields(11) [OF removePending_frame(1)] by (simp add: sound_step_def)

lemma frame_tame: "frame s s' \<Longrightarrow> tame s s'" by (rule frame_fields(11))

text \<open>The trace of tame steps of an add, whatever the disk does.\<close>

lemma deletionPending_tame: "tame s s' \<Longrightarrow> ssStates s' = ssStates s \<Longrightarrow> deletionPendingLocked h s' = deletionPendingLocked h s"
  by (simp add: deletionPendingLocked_def)

lemma write_states: "writeRegistryEntryLocked now e s = (err, e', s') \<Longrightarrow> ssStates s' = ssStates s"
  using write_memory by fastforce

lemma publish_frame:
  "publishGuardedMetainfo px alive h data s = (r, s') \<Longrightarrow> frame s s'" "publishPendingMagnet px alive h uri s = (r, s') \<Longrightarrow> frame s s'"
proof -
  have f: "frame s t" if "on_disk (\<lambda>d. d\<lparr>dkFinal := aput k data (dkFinal d)\<rparr>) s = (err, t)" for err t k
    using that by (auto simp: frame_def on_disk_def disk_do_def split: list.splits fault.splits if_splits)
  have p: "frame s t" if "on_disk (\<lambda>d. d\<lparr>dkPending := aput k x (dkPending d)\<rparr>) s = (err, t)" for err t x k
    using that by (auto simp: frame_def on_disk_def disk_do_def split: list.splits fault.splits if_splits)
  show "publishGuardedMetainfo px alive h data s = (r, s') \<Longrightarrow> frame s s'"
    by (auto simp: publishGuardedMetainfo_def publishMetainfo_def Let_def split: option.splits prod.splits if_splits dest: f)
  show "publishPendingMagnet px alive h uri s = (r, s') \<Longrightarrow> frame s s'"
    by (auto simp: publishPendingMagnet_def Let_def split: option.splits prod.splits if_splits dest: p)
qed

lemma tame_write_put:
  assumes "writeRegistryEntryLocked now e s = (err, e', s')" "\<not> deletionPendingLocked h s"
  shows "tame s (put_entry h e' s')"
proof -
  have "\<not> deletionPendingLocked h s'" using assms write_states [OF assms(1)] by (simp add: deletionPendingLocked_def)
  then show ?thesis using tame_trans [OF tame_write [OF assms(1)] tame_put] by blast
qed

lemma added_entry_simps [simp]:
  "rgInfoHash (added_entry st spec b e) = rgInfoHash e" "rgState (added_entry st spec b e) = (if b then StateReady else StateAdding)"
  by (simp_all add: added_entry_def)

text \<open>The end of an add, from the publication on; \<open>e0\<close> is the entry it starts from.\<close>

lemma sound_add_write:
  assumes "(case data of Some bytes \<Rightarrow> publishGuardedMetainfo px a h bytes s | None \<Rightarrow> publishPendingMagnet px a h uri s) = (Inr created, s1)"
    "writeRegistryEntryLocked now (added_entry st spec (data \<noteq> None) e0) s1 = (err, e', s2)" "now \<noteq> 0"
    "durable px utf8 UNIV s \<and> powered s \<longrightarrow> rgInfoHash e0 = hex_bytes h" "\<not> deletionPendingLocked h s"
  shows "err \<noteq> None \<Longrightarrow> sound_step px utf8 s s2"
    "err \<noteq> None \<Longrightarrow> created \<Longrightarrow> data \<noteq> None \<Longrightarrow> sound_step px utf8 s (snd (removeFinalMetainfo px h s2))"
    "err \<noteq> None \<Longrightarrow> created \<Longrightarrow> data = None \<Longrightarrow> sound_step px utf8 s (snd (removePendingMagnet px h s2))"
    "err = None \<Longrightarrow> sound_step px utf8 s (put_entry h e' s2)"
    "err = None \<Longrightarrow> data \<noteq> None \<Longrightarrow> durable px utf8 UNIV s \<Longrightarrow> map_of (dkFinal (ssDisk (put_entry h e' s2))) h \<noteq> None"
proof -
  have fr: "frame s s1" using assms(1) publish_frame by (auto split: option.splits)
  have t: "tame s s2" using tame_trans [OF frame_tame [OF fr] tame_write [OF assms(2)]] .
  have "\<not> deletionPendingLocked h s1" using assms(5) frame_fields(3) [OF fr] by (simp add: deletionPendingLocked_def)
  note tp = tame_trans [OF frame_tame [OF fr] tame_write_put [OF assms(2) this]]
  have rm: "tame s (snd (removeFinalMetainfo px h s2))" "tame s (snd (removePendingMagnet px h s2))"
    using tame_trans [OF t frame_tame] removeFinal_frame(1) removePending_frame(1) by blast+
  have d: "(err \<noteq> None \<longrightarrow> durable px utf8 UNIV s2) \<and> (err \<noteq> None \<and> created \<and> data \<noteq> None \<longrightarrow> durable px utf8 UNIV (snd (removeFinalMetainfo px h s2)))
    \<and> (err \<noteq> None \<and> created \<and> data = None \<longrightarrow> durable px utf8 UNIV (snd (removePendingMagnet px h s2)))
    \<and> (err = None \<longrightarrow> durable px utf8 UNIV (put_entry h e' s2) \<and> (data \<noteq> None \<longrightarrow> map_of (dkFinal (ssDisk s2)) h \<noteq> None))"
    if "durable px utf8 UNIV s"
  proof (cases data)
    case None
    from None assms(1) have p: "publishPendingMagnet px a h uri s = (Inr created, s1)" by simp
    show ?thesis using add_pending [OF that p assms(2,3)] assms(4) that None by auto
  next
    case (Some bytes)
    from Some assms(1) have p: "publishGuardedMetainfo px a h bytes s = (Inr created, s1)" by simp
    show ?thesis using add_final [OF that p assms(2,3)] assms(4) that Some by auto
  qed
  then show "err \<noteq> None \<Longrightarrow> sound_step px utf8 s s2"
    "err \<noteq> None \<Longrightarrow> created \<Longrightarrow> data \<noteq> None \<Longrightarrow> sound_step px utf8 s (snd (removeFinalMetainfo px h s2))"
    "err \<noteq> None \<Longrightarrow> created \<Longrightarrow> data = None \<Longrightarrow> sound_step px utf8 s (snd (removePendingMagnet px h s2))"
    "err = None \<Longrightarrow> sound_step px utf8 s (put_entry h e' s2)"
    "err = None \<Longrightarrow> data \<noteq> None \<Longrightarrow> durable px utf8 UNIV s \<Longrightarrow> map_of (dkFinal (ssDisk (put_entry h e' s2))) h \<noteq> None"
    using t tp rm by (simp_all add: sound_step_def put_entry_def)
qed

lemma sound_mem [simp]:
  "sound_step px utf8 s (publishTorrentLocked h t u) = sound_step px utf8 s u"
  "sound_step px utf8 s (startMetadataFetch h u) = sound_step px utf8 s u"
proof -
  have "tame s (publishTorrentLocked h t u) = tame s u" by (simp add: tame_def publishTorrentLocked_def deletionPendingLocked_def)
  then show "sound_step px utf8 s (publishTorrentLocked h t u) = sound_step px utf8 s u" by (simp add: sound_step_def)
  have "tame s (startMetadataFetch h u) = tame s u" by (simp add: tame_def startMetadataFetch_def deletionPendingLocked_def)
  then show "sound_step px utf8 s (startMetadataFetch h u) = sound_step px utf8 s u" by (simp add: sound_step_def)
qed

lemma publishTorrent_disk [simp]: "ssDisk (publishTorrentLocked h t s) = ssDisk s"
  by (simp add: publishTorrentLocked_def)

lemma sound_drop_pending:
  assumes "sound_step px utf8 s u" "durable px utf8 UNIV s \<Longrightarrow> map_of (dkFinal (ssDisk u)) h \<noteq> None"
  shows "sound_step px utf8 s (snd (removePendingMagnet px h u))"
  using assms drop_pending tame_trans frame_tame [OF removePending_frame(1)] by (meson sound_step_def)

text \<open>The entry an add starts from names its torrent.\<close>

definition base_entry :: "time \<Rightarrow> hash \<Rightarrow> Torrent \<Rightarrow> Spec \<Rightarrow> bool \<Rightarrow> Session \<Rightarrow> registryEntry" where
  "base_entry now h st spec b s =
     (case map_of (ssStates s) h of
        Some e \<Rightarrow> e | None \<Rightarrow> newRegistryEntry now h (firstNonEmpty [tnName st, spName spec]) (if b then StateAdding else StateReady))"

lemma base_entry_hash: "durable px utf8 UNIV s \<Longrightarrow> powered s \<Longrightarrow> rgInfoHash (base_entry now h st spec b s) = hex_bytes h"
  using durable_entry(3) by (auto simp: base_entry_def newRegistryEntry_def split: option.splits)

lemma base_entry_live:
  "\<not> deletionPendingLocked h s \<Longrightarrow>
     \<not> (rgState (base_entry now h st spec b s) = StateDeleting \<or> rgState (base_entry now h st spec b s) = StateDeleteFailed)"
  by (auto simp: base_entry_def newRegistryEntry_def deletionPendingLocked_def split: option.splits)

lemma sound_addManaged:
  assumes "now \<noteq> 0"
  shows "sound_step px utf8 s (snd (addManagedLocked px cl alive now h spec data uri s))"
proof -
  let ?pub = "case data of Some bytes \<Rightarrow> publishGuardedMetainfo px (alive 2) h bytes s | None \<Rightarrow> publishPendingMagnet px (alive 2) h uri s"
  consider (refused) e where "\<not> ssActive s \<or> deletionPendingLocked h s \<or> prepareTorrentSpecLocked cl alive h s = Inl e"
    | (go) st new where "\<not> deletionPendingLocked h s" "prepareTorrentSpecLocked cl alive h s = Inr (st, new)" "ssActive s"
    by (cases "prepareTorrentSpecLocked cl alive h s") auto
  then show ?thesis
  proof cases
    case refused
    then show ?thesis by (auto simp: addManagedLocked_def)
  next
    case (go st new)
    let ?e = "base_entry now h st spec (data = None) s"
    note run = go base_entry_live [OF go(1), of now st spec "data = None"]
    obtain r s1 where pub: "?pub = (r, s1)" by fastforce
    show ?thesis
    proof (cases r)
      case (Inl e)
      then have "sound_step px utf8 s s1"
        using pub publish_frame frame_tame publishGuarded_effect(1) publishPendingMagnet_effect(1)
        by (auto simp: sound_step_def split: option.splits)
      then show ?thesis using run pub Inl by (simp add: addManagedLocked_def Let_def base_entry_def)
    next
      case (Inr created)
      obtain err e' s2 where w: "writeRegistryEntryLocked now (added_entry st spec (data \<noteq> None) ?e) s1 = (err, e', s2)"
        by (metis prod_cases3)
      have "durable px utf8 UNIV s \<and> powered s \<longrightarrow> rgInfoHash ?e = hex_bytes h" using base_entry_hash by blast
      note a = sound_add_write [OF pub [unfolded Inr] w assms this run(1)]
      let ?s4 = "if new then publishTorrentLocked h st (put_entry h e' s2) else put_entry h e' s2"
      have s4: "sound_step px utf8 s ?s4" if "err = None" using a(4) [OF that] by simp
      have "sound_step px utf8 s (snd (removePendingMagnet px h ?s4))" if "err = None" "data \<noteq> None"
        using sound_drop_pending [OF s4 [OF that(1)]] a(5) [OF that] by simp
      moreover have "snd (addManagedLocked px cl alive now h spec data uri s) =
          (if err \<noteq> None
           then (if \<not> created then s2 else if data \<noteq> None then snd (removeFinalMetainfo px h s2) else snd (removePendingMagnet px h s2))
           else let s4 = (if new then publishTorrentLocked h st (put_entry h e' s2) else put_entry h e' s2)
                in if data \<noteq> None then snd (removePendingMagnet px h s4) else startMetadataFetch h s4)"
        using run pub Inr w by (auto simp: addManagedLocked_def Let_def base_entry_def split: option.splits)
      ultimately show ?thesis using a(1-3) s4 by (simp add: Let_def)
    qed
  qed
qed

lemma sound_AddTorrent:
  assumes "now \<noteq> 0"
  shows "sound_step px utf8 s (snd (AddTorrentAndPersist px cl alive now src s))"
  using sound_addManaged [OF assms]
  by (auto simp: AddTorrentAndPersist_def Let_def split: option.splits sum.splits Source.splits)

text \<open>The rule for the operations that change the entry of a torrent that is not being deleted.\<close>

lemma sound_update:
  assumes "map_of (ssStates s) h = Some e0" "\<not> (rgState e0 = StateDeleting \<or> rgState e0 = StateDeleteFailed)"
    "writeRegistryEntryLocked now e s = (err, e', s')" "now \<noteq> 0" "rgInfoHash e = rgInfoHash e0"
    "restorable (ssDisk s) h e0 \<Longrightarrow> restorable (ssDisk s) h e"
  shows "err \<noteq> None \<Longrightarrow> sound_step px utf8 s s'" "err = None \<Longrightarrow> sound_step px utf8 s (put_entry h e' s')"
proof -
  have live: "\<not> deletionPendingLocked h s" using assms(1,2) by (simp add: deletionPendingLocked_def)
  have "rgInfoHash e = hex_bytes h \<and> restorable (ssDisk s) h e" if "durable px utf8 UNIV s" "powered s"
    using durable_entry(3,4) [OF that(1) assms(1) that(2)] assms(5,6) by simp
  then have "(err \<noteq> None \<longrightarrow> durable px utf8 UNIV s') \<and> (err = None \<longrightarrow> durable px utf8 UNIV (put_entry h e' s'))" if "durable px utf8 UNIV s"
    using update_entry(1,3) [OF that assms(3,4)] that by blast
  then show "err \<noteq> None \<Longrightarrow> sound_step px utf8 s s'" "err = None \<Longrightarrow> sound_step px utf8 s (put_entry h e' s')"
    using tame_write [OF assms(3)] tame_write_put [OF assms(3) live] by (simp_all add: sound_step_def)
qed

lemma sound_recordFailure:
  assumes "now \<noteq> 0"
  shows "sound_step px utf8 s (recordMetadataFetchFailure now h er s)"
proof (cases "map_of (ssStates s) h")
  case (Some e)
  obtain err e' s' where w: "writeRegistryEntryLocked now (e\<lparr>rgState := StateError, rgError := [er]\<rparr>) s = (err, e', s')"
    by (metis prod_cases3)
  show ?thesis
  proof (cases "rgState e = StateDeleting \<or> rgState e = StateDeleteFailed")
    case False
    then have "restorable (ssDisk s) h e \<Longrightarrow> restorable (ssDisk s) h (e\<lparr>rgState := StateError, rgError := [er]\<rparr>)"
      by (auto simp: restorable_def)
    note u = sound_update [OF Some False w assms _ this]
    show ?thesis using u Some False w by (cases err) (auto simp: recordMetadataFetchFailure_def)
  qed (use Some in \<open>auto simp: recordMetadataFetchFailure_def\<close>)
qed (simp add: recordMetadataFetchFailure_def)

lemma sound_retry:
  assumes "now \<noteq> 0"
  shows "sound_step px utf8 s (retryMetadataFetch now h s)"
proof (cases "map_of (ssStates s) h")
  case (Some e)
  obtain err e' s' where w: "writeRegistryEntryLocked now (e\<lparr>rgState := StateAdding, rgError := [], rgOperationID := ''''\<rparr>) s = (err, e', s')"
    by (metis prod_cases3)
  show ?thesis
  proof (cases "rgState e = StateAdding \<or> rgState e = StateError")
    case True
    then have "\<not> (rgState e = StateDeleting \<or> rgState e = StateDeleteFailed)"
      "restorable (ssDisk s) h e \<Longrightarrow> restorable (ssDisk s) h (e\<lparr>rgState := StateAdding, rgError := [], rgOperationID := ''''\<rparr>)"
      by (auto simp: restorable_def)
    note u = sound_update [OF Some this(1) w assms _ this(2)]
    show ?thesis using u Some True w by (cases err) (auto simp: retryMetadataFetch_def Let_def)
  qed (use Some in \<open>auto simp: retryMetadataFetch_def\<close>)
qed (simp add: retryMetadataFetch_def)

lemma sound_fetches [simp]: "sound_step px utf8 s (s\<lparr>ssFetches := f\<rparr>)"
  by (simp add: sound_step_def tame_def deletionPendingLocked_def)

lemma sound_end_fetch: "now \<noteq> 0 \<Longrightarrow> sound_step px utf8 s (end_fetch now h s)"
  unfolding end_fetch_def Let_def using sound_trans [OF sound_fetches sound_retry] by auto

lemma sound_SetFavorite:
  assumes "now \<noteq> 0"
  shows "sound_step px utf8 s (snd (SetFavorite now i favorite s))"
proof (cases "parseInfoHash i")
  case (Some h)
  show ?thesis
  proof (cases "map_of (ssStates s) h")
    case entry: (Some e)
    obtain err e' s' where w: "writeRegistryEntryLocked now (e\<lparr>rgFavorite := favorite\<rparr>) s = (err, e', s')" by (metis prod_cases3)
    show ?thesis
    proof (cases "rgState e = StateDeleting \<or> rgState e = StateDeleteFailed")
      case False
      note u = sound_update [OF entry this w assms]
      show ?thesis using u Some entry False w by (cases err) (auto simp: SetFavorite_def restorable_def)
    qed (use Some entry in \<open>auto simp: SetFavorite_def\<close>)
  qed (use Some in \<open>simp add: SetFavorite_def\<close>)
qed (simp add: SetFavorite_def)

lemma sound_SetTorrentCategory:
  assumes "now \<noteq> 0"
  shows "sound_step px utf8 s (snd (SetTorrentCategory utf8 alive now i category s))"
proof (cases "parseInfoHash i")
  case (Some h)
  show ?thesis
  proof (cases "map_of (ssStates s) h")
    case entry: (Some e)
    obtain err e' s' where w: "writeRegistryEntryLocked now (e\<lparr>rgCategory := category\<rparr>) s = (err, e', s')" by (metis prod_cases3)
    show ?thesis
    proof (cases "rgState e = StateDeleting \<or> rgState e = StateDeleteFailed")
      case False
      note u = sound_update [OF entry this w assms]
      show ?thesis using u Some entry False w
        by (cases err) (auto simp: SetTorrentCategory_def restorable_def split: option.splits)
    qed (use Some entry in \<open>auto simp: SetTorrentCategory_def split: option.splits\<close>)
  qed (use Some in \<open>auto simp: SetTorrentCategory_def split: option.splits\<close>)
qed (auto simp: SetTorrentCategory_def split: option.splits)

lemma sound_finish_fetch:
  assumes "now \<noteq> 0"
  shows "sound_step px utf8 s (finish_fetch px alive now h st bytes s)"
proof (cases "alive 0 \<and> bytes \<noteq> None \<and> ssActive s \<and> \<not> deletionPendingLocked h s")
  case True
  then obtain data where data: "bytes = Some data" by auto
  obtain r s1 where pub: "publishGuardedMetainfo px (alive 1) h data s = (r, s1)" by fastforce
  have s1: "sound_step px utf8 s s1"
    using publishGuarded_effect(1) [OF pub] frame_tame [OF publish_frame(1) [OF pub]] by (simp add: sound_step_def)
  show ?thesis
  proof (cases r)
    case (Inl e)
    then show ?thesis using True data pub s1 sound_trans [OF s1 sound_recordFailure [OF assms]] by (simp add: finish_fetch_def)
  next
    case (Inr created)
    note p = pub [unfolded Inr]
    have st: "ssStates s1 = ssStates s" using frame_fields(3) [OF publish_frame(1) [OF pub]] .
    show ?thesis
    proof (cases "map_of (ssStates s1) h")
      case None
      have "durable px utf8 UNIV (snd (removeFinalMetainfo px h s1))" if "durable px utf8 UNIV s" created
        using undo_final [OF that(1) _ publishGuarded_effect(1) [OF pub that(1)]] publishGuarded_effect(3) [OF pub that(1) Inr] that(2) by blast
      then have "sound_step px utf8 s (if created then snd (removeFinalMetainfo px h s1) else s1)"
        using s1 tame_trans [OF _ frame_tame [OF removeFinal_frame(1)]] by (auto simp: sound_step_def)
      then show ?thesis using True data p None sound_trans [OF _ sound_recordFailure [OF assms]] by (simp add: finish_fetch_def)
    next
      case (Some entry)
      define e where "e = entry\<lparr>rgState := StateReady, rgName := firstNonEmpty [tnName st, (case specFromBytes px data of Some sp \<Rightarrow> spName sp | None \<Rightarrow> ''''), rgName entry],
                       rgError := [], rgOperationID := ''''\<rparr>"
      obtain err e' s2 where w: "writeRegistryEntryLocked now e s1 = (err, e', s2)" by (metis prod_cases3)
      have live: "\<not> deletionPendingLocked h s1" using True st by (simp add: deletionPendingLocked_def)
      have hash: "rgInfoHash e = hex_bytes h" if "durable px utf8 UNIV s" "powered s"
        using durable_entry(3) [OF that(1) _ that(2)] Some st by (simp add: e_def)
      have "rgState e = StateReady" by (simp add: e_def)
      note f = add_final [OF _ p w assms hash this]
      have t: "tame s s2" "tame s (put_entry h e' s2)"
        using tame_trans [of s s1] s1 tame_write [OF w] tame_write_put [OF w live] by (auto simp: sound_step_def)
      show ?thesis
      proof (cases err)
        case None
        have "sound_step px utf8 s (put_entry h e' s2)" "durable px utf8 UNIV s \<Longrightarrow> map_of (dkFinal (ssDisk (put_entry h e' s2))) h \<noteq> None"
          using f(3,4) [OF _ _ _ None] t(2) by (auto simp: sound_step_def put_entry_def)
        note sound_drop_pending [OF this]
        then show ?thesis using True data p Some w None by (simp add: finish_fetch_def e_def)
      next
        case err: (Some x)
        have "sound_step px utf8 s s2" using f(1) t(1) err by (auto simp: sound_step_def)
        note sound_trans [OF this sound_recordFailure [OF assms]]
        then show ?thesis using True data p Some w err by (simp add: finish_fetch_def e_def)
      qed
    qed
  qed
next
  case False
  then show ?thesis using sound_recordFailure [OF assms] by (auto simp: finish_fetch_def split: option.splits)
qed

lemma adel_absent: "map_of m k = None \<Longrightarrow> adel k (aput k v m) = m"
  by (simp add: adel_def aput_def map_of_eq_None_iff filter_neq_id)

lemma disk_ok_categories:
  assumes "disk_ok px utf8 d" "\<forall>c \<in> set cs. category_ok utf8 c" "distinct (map cvName cs)" "cvName ` set (disk_categories d) \<subseteq> cvName ` set cs"
  shows "disk_ok px utf8 (d\<lparr>dkCategories := Some cs\<rparr>)"
proof -
  have "entry_ok (d\<lparr>dkCategories := Some cs\<rparr>) h e" if "map_of (dkState d) h = Some e" for h e
  proof -
    have "entry_ok d h e" using that assms(1) by (simp add: disk_ok_def)
    then show ?thesis using assms(4) by (auto simp: entry_ok_def restorable_def known_category_def disk_categories_def)
  qed
  moreover have "files_ok px (d\<lparr>dkCategories := Some cs\<rparr>)" using assms(1) by (simp add: disk_ok_def files_ok_def)
  ultimately show ?thesis using assms by (simp add: disk_ok_def disk_categories_def)
qed

text \<open>The written index holds exactly the categories of the memory.\<close>

lemma category_index:
  assumes "distinct (map fst (ssCategories s))" "\<forall>n c. map_of (ssCategories s) n = Some c \<longrightarrow> cvName c = n \<and> category_ok utf8 c"
  shows "distinct (map cvName (categoryIndexLocked s))" "\<forall>c \<in> set (categoryIndexLocked s). category_ok utf8 c"
    "cvName ` set (categoryIndexLocked s) = fst ` set (ssCategories s)"
proof -
  have n: "cvName (snd x) = fst x \<and> category_ok utf8 (snd x)" if "x \<in> set (ssCategories s)" for x
  proof -
    have "map_of (ssCategories s) (fst x) = Some (snd x)" using that by (intro map_of_is_SomeI [OF assms(1)]) simp
    then show ?thesis using assms(2) by blast
  qed
  then have "map cvName (map snd (ssCategories s)) = map fst (ssCategories s)" by simp
  then have "distinct (map cvName (map snd (ssCategories s)))" using assms(1) by (simp only:)
  then have "distinct (map snd (ssCategories s))" "inj_on cvName (set (map snd (ssCategories s)))" unfolding distinct_map by auto
  then show "distinct (map cvName (categoryIndexLocked s))" by (simp add: categoryIndexLocked_def distinct_map)
  show "\<forall>c \<in> set (categoryIndexLocked s). category_ok utf8 c" using n by (auto simp: categoryIndexLocked_def)
  show "cvName ` set (categoryIndexLocked s) = fst ` set (ssCategories s)" using n by (force simp: categoryIndexLocked_def)
qed

lemma durable_CreateCategory:
  assumes "durable px utf8 UNIV s" "now \<noteq> 0" "validateCategoryName utf8 name = None" "map_of (ssCategories s) name = None"
    "t = s\<lparr>ssCategories := aput name \<lparr>cvName = name, cvCreatedAt = now\<rparr> (ssCategories s)\<rparr>" "writeCategoriesLocked t = (err, s1)"
  shows "err = None \<Longrightarrow> durable px utf8 UNIV s1" "err \<noteq> None \<Longrightarrow> durable px utf8 UNIV (s1\<lparr>ssCategories := adel name (ssCategories s1)\<rparr>)"
proof -
  have ns: "NotSynced \<notin> set (dkFaults (ssDisk t))" using assms(1,5) by (simp add: durable_def)
  have "(err = None \<longrightarrow> durable px utf8 UNIV s1) \<and> (err \<noteq> None \<longrightarrow> durable px utf8 UNIV (s1\<lparr>ssCategories := adel name (ssCategories s1)\<rparr>))"
    using assms(6) [unfolded writeCategoriesLocked_def] ns
  proof (cases rule: on_disk_cases)
    case (Done fs)
    have p: "powered s" using Done(2) assms(5) by simp
    have m: "categories_mirror utf8 s" "mirror UNIV s" using assms(1) p by (auto simp: durable_def)
    have "category_ok utf8 \<lparr>cvName = name, cvCreatedAt = now\<rparr>" using assms(2,3) by (simp add: category_ok_def)
    then have t: "distinct (map fst (ssCategories t))" "\<forall>n c. map_of (ssCategories t) n = Some c \<longrightarrow> cvName c = n \<and> category_ok utf8 c"
      using m(1) assms(5) by (auto simp: categories_mirror_def)
    note ix = category_index [OF t]
    have "disk_ok px utf8 ((ssDisk s)\<lparr>dkFaults := fs\<rparr>)" using assms(1) by (simp add: durable_def disk_simps)
    from disk_ok_categories [OF this ix(2,1)] have "disk_ok px utf8 ((ssDisk s)\<lparr>dkFaults := fs, dkCategories := Some (categoryIndexLocked t)\<rparr>)"
      using m(1) ix(3) assms(5) by (auto simp: categories_mirror_def disk_categories_def)
    moreover have "NotSynced \<notin> set fs" using ns Done(3) by auto
    moreover have "mirror UNIV s1" "categories_mirror utf8 s1"
      using m t ix(3) assms(5) by (auto simp: Done(4) mirror_def categories_mirror_def disk_categories_def)
    ultimately have "durable px utf8 UNIV s1" using assms(5) by (simp add: durable_def Done(4))
    then show ?thesis using Done(1) by blast
  next
    case (Failed fs b)
    have "s1\<lparr>ssCategories := adel name (ssCategories s1)\<rparr> = s\<lparr>ssDisk := (ssDisk s)\<lparr>dkFaults := fs, dkOff := b\<rparr>\<rparr>"
      using Failed(4) assms(4,5) by (simp add: adel_absent)
    then show ?thesis using durable_failed [OF assms(1), of fs b] Failed assms(5) by simp
  qed
  then show "err = None \<Longrightarrow> durable px utf8 UNIV s1" "err \<noteq> None \<Longrightarrow> durable px utf8 UNIV (s1\<lparr>ssCategories := adel name (ssCategories s1)\<rparr>)"
    by blast+
qed

lemma sound_CreateCategory:
  assumes "now \<noteq> 0"
  shows "sound_step px utf8 s (snd (CreateCategory utf8 alive now name s))"
proof (cases "snd (CreateCategory utf8 alive now name s) = s")
  case False
  define t where "t = s\<lparr>ssCategories := aput name \<lparr>cvName = name, cvCreatedAt = now\<rparr> (ssCategories s)\<rparr>"
  have g: "validateCategoryName utf8 name = None" "map_of (ssCategories s) name = None"
    using False by (auto simp: CreateCategory_def split: option.splits if_splits)
  obtain err s1 where w: "writeCategoriesLocked t = (err, s1)" by fastforce
  have r: "snd (CreateCategory utf8 alive now name s) = (if err = None then s1 else s1\<lparr>ssCategories := adel name (ssCategories s1)\<rparr>)"
    using False w by (auto simp: CreateCategory_def t_def Let_def split: option.splits if_splits)
  have "\<exists>d. s1 = t\<lparr>ssDisk := d\<rparr>" using w on_disk_memory by (metis snd_conv writeCategoriesLocked_def)
  then have "tame s (snd (CreateCategory utf8 alive now name s))"
    by (auto simp: r tame_def t_def deletionPendingLocked_def)
  then show ?thesis using durable_CreateCategory [OF _ assms g t_def w] r by (simp add: sound_step_def)
qed simp

section \<open>Deletions\<close>

lemma known_none:
  "known_deletion h s = None \<Longrightarrow> map_of (ssActiveOps s) h = Some i \<Longrightarrow> map_of (ssOperations s) i = None"
  by (auto simp: known_deletion_def split: option.splits)

text \<open>A call that starts no worker is tame; a started worker owns the hash, and its entry is being deleted.\<close>

lemma delete_effect:
  assumes "deleteByHash rnd now h skip s = (r, w, s')" "now \<noteq> 0"
  shows "durable px utf8 UNIV s \<Longrightarrow> durable px utf8 UNIV s'" "w = None \<Longrightarrow> tame s s'"
    "w = Some w' \<Longrightarrow> \<exists>t i op. w' = (h, t, i) \<and> known_deletion h s = None \<and> ssActive s' = ssActive s
       \<and> ssActiveOps s' = aput h i (ssActiveOps s) \<and> ssOperations s' = aput i op (ssOperations s)
       \<and> deletionPendingLocked h s' \<and> (\<forall>k. deletionPendingLocked k s \<longrightarrow> deletionPendingLocked k s')"
proof -
  have "(durable px utf8 UNIV s \<longrightarrow> durable px utf8 UNIV s') \<and> (w = None \<longrightarrow> tame s s')
    \<and> (\<forall>w'. w = Some w' \<longrightarrow> (\<exists>t i op. w' = (h, t, i) \<and> known_deletion h s = None \<and> ssActive s' = ssActive s
       \<and> ssActiveOps s' = aput h i (ssActiveOps s) \<and> ssOperations s' = aput i op (ssOperations s)
       \<and> deletionPendingLocked h s' \<and> (\<forall>k. deletionPendingLocked k s \<longrightarrow> deletionPendingLocked k s')))"
  proof (cases "s' = s \<and> w = None")
    case False
    then obtain entry where e: "known_deletion h s = None" "map_of (ssStates s) h = Some entry"
      using assms(1) by (auto simp: deleteByHash_def split: if_splits option.splits)
    with False assms(1) obtain i where i: "(if reuse_operation h entry s \<noteq> '''' then Some (reuse_operation h entry s) else rnd) = Some i"
      by (auto simp: deleteByHash_def Let_def split: if_splits option.splits)
    define e1 where "e1 = entry\<lparr>rgState := StateDeleting, rgError := [], rgOperationID := i\<rparr>"
    obtain err e' s1 where w: "writeRegistryEntryLocked now e1 s = (err, e', s1)" by (metis prod_cases3)
    have "rgInfoHash e1 = hex_bytes h \<and> restorable (ssDisk s) h e1" if "durable px utf8 UNIV s" "powered s"
      using durable_entry(3) [OF that(1) e(2) that(2)] by (simp add: e1_def restorable_def)
    then have d: "(err \<noteq> None \<longrightarrow> durable px utf8 UNIV s1) \<and> (err = None \<longrightarrow> durable px utf8 UNIV (put_entry h e' s1))"
      if "durable px utf8 UNIV s"
      using update_entry(1,3) [OF that w assms(2)] that by blast
    have e': "err = None \<Longrightarrow> rgState e' = StateDeleting"
      using w by (auto simp: writeRegistryEntryLocked_def Let_def e1_def split: option.splits if_splits prod.splits)
    show ?thesis
    proof (cases err)
      case (Some x)
      then have "s' = s1" "w = None" using assms(1) False e i w by (auto simp: deleteByHash_def Let_def e1_def split: if_splits)
      then show ?thesis using d tame_write [OF w] Some by simp
    next
      case None
      obtain dk where "s1 = s\<lparr>ssDisk := dk\<rparr>" using write_memory [OF w] by blast
      moreover obtain op where "w = Some (h, map_of (ssTorrents s1) h, i)"
        "s' = (put_entry h e' s1)\<lparr>ssTorrents := adel h (ssTorrents s1), ssOperations := aput i op (ssOperations s1),
             ssActiveOps := aput h i (ssActiveOps s1), ssLastOps := aput h i (ssLastOps s1)\<rparr>"
        using assms(1) False e i w None by (auto simp: deleteByHash_def Let_def e1_def put_entry_def split: if_splits)
      ultimately show ?thesis using d e' None e(1) by (auto simp: put_entry_def deletionPendingLocked_def)
    qed
  qed (use assms(1) in auto)
  then show "durable px utf8 UNIV s \<Longrightarrow> durable px utf8 UNIV s'" "w = None \<Longrightarrow> tame s s'"
    "w = Some w' \<Longrightarrow> \<exists>t i op. w' = (h, t, i) \<and> known_deletion h s = None \<and> ssActive s' = ssActive s
       \<and> ssActiveOps s' = aput h i (ssActiveOps s) \<and> ssOperations s' = aput i op (ssOperations s)
       \<and> deletionPendingLocked h s' \<and> (\<forall>k. deletionPendingLocked k s \<longrightarrow> deletionPendingLocked k s')" by blast+
qed

text \<open>
  A worker removes the files one by one without the lock, so that other operations run in between. One
  step of it is one of the phases below.
\<close>

datatype phase = Stopping | DropFinal | DropPending | DropSubtitles | Ending

type_synonym worker = "deletion \<times> phase \<times> life_error list"

fun worker_step :: "parsers \<Rightarrow> bool \<Rightarrow> time \<Rightarrow> worker \<Rightarrow> Session \<Rightarrow> worker option \<times> Session" where
  "worker_step px closeOk now ((h, t, i), Stopping, errs) s =
     (Some ((h, t, i), DropFinal, if t \<noteq> None \<and> \<not> closeOk then [ErrClose] else []), stopMetadataFetch h s)"
| "worker_step px closeOk now ((h, t, i), DropFinal, errs) s =
     (case removeFinalMetainfoForDelete px h s of (e, s1) \<Rightarrow> (Some ((h, t, i), DropPending, errs @ (case e of None \<Rightarrow> [] | Some x \<Rightarrow> [x])), s1))"
| "worker_step px closeOk now ((h, t, i), DropPending, errs) s =
     (case removePendingMagnetForDelete px h s of (e, s1) \<Rightarrow> (Some ((h, t, i), DropSubtitles, errs @ (case e of None \<Rightarrow> [] | Some x \<Rightarrow> [x])), s1))"
| "worker_step px closeOk now ((h, t, i), DropSubtitles, errs) s =
     (case removeManagedSubtitlesForDelete h s of (e, s1) \<Rightarrow> (Some ((h, t, i), Ending, errs @ (case e of None \<Rightarrow> [] | Some x \<Rightarrow> [x])), s1))"
| "worker_step px closeOk now ((h, t, i), Ending, errs) s = (None, endDelete now h i errs s)"

text \<open>Run without interruption the phases are \<open>runDelete\<close>.\<close>

fun run_worker :: "parsers \<Rightarrow> bool \<Rightarrow> time \<Rightarrow> nat \<Rightarrow> worker option \<times> Session \<Rightarrow> worker option \<times> Session" where
  "run_worker px closeOk now (Suc n) (Some w, s) = run_worker px closeOk now n (worker_step px closeOk now w s)"
| "run_worker px closeOk now n ws = ws"

lemma run_worker_runDelete:
  "run_worker px closeOk now 5 (Some (w, Stopping, []), s) = (None, runDelete px closeOk now w s)"
  by (cases w) (simp add: runDelete_def performDelete_def numeral_eq_Suc split: prod.split)

lemma pending_disk:
  assumes "durable px utf8 UNIV s" "deletionPendingLocked h s" "powered s" "map_of (dkState (ssDisk s)) h = Some e"
  shows "rgState e = StateDeleting \<or> rgState e = StateDeleteFailed"
  using assms by (auto simp: durable_def mirror_def deletionPendingLocked_def)

lemma subtitles_frame:
  assumes "removeManagedSubtitlesForDelete h s = (e, s')"
  shows "tame s s'" "durable px utf8 K s \<Longrightarrow> durable px utf8 K s'"
proof -
  let ?f = "\<lambda>d. d\<lparr>dkSubtitles := removeAll h (dkSubtitles d)\<rparr>"
  obtain err t where o: "on_disk ?f s = (err, t)" by fastforce
  have s': "s' = s \<or> s' = t \<or> s' = t\<lparr>ssSubtitles := adel h (ssSubtitles t)\<rparr>"
    using assms o by (auto simp: removeManagedSubtitlesForDelete_def split: if_splits option.splits)
  have t: "t = s\<lparr>ssDisk := snd (disk_do ?f (ssDisk s))\<rparr>" using on_disk_memory [of ?f s] o by simp
  then show "tame s s'" using s' by (auto simp: tame_def deletionPendingLocked_def)
  have "durable px utf8 K t" if d: "durable px utf8 K s"
  proof (rule on_disk_durable(1) [OF o d])
    fix fs dk assume "dk = (ssDisk s)\<lparr>dkFaults := fs\<rparr>" "disk_ok px utf8 dk"
    then show "disk_ok px utf8 (?f dk) \<and> dkState (?f dk) = dkState dk \<and> dkCategories (?f dk) = dkCategories dk \<and> dkFaults (?f dk) = fs"
      by (simp add: disk_simps)
  qed
  then show "durable px utf8 K s \<Longrightarrow> durable px utf8 K s'" using s' by auto
qed

lemma tame_stop [simp]: "tame s (stopMetadataFetch h s)" "durable px utf8 K (stopMetadataFetch h s) = durable px utf8 K s"
  by (simp_all add: stopMetadataFetch_def tame_def deletionPendingLocked_def)

text \<open>Before its end a worker is tame.\<close>

lemma worker_step_tame:
  assumes "worker_step px closeOk now w s = (Some w', s')" "deletionPendingLocked (fst (fst w)) s"
  shows "tame s s'" "durable px utf8 UNIV s \<Longrightarrow> durable px utf8 UNIV s'" "fst w' = fst w"
proof -
  obtain h t i ph errs where w: "w = ((h, t, i), ph, errs)" by (metis prod_cases3)
  have f: "snd (removeFinalMetainfoForDelete px h s) = s' \<Longrightarrow> tame s s' \<and> (durable px utf8 UNIV s \<longrightarrow> durable px utf8 UNIV s')"
    using frame_tame [OF removeFinal_frame(3)] removeFinal_durable(2) pending_disk assms(2) w by (metis fst_conv)
  have p: "snd (removePendingMagnetForDelete px h s) = s' \<Longrightarrow> tame s s' \<and> (durable px utf8 UNIV s \<longrightarrow> durable px utf8 UNIV s')"
    using frame_tame [OF removePending_frame(3)] removePending_durable(2) pending_disk assms(2) w by (metis fst_conv)
  have "tame s s' \<and> (durable px utf8 UNIV s \<longrightarrow> durable px utf8 UNIV s') \<and> fst w' = fst w"
  proof (cases ph)
    case Stopping
    then show ?thesis using assms(1) w by auto
  next
    case DropFinal
    then show ?thesis using assms(1) w f by (auto split: prod.splits)
  next
    case DropPending
    then show ?thesis using assms(1) w p by (auto split: prod.splits)
  next
    case DropSubtitles
    then show ?thesis using assms(1) w subtitles_frame by (auto split: prod.splits)
  next
    case Ending
    then show ?thesis using assms(1) w by simp
  qed
  then show "tame s s'" "durable px utf8 UNIV s \<Longrightarrow> durable px utf8 UNIV s'" "fst w' = fst w" by blast+
qed

text \<open>What the end of a worker of \<open>h\<close> may change.\<close>

definition ends :: "hash \<Rightarrow> Session \<Rightarrow> Session \<Rightarrow> bool" where
  "ends h s s' \<longleftrightarrow> ssActive s' = ssActive s \<and> ssActiveOps s' = adel h (ssActiveOps s)
     \<and> (\<forall>i. map_of (ssOperations s) i \<noteq> None \<longrightarrow> map_of (ssOperations s') i \<noteq> None)
     \<and> (\<forall>k. k \<noteq> h \<longrightarrow> map_of (ssStates s') k = map_of (ssStates s) k)"

lemma set_operation_fields [simp]:
  "ssActive (set_operation i st errs c now s) = ssActive s" "ssActiveOps (set_operation i st errs c now s) = ssActiveOps s"
  "ssStates (set_operation i st errs c now s) = ssStates s" "ssDisk (set_operation i st errs c now s) = ssDisk s"
  "map_of (ssOperations s) j \<noteq> None \<Longrightarrow> map_of (ssOperations (set_operation i st errs c now s)) j \<noteq> None"
  "durable px utf8 K (set_operation i st errs c now s) = durable px utf8 K s"
  by (auto simp: set_operation_def split: option.splits)

definition only_entry :: "hash \<Rightarrow> Session \<Rightarrow> Session \<Rightarrow> bool" where
  "only_entry h s s' \<longleftrightarrow> s' = s\<lparr>ssDisk := ssDisk s', ssStates := ssStates s'\<rparr> \<and> (\<forall>k. k \<noteq> h \<longrightarrow> map_of (ssStates s') k = map_of (ssStates s) k)"

lemma only_entry_fields:
  assumes "only_entry h s s'"
  shows "ssActive s' = ssActive s" "ssActiveOps s' = ssActiveOps s" "ssOperations s' = ssOperations s"
    "k \<noteq> h \<Longrightarrow> map_of (ssStates s') k = map_of (ssStates s) k"
proof -
  have s': "s' = s\<lparr>ssDisk := ssDisk s', ssStates := ssStates s'\<rparr>" using assms by (simp add: only_entry_def)
  show "ssActive s' = ssActive s" "ssActiveOps s' = ssActiveOps s" "ssOperations s' = ssOperations s" by (subst s', simp)+
qed (use assms in \<open>simp add: only_entry_def\<close>)

lemma setDeleteFailed_effect:
  assumes "now \<noteq> 0"
  shows "durable px utf8 UNIV s \<Longrightarrow> durable px utf8 UNIV (setDeleteFailedLocked now h errs s)"
    "only_entry h s (setDeleteFailedLocked now h errs s)"
proof -
  have "(durable px utf8 UNIV s \<longrightarrow> durable px utf8 UNIV (setDeleteFailedLocked now h errs s))
    \<and> only_entry h s (setDeleteFailedLocked now h errs s)"
  proof (cases "map_of (ssStates s) h")
    case None
    then show ?thesis by (simp add: setDeleteFailedLocked_def only_entry_def)
  next
    case (Some entry)
    define e where "e = entry\<lparr>rgState := StateDeleteFailed, rgError := errs\<rparr>"
    obtain err e' s1 where w: "writeRegistryEntryLocked now e s = (err, e', s1)" by (metis prod_cases3)
    obtain d where d: "s1 = s\<lparr>ssDisk := d\<rparr>" using write_memory [OF w] by blast
    have r: "setDeleteFailedLocked now h errs s = (if err = None then put_entry h e' s1 else s1)"
      using Some w by (auto simp: setDeleteFailedLocked_def e_def split: option.splits)
    have "rgInfoHash e = hex_bytes h \<and> restorable (ssDisk s) h e" if "durable px utf8 UNIV s" "powered s"
      using durable_entry(3) [OF that(1) Some that(2)] by (simp add: e_def restorable_def)
    then have "durable px utf8 UNIV s \<longrightarrow> durable px utf8 UNIV (setDeleteFailedLocked now h errs s)"
      unfolding r using update_entry(1,3) [OF _ w assms] by (metis (full_types))
    then show ?thesis by (simp add: r d only_entry_def put_entry_def)
  qed
  then show "durable px utf8 UNIV s \<Longrightarrow> durable px utf8 UNIV (setDeleteFailedLocked now h errs s)"
    "only_entry h s (setDeleteFailedLocked now h errs s)" by blast+
qed

lemma failDelete_effect:
  assumes "now \<noteq> 0"
  shows "durable px utf8 UNIV s \<Longrightarrow> durable px utf8 UNIV (failDeleteLocked now h i errs s)" "ends h s (failDeleteLocked now h i errs s)"
proof -
  show "ends h s (failDeleteLocked now h i errs s)"
    using set_operation_fields(5) only_entry_fields [OF setDeleteFailed_effect(2) [where h = h and errs = errs and s = s, OF assms]]
    by (fastforce simp: ends_def failDeleteLocked_def Let_def)
  show "durable px utf8 UNIV s \<Longrightarrow> durable px utf8 UNIV (failDeleteLocked now h i errs s)"
    using setDeleteFailed_effect(1) [OF assms] by (simp add: failDeleteLocked_def Let_def)
qed

lemma disk_ok_state_del: "disk_ok px utf8 d \<Longrightarrow> disk_ok px utf8 (d\<lparr>dkState := adel h (dkState d)\<rparr>)"
  using disk_ok_drop [where d = d and fs = "dkFaults d"] by simp

lemma removeRegistry_effect:
  assumes "removeRegistryEntryLocked h s = (err, s')"
  shows "durable px utf8 UNIV s \<Longrightarrow> durable px utf8 UNIV s'"
    "only_entry h s s'"
proof -
  let ?f = "\<lambda>d. d\<lparr>dkState := adel h (dkState d)\<rparr>"
  obtain er t where o: "on_disk ?f s = (er, t)" by fastforce
  have t: "t = s\<lparr>ssDisk := snd (disk_do ?f (ssDisk s))\<rparr>" using on_disk_memory [of ?f s] o by simp
  have s': "s' = (if map_of (dkState (ssDisk s)) h = None then s\<lparr>ssStates := adel h (ssStates s)\<rparr>
             else if er = None then t\<lparr>ssStates := adel h (ssStates t)\<rparr> else t)"
    using assms o by (auto simp: removeRegistryEntryLocked_def split: if_splits option.splits)
  then show "only_entry h s s'" by (simp add: t only_entry_def)
  show "durable px utf8 UNIV s'" if d: "durable px utf8 UNIV s"
  proof (cases "map_of (dkState (ssDisk s)) h")
    case None
    then show ?thesis using d s' by (auto simp: durable_def mirror_def categories_mirror_def)
  next
    case (Some e)
    have ns: "NotSynced \<notin> set (dkFaults (ssDisk s))" using d by (simp add: durable_def)
    show ?thesis using o ns
    proof (cases rule: on_disk_cases)
      case (Done fs)
      have "disk_ok px utf8 (?f ((ssDisk s)\<lparr>dkFaults := fs\<rparr>))"
        using disk_ok_state_del [of px utf8 "(ssDisk s)\<lparr>dkFaults := fs\<rparr>"] d by (simp add: durable_def disk_simps)
      moreover have "mirror UNIV s'" "categories_mirror utf8 s'"
        using d Done(1,2) Some s' by (auto simp: Done(4) durable_def mirror_def categories_mirror_def disk_categories_def)
      moreover have "NotSynced \<notin> set fs" using Done(3) ns by auto
      ultimately show ?thesis using s' Some Done(1) by (simp add: durable_def Done(4))
    next
      case (Failed fs b)
      then show ?thesis using s' Some durable_failed [OF d Failed(2,3)] by simp
    qed
  qed
qed

lemma endDelete_effect:
  assumes "now \<noteq> 0"
  shows "durable px utf8 UNIV s \<Longrightarrow> durable px utf8 UNIV (endDelete now h i errs s)" "ends h s (endDelete now h i errs s)"
proof -
  obtain err s1 where r: "removeRegistryEntryLocked h s = (err, s1)" by fastforce
  note s1 = only_entry_fields [OF removeRegistry_effect(2) [OF r]]
  show "durable px utf8 UNIV s \<Longrightarrow> durable px utf8 UNIV (endDelete now h i errs s)"
    using removeRegistry_effect(1) [OF r] failDelete_effect(1) [OF assms] r
    by (simp add: endDelete_def Let_def split: option.splits)
  have "ends h s (failDeleteLocked now h i x s1)" for x
    using failDelete_effect(2) [OF assms, of h s1 i x] s1 by (simp add: ends_def)
  moreover have "ends h s ((set_operation i StateDeleted [] '''' now s1)\<lparr>ssActiveOps := adel h (ssActiveOps s1)\<rparr>)"
    using s1 set_operation_fields(5) by (fastforce simp: ends_def)
  ultimately show "ends h s (endDelete now h i errs s)"
    using failDelete_effect(2) [OF assms] r by (auto simp: endDelete_def Let_def split: option.splits)
qed

section \<open>Pruning\<close>

lemma delete_other:
  assumes "deleteByHash rnd now h skip s = (r, w, s')" "k \<noteq> h \<or> skip \<and> (\<exists>e. map_of (ssStates s) k = Some e \<and> rgFavorite e)"
  shows "map_of (ssStates s') k = map_of (ssStates s) k" "w = Some x \<Longrightarrow> fst x \<noteq> k"
proof -
  have "map_of (ssStates s') k = map_of (ssStates s) k \<and> (\<forall>x. w = Some x \<longrightarrow> fst x \<noteq> k)"
  proof (cases "known_deletion h s = None \<and> ssActive s \<and> \<not> (k = h)")
    case True
    show ?thesis using assms(1) True write_states
      by (auto simp: deleteByHash_def Let_def put_entry_def split: option.splits if_splits prod.splits)
  next
    case False
    then have "s' = s" "w = None" using assms by (auto simp: deleteByHash_def Let_def split: option.splits if_splits)
    then show ?thesis by simp
  qed
  then show "map_of (ssStates s') k = map_of (ssStates s) k" "w = Some x \<Longrightarrow> fst x \<noteq> k" by blast+
qed

lemma prune_loop_spares:
  assumes "prune_loop rnd now hs r ws s = (r', ws', s')" "map_of (ssStates s) k = Some e" "rgFavorite e \<or> k \<notin> set hs"
  shows "map_of (ssStates s') k = Some e" "k \<notin> fst ` set ws \<Longrightarrow> k \<notin> fst ` set ws'"
proof -
  have "map_of (ssStates s') k = Some e \<and> (k \<notin> fst ` set ws \<longrightarrow> k \<notin> fst ` set ws')"
    using assms
  proof (induction hs arbitrary: r ws s)
    case (Cons h hs)
    obtain res w s1 where d: "deleteByHash (rnd h) now h True s = (res, w, s1)" by (metis prod_cases3)
    have c: "k \<noteq> h \<or> True \<and> (\<exists>e. map_of (ssStates s) k = Some e \<and> rgFavorite e)" using Cons.prems(2,3) by auto
    note o = delete_other [OF d c]
    have s1: "map_of (ssStates s1) k = Some e" using o(1) Cons.prems(2) by simp
    have fav: "rgFavorite e \<or> k \<notin> set hs" using Cons.prems(3) by auto
    let ?ws = "ws @ (case w of None \<Rightarrow> [] | Some x \<Rightarrow> [x])"
    have "k \<notin> fst ` set ws \<Longrightarrow> k \<notin> fst ` set ?ws" using o(2) by (auto split: option.splits)
    moreover obtain r1 where "prune_loop rnd now hs r1 ?ws s1 = (r', ws', s')" using Cons.prems(1) d by auto
    ultimately show ?case using Cons.IH [OF _ s1 fav] by blast
  qed simp
  then show "map_of (ssStates s') k = Some e" "k \<notin> fst ` set ws \<Longrightarrow> k \<notin> fst ` set ws'" by blast+
qed


definition sample_entry :: "hash \<Rightarrow> time \<Rightarrow> bool \<Rightarrow> registryEntry" where
  "sample_entry h t fav = (newRegistryEntry t h ''a'' StateReady)\<lparr>rgUpdatedAt := t, rgFavorite := fav\<rparr>"


end
