(* ===== verification/Restart.thy ===== *)
theory Restart
  imports Durability
begin

text \<open>
  The start of a session over the directory that an earlier one left behind: whatever step the power failed at, every
  torrent that was registered comes back and every deletion that was accepted is finished.
\<close>

section \<open>Stages\<close>

definition durable_disk :: "parsers \<Rightarrow> (string \<Rightarrow> bool) \<Rightarrow> Disk \<Rightarrow> bool" where
  "durable_disk px utf8 d \<longleftrightarrow> disk_ok px utf8 d \<and> NotSynced \<notin> set (dkFaults d)"

lemma durable_durable_disk: "durable px utf8 K s \<Longrightarrow> durable_disk px utf8 (ssDisk s)"
  by (simp add: durable_def durable_disk_def)

text \<open>The outcome of a stage: the invariant for the next one, or at least a sound directory.\<close>

definition stage_ok :: "parsers \<Rightarrow> (string \<Rightarrow> bool) \<Rightarrow> hash set \<Rightarrow> start_result \<Rightarrow> bool" where
  "stage_ok px utf8 K r \<longleftrightarrow>
     (case r of Inl (e, s) \<Rightarrow> durable_disk px utf8 (ssDisk s)
              | Inr s \<Rightarrow> durable px utf8 K s \<and> powered s)"

lemma load_categories_loop_ok:
  assumes "\<forall>c \<in> set cs. category_ok utf8 c" "distinct (map cvName cs)" "fst ` set m \<inter> cvName ` set cs = {}"
    "distinct (map fst m)" "\<forall>n c. map_of m n = Some c \<longrightarrow> cvName c = n \<and> category_ok utf8 c"
  shows "\<exists>m'. load_categories_loop utf8 cs m = Inr m' \<and> distinct (map fst m') \<and> fst ` set m' = fst ` set m \<union> cvName ` set cs
     \<and> (\<forall>n c. map_of m' n = Some c \<longrightarrow> cvName c = n \<and> category_ok utf8 c)"
  using assms
proof (induction cs arbitrary: m)
  case (Cons c cs)
  have c: "category_ok utf8 c" "map_of m (cvName c) = None" using Cons.prems(1,3) by (auto simp: map_of_eq_None_iff)
  let ?m = "aput (cvName c) c m"
  have "\<exists>m'. load_categories_loop utf8 cs ?m = Inr m' \<and> distinct (map fst m') \<and> fst ` set m' = fst ` set ?m \<union> cvName ` set cs
     \<and> (\<forall>n c. map_of m' n = Some c \<longrightarrow> cvName c = n \<and> category_ok utf8 c)"
  proof (rule Cons.IH)
    show "\<forall>n c'. map_of ?m n = Some c' \<longrightarrow> cvName c' = n \<and> category_ok utf8 c'"
      using Cons.prems(5) c(1) by (metis fun_upd_apply map_of_aput option.inject)
  qed (use Cons.prems in auto)
  moreover have "load_categories_loop utf8 (c # cs) m = load_categories_loop utf8 cs ?m"
    using c by (simp add: category_ok_def)
  ultimately show ?case by auto
qed simp

lemma loadCategories_ok:
  assumes "durable_disk px utf8 d" "\<not> dkOff d"
  shows "\<exists>s. loadCategories utf8 (newSession d) = Inr s \<and> durable px utf8 {} s \<and> (\<exists>m. s = (newSession d)\<lparr>ssCategories := m\<rparr>)"
proof -
  have "\<forall>c \<in> set (disk_categories d). category_ok utf8 c" "distinct (map cvName (disk_categories d))"
    using assms(1) by (auto simp: durable_disk_def disk_ok_def)
  from load_categories_loop_ok [OF this, of "[]"] obtain m where
    m: "load_categories_loop utf8 (disk_categories d) [] = Inr m" "distinct (map fst m)" "fst ` set m = cvName ` set (disk_categories d)"
      "\<forall>n c. map_of m n = Some c \<longrightarrow> cvName c = n \<and> category_ok utf8 c" by auto
  have "durable px utf8 {} ((newSession d)\<lparr>ssCategories := m\<rparr>)"
    using m(2-4) assms by (simp add: durable_def durable_disk_def newSession_def mirror_def categories_mirror_def)
  moreover have "loadCategories utf8 (newSession d) = Inr ((newSession d)\<lparr>ssCategories := m\<rparr>)"
    using m(1) by (auto simp: loadCategories_def newSession_def disk_categories_def split: option.splits)
  ultimately show ?thesis by blast
qed

lemma durable_load:
  assumes "durable px utf8 K s" "map_of (dkState (ssDisk s)) h = Some e"
  shows "durable px utf8 (insert h K) (put_entry h e s)"
  using assms by (auto simp: durable_def mirror_def put_entry_def categories_mirror_def)

lemma durable_full:
  assumes "durable px utf8 K s" "fst ` set (dkState (ssDisk s)) \<subseteq> K"
  shows "durable px utf8 UNIV s"
proof -
  have "map_of (dkState (ssDisk s)) h = None" if "h \<notin> K" for h using that assms(2) by (auto simp: map_of_eq_None_iff)
  then show ?thesis using assms(1) by (auto simp: durable_def mirror_def)
qed

text \<open>The sidecars that are still to be loaded.\<close>

definition to_load :: "hash set \<Rightarrow> (hash \<times> registryEntry) list \<Rightarrow> Session \<Rightarrow> bool" where
  "to_load K es s \<longleftrightarrow> (\<forall>(h, e) \<in> set es. map_of (dkState (ssDisk s)) h = Some e) \<and> distinct (map fst es)
     \<and> fst ` set (dkState (ssDisk s)) = K \<union> fst ` set es"

lemma load_entry_known:
  assumes "durable px utf8 K s" "powered s" "map_of (dkState (ssDisk s)) h = Some e"
  shows "validateRegistryEntry h e = Some h" "rgCategory e \<noteq> '''' \<longrightarrow> map_of (ssCategories s) (rgCategory e) \<noteq> None"
proof -
  have e: "entry_ok (ssDisk s) h e" "categories_mirror utf8 s" using assms by (auto simp: durable_def disk_ok_def)
  show "validateRegistryEntry h e = Some h" using e(1) by (simp add: entry_ok_def)
  have "rgCategory e \<noteq> '''' \<longrightarrow> rgCategory e \<in> fst ` set (ssCategories s)"
    using e by (auto simp: entry_ok_def known_category_def categories_mirror_def)
  then show "rgCategory e \<noteq> '''' \<longrightarrow> map_of (ssCategories s) (rgCategory e) \<noteq> None" by (auto simp: map_of_eq_None_iff)
qed

lemma load_registry_loop_ok:
  assumes "durable px utf8 K s" "powered s" "to_load K es s" "now \<noteq> 0"
  shows "stage_ok px utf8 UNIV (load_registry_loop rnd now es s)"
  using assms
proof (induction rnd now es s arbitrary: K rule: load_registry_loop.induct)
  case (1 rnd now s)
  then show ?case using durable_full by (auto simp: stage_ok_def to_load_def)
next
  case (2 rnd now h e es s)
  have e: "map_of (dkState (ssDisk s)) h = Some e" using 2(5) by (auto simp: to_load_def)
  note k = load_entry_known [OF 2(3,4) e]
  show ?case
  proof (cases "rgState e = StateDeleting \<and> rgOperationID e = ''''")
    case False
    have "stage_ok px utf8 UNIV (load_registry_loop rnd now es (put_entry h e s))"
    proof (rule 2(2) [OF k(1) _ False durable_load [OF 2(3) e]])
      show "to_load (insert h K) es (put_entry h e s)" using 2(5) by (auto simp: to_load_def put_entry_def)
    qed (use k 2 in \<open>auto simp: put_entry_def\<close>)
    then show ?thesis using k False by auto
  next
    case True
    show ?thesis
    proof (cases "case rnd of [] \<Rightarrow> None | r # x \<Rightarrow> r")
      case None
      then show ?thesis using k True durable_durable_disk [OF 2(3)] by (auto simp: stage_ok_def)
    next
      case (Some i)
      obtain err e' s1 where w: "writeRegistryEntryLocked now (e\<lparr>rgOperationID := i\<rparr>) s = (err, e', s1)" by (metis prod_cases3)
      have hh: "rgInfoHash (e\<lparr>rgOperationID := i\<rparr>) = hex_bytes h" "restorable (ssDisk s) h (e\<lparr>rgOperationID := i\<rparr>)"
        using k(1) True by (auto simp: validate_entry_iff restorable_def)
      note p = write_put [OF 2(3) w hh(1) 2(6) hh(2)]
      show ?thesis
      proof (cases err)
        case None
        obtain fs where s1: "s1 = s\<lparr>ssDisk := (ssDisk s)\<lparr>dkFaults := fs, dkState := aput h e' (dkState (ssDisk s))\<rparr>\<rparr>"
          using p(4) [OF None] by blast
        have "stage_ok px utf8 UNIV (load_registry_loop (tl rnd) now es (put_entry h e' s1))"
        proof (rule 2(1) [OF k(1) _ True Some w [unfolded None, symmetric] refl _ p(3) [OF None]])
          show "to_load (insert h K) es (put_entry h e' s1)" using 2(5) by (force simp: to_load_def put_entry_def s1)
        qed (use k 2 in \<open>auto simp: put_entry_def s1\<close>)
        then show ?thesis using k True Some w None by auto
      next
        case err: (Some x)
        then show ?thesis using k True Some w durable_durable_disk [OF p(1)] by (auto simp: stage_ok_def)
      qed
    qed
  qed
qed

lemma sort_key_map_of:
  "distinct (map fst xs) \<Longrightarrow> distinct (map fst (sort_key f xs)) \<and> (\<forall>(h, e) \<in> set (sort_key f xs). map_of xs h = Some e)"
  by (auto simp: distinct_map)

lemma loadRegistry_ok:
  assumes "durable px utf8 {} s" "powered s" "now \<noteq> 0"
  shows "stage_ok px utf8 UNIV (loadRegistry rnd now s)"
proof -
  have "distinct (map fst (dkState (ssDisk s)))" using assms(1) by (simp add: durable_def disk_ok_def)
  then have "to_load {} (sort_key (hex_bytes \<circ> fst) (dkState (ssDisk s))) s"
    using sort_key_map_of [of "dkState (ssDisk s)" "hex_bytes \<circ> fst"] by (simp add: to_load_def)
  then show ?thesis unfolding loadRegistry_def using load_registry_loop_ok assms by blast
qed

text \<open>The hashes whose deletion is resumed.\<close>

definition all_pending :: "hash list \<Rightarrow> Session \<Rightarrow> bool" where
  "all_pending hs s \<longleftrightarrow> distinct hs \<and> (\<forall>h \<in> set hs. deletionPendingLocked h s)"

lemma pending_deletions_pending:
  assumes "distinct (map fst (ssStates s))"
  shows "all_pending (pending_deletions s) s" "h \<in> set (pending_deletions s) \<longleftrightarrow> deletionPendingLocked h s"
proof -
  have i: "h \<in> set (pending_deletions s) \<longleftrightarrow> deletionPendingLocked h s" for h
  proof -
    have "h \<in> set (pending_deletions s) \<longleftrightarrow> (\<exists>e. (h, e) \<in> set (ssStates s) \<and> (rgState e = StateDeleting \<or> rgState e = StateDeleteFailed))"
      by (force simp: pending_deletions_def)
    also have "\<dots> \<longleftrightarrow> deletionPendingLocked h s"
      unfolding map_of_eq_Some_iff [OF assms, symmetric] deletionPendingLocked_def by (auto split: option.splits)
    finally show ?thesis .
  qed
  then show "h \<in> set (pending_deletions s) \<longleftrightarrow> deletionPendingLocked h s" .
  have "distinct (pending_deletions s)" using assms by (simp add: pending_deletions_def distinct_map_filter)
  then show "all_pending (pending_deletions s) s" using i by (simp add: all_pending_def)
qed

lemma all_pending_tame: "all_pending hs s \<Longrightarrow> (\<And>h. deletionPendingLocked h s \<Longrightarrow> deletionPendingLocked h s') \<Longrightarrow> all_pending hs s'"
  by (simp add: all_pending_def)

text \<open>Giving an operation to an entry that is being deleted.\<close>

lemma resume_write:
  assumes "durable px utf8 UNIV s" "map_of (ssStates s) h = Some entry" "deletionPendingLocked h s"
    "powered s" "writeRegistryEntryLocked now (entry\<lparr>rgOperationID := i\<rparr>) s = (err, e', s1)" "now \<noteq> 0"
  shows "err \<noteq> None \<Longrightarrow> durable px utf8 UNIV s1"
    "err = None \<Longrightarrow> durable px utf8 UNIV (put_entry h e' s1) \<and> powered (put_entry h e' s1)
       \<and> (\<forall>k. deletionPendingLocked k s \<longrightarrow> deletionPendingLocked k (put_entry h e' s1))"
proof -
  have d: "rgState entry = StateDeleting \<or> rgState entry = StateDeleteFailed" using assms(2,3) by (simp add: deletionPendingLocked_def)
  have "rgInfoHash (entry\<lparr>rgOperationID := i\<rparr>) = hex_bytes h \<and> restorable (ssDisk s) h (entry\<lparr>rgOperationID := i\<rparr>)"
    using durable_entry(3) [OF assms(1,2,4)] d by (auto simp: restorable_def)
  note u = update_entry [OF assms(1,5,6) this]
  show "err \<noteq> None \<Longrightarrow> durable px utf8 UNIV s1" by (rule u(1))
  assume n: "err = None"
  obtain fs where "s1 = s\<lparr>ssDisk := (ssDisk s)\<lparr>dkFaults := fs, dkState := aput h e' (dkState (ssDisk s))\<rparr>\<rparr>" "e' = entry\<lparr>rgOperationID := i, rgUpdatedAt := now\<rparr>" "powered s"
    using u(4) [OF n] by auto
  then show "durable px utf8 UNIV (put_entry h e' s1) \<and> powered (put_entry h e' s1)
       \<and> (\<forall>k. deletionPendingLocked k s \<longrightarrow> deletionPendingLocked k (put_entry h e' s1))"
    using u(3) [OF n] d by (auto simp: put_entry_def deletionPendingLocked_def)
qed

lemma resume_register_ok:
  assumes "durable px utf8 UNIV s" "powered s" "all_pending hs s" "now \<noteq> 0" "resume_register rnd now hs ws s = r"
  shows "case r of Inl (e, s') \<Rightarrow> durable_disk px utf8 (ssDisk s')
       | Inr (ws', s') \<Rightarrow> durable px utf8 UNIV s' \<and> powered s' \<and> map fst ws' = map fst ws @ hs
           \<and> (\<forall>k. deletionPendingLocked k s \<longrightarrow> deletionPendingLocked k s')"
  using assms
proof (induction hs arbitrary: rnd ws s r)
  case Nil
  then show ?case by auto
next
  case (Cons h hs)
  note 2 = Cons.IH Cons.prems
  from 2(4) have hp: "deletionPendingLocked h s" by (simp add: all_pending_def)
  then obtain entry where e: "map_of (ssStates s) h = Some entry" by (auto simp: deletionPendingLocked_def split: option.splits)
  define step where "step = (if rgOperationID entry \<noteq> '''' then Inr (rnd, entry, s)
                 else case (case rnd of [] \<Rightarrow> None | r # _ \<Rightarrow> r) of
                        None \<Rightarrow> Inl (ErrRandom, s)
                      | Some i \<Rightarrow>
                          (case writeRegistryEntryLocked now (entry\<lparr>rgOperationID := i\<rparr>) s of
                             (Some er, _, s1) \<Rightarrow> Inl (er, s1)
                           | (None, e', s1) \<Rightarrow> Inr (tl rnd, e', put_entry h e' s1)))"
  have st: "case step of Inl (e, s') \<Rightarrow> durable_disk px utf8 (ssDisk s')
      | Inr (rnd', e', s') \<Rightarrow> durable px utf8 UNIV s' \<and> powered s' \<and> (\<forall>k. deletionPendingLocked k s \<longrightarrow> deletionPendingLocked k s')"
  proof (cases "rgOperationID entry \<noteq> '''' \<or> (case rnd of [] \<Rightarrow> None | r # _ \<Rightarrow> r) = None")
    case True
    then show ?thesis using 2(2,3) durable_durable_disk [OF 2(2)] by (auto simp: step_def)
  next
    case False
    then obtain i where i: "(case rnd of [] \<Rightarrow> None | r # _ \<Rightarrow> r) = Some i" by auto
    obtain err e' s1 where w: "writeRegistryEntryLocked now (entry\<lparr>rgOperationID := i\<rparr>) s = (err, e', s1)" by (metis prod_cases3)
    note rw = resume_write [OF 2(2) e hp 2(3) w 2(5)]
    show ?thesis using rw(2) durable_durable_disk [OF rw(1)] False i w by (cases err) (auto simp: step_def)
  qed
  show ?case
  proof (cases step)
    case (Inl er)
    then have "r = Inl er" using 2(6) e by (simp add: step_def [symmetric])
    then show ?thesis using st Inl by (auto split: prod.splits)
  next
    case (Inr x)
    obtain rnd' e' s1 where x: "x = (rnd', e', s1)" by (metis prod_cases3)
    define op where "op = \<lparr>opID = rgOperationID e', opTorrentID = hex_bytes h, opState = StateDeleting, opError = [], opErrorCode = '''',
                         opCreatedAt = now, opUpdatedAt = now\<rparr>"
    define s2 where "s2 = s1\<lparr>ssOperations := aput (rgOperationID e') op (ssOperations s1), ssActiveOps := aput h (rgOperationID e') (ssActiveOps s1),
                        ssLastOps := aput h (rgOperationID e') (ssLastOps s1), ssTorrents := adel h (ssTorrents s1)\<rparr>"
    have s2: "durable px utf8 UNIV s2" "powered s2" "\<And>k. deletionPendingLocked k s2 = deletionPendingLocked k s1"
      using st Inr x by (simp_all add: s2_def deletionPendingLocked_def)
    have p: "all_pending hs s2" using 2(4) st Inr x s2(3) by (simp add: all_pending_def)
    have "resume_register rnd' now hs (ws @ [(h, map_of (ssTorrents s1) h, rgOperationID e')]) s2 = r"
      using 2(6) e Inr x by (simp add: step_def [symmetric] Let_def op_def s2_def)
    note IH = Cons.IH [OF s2(1,2) p 2(5) this]
    show ?thesis using IH st Inr x s2(3) by (auto split: sum.splits)
  qed
qed

lemma performDelete_durable:
  assumes "durable px utf8 UNIV s" "deletionPendingLocked h s" "performDelete px closeOk h t s = (errs, s')"
  shows "durable px utf8 UNIV s'" "tame s s'"
proof -
  obtain e1 s1 where f: "removeFinalMetainfoForDelete px h s = (e1, s1)" by fastforce
  obtain e2 s2 where p: "removePendingMagnetForDelete px h s1 = (e2, s2)" by fastforce
  obtain e3 s3 where m: "removeManagedSubtitlesForDelete h s2 = (e3, s3)" by fastforce
  have s': "s' = s3" using assms(3) f p m by (simp add: performDelete_def)
  have "durable px utf8 UNIV s1" "tame s s1"
    using removeFinal_durable(2) [OF assms(1)] pending_disk [OF assms(1,2)] frame_tame [OF removeFinal_frame(3)] f by (metis snd_conv)+
  moreover from this have "deletionPendingLocked h s1" using assms(2) by (simp add: tame_def)
  ultimately have "durable px utf8 UNIV s2" "tame s s2"
    using removePending_durable(2) pending_disk frame_tame [OF removePending_frame(3)] tame_trans p by (metis snd_conv)+
  then show "durable px utf8 UNIV s'" "tame s s'"
    using subtitles_frame [OF m] tame_trans s' by blast+
qed

lemma runDelete_durable:
  assumes "durable px utf8 UNIV s" "deletionPendingLocked h s" "now \<noteq> 0"
  shows "durable px utf8 UNIV (runDelete px closeOk now (h, t, i) s)"
    "k \<noteq> h \<Longrightarrow> deletionPendingLocked k s \<Longrightarrow> deletionPendingLocked k (runDelete px closeOk now (h, t, i) s)"
proof -
  obtain errs s1 where p: "performDelete px closeOk h t (stopMetadataFetch h s) = (errs, s1)" by fastforce
  have d: "durable px utf8 UNIV (stopMetadataFetch h s)" "deletionPendingLocked h (stopMetadataFetch h s)"
    using assms tame_stop(1) [of s h] by (simp_all add: tame_def)
  note pd = performDelete_durable [OF d p]
  have r: "runDelete px closeOk now (h, t, i) s = endDelete now h i errs s1" using p by (simp add: runDelete_def)
  show "durable px utf8 UNIV (runDelete px closeOk now (h, t, i) s)" unfolding r by (rule endDelete_effect(1) [OF assms(3) pd(1)])
  assume k: "k \<noteq> h" "deletionPendingLocked k s"
  then have "deletionPendingLocked k s1" using tame_trans [OF tame_stop(1) pd(2)] by (simp add: tame_def)
  then show "deletionPendingLocked k (runDelete px closeOk now (h, t, i) s)"
    using endDelete_effect(2) [OF assms(3)] k(1) unfolding r by (simp add: ends_def deletionPendingLocked_def)
qed

lemma fold_runDelete_durable:
  assumes "durable px utf8 UNIV s" "all_pending (map fst ws) s" "now \<noteq> 0"
  shows "durable px utf8 UNIV (fold (runDelete px closeOk now) ws s)"
  using assms
proof (induction ws arbitrary: s)
  case (Cons w ws)
  obtain h t i where w: "w = (h, t, i)" by (metis prod_cases3)
  have h: "deletionPendingLocked h s" "h \<notin> set (map fst ws)" using Cons.prems(2) w by (auto simp: all_pending_def)
  note r = runDelete_durable [OF Cons.prems(1) h(1) Cons.prems(3)]
  have "all_pending (map fst ws) (runDelete px closeOk now w s)"
    unfolding all_pending_def
  proof (intro conjI ballI)
    fix k assume k: "k \<in> set (map fst ws)"
    then have "k \<noteq> h" "deletionPendingLocked k s" using Cons.prems(2) h(2) by (auto simp: all_pending_def)
    then show "deletionPendingLocked k (runDelete px closeOk now w s)" unfolding w by (rule r(2))
  qed (use Cons.prems(2) in \<open>simp add: all_pending_def\<close>)
  then show ?case using Cons.IH r(1) Cons.prems(3) by (simp add: w)
qed simp

text \<open>After the first stages the power may have failed; the invariant then speaks of the disk only.\<close>

definition stage_end :: "parsers \<Rightarrow> (string \<Rightarrow> bool) \<Rightarrow> start_result \<Rightarrow> bool" where
  "stage_end px utf8 r \<longleftrightarrow> (case r of Inl (e, s) \<Rightarrow> durable_disk px utf8 (ssDisk s) | Inr s \<Rightarrow> durable px utf8 UNIV s)"

lemma resumeDeletions_ok:
  assumes "durable px utf8 UNIV s" "powered s" "now \<noteq> 0"
  shows "stage_end px utf8 (resumeDeletions px rnd now s)"
proof -
  have "distinct (map fst (ssStates s))" using assms(1,2) by (simp add: durable_def mirror_def)
  note p = pending_deletions_pending(1) [OF this]
  note r = resume_register_ok [OF assms(1,2) p assms(3) refl [of "resume_register rnd now (pending_deletions s) [] s"]]
  show ?thesis
  proof (cases "resume_register rnd now (pending_deletions s) [] s")
    case (Inl a)
    then show ?thesis using r by (auto simp: stage_end_def resumeDeletions_def split: prod.splits)
  next
    case (Inr b)
    obtain ws s1 where b: "b = (ws, s1)" by fastforce
    have "all_pending (map fst ws) s1" "durable px utf8 UNIV s1" using r Inr b p by (auto simp: all_pending_def)
    then show ?thesis using fold_runDelete_durable assms(3) Inr b by (simp add: stage_end_def resumeDeletions_def)
  qed
qed

lemma updateState_ok:
  assumes "durable px utf8 UNIV s" "map_of (ssStates s) h = Some e" "\<not> (rgState e = StateDeleting \<or> rgState e = StateDeleteFailed)"
    "updateState st now h name s = (err, s')" "now \<noteq> 0"
    "st = StateReady \<and> map_of (dkFinal (ssDisk s)) h \<noteq> None \<or> st = StateAdding \<and> map_of (dkPending (ssDisk s)) h \<noteq> None"
  shows "durable px utf8 UNIV s'" "err = None \<Longrightarrow> dkFinal (ssDisk s') = dkFinal (ssDisk s)"
proof -
  define e1 where "e1 = e\<lparr>rgState := st, rgName := name, rgError := [], rgOperationID := ''''\<rparr>"
  obtain er e' s1 where w: "writeRegistryEntryLocked now e1 s = (er, e', s1)" by (metis prod_cases3)
  have s': "s' = (if er = None then put_entry h e' s1 else s1)" "err = er"
    using assms(2,4) w by (auto simp: updateState_def e1_def split: option.splits)
  have "restorable (ssDisk s) h e1" using assms(6) by (auto simp: restorable_def e1_def)
  note u = sound_update [OF assms(2,3) w assms(5), of px utf8]
  then show "durable px utf8 UNIV s'" using \<open>restorable (ssDisk s) h e1\<close> assms(1) s' by (auto simp: sound_step_def e1_def)
  show "err = None \<Longrightarrow> dkFinal (ssDisk s') = dkFinal (ssDisk s)"
  proof -
    assume n: "err = None"
    have "rgInfoHash e1 = hex_bytes h \<and> restorable (ssDisk s) h e1" if "powered s"
      using durable_entry(3) [OF assms(1,2) that] \<open>restorable (ssDisk s) h e1\<close> by (simp add: e1_def)
    then show ?thesis using update_entry(4) [OF assms(1) w assms(5)] n s' by (force simp: put_entry_def)
  qed
qed

lemma addSpec_frame:
  assumes "addTorrentSpecLocked cl alive h s = (r, s')"
  shows "durable px utf8 K s' = durable px utf8 K s" "ssStates s' = ssStates s" "ssDisk s' = ssDisk s"
  using assms by (auto simp: addTorrentSpecLocked_def split: sum.splits if_splits) (simp_all add: publishTorrentLocked_def)

lemma restore_entry_ok:
  assumes "durable px utf8 UNIV s" "now \<noteq> 0"
  shows "stage_end px utf8 (restore_entry px cl now h s)"
proof (cases "map_of (ssStates s) h")
  case (Some entry)
  note dd = durable_durable_disk [OF assms(1)]
  show ?thesis
  proof (cases "rgState entry = StateDeleting \<or> rgState entry = StateDeleteFailed")
    case live: False
    show ?thesis
    proof (cases "map_of (dkFinal (ssDisk s)) h")
      case None
      show ?thesis
      proof (cases "readPendingMagnet px h (ssDisk s)")
        case none: None
        then show ?thesis using Some live None dd by (auto simp: restore_entry_def stage_end_def Let_def)
      next
        case spec: (Some spec)
        then have p: "map_of (dkPending (ssDisk s)) h \<noteq> None" by (auto simp: readPendingMagnet_def split: option.splits)
        obtain r s1 where a: "addTorrentSpecLocked (cl spec) (\<lambda>_. True) (spHash spec) s = (r, s1)" by fastforce
        note af = addSpec_frame [OF a]
        show ?thesis
        proof (cases r)
          case (Inl e)
          then show ?thesis using Some live None spec p a af dd by (auto simp: restore_entry_def stage_end_def Let_def)
        next
          case (Inr st)
          obtain err s2 where u: "updateState StateAdding now h (firstNonEmpty [rgName entry, tnName st, spDisplayName spec]) s1 = (err, s2)" by fastforce
          have "durable px utf8 UNIV s2" using updateState_ok(1) [OF _ _ live u assms(2)] af Some p assms(1) by auto
          then show ?thesis using Some live None spec p a Inr u dd durable_durable_disk
            by (cases err) (auto simp: restore_entry_def stage_end_def Let_def)
        qed
      qed
    next
      case final: (Some data)
      show ?thesis
      proof (cases "loadMetainfoFile px h (ssDisk s) = None \<or> map_of (dkPending (ssDisk s)) h \<noteq> None \<and> readPendingMagnet px h (ssDisk s) = None")
        case True
        then show ?thesis using Some live final dd
          by (cases "loadMetainfoFile px h (ssDisk s)") (auto simp: restore_entry_def stage_end_def Let_def)
      next
        case False
        then obtain spec where spec: "loadMetainfoFile px h (ssDisk s) = Some spec" by auto
        obtain r s1 where a: "addTorrentSpecLocked (cl spec) (\<lambda>_. True) (spHash spec) s = (r, s1)" by fastforce
        note af = addSpec_frame [OF a]
        show ?thesis
        proof (cases r)
          case (Inl e)
          then show ?thesis using Some live final spec False a af dd by (auto simp: restore_entry_def stage_end_def Let_def)
        next
          case (Inr st)
          obtain err s2 where u': "restored_ready now h entry st s1 = (err, s2)" by fastforce
          have s1: "durable px utf8 UNIV s1" "map_of (ssStates s1) h = Some entry" "map_of (dkFinal (ssDisk s1)) h \<noteq> None"
            using af Some final assms(1) by auto
          have s2: "durable px utf8 UNIV s2" "err = None \<Longrightarrow> map_of (dkFinal (ssDisk s2)) h \<noteq> None"
            using updateState_ok [OF s1(1,2) live _ assms(2)] s1 u' by (auto simp: restored_ready_def split: if_splits)
          have s3: "err = None \<Longrightarrow> durable px utf8 UNIV (snd (removePendingMagnet px h s2))"
            using removePending_durable(1) [OF s2(1)] s2(2) by auto
          have "restore_entry px cl now h s =
              (case err of Some e \<Rightarrow> Inl (e, s2)
               | None \<Rightarrow> if map_of (dkPending (ssDisk s)) h = None then Inr s2
                        else case removePendingMagnet px h s2 of
                               (er, s3) \<Rightarrow> if er = Some ErrInvalidPendingMagnet then Inl (ErrInvalidPendingMagnet, s3) else Inr s3)"
            using Some live final spec False a Inr u' by (auto simp: restore_entry_def Let_def split: option.splits)
          then show ?thesis using s2 s3 durable_durable_disk by (auto simp: stage_end_def split: option.splits prod.splits)
        qed
      qed
    qed
  qed (use Some assms(1) in \<open>auto simp: restore_entry_def stage_end_def\<close>)
qed (simp add: restore_entry_def stage_end_def assms(1))

lemma restore_loop_ok:
  assumes "durable px utf8 UNIV s" "now \<noteq> 0"
  shows "stage_end px utf8 (restore_loop px cl now hs s)"
  using assms(1)
proof (induction hs arbitrary: s)
  case (Cons h hs)
  show ?case
  proof (cases "restore_entry px cl now h s")
    case (Inr s1)
    then have "durable px utf8 UNIV s1" using restore_entry_ok [OF Cons.prems assms(2), of cl h] by (simp add: stage_end_def)
    then show ?thesis using Cons.IH Inr by simp
  qed (use restore_entry_ok [OF Cons.prems assms(2), of cl h] in \<open>simp add: stage_end_def\<close>)
qed (simp add: stage_end_def)

text \<open>A start over a sound directory leaves a sound directory, and a session that started has the invariant.\<close>

lemma startSession_ok:
  assumes "durable_disk px utf8 d" "\<not> dkOff d" "now \<noteq> 0"
  shows "stage_end px utf8 (startSession px utf8 cl rnd rnd' now d)"
proof -
  obtain s1 m where s1: "loadCategories utf8 (newSession d) = Inr s1" "durable px utf8 {} s1" "s1 = (newSession d)\<lparr>ssCategories := m\<rparr>"
    using loadCategories_ok [OF assms(1,2)] by blast
  have "powered s1" using assms(2) by (simp add: s1(3) newSession_def)
  note l = loadRegistry_ok [OF s1(2) this assms(3), of rnd]
  show ?thesis
  proof (cases "loadRegistry rnd now s1")
    case (Inl e)
    then show ?thesis using s1(1) l by (simp add: startSession_def stage_end_def stage_ok_def)
  next
    case (Inr s2)
    then have "durable px utf8 UNIV s2" "powered s2" using l by (simp_all add: stage_ok_def)
    note r = resumeDeletions_ok [OF this assms(3), of rnd']
    show ?thesis
    proof (cases "resumeDeletions px rnd' now s2")
      case (Inl e)
      then show ?thesis using s1(1) Inr r by (simp add: startSession_def stage_end_def)
    next
      case s3: (Inr s3)
      then have "durable px utf8 UNIV s3" using r by (simp add: stage_end_def)
      then show ?thesis using restore_loop_ok [OF _ assms(3)] s1(1) Inr s3 by (simp add: startSession_def restoreRegistryEntries_def)
    qed
  qed
qed

section \<open>Histories\<close>

text \<open>
  A session with the deletions that run beside it. Every operation of the API, every end of a metadata fetch and every phase of
  a deletion is a step; between any two of them the process may be stopped and started again, with a
  new script of faults. A directory that cannot be synced after the rename is not part of these histories.
\<close>

record World =
  wSession :: Session
  wWorkers :: "worker list"

definition crashed :: "fault list \<Rightarrow> Session \<Rightarrow> Disk" where
  "crashed fs s = (ssDisk s)\<lparr>dkFaults := fs, dkOff := False\<rparr>"

text \<open>After a start that failed the process is gone, and with it every change to the disk.\<close>

definition exited :: "Session \<Rightarrow> Session" where
  "exited s = endClose (s\<lparr>ssDisk := (ssDisk s)\<lparr>dkOff := True\<rparr>\<rparr>)"

inductive life_step :: "parsers \<Rightarrow> (string \<Rightarrow> bool) \<Rightarrow> World \<Rightarrow> World \<Rightarrow> bool" for px utf8 where
  Add: "now \<noteq> 0 \<Longrightarrow> life_step px utf8 w (w\<lparr>wSession := snd (AddTorrentAndPersist px cl alive now src (wSession w))\<rparr>)"
| Fetched: "now \<noteq> 0 \<Longrightarrow> life_step px utf8 w (w\<lparr>wSession := finish_fetch px alive now h st bytes (wSession w)\<rparr>)"
| FetchEnd: "now \<noteq> 0 \<Longrightarrow> life_step px utf8 w (w\<lparr>wSession := end_fetch now h (wSession w)\<rparr>)"
| Favorite: "now \<noteq> 0 \<Longrightarrow> life_step px utf8 w (w\<lparr>wSession := snd (SetFavorite now i b (wSession w))\<rparr>)"
| Category: "now \<noteq> 0 \<Longrightarrow> life_step px utf8 w (w\<lparr>wSession := snd (SetTorrentCategory utf8 alive now i c (wSession w))\<rparr>)"
| NewCategory: "now \<noteq> 0 \<Longrightarrow> life_step px utf8 w (w\<lparr>wSession := snd (CreateCategory utf8 alive now c (wSession w))\<rparr>)"
| Delete: "now \<noteq> 0 \<Longrightarrow> deleteByHash rnd now h skip (wSession w) = (r, d, s) \<Longrightarrow>
    life_step px utf8 w (w\<lparr>wSession := s, wWorkers := wWorkers w @ (case d of None \<Rightarrow> [] | Some x \<Rightarrow> [(x, Stopping, [])])\<rparr>)"
| Worker: "now \<noteq> 0 \<Longrightarrow> wWorkers w = xs @ x # ys \<Longrightarrow> worker_step px closeOk now x (wSession w) = (x', s) \<Longrightarrow>
    life_step px utf8 w (w\<lparr>wSession := s, wWorkers := xs @ (case x' of None \<Rightarrow> [] | Some y \<Rightarrow> [y]) @ ys\<rparr>)"
| Close: "life_step px utf8 w (w\<lparr>wSession := beginClose (wSession w)\<rparr>)"
| Restart: "now \<noteq> 0 \<Longrightarrow> NotSynced \<notin> set fs \<Longrightarrow> startSession px utf8 cl rnd rnd' now (crashed fs (wSession w)) = Inr s \<Longrightarrow>
    life_step px utf8 w \<lparr>wSession = s, wWorkers = []\<rparr>"
| FailedStart: "now \<noteq> 0 \<Longrightarrow> NotSynced \<notin> set fs \<Longrightarrow> startSession px utf8 cl rnd rnd' now (crashed fs (wSession w)) = Inl (e, s) \<Longrightarrow>
    life_step px utf8 w \<lparr>wSession = exited s, wWorkers = []\<rparr>"

inductive life :: "parsers \<Rightarrow> (string \<Rightarrow> bool) \<Rightarrow> World \<Rightarrow> bool" for px utf8 where
  First: "life px utf8 \<lparr>wSession = newSession emptyDisk, wWorkers = []\<rparr>"
| Next: "life px utf8 w \<Longrightarrow> life_step px utf8 w w' \<Longrightarrow> life px utf8 w'"

definition worker_hash :: "worker \<Rightarrow> hash" where
  "worker_hash x = fst (fst x)"

definition worker_op :: "worker \<Rightarrow> string" where
  "worker_op x = snd (snd (fst x))"

definition worker_ok :: "Session \<Rightarrow> worker \<Rightarrow> bool" where
  "worker_ok s x \<longleftrightarrow> deletionPendingLocked (worker_hash x) s \<and> map_of (ssActiveOps s) (worker_hash x) = Some (worker_op x)
     \<and> map_of (ssOperations s) (worker_op x) \<noteq> None"

definition world_ok :: "parsers \<Rightarrow> (string \<Rightarrow> bool) \<Rightarrow> World \<Rightarrow> bool" where
  "world_ok px utf8 w \<longleftrightarrow> durable px utf8 UNIV (wSession w) \<and> (\<forall>x \<in> set (wWorkers w). worker_ok (wSession w) x)
     \<and> distinct (map worker_hash (wWorkers w))"

lemma worker_ok_tame: "worker_ok s x \<Longrightarrow> tame s s' \<Longrightarrow> worker_ok s' x"
  by (auto simp: worker_ok_def tame_def)

lemma world_ok_sound:
  "world_ok px utf8 w \<Longrightarrow> sound_step px utf8 (wSession w) s \<Longrightarrow> world_ok px utf8 (w\<lparr>wSession := s\<rparr>)"
  using worker_ok_tame by (auto simp: world_ok_def sound_step_def)

lemma world_ok_delete:
  assumes "world_ok px utf8 w" "deleteByHash rnd now h skip (wSession w) = (r, d, s)" "now \<noteq> 0"
  shows "world_ok px utf8 (w\<lparr>wSession := s, wWorkers := wWorkers w @ (case d of None \<Rightarrow> [] | Some x \<Rightarrow> [(x, Stopping, [])])\<rparr>)"
proof (cases d)
  case None
  note e = delete_effect(1,2) [OF assms(2,3)]
  have "sound_step px utf8 (wSession w) s" using e None by (simp add: sound_step_def)
  note world_ok_sound [OF assms(1) this]
  then show ?thesis using None by simp
next
  case (Some x)
  obtain t i op where e: "x = (h, t, i)" "known_deletion h (wSession w) = None" "ssActiveOps s = aput h i (ssActiveOps (wSession w))"
      "ssOperations s = aput i op (ssOperations (wSession w))" "deletionPendingLocked h s"
      "\<forall>k. deletionPendingLocked k (wSession w) \<longrightarrow> deletionPendingLocked k s"
    using delete_effect(3) [OF assms(2,3) Some] by blast
  have new: "worker_hash y \<noteq> h" if "y \<in> set (wWorkers w)" for y
    using that assms(1) known_none [OF e(2)] by (force simp: world_ok_def worker_ok_def)
  have "worker_ok s y" if "y \<in> set (wWorkers w)" for y
    using that assms(1) new [OF that] e by (simp add: world_ok_def worker_ok_def)
  moreover have "worker_ok s (x, Stopping, [])" "worker_hash (x, Stopping, []) = h" using e by (simp_all add: worker_ok_def worker_hash_def worker_op_def)
  moreover have "durable px utf8 UNIV s" using assms(1) delete_effect(1) [OF assms(2,3)] by (simp add: world_ok_def)
  moreover have "h \<notin> worker_hash ` set (wWorkers w)" using new by blast
  ultimately show ?thesis using Some assms(1) by (simp add: world_ok_def)
qed

lemma world_ok_worker:
  assumes "world_ok px utf8 w" "wWorkers w = xs @ x # ys" "worker_step px closeOk now x (wSession w) = (x', s)" "now \<noteq> 0"
  shows "world_ok px utf8 (w\<lparr>wSession := s, wWorkers := xs @ (case x' of None \<Rightarrow> [] | Some y \<Rightarrow> [y]) @ ys\<rparr>)"
proof -
  obtain h t i ph errs where x: "x = ((h, t, i), ph, errs)" by (metis prod_cases3)
  have ok: "worker_ok (wSession w) x" "durable px utf8 UNIV (wSession w)" using assms(1,2) by (auto simp: world_ok_def)
  have hx: "worker_hash x = h" "worker_op x = i" using x by (simp_all add: worker_hash_def worker_op_def)
  have others: "worker_ok (wSession w) y \<and> worker_hash y \<noteq> h" if "y \<in> set (xs @ ys)" for y
  proof -
    have "worker_hash x \<notin> worker_hash ` set (xs @ ys)" "\<forall>y \<in> set (xs @ ys). worker_ok (wSession w) y"
      using assms(1,2) by (simp_all add: world_ok_def image_Un)
    then show ?thesis using that hx(1) by blast
  qed
  show ?thesis
  proof (cases x')
    case None
    then have s: "s = endDelete now h i errs (wSession w)" using assms(3) x by (cases ph) (auto split: prod.splits)
    note e = endDelete_effect [OF assms(4), where h = h and i = i and errs = errs and s = "wSession w"]
    have "worker_ok s y" if "y \<in> set (xs @ ys)" for y
      using others [OF that] e(2) by (simp add: s ends_def worker_ok_def deletionPendingLocked_def)
    then have "\<forall>y \<in> set (xs @ ys). worker_ok s y" by blast
    then show ?thesis using None assms(1,2) e(1) [OF ok(2)] s by (simp add: world_ok_def)
  next
    case (Some y)
    have "deletionPendingLocked (fst (fst x)) (wSession w)" using ok(1) by (simp add: worker_ok_def worker_hash_def)
    note t = worker_step_tame [OF assms(3) [unfolded Some] this]
    have y: "worker_ok (wSession w) y" "worker_hash y = worker_hash x" using ok(1) t(3) by (simp_all add: worker_ok_def worker_hash_def worker_op_def)
    have "\<forall>z \<in> set (xs @ y # ys). worker_ok s z" using others y(1) worker_ok_tame [OF _ t(1)] by (metis Un_iff set_ConsD set_append)
    then show ?thesis using Some assms(1,2) t(2) [OF ok(2)] y(2) by (simp add: world_ok_def)
  qed
qed

lemma world_ok_step:
  assumes "life_step px utf8 w w'" "world_ok px utf8 w"
  shows "world_ok px utf8 w'"
  using assms
proof (cases rule: life_step.cases)
  case (Close)
  then show ?thesis using assms(2) by (auto simp: world_ok_def beginClose_def worker_ok_def deletionPendingLocked_def split: prod.splits)
next
  case (Restart now fs cl rnd rnd' s)
  have "durable_disk px utf8 (crashed fs (wSession w))"
    using assms(2) Restart(3) by (simp add: world_ok_def durable_def durable_disk_def crashed_def disk_simps)
  from startSession_ok [OF this _ Restart(2), of cl rnd rnd'] show ?thesis
    using Restart by (auto simp: stage_end_def world_ok_def crashed_def)
next
  case (FailedStart now fs cl rnd rnd' e s)
  have "durable_disk px utf8 (crashed fs (wSession w))"
    using assms(2) FailedStart(3) by (simp add: world_ok_def durable_def durable_disk_def crashed_def disk_simps)
  from startSession_ok [OF this _ FailedStart(2), of cl rnd rnd'] have "durable_disk px utf8 (ssDisk s)"
    using FailedStart(4) by (auto simp: stage_end_def crashed_def)
  then show ?thesis using FailedStart(1) by (simp add: world_ok_def exited_def endClose_def newSession_def durable_def durable_disk_def disk_simps)
qed (simp_all add: world_ok_sound sound_AddTorrent sound_finish_fetch sound_end_fetch sound_SetFavorite sound_SetTorrentCategory
  sound_CreateCategory world_ok_delete world_ok_worker)

lemma life_ok: "life px utf8 w \<Longrightarrow> world_ok px utf8 w"
proof (induction rule: life.induct)
  case First
  have "disk_ok px utf8 emptyDisk" by (simp add: disk_ok_def emptyDisk_def files_ok_def disk_categories_def)
  then show ?case
    by (simp add: world_ok_def durable_def newSession_def mirror_def categories_mirror_def emptyDisk_def disk_categories_def)
next
  case (Next w w')
  then show ?case using world_ok_step by blast
qed

section \<open>A start without faults\<close>

definition calm :: "Session \<Rightarrow> bool" where
  "calm s \<longleftrightarrow> powered s \<and> dkFaults (ssDisk s) = []"

lemma calm_on_disk: "calm s \<Longrightarrow> on_disk f s = (None, s\<lparr>ssDisk := f (ssDisk s)\<rparr>)"
  by (simp add: calm_def on_disk_def disk_do_def)

text \<open>What a restart keeps of an entry.\<close>

definition same_torrent :: "registryEntry \<Rightarrow> registryEntry \<Rightarrow> bool" where
  "same_torrent e e' \<longleftrightarrow> rgID e' = rgID e \<and> rgInfoHash e' = rgInfoHash e \<and> rgCreatedAt e' = rgCreatedAt e
     \<and> rgFavorite e' = rgFavorite e \<and> rgCategory e' = rgCategory e"

lemma same_torrent_refl [simp]: "same_torrent e e" by (simp add: same_torrent_def)

lemma same_torrent_trans: "same_torrent e e' \<Longrightarrow> same_torrent e' e'' \<Longrightarrow> same_torrent e e''" by (simp add: same_torrent_def)

lemma calm_write:
  assumes "calm s" "durable px utf8 K s" "map_of (dkState (ssDisk s)) h = Some e0" "same_torrent e0 e"
    "validTorrentState (rgState e)" "rgState e \<noteq> StateDeleted"
  shows "writeRegistryEntryLocked now e s =
     (None, e\<lparr>rgUpdatedAt := now\<rparr>, s\<lparr>ssDisk := (ssDisk s)\<lparr>dkState := aput h (e\<lparr>rgUpdatedAt := now\<rparr>) (dkState (ssDisk s))\<rparr>\<rparr>)"
proof -
  have p: "powered s" using assms(1) by (simp add: calm_def)
  note k = load_entry_known [OF assms(2) p assms(3)]
  then have "parseInfoHash (rgInfoHash e) = Some h" "rgID e = hex_bytes h" "rgInfoHash e = hex_bytes h" "rgCreatedAt e \<noteq> 0"
    using assms(4) hex_bytes_length [of h] by (auto simp: validate_entry_iff same_torrent_def parseInfoHash_def)
  moreover have "rgCategory e \<noteq> '''' \<longrightarrow> map_of (ssCategories s) (rgCategory e) \<noteq> None" using k(2) assms(4) by (simp add: same_torrent_def)
  ultimately show ?thesis using assms(5,6) calm_on_disk [OF assms(1)]
    by (cases "rgCategory e = ''''") (auto simp: writeRegistryEntryLocked_def Let_def)
qed

definition enough :: "string option list \<Rightarrow> nat \<Rightarrow> bool" where
  "enough rnd n \<longleftrightarrow> n \<le> length rnd \<and> None \<notin> set rnd"

lemma enough_Suc: "enough rnd (Suc n) \<Longrightarrow> \<exists>i rnd'. rnd = Some i # rnd' \<and> enough rnd' n"
proof (cases rnd)
  case (Cons r rnd')
  assume "enough rnd (Suc n)"
  then show ?thesis using Cons by (cases r) (auto simp: enough_def)
qed (simp add: enough_def)

text \<open>A stage that only completes entries.\<close>

definition completed :: "Session \<Rightarrow> Session \<Rightarrow> bool" where
  "completed s s' \<longleftrightarrow> calm s' \<and> ssActive s' = ssActive s \<and> (ssTorrents s = [] \<longrightarrow> ssTorrents s' = [])
     \<and> dkFinal (ssDisk s') = dkFinal (ssDisk s) \<and> dkPending (ssDisk s') = dkPending (ssDisk s) \<and> dkSubtitles (ssDisk s') = dkSubtitles (ssDisk s)
     \<and> (\<forall>h. rel_option (\<lambda>e e'. same_torrent e e' \<and> rgState e' = rgState e) (map_of (dkState (ssDisk s)) h) (map_of (dkState (ssDisk s')) h))"

lemma rel_option_same_refl: "rel_option (\<lambda>e e'. same_torrent e e' \<and> rgState e' = rgState e) x x"
  by (rule option.rel_refl_strong) simp

lemma completed_refl: "calm s \<Longrightarrow> completed s s" by (simp add: completed_def rel_option_same_refl)

lemma completed_trans:
  assumes "completed s t" "completed t u"
  shows "completed s u"
proof -
  let ?R = "\<lambda>e e'. same_torrent e e' \<and> rgState e' = rgState e"
  have "rel_option ?R x z" if "rel_option ?R x y" "rel_option ?R y z" for x y z
    using that by (cases x; cases y; cases z) (auto intro: same_torrent_trans)
  then have "rel_option ?R (map_of (dkState (ssDisk s)) h) (map_of (dkState (ssDisk u)) h)" for h
    using assms unfolding completed_def by blast
  then show ?thesis using assms by (simp add: completed_def)
qed

lemma completed_put:
  assumes "calm s" "map_of (dkState (ssDisk s)) h = Some e0" "same_torrent e0 e" "rgState e = rgState e0"
    "ssDisk s' = (ssDisk s)\<lparr>dkState := aput h e (dkState (ssDisk s))\<rparr>" "ssActive s' = ssActive s" "ssTorrents s = [] \<longrightarrow> ssTorrents s' = []"
  shows "completed s s'"
  using assms by (auto simp: completed_def calm_def rel_option_same_refl)

lemma load_registry_loop_calm:
  assumes "durable px utf8 K s" "calm s" "to_load K es s" "now \<noteq> 0" "enough rnd (length es)"
  shows "\<exists>s'. load_registry_loop rnd now es s = Inr s' \<and> completed s s'"
  using assms
proof (induction es arbitrary: K rnd s)
  case Nil
  then show ?case using completed_refl by auto
next
  case (Cons x es)
  obtain h e where x: "x = (h, e)" by fastforce
  have p: "powered s" using Cons.prems(2) by (simp add: calm_def)
  have e: "map_of (dkState (ssDisk s)) h = Some e" using Cons.prems(3) x by (auto simp: to_load_def)
  note k = load_entry_known [OF Cons.prems(1) p e]
  show ?case
  proof (cases "rgState e = StateDeleting \<and> rgOperationID e = ''''")
    case False
    have "to_load (insert h K) es (put_entry h e s)" "calm (put_entry h e s)"
      using Cons.prems(2,3) x by (auto simp: to_load_def put_entry_def calm_def)
    moreover have "enough rnd (length es)" using Cons.prems(5) by (simp add: enough_def)
    ultimately obtain s' where s': "load_registry_loop rnd now es (put_entry h e s) = Inr s'" "completed (put_entry h e s) s'"
      using Cons.IH [OF durable_load [OF Cons.prems(1) e]] Cons.prems(4) by blast
    then show ?thesis using k False x by (auto simp: completed_def put_entry_def)
  next
    case True
    obtain i rnd' where r: "rnd = Some i # rnd'" "enough rnd' (length es)"
      using enough_Suc Cons.prems(5) by fastforce
    let ?e = "e\<lparr>rgOperationID := i, rgUpdatedAt := now\<rparr>"
    let ?s = "s\<lparr>ssDisk := (ssDisk s)\<lparr>dkState := aput h ?e (dkState (ssDisk s))\<rparr>\<rparr>"
    have w: "writeRegistryEntryLocked now (e\<lparr>rgOperationID := i\<rparr>) s = (None, ?e, ?s)"
      using calm_write [OF Cons.prems(2,1) e] k(1) True by (simp add: same_torrent_def validate_entry_iff)
    have hh: "rgInfoHash (e\<lparr>rgOperationID := i\<rparr>) = hex_bytes h" "restorable (ssDisk s) h (e\<lparr>rgOperationID := i\<rparr>)"
      using k(1) True by (auto simp: validate_entry_iff restorable_def)
    note d = write_put(3) [OF Cons.prems(1) w hh(1) Cons.prems(4) hh(2) refl]
    have t: "to_load (insert h K) es (put_entry h ?e ?s)" "calm (put_entry h ?e ?s)"
      using Cons.prems(2,3) x by (force simp: to_load_def put_entry_def calm_def)+
    obtain s' where s': "load_registry_loop rnd' now es (put_entry h ?e ?s) = Inr s'" "completed (put_entry h ?e ?s) s'"
      using Cons.IH [OF d t(2,1) Cons.prems(4) r(2)] by blast
    have "completed s (put_entry h ?e ?s)"
      using completed_put [OF Cons.prems(2) e, of ?e] by (simp add: put_entry_def same_torrent_def)
    then show ?thesis using s' completed_trans k True x r(1) w by auto
  qed
qed

lemma resume_register_calm:
  assumes "durable px utf8 UNIV s" "calm s" "all_pending hs s" "now \<noteq> 0" "enough rnd (length hs)" "ssTorrents s = []" "\<forall>w \<in> set ws. fst (snd w) = None"
  shows "\<exists>ws' s'. resume_register rnd now hs ws s = Inr (ws', s') \<and> completed s s' \<and> (\<forall>w \<in> set ws'. fst (snd w) = None)"
  using assms
proof (induction hs arbitrary: rnd ws s)
  case Nil
  then show ?case using completed_refl by auto
next
  case (Cons h hs)
  have hp: "deletionPendingLocked h s" "powered s" using Cons.prems(2,3) by (auto simp: all_pending_def calm_def)
  then obtain entry where e: "map_of (ssStates s) h = Some entry" "rgState entry = StateDeleting \<or> rgState entry = StateDeleteFailed"
    by (auto simp: deletionPendingLocked_def split: option.splits)
  note disk = durable_entry(1) [OF Cons.prems(1) e(1) hp(2)]
  define step where "step = (if rgOperationID entry \<noteq> '''' then Inr (rnd, entry, s)
                 else case (case rnd of [] \<Rightarrow> None | r # _ \<Rightarrow> r) of
                        None \<Rightarrow> Inl (ErrRandom, s)
                      | Some i \<Rightarrow>
                          (case writeRegistryEntryLocked now (entry\<lparr>rgOperationID := i\<rparr>) s of
                             (Some er, _, s1) \<Rightarrow> Inl (er, s1)
                           | (None, e', s1) \<Rightarrow> Inr (tl rnd, e', put_entry h e' s1)))"
  have "\<exists>rnd' e' s1. step = Inr (rnd', e', s1) \<and> enough rnd' (length hs) \<and> durable px utf8 UNIV s1 \<and> completed s s1
      \<and> (\<forall>k. deletionPendingLocked k s \<longrightarrow> deletionPendingLocked k s1) \<and> ssTorrents s1 = []"
  proof (cases "rgOperationID entry = ''''")
    case False
    then show ?thesis using Cons.prems completed_refl by (auto simp: step_def enough_def)
  next
    case True
    obtain i rnd' where r: "rnd = Some i # rnd'" "enough rnd' (length hs)"
      using enough_Suc Cons.prems(5) by fastforce
    let ?e = "entry\<lparr>rgOperationID := i, rgUpdatedAt := now\<rparr>"
    let ?s = "s\<lparr>ssDisk := (ssDisk s)\<lparr>dkState := aput h ?e (dkState (ssDisk s))\<rparr>\<rparr>"
    have w: "writeRegistryEntryLocked now (entry\<lparr>rgOperationID := i\<rparr>) s = (None, ?e, ?s)"
      using calm_write [OF Cons.prems(2,1) disk] e(2) by (auto simp: same_torrent_def validTorrentState_def)
    note rw = resume_write(2) [OF Cons.prems(1) e(1) hp(1,2) w Cons.prems(4) refl]
    have "completed s (put_entry h ?e ?s)"
      using completed_put [OF Cons.prems(2) disk, of ?e] by (simp add: put_entry_def same_torrent_def)
    then show ?thesis using True r w rw Cons.prems(6) by (auto simp: step_def put_entry_def)
  qed
  then obtain rnd' e' s1 where st: "step = Inr (rnd', e', s1)" "enough rnd' (length hs)" "durable px utf8 UNIV s1" "completed s s1"
      "\<forall>k. deletionPendingLocked k s \<longrightarrow> deletionPendingLocked k s1" "ssTorrents s1 = []" by blast
  define op where "op = \<lparr>opID = rgOperationID e', opTorrentID = hex_bytes h, opState = StateDeleting, opError = [], opErrorCode = '''',
                         opCreatedAt = now, opUpdatedAt = now\<rparr>"
  define s2 where "s2 = s1\<lparr>ssOperations := aput (rgOperationID e') op (ssOperations s1), ssActiveOps := aput h (rgOperationID e') (ssActiveOps s1),
                        ssLastOps := aput h (rgOperationID e') (ssLastOps s1), ssTorrents := adel h (ssTorrents s1)\<rparr>"
  have s2: "durable px utf8 UNIV s2" "calm s2" "completed s s2" "ssTorrents s2 = []" "\<And>k. deletionPendingLocked k s2 = deletionPendingLocked k s1"
    using st by (simp_all add: s2_def completed_def calm_def adel_def deletionPendingLocked_def)
  have p: "all_pending hs s2" using Cons.prems(3) st(5) s2(5) by (simp add: all_pending_def)
  have "\<forall>w \<in> set (ws @ [(h, map_of (ssTorrents s1) h, rgOperationID e')]). fst (snd w) = None" using Cons.prems(7) st(6) by auto
  from Cons.IH [OF s2(1,2) p Cons.prems(4) st(2) s2(4) this] obtain ws' s' where
    r: "resume_register rnd' now hs (ws @ [(h, map_of (ssTorrents s1) h, rgOperationID e')]) s2 = Inr (ws', s')" "completed s2 s'" "\<forall>w \<in> set ws'. fst (snd w) = None"
    by blast
  have "resume_register rnd now (h # hs) ws s = Inr (ws', s')"
    using e(1) st(1) r(1) by (simp add: step_def [symmetric] Let_def op_def s2_def)
  then show ?case using r(2,3) completed_trans [OF s2(3)] by blast
qed

text \<open>A deletion without faults removes everything of its torrent and nothing else.\<close>

definition gone :: "hash set \<Rightarrow> Session \<Rightarrow> Session \<Rightarrow> bool" where
  "gone H s s' \<longleftrightarrow> calm s' \<and> ssActive s' = ssActive s \<and> ssTorrents s' = ssTorrents s
     \<and> map_of (dkFinal (ssDisk s')) = (map_of (dkFinal (ssDisk s))) |` (- H)
     \<and> map_of (dkPending (ssDisk s')) = (map_of (dkPending (ssDisk s))) |` (- H)
     \<and> map_of (dkState (ssDisk s')) = (map_of (dkState (ssDisk s))) |` (- H)
     \<and> set (dkSubtitles (ssDisk s')) = set (dkSubtitles (ssDisk s)) - H"

lemma gone_none: "calm s \<Longrightarrow> gone {} s s"
  by (simp add: gone_def restrict_map_def)

lemma gone_trans: "gone H s t \<Longrightarrow> gone G t u \<Longrightarrow> gone (H \<union> G) s u"
  by (auto simp: gone_def Int_commute)

lemma restrict_adel: "map_of (adel h m) = map_of m |` (- {h})"
  by (auto simp: restrict_map_def)

lemma restrict_absent: "map_of m h = None \<Longrightarrow> map_of m |` (- {h}) = map_of m"
  by (auto simp: restrict_map_def)

lemma final_calm:
  assumes "calm s" "durable px utf8 K s"
  shows "\<exists>m. removeFinalMetainfoForDelete px h s = (None, s\<lparr>ssDisk := (ssDisk s)\<lparr>dkFinal := m\<rparr>\<rparr>) \<and> map_of m = map_of (dkFinal (ssDisk s)) |` (- {h})"
proof (cases "map_of (dkFinal (ssDisk s)) h")
  case None
  then show ?thesis by (intro exI [of _ "dkFinal (ssDisk s)"]) (simp add: removeFinalMetainfoForDelete_def restrict_absent)
next
  case (Some data)
  then have "map_option spHash (pzMeta px data) = Some h" using assms(2) by (simp add: durable_def disk_ok_def files_ok_def)
  then show ?thesis using Some calm_on_disk [OF assms(1)]
    by (intro exI [of _ "adel h (dkFinal (ssDisk s))"]) (auto simp: removeFinalMetainfoForDelete_def restrict_adel simp del: map_of_adel)
qed

lemma pending_calm:
  assumes "calm s" "durable px utf8 K s"
  shows "\<exists>m. removePendingMagnetForDelete px h s = (None, s\<lparr>ssDisk := (ssDisk s)\<lparr>dkPending := m\<rparr>\<rparr>) \<and> map_of m = map_of (dkPending (ssDisk s)) |` (- {h})"
proof (cases "map_of (dkPending (ssDisk s)) h")
  case None
  then show ?thesis by (intro exI [of _ "dkPending (ssDisk s)"]) (simp add: removePendingMagnetForDelete_def restrict_absent)
next
  case (Some data)
  then have "map_option spHash (specFromMagnet px (TrimSpace data)) = Some h" using assms(2) by (simp add: durable_def disk_ok_def files_ok_def)
  then show ?thesis using Some calm_on_disk [OF assms(1)]
    by (intro exI [of _ "adel h (dkPending (ssDisk s))"]) (auto simp: removePendingMagnetForDelete_def restrict_adel simp del: map_of_adel)
qed

lemma subtitles_calm:
  assumes "calm s"
  shows "\<exists>m x. removeManagedSubtitlesForDelete h s = (None, s\<lparr>ssDisk := (ssDisk s)\<lparr>dkSubtitles := m\<rparr>, ssSubtitles := x\<rparr>)
     \<and> set m = set (dkSubtitles (ssDisk s)) - {h}"
proof (cases "h \<in> set (dkSubtitles (ssDisk s))")
  case False
  then show ?thesis
    by (intro exI [of _ "dkSubtitles (ssDisk s)"] exI [of _ "ssSubtitles s"]) (auto simp: removeManagedSubtitlesForDelete_def)
next
  case True
  then show ?thesis using calm_on_disk [OF assms]
    by (intro exI [of _ "removeAll h (dkSubtitles (ssDisk s))"] exI [of _ "adel h (ssSubtitles s)"])
      (auto simp: removeManagedSubtitlesForDelete_def)
qed

lemma registry_calm:
  assumes "calm s"
  shows "\<exists>m x. removeRegistryEntryLocked h s = (None, s\<lparr>ssDisk := (ssDisk s)\<lparr>dkState := m\<rparr>, ssStates := x\<rparr>)
     \<and> map_of m = map_of (dkState (ssDisk s)) |` (- {h})"
proof (cases "map_of (dkState (ssDisk s)) h")
  case None
  then show ?thesis
    by (intro exI [of _ "dkState (ssDisk s)"] exI [of _ "adel h (ssStates s)"]) (auto simp: removeRegistryEntryLocked_def restrict_absent)
next
  case (Some e)
  then show ?thesis using calm_on_disk [OF assms]
    by (intro exI [of _ "adel h (dkState (ssDisk s))"] exI [of _ "adel h (ssStates s)"])
      (auto simp: removeRegistryEntryLocked_def restrict_adel simp del: map_of_adel)
qed

lemma performDelete_calm:
  assumes s0: "calm s0" "durable px utf8 UNIV s0" "deletionPendingLocked h s0"
  shows "\<exists>s3. performDelete px True h t s0 = ([], s3) \<and> calm s3 \<and> ssActive s3 = ssActive s0 \<and> ssTorrents s3 = ssTorrents s0
     \<and> map_of (dkFinal (ssDisk s3)) = map_of (dkFinal (ssDisk s0)) |` (- {h}) \<and> map_of (dkPending (ssDisk s3)) = map_of (dkPending (ssDisk s0)) |` (- {h})
     \<and> dkState (ssDisk s3) = dkState (ssDisk s0) \<and> set (dkSubtitles (ssDisk s3)) = set (dkSubtitles (ssDisk s0)) - {h}"
proof -
  obtain F where F: "removeFinalMetainfoForDelete px h s0 = (None, s0\<lparr>ssDisk := (ssDisk s0)\<lparr>dkFinal := F\<rparr>\<rparr>)" "map_of F = map_of (dkFinal (ssDisk s0)) |` (- {h})"
    using final_calm [OF s0(1,2)] by blast
  define s1 where "s1 = s0\<lparr>ssDisk := (ssDisk s0)\<lparr>dkFinal := F\<rparr>\<rparr>"
  have "durable px utf8 UNIV (snd (removeFinalMetainfoForDelete px h s0))"
    using pending_disk [OF s0(2,3)] by (intro removeFinal_durable(2) [OF s0(2)]) blast
  then have "durable px utf8 UNIV s1" "calm s1" using F(1) s0(1) by (auto simp: s1_def calm_def)
  from pending_calm [OF this(2,1)] obtain P where
    P: "removePendingMagnetForDelete px h s1 = (None, s1\<lparr>ssDisk := (ssDisk s1)\<lparr>dkPending := P\<rparr>\<rparr>)" "map_of P = map_of (dkPending (ssDisk s1)) |` (- {h})" by blast
  define s2 where "s2 = s1\<lparr>ssDisk := (ssDisk s1)\<lparr>dkPending := P\<rparr>\<rparr>"
  have "calm s2" using \<open>calm s1\<close> by (simp add: s2_def calm_def)
  from subtitles_calm [OF this] obtain M x where
    M: "removeManagedSubtitlesForDelete h s2 = (None, s2\<lparr>ssDisk := (ssDisk s2)\<lparr>dkSubtitles := M\<rparr>, ssSubtitles := x\<rparr>)" "set M = set (dkSubtitles (ssDisk s2)) - {h}" by blast
  define s3 where "s3 = s2\<lparr>ssDisk := (ssDisk s2)\<lparr>dkSubtitles := M\<rparr>, ssSubtitles := x\<rparr>"
  have "calm s3" using \<open>calm s2\<close> by (simp add: s3_def calm_def)
  moreover have "performDelete px True h t s0 = ([], s3)"
    using F(1) P(1) M(1) by (simp add: performDelete_def s1_def [symmetric] s2_def [symmetric] s3_def [symmetric])
  ultimately show ?thesis using F(2) P(2) M(2) by (simp add: s3_def s2_def s1_def)
qed

lemma runDelete_calm:
  assumes "calm s" "durable px utf8 UNIV s" "deletionPendingLocked h s"
  shows "gone {h} s (runDelete px True now (h, t, i) s)"
proof -
  define s0 where "s0 = stopMetadataFetch h s"
  have s0: "calm s0" "durable px utf8 UNIV s0" "deletionPendingLocked h s0" "ssDisk s0 = ssDisk s" "ssActive s0 = ssActive s" "ssTorrents s0 = ssTorrents s"
    using assms by (simp_all add: s0_def calm_def stopMetadataFetch_def deletionPendingLocked_def)
  obtain s3 where s3: "performDelete px True h t s0 = ([], s3)" "calm s3" "ssActive s3 = ssActive s0" "ssTorrents s3 = ssTorrents s0"
     "map_of (dkFinal (ssDisk s3)) = map_of (dkFinal (ssDisk s0)) |` (- {h})" "map_of (dkPending (ssDisk s3)) = map_of (dkPending (ssDisk s0)) |` (- {h})"
     "dkState (ssDisk s3) = dkState (ssDisk s0)" "set (dkSubtitles (ssDisk s3)) = set (dkSubtitles (ssDisk s0)) - {h}"
    using performDelete_calm [OF s0(1-3)] by metis
  from registry_calm [OF s3(2)] obtain R y where
    R: "removeRegistryEntryLocked h s3 = (None, s3\<lparr>ssDisk := (ssDisk s3)\<lparr>dkState := R\<rparr>, ssStates := y\<rparr>)" "map_of R = map_of (dkState (ssDisk s3)) |` (- {h})" by blast
  define s4 where "s4 = s3\<lparr>ssDisk := (ssDisk s3)\<lparr>dkState := R\<rparr>, ssStates := y\<rparr>"
  have r: "runDelete px True now (h, t, i) s =
      (let s5 = set_operation i StateDeleted [] '''' now s4 in s5\<lparr>ssActiveOps := adel h (ssActiveOps s5)\<rparr>)"
    using R(1) s3(1) by (simp add: runDelete_def endDelete_def s0_def [symmetric] s4_def [symmetric])
  have "ssTorrents (set_operation i StateDeleted [] '''' now s4) = ssTorrents s4" by (simp add: set_operation_def split: option.splits)
  moreover have "gone {h} s s4"
    using R(2) s3 s0 by (auto simp: gone_def s4_def calm_def)
  ultimately show ?thesis by (simp add: r gone_def Let_def calm_def)
qed

lemma fold_runDelete_calm:
  assumes "durable px utf8 UNIV s" "calm s" "all_pending (map fst ws) s" "now \<noteq> 0"
  shows "gone (set (map fst ws)) s (fold (runDelete px True now) ws s)"
  using assms
proof (induction ws arbitrary: s)
  case Nil
  then show ?case by (simp add: gone_none)
next
  case (Cons w ws)
  obtain h t i where w: "w = (h, t, i)" by (metis prod_cases3)
  have h: "deletionPendingLocked h s" "h \<notin> set (map fst ws)" using Cons.prems(3) w by (auto simp: all_pending_def)
  note r = runDelete_durable [OF Cons.prems(1) h(1) Cons.prems(4), where closeOk = True and t = t and i = i]
  note g = runDelete_calm [OF Cons.prems(2,1) h(1), where now = now and t = t and i = i]
  have c: "calm (runDelete px True now (h, t, i) s)" using g by (simp add: gone_def)
  have "all_pending (map fst ws) (runDelete px True now (h, t, i) s)"
    unfolding all_pending_def
  proof (intro conjI ballI)
    fix k assume k: "k \<in> set (map fst ws)"
    then have "k \<noteq> h" "deletionPendingLocked k s" using Cons.prems(3) h(2) by (auto simp: all_pending_def)
    then show "deletionPendingLocked k (runDelete px True now (h, t, i) s)" by (rule r(2))
  qed (use Cons.prems(3) in \<open>simp add: all_pending_def\<close>)
  from gone_trans [OF g Cons.IH [OF r(1) c this Cons.prems(4)]] show ?case by (simp add: w)
qed

text \<open>A round of the restoration brings back one torrent and leaves the others alone.\<close>

definition brought :: "hash \<Rightarrow> Session \<Rightarrow> Session \<Rightarrow> bool" where
  "brought h s s' \<longleftrightarrow> calm s' \<and> ssActive s'
     \<and> (\<forall>k. k \<noteq> h \<longrightarrow> map_of (ssStates s') k = map_of (ssStates s) k \<and> map_of (ssTorrents s') k = map_of (ssTorrents s) k
            \<and> map_of (dkPending (ssDisk s')) k = map_of (dkPending (ssDisk s)) k)
     \<and> dkFinal (ssDisk s') = dkFinal (ssDisk s) \<and> dkSubtitles (ssDisk s') = dkSubtitles (ssDisk s)
     \<and> (\<exists>e e'. map_of (ssStates s) h = Some e \<and> map_of (ssStates s') h = Some e' \<and> same_torrent e e'
            \<and> rgState e' = (if map_of (dkFinal (ssDisk s)) h \<noteq> None then StateReady else StateAdding))
     \<and> map_of (ssTorrents s') h \<noteq> None"

lemma updateState_calm:
  assumes "calm s" "durable px utf8 UNIV s" "map_of (ssStates s) h = Some e" "st = StateReady \<or> st = StateAdding"
  shows "\<exists>e'. updateState st now h n s = (None, put_entry h e' (s\<lparr>ssDisk := (ssDisk s)\<lparr>dkState := aput h e' (dkState (ssDisk s))\<rparr>\<rparr>))
     \<and> same_torrent e e' \<and> rgState e' = st"
proof -
  let ?e = "e\<lparr>rgState := st, rgName := n, rgError := [], rgOperationID := ''''\<rparr>"
  have "powered s" using assms(1) by (simp add: calm_def)
  note d = durable_entry(1) [OF assms(2,3) this]
  have "validTorrentState st" "st \<noteq> StateDeleted" using assms(4) by (auto simp: validTorrentState_def)
  then have w: "writeRegistryEntryLocked now ?e s = (None, ?e\<lparr>rgUpdatedAt := now\<rparr>,
      s\<lparr>ssDisk := (ssDisk s)\<lparr>dkState := aput h (?e\<lparr>rgUpdatedAt := now\<rparr>) (dkState (ssDisk s))\<rparr>\<rparr>)"
    using calm_write [OF assms(1,2) d, of ?e] by (simp add: same_torrent_def)
  then show ?thesis using assms(3)
    by (intro exI [of _ "?e\<lparr>rgUpdatedAt := now\<rparr>"]) (simp add: updateState_def same_torrent_def)
qed

lemma addSpec_calm:
  assumes "ssActive s" "\<not> deletionPendingLocked h s" "cl \<noteq> None"
  shows "\<exists>t s'. addTorrentSpecLocked cl (\<lambda>_. True) h s = (Inr t, s') \<and> ssStates s' = ssStates s \<and> ssDisk s' = ssDisk s \<and> ssActive s'
     \<and> map_of (ssTorrents s') h \<noteq> None \<and> (\<forall>k. k \<noteq> h \<longrightarrow> map_of (ssTorrents s') k = map_of (ssTorrents s) k)"
proof -
  obtain c where "cl = Some c" using assms(3) by blast
  then show ?thesis using assms(1,2)
    by (cases "map_of (ssTorrents s) h") (auto simp: addTorrentSpecLocked_def prepareTorrentSpecLocked_def publishTorrentLocked_def)
qed

lemma removePending_calm:
  assumes "calm s" "durable px utf8 K s"
  shows "\<exists>m. removePendingMagnet px h s = (None, s\<lparr>ssDisk := (ssDisk s)\<lparr>dkPending := m\<rparr>\<rparr>) \<and> (\<forall>k. k \<noteq> h \<longrightarrow> map_of m k = map_of (dkPending (ssDisk s)) k)"
proof (cases "map_of (dkPending (ssDisk s)) h")
  case None
  then show ?thesis by (intro exI [of _ "dkPending (ssDisk s)"]) (simp add: removePendingMagnet_def)
next
  case (Some data)
  then have "map_option spHash (specFromMagnet px (TrimSpace data)) = Some h" using assms(2) by (simp add: durable_def disk_ok_def files_ok_def)
  then have "readPendingMagnet px h (ssDisk s) \<noteq> None" using Some by (auto simp: readPendingMagnet_def)
  then show ?thesis using Some calm_on_disk [OF assms(1)]
    by (intro exI [of _ "adel h (dkPending (ssDisk s))"]) (auto simp: removePendingMagnet_def)
qed

lemma read_files:
  assumes "durable px utf8 K s"
  shows "map_of (dkFinal (ssDisk s)) h \<noteq> None \<Longrightarrow> \<exists>sp. loadMetainfoFile px h (ssDisk s) = Some sp \<and> spHash sp = h"
    "map_of (dkPending (ssDisk s)) h \<noteq> None \<Longrightarrow> \<exists>sp. readPendingMagnet px h (ssDisk s) = Some sp \<and> spHash sp = h"
  using assms by (fastforce simp: durable_def disk_ok_def files_ok_def loadMetainfoFile_def readPendingMagnet_def)+

lemma restore_ready_calm:
  assumes "calm s" "durable px utf8 UNIV s" "ssActive s" "map_of (ssStates s) h = Some e"
    "\<not> (rgState e = StateDeleting \<or> rgState e = StateDeleteFailed)" "\<forall>sp. cl sp \<noteq> None" "map_of (dkFinal (ssDisk s)) h \<noteq> None" "now \<noteq> 0"
  shows "\<exists>s'. restore_entry px cl now h s = Inr s' \<and> brought h s s'"
proof -
  have live: "\<not> deletionPendingLocked h s" using assms(4,5) by (simp add: deletionPendingLocked_def)
  obtain sp where sp: "loadMetainfoFile px h (ssDisk s) = Some sp" "spHash sp = h" using read_files(1) [OF assms(2,7)] by blast
  have pend: "map_of (dkPending (ssDisk s)) h \<noteq> None \<Longrightarrow> readPendingMagnet px h (ssDisk s) \<noteq> None" using read_files(2) [OF assms(2)] by blast
  have "cl sp \<noteq> None" using assms(6) by blast
  from addSpec_calm [OF assms(3) live this] obtain t s1 where
    s1: "addTorrentSpecLocked (cl sp) (\<lambda>_. True) h s = (Inr t, s1)" "ssStates s1 = ssStates s" "ssDisk s1 = ssDisk s" "ssActive s1"
      "map_of (ssTorrents s1) h \<noteq> None" "\<forall>k. k \<noteq> h \<longrightarrow> map_of (ssTorrents s1) k = map_of (ssTorrents s) k" by blast
  have d1: "calm s1" "durable px utf8 UNIV s1" using assms(1,2) s1(3) addSpec_frame(1) [OF s1(1)] by (simp_all add: calm_def)
  have e1: "map_of (ssStates s1) h = Some e" using s1(2) assms(4) by simp
  obtain e' s2 where s2: "restored_ready now h e t s1 = (None, s2)" "map_of (ssStates s2) h = Some e'" "same_torrent e e'" "rgState e' = StateReady"
      "\<forall>k. k \<noteq> h \<longrightarrow> map_of (ssStates s2) k = map_of (ssStates s) k" "ssTorrents s2 = ssTorrents s1" "ssActive s2" "calm s2" "durable px utf8 UNIV s2"
      "dkFinal (ssDisk s2) = dkFinal (ssDisk s)" "dkPending (ssDisk s2) = dkPending (ssDisk s)" "dkSubtitles (ssDisk s2) = dkSubtitles (ssDisk s)"
  proof (cases "rgState e \<noteq> StateReady \<or> rgName e \<noteq> tnName t \<or> rgError e \<noteq> [] \<or> rgOperationID e \<noteq> ''''")
    case True
    obtain e' where u: "updateState StateReady now h (tnName t) s1 = (None, put_entry h e' (s1\<lparr>ssDisk := (ssDisk s1)\<lparr>dkState := aput h e' (dkState (ssDisk s1))\<rparr>\<rparr>))"
        "same_torrent e e'" "rgState e' = StateReady" using updateState_calm [OF d1 e1] by blast
    note o = updateState_ok(1) [OF d1(2) e1 assms(5) u(1) assms(8)]
    show thesis
      by (rule that [of "put_entry h e' (s1\<lparr>ssDisk := (ssDisk s1)\<lparr>dkState := aput h e' (dkState (ssDisk s1))\<rparr>\<rparr>)" e'])
        (use u o True d1(1) s1 assms(7) in \<open>simp_all add: restored_ready_def put_entry_def calm_def\<close>)
  next
    case False
    then show thesis using that [of s1 e] d1 s1 e1 by (simp add: restored_ready_def)
  qed
  obtain m where m: "removePendingMagnet px h s2 = (None, s2\<lparr>ssDisk := (ssDisk s2)\<lparr>dkPending := m\<rparr>\<rparr>)" "\<forall>k. k \<noteq> h \<longrightarrow> map_of m k = map_of (dkPending (ssDisk s2)) k"
    using removePending_calm [OF s2(8,9)] by blast
  have r: "restore_entry px cl now h s = Inr (if map_of (dkPending (ssDisk s)) h = None then s2 else s2\<lparr>ssDisk := (ssDisk s2)\<lparr>dkPending := m\<rparr>\<rparr>)"
    using assms(4,5,7) sp pend s1(1) s2(1) m(1) by (auto simp: restore_entry_def Let_def)
  have "brought h s (if map_of (dkPending (ssDisk s)) h = None then s2 else s2\<lparr>ssDisk := (ssDisk s2)\<lparr>dkPending := m\<rparr>\<rparr>)"
    using s2 s1 m(2) assms(4,7) by (simp add: brought_def calm_def)
  then show ?thesis using r by blast
qed

lemma restore_adding_calm:
  assumes "calm s" "durable px utf8 UNIV s" "ssActive s" "map_of (ssStates s) h = Some e"
    "\<not> (rgState e = StateDeleting \<or> rgState e = StateDeleteFailed)" "\<forall>sp. cl sp \<noteq> None" "map_of (dkFinal (ssDisk s)) h = None"
  shows "\<exists>s'. restore_entry px cl now h s = Inr s' \<and> brought h s s'"
proof -
  have live: "\<not> deletionPendingLocked h s" using assms(4,5) by (simp add: deletionPendingLocked_def)
  have p: "powered s" using assms(1) by (simp add: calm_def)
  have f: "map_of (dkPending (ssDisk s)) h \<noteq> None" "rgState e \<noteq> StateReady"
    using durable_entry(4) [OF assms(2,4) p] assms(5,7) by (auto simp: restorable_def)
  obtain sp where sp: "readPendingMagnet px h (ssDisk s) = Some sp" "spHash sp = h" using read_files(2) [OF assms(2) f(1)] by blast
  have "cl sp \<noteq> None" using assms(6) by blast
  from addSpec_calm [OF assms(3) live this] obtain t s1 where
    s1: "addTorrentSpecLocked (cl sp) (\<lambda>_. True) h s = (Inr t, s1)" "ssStates s1 = ssStates s" "ssDisk s1 = ssDisk s" "ssActive s1"
      "map_of (ssTorrents s1) h \<noteq> None" "\<forall>k. k \<noteq> h \<longrightarrow> map_of (ssTorrents s1) k = map_of (ssTorrents s) k" by blast
  have d1: "calm s1" "durable px utf8 UNIV s1" using assms(1,2) s1(3) addSpec_frame(1) [OF s1(1)] by (simp_all add: calm_def)
  have e1: "map_of (ssStates s1) h = Some e" using s1(2) assms(4) by simp
  let ?n = "firstNonEmpty [rgName e, tnName t, spDisplayName sp]"
  obtain e' where u: "updateState StateAdding now h ?n s1 = (None, put_entry h e' (s1\<lparr>ssDisk := (ssDisk s1)\<lparr>dkState := aput h e' (dkState (ssDisk s1))\<rparr>\<rparr>))"
        "same_torrent e e'" "rgState e' = StateAdding" using updateState_calm [OF d1 e1] by blast
  let ?s2 = "put_entry h e' (s1\<lparr>ssDisk := (ssDisk s1)\<lparr>dkState := aput h e' (dkState (ssDisk s1))\<rparr>\<rparr>)"
  have "restore_entry px cl now h s = Inr (startMetadataFetch h ?s2)"
    using assms(4,5,7) f sp s1(1) u(1) by (auto simp: restore_entry_def Let_def simp del: firstNonEmpty.simps)
  moreover have "brought h s ?s2"
    using u(2,3) s1 d1(1) assms(4,7) by (simp add: brought_def calm_def put_entry_def)
  then have "brought h s (startMetadataFetch h ?s2)" by (simp add: brought_def calm_def startMetadataFetch_def)
  ultimately show ?thesis by blast
qed

definition is_back :: "hash \<Rightarrow> Session \<Rightarrow> Session \<Rightarrow> bool" where
  "is_back h s s' \<longleftrightarrow> (\<exists>e e'. map_of (ssStates s) h = Some e \<and> map_of (ssStates s') h = Some e' \<and> same_torrent e e'
            \<and> rgState e' = (if map_of (dkFinal (ssDisk s)) h \<noteq> None then StateReady else StateAdding)
            \<and> map_of (ssTorrents s') h \<noteq> None)"

definition brought_all :: "hash set \<Rightarrow> Session \<Rightarrow> Session \<Rightarrow> bool" where
  "brought_all H s s' \<longleftrightarrow> calm s'
     \<and> (\<forall>k. k \<notin> H \<longrightarrow> map_of (ssStates s') k = map_of (ssStates s) k \<and> map_of (ssTorrents s') k = map_of (ssTorrents s) k
            \<and> map_of (dkPending (ssDisk s')) k = map_of (dkPending (ssDisk s)) k)
     \<and> dkFinal (ssDisk s') = dkFinal (ssDisk s) \<and> dkSubtitles (ssDisk s') = dkSubtitles (ssDisk s)
     \<and> (\<forall>h \<in> H. is_back h s s')"

lemma brought_all_insert:
  assumes "brought h s s1" "brought_all H s1 s'" "h \<notin> H"
  shows "brought_all (insert h H) s s'"
proof -
  have "is_back k s s'" if "k \<in> insert h H" for k
  proof (cases "k = h")
    case True
    then have "map_of (ssStates s') k = map_of (ssStates s1) k" "map_of (ssTorrents s') k = map_of (ssTorrents s1) k"
      using assms(2,3) by (auto simp: brought_all_def)
    then show ?thesis using assms(1) True by (simp add: brought_def is_back_def)
  next
    case False
    then have "map_of (ssStates s1) k = map_of (ssStates s) k" "dkFinal (ssDisk s1) = dkFinal (ssDisk s)" using assms(1) by (auto simp: brought_def)
    moreover have "is_back k s1 s'" using assms(2) that False by (simp add: brought_all_def)
    ultimately show ?thesis by (simp add: is_back_def)
  qed
  then show ?thesis using assms(1,2) by (auto simp: brought_all_def brought_def)
qed

lemma restore_loop_calm:
  assumes "calm s" "durable px utf8 UNIV s" "ssActive s" "distinct hs" "\<forall>sp. cl sp \<noteq> None" "now \<noteq> 0"
    "\<forall>h \<in> set hs. map_of (ssStates s) h \<noteq> None \<and> \<not> deletionPendingLocked h s"
  shows "\<exists>s'. restore_loop px cl now hs s = Inr s' \<and> brought_all (set hs) s s'"
  using assms
proof (induction hs arbitrary: s)
  case Nil
  then show ?case by (simp add: brought_all_def)
next
  case (Cons h hs)
  obtain e where e: "map_of (ssStates s) h = Some e" "\<not> (rgState e = StateDeleting \<or> rgState e = StateDeleteFailed)"
    using Cons.prems(7) by (auto simp: deletionPendingLocked_def)
  obtain s1 where s1: "restore_entry px cl now h s = Inr s1" "brought h s s1"
    using restore_ready_calm [OF Cons.prems(1-3) e Cons.prems(5)] restore_adding_calm [OF Cons.prems(1-3) e Cons.prems(5)] Cons.prems(6) by blast
  have d: "calm s1" "durable px utf8 UNIV s1" "ssActive s1"
    using s1 restore_entry_ok [OF Cons.prems(2,6), of cl h] by (auto simp: brought_def stage_end_def)
  have "\<forall>k \<in> set hs. map_of (ssStates s1) k \<noteq> None \<and> \<not> deletionPendingLocked k s1"
    using Cons.prems(4,7) s1(2) by (fastforce simp: brought_def deletionPendingLocked_def)
  then obtain s' where "restore_loop px cl now hs s1 = Inr s'" "brought_all (set hs) s1 s'"
    using Cons.IH [OF d] Cons.prems(4-6) by auto
  then show ?case using brought_all_insert [OF s1(2)] Cons.prems(4) s1(1) by auto
qed

text \<open>
  What a start makes of a directory: a torrent whose deletion had been accepted is gone with all its
  files, every other one is registered, and nothing else is.
\<close>

definition restored :: "Disk \<Rightarrow> Session \<Rightarrow> bool" where
  "restored d s \<longleftrightarrow> (\<forall>h. case map_of (dkState d) h of
       None \<Rightarrow> map_of (ssStates s) h = None
     | Some e \<Rightarrow>
         if rgState e = StateDeleting \<or> rgState e = StateDeleteFailed
         then map_of (ssStates s) h = None \<and> map_of (dkState (ssDisk s)) h = None \<and> map_of (dkFinal (ssDisk s)) h = None
              \<and> map_of (dkPending (ssDisk s)) h = None \<and> h \<notin> set (dkSubtitles (ssDisk s))
         else \<exists>e'. map_of (ssStates s) h = Some e' \<and> same_torrent e e' \<and> map_of (ssTorrents s) h \<noteq> None
                \<and> rgState e' = (if map_of (dkFinal d) h \<noteq> None then StateReady else StateAdding))"

lemma completed_state:
  assumes "completed s s'" "map_of (dkState (ssDisk s)) h = Some e"
  shows "\<exists>e'. map_of (dkState (ssDisk s')) h = Some e' \<and> same_torrent e e' \<and> rgState e' = rgState e"
proof -
  have "rel_option (\<lambda>e e'. same_torrent e e' \<and> rgState e' = rgState e) (map_of (dkState (ssDisk s)) h) (map_of (dkState (ssDisk s')) h)"
    using assms(1) by (simp add: completed_def)
  then show ?thesis using assms(2) by (cases "map_of (dkState (ssDisk s')) h") auto
qed

lemma completed_none: "completed s s' \<Longrightarrow> map_of (dkState (ssDisk s)) h = None \<longleftrightarrow> map_of (dkState (ssDisk s')) h = None"
proof -
  assume "completed s s'"
  then have "rel_option (\<lambda>e e'. same_torrent e e' \<and> rgState e' = rgState e) (map_of (dkState (ssDisk s)) h) (map_of (dkState (ssDisk s')) h)"
    by (simp add: completed_def)
  then show ?thesis by (cases "map_of (dkState (ssDisk s)) h"; cases "map_of (dkState (ssDisk s')) h") auto
qed

lemma mirror_states: "durable px utf8 UNIV s \<Longrightarrow> powered s \<Longrightarrow> map_of (ssStates s) = map_of (dkState (ssDisk s))"
  by (simp add: durable_def mirror_def fun_eq_iff)

lemma resumeDeletions_calm:
  assumes "calm s" "durable px utf8 UNIV s" "ssTorrents s = []" "now \<noteq> 0" "enough rnd (length (pending_deletions s))"
  shows "\<exists>t s'. resumeDeletions px rnd now s = Inr s' \<and> durable px utf8 UNIV s' \<and> completed s t \<and> gone {h. deletionPendingLocked h s} t s'"
proof -
  have p: "powered s" using assms(1) by (simp add: calm_def)
  have "distinct (map fst (ssStates s))" using assms(2) p by (simp add: durable_def mirror_def)
  note pd = pending_deletions_pending [OF this]
  obtain ws t where r: "resume_register rnd now (pending_deletions s) [] s = Inr (ws, t)" "completed s t"
    using resume_register_calm [OF assms(2,1) pd(1) assms(4,5,3), of "[]"] by auto
  have t: "durable px utf8 UNIV t" "map fst ws = pending_deletions s" "\<forall>k. deletionPendingLocked k s \<longrightarrow> deletionPendingLocked k t"
    using resume_register_ok [OF assms(2) p pd(1) assms(4) r(1)] by auto
  have ap: "all_pending (map fst ws) t" using pd(1) t(2,3) by (simp add: all_pending_def)
  have "calm t" using r(2) by (simp add: completed_def)
  note g = fold_runDelete_calm [OF t(1) this ap assms(4)]
  have "set (map fst ws) = {h. deletionPendingLocked h s}" using t(2) pd(2) by auto
  then show ?thesis
    using r g fold_runDelete_durable [OF t(1) ap assms(4), of True] by (auto simp: resumeDeletions_def)
qed

lemma startSession_calm:
  assumes "durable_disk px utf8 d" "\<not> dkOff d" "dkFaults d = []" "now \<noteq> 0" "\<forall>sp. cl sp \<noteq> None"
    "enough rnd (length (dkState d))" "enough rnd' (length (dkState d))"
  shows "\<exists>s. startSession px utf8 cl rnd rnd' now d = Inr s \<and> restored d s"
proof -
  obtain s1 m where s1: "loadCategories utf8 (newSession d) = Inr s1" "durable px utf8 {} s1" "s1 = (newSession d)\<lparr>ssCategories := m\<rparr>"
    using loadCategories_ok [OF assms(1,2)] by blast
  have c1: "calm s1" "powered s1" "ssDisk s1 = d" "ssActive s1" "ssTorrents s1 = []" using assms(2,3) by (simp_all add: s1(3) newSession_def calm_def)
  have dist: "distinct (map fst (dkState d))" using assms(1) by (simp add: durable_disk_def disk_ok_def)
  then have "to_load {} (sort_key (hex_bytes \<circ> fst) (dkState (ssDisk s1))) s1"
    using sort_key_map_of [of "dkState d" "hex_bytes \<circ> fst"] by (simp add: to_load_def c1(3))
  from load_registry_loop_calm [OF s1(2) c1(1) this assms(4)] obtain s2 where s2: "loadRegistry rnd now s1 = Inr s2" "completed s1 s2"
    using assms(6) c1(3) by (auto simp: loadRegistry_def)
  have d2: "durable px utf8 UNIV s2" "powered s2" "calm s2" "ssTorrents s2 = []" "ssActive s2"
    using loadRegistry_ok [OF s1(2) c1(2) assms(4), of rnd] s2 c1 by (auto simp: stage_ok_def completed_def)
  have m2: "map_of (ssStates s2) = map_of (dkState (ssDisk s2))" by (rule mirror_states [OF d2(1,2)])
  have "length (pending_deletions s2) \<le> length (dkState d)"
  proof -
    have ds: "distinct (map fst (ssStates s2))" using d2(1,2) by (simp add: durable_def mirror_def)
    have "set (pending_deletions s2) \<subseteq> fst ` set (dkState d)"
    proof
      fix h assume "h \<in> set (pending_deletions s2)"
      then have "deletionPendingLocked h s2" using pending_deletions_pending(2) [OF ds] by blast
      then have "map_of (ssStates s2) h \<noteq> None" by (auto simp: deletionPendingLocked_def split: option.splits)
      then have "map_of (dkState d) h \<noteq> None" using m2 completed_none [OF s2(2)] c1(3) by simp
      then show "h \<in> fst ` set (dkState d)" by (simp add: map_of_eq_None_iff)
    qed
    then have "card (set (pending_deletions s2)) \<le> card (fst ` set (dkState d))" by (intro card_mono) simp_all
    also have "\<dots> \<le> length (dkState d)" by (metis card_length length_map list.set_map)
    finally show ?thesis using pending_deletions_pending(1) [OF ds] by (simp add: all_pending_def distinct_card)
  qed
  then have "enough rnd' (length (pending_deletions s2))" using assms(7) by (simp add: enough_def)
  from resumeDeletions_calm [OF d2(3,1,4) assms(4) this] obtain t s3 where
    s3: "resumeDeletions px rnd' now s2 = Inr s3" "durable px utf8 UNIV s3" "completed s2 t" "gone {h. deletionPendingLocked h s2} t s3" by blast
  have c3: "calm s3" "powered s3" "ssActive s3" "ssTorrents s3 = []" using s3(3,4) d2(4,5) by (auto simp: gone_def completed_def calm_def)
  have m3: "map_of (ssStates s3) = map_of (dkState (ssDisk s3))" by (rule mirror_states [OF s3(2) c3(2)])
  note c = completed_trans [OF s2(2) s3(3)]
  have pend: "deletionPendingLocked h s2 \<longleftrightarrow> (\<exists>e. map_of (dkState d) h = Some e \<and> (rgState e = StateDeleting \<or> rgState e = StateDeleteFailed))" for h
    using completed_state [OF s2(2), of h] completed_none [OF s2(2), of h] c1(3) m2
    by (cases "map_of (dkState d) h") (auto simp: deletionPendingLocked_def)
  have live: "\<not> deletionPendingLocked h s3" for h
    using s3(4) pend [of h] completed_state [OF c, of h] completed_none [OF c, of h] c1(3) m3
    by (cases "map_of (dkState d) h") (auto simp: deletionPendingLocked_def gone_def restrict_map_def split: option.splits)
  have ds: "distinct (map fst (ssStates s3))" using s3(2) c3(2) by (simp add: durable_def mirror_def)
  let ?hs = "sort_key hex_bytes (map fst (ssStates s3))"
  have in_hs: "h \<in> set ?hs \<longleftrightarrow> map_of (ssStates s3) h \<noteq> None" for h by (simp add: map_of_eq_None_iff)
  have "\<forall>h \<in> set ?hs. map_of (ssStates s3) h \<noteq> None \<and> \<not> deletionPendingLocked h s3" using in_hs live by blast
  from restore_loop_calm [OF c3(1) s3(2) c3(3) _ assms(5,4) this] ds obtain s4 where
    s4: "restoreRegistryEntries px cl now s3 = Inr s4" "brought_all (set ?hs) s3 s4" by (auto simp: restoreRegistryEntries_def)
  have d4: "durable px utf8 UNIV s4" using restore_loop_ok [OF s3(2) assms(4), of cl ?hs] s4(1) by (simp add: restoreRegistryEntries_def stage_end_def)
  have "powered s4" using s4(2) by (simp add: brought_all_def calm_def)
  note m4 = mirror_states [OF d4 this]
  have "startSession px utf8 cl rnd rnd' now d = Inr s4" using s1(1) s2(1) s3(1) s4(1) by (simp add: startSession_def)
  moreover have "restored d s4"
    unfolding restored_def
  proof
    fix h
    show "case map_of (dkState d) h of
       None \<Rightarrow> map_of (ssStates s4) h = None
     | Some e \<Rightarrow>
         if rgState e = StateDeleting \<or> rgState e = StateDeleteFailed
         then map_of (ssStates s4) h = None \<and> map_of (dkState (ssDisk s4)) h = None \<and> map_of (dkFinal (ssDisk s4)) h = None
              \<and> map_of (dkPending (ssDisk s4)) h = None \<and> h \<notin> set (dkSubtitles (ssDisk s4))
         else \<exists>e'. map_of (ssStates s4) h = Some e' \<and> same_torrent e e' \<and> map_of (ssTorrents s4) h \<noteq> None
                \<and> rgState e' = (if map_of (dkFinal d) h \<noteq> None then StateReady else StateAdding)"
    proof (cases "map_of (dkState d) h")
      case None
      then have "map_of (dkState (ssDisk t)) h = None" using completed_none [OF c] c1(3) by simp
      then have "map_of (ssStates s3) h = None" using m3 s3(4) by (simp add: gone_def restrict_map_def)
      then show ?thesis using None s4(2) in_hs [of h] by (simp add: brought_all_def)
    next
      case (Some e)
      show ?thesis
      proof (cases "rgState e = StateDeleting \<or> rgState e = StateDeleteFailed")
        case True
        then have p: "deletionPendingLocked h s2" using pend Some by blast
        then have g: "map_of (dkState (ssDisk s3)) h = None" "map_of (dkFinal (ssDisk s3)) h = None" "map_of (dkPending (ssDisk s3)) h = None"
            "h \<notin> set (dkSubtitles (ssDisk s3))" using s3(4) by (simp_all add: gone_def restrict_map_def)
        then have "h \<notin> set ?hs" using in_hs m3 by simp
        then show ?thesis using Some True g s4(2) m3 m4 by (simp add: brought_all_def)
      next
        case False
        then have p: "\<not> deletionPendingLocked h s2" using pend Some by auto
        obtain e1 where e1: "map_of (dkState (ssDisk t)) h = Some e1" "same_torrent e e1" using completed_state [OF c] Some c1(3) by auto
        have g: "map_of (ssStates s3) h = Some e1" "map_of (dkFinal (ssDisk s3)) h = map_of (dkFinal (ssDisk t)) h"
          using s3(4) e1(1) m3 p by (simp_all add: gone_def restrict_map_def)
        have f: "dkFinal (ssDisk t) = dkFinal d" using c c1(3) by (simp add: completed_def)
        have "h \<in> set ?hs" using in_hs g(1) by simp
        then have "is_back h s3 s4" using s4(2) unfolding brought_all_def by blast
        then show ?thesis using Some False g f e1(2) same_torrent_trans by (auto simp: is_back_def)
      qed
    qed
  qed
  ultimately show ?thesis by blast
qed

section \<open>Properties\<close>

text \<open>What is acknowledged is on the disk.\<close>

lemma write_on_disk:
  assumes "writeRegistryEntryLocked now e s = (None, e', s')" "rgInfoHash e = hex_bytes h"
  shows "map_of (dkState (ssDisk s')) h = Some e'" "rgState e' = rgState e" "rgInfoHash e' = rgInfoHash e"
proof -
  obtain k where k: "parseInfoHash (rgInfoHash e) = Some k" using assms(1) by (auto simp: writeRegistryEntryLocked_def split: option.splits)
  then have "k = h" using parseInfoHash_hex assms(2) by simp
  have o: "on_disk (\<lambda>d. d\<lparr>dkState := aput h (e\<lparr>rgUpdatedAt := now\<rparr>) (dkState d)\<rparr>) s = (None, s')" "e' = e\<lparr>rgUpdatedAt := now\<rparr>"
    using assms(1) k \<open>k = h\<close> by (auto simp: writeRegistryEntryLocked_def Let_def split: if_splits prod.splits)
  then show "map_of (dkState (ssDisk s')) h = Some e'"
    by (auto simp: on_disk_def disk_do_def split: prod.splits if_splits list.splits fault.splits)
  show "rgState e' = rgState e" "rgInfoHash e' = rgInfoHash e" by (simp_all add: o(2))
qed

lemma addManaged_on_disk:
  assumes "durable px utf8 UNIV s" "now \<noteq> 0" "addManagedLocked px cl alive now h spec data uri s = (Inr e, s')"
  shows "map_of (dkState (ssDisk s')) h = Some e" "rgState e = StateReady \<or> rgState e = StateAdding"
proof -
  obtain st new where p: "\<not> deletionPendingLocked h s" "prepareTorrentSpecLocked cl alive h s = Inr (st, new)" "ssActive s"
    using assms(3) by (auto simp: addManagedLocked_def split: if_splits sum.splits)
  let ?e = "base_entry now h st spec (data = None) s"
  let ?pub = "case data of Some bytes \<Rightarrow> publishGuardedMetainfo px (alive 2) h bytes s | None \<Rightarrow> publishPendingMagnet px (alive 2) h uri s"
  note run = p base_entry_live [OF p(1), of now st spec "data = None"]
  obtain r s1 where pub: "?pub = (r, s1)" by fastforce
  obtain created where r: "r = Inr created" using assms(3) run pub by (cases r) (simp_all add: addManagedLocked_def Let_def base_entry_def)
  obtain err e' s2 where w: "writeRegistryEntryLocked now (added_entry st spec (data \<noteq> None) ?e) s1 = (err, e', s2)" by (metis prod_cases3)
  have n: "err = None" using assms(3) run pub r w by (cases err) (simp_all add: addManagedLocked_def Let_def base_entry_def)
  have res: "e = e'" "s' = (let s4 = (if new then publishTorrentLocked h st (put_entry h e' s2) else put_entry h e' s2)
                in if data \<noteq> None then snd (removePendingMagnet px h s4) else startMetadataFetch h s4)"
    using assms(3) run pub r w n by (auto simp: addManagedLocked_def Let_def base_entry_def split: option.splits)
  have fr: "frame s s1" using pub publish_frame by (auto split: option.splits)
  have "powered s1" using write_off [OF _ w] n by blast
  then have "powered s" using fr by (simp add: frame_def)
  then have "rgInfoHash ?e = hex_bytes h" using base_entry_hash [OF assms(1)] by blast
  note d = write_on_disk [OF w [unfolded n]]
  have "map_of (dkState (ssDisk s2)) h = Some e'" using d(1) \<open>rgInfoHash ?e = hex_bytes h\<close> by simp
  moreover have "dkState (ssDisk (snd (removePendingMagnet px h u))) = dkState (ssDisk u)" for u
    using removePending_frame(1) by (simp add: frame_def)
  ultimately show "map_of (dkState (ssDisk s')) h = Some e" using res by (simp add: Let_def put_entry_def startMetadataFetch_def)
  show "rgState e = StateReady \<or> rgState e = StateAdding" using res(1) d(2) [of h] \<open>rgInfoHash ?e = hex_bytes h\<close> by (simp split: if_splits)
qed

lemma AddTorrent_on_disk:
  assumes "durable px utf8 UNIV s" "now \<noteq> 0" "AddTorrentAndPersist px cl alive now src s = (Inr e, s')"
  shows "\<exists>h. map_of (dkState (ssDisk s')) h = Some e \<and> (rgState e = StateReady \<or> rgState e = StateAdding)"
proof -
  obtain h spec data uri where "addManagedLocked px cl alive now h spec data uri s = (Inr e, s')"
    using assms(3) by (auto simp: AddTorrentAndPersist_def Let_def split: option.splits if_splits sum.splits Source.splits)
  then show ?thesis using addManaged_on_disk [OF assms(1,2)] by blast
qed

lemma delete_on_disk:
  assumes "durable px utf8 UNIV s" "now \<noteq> 0" "deleteByHash rnd now h skip s = (r, Some w, s')"
  shows "\<exists>e. map_of (dkState (ssDisk s')) h = Some e \<and> rgState e = StateDeleting"
proof -
  obtain entry where e: "known_deletion h s = None" "map_of (ssStates s) h = Some entry"
    using assms(3) by (auto simp: deleteByHash_def split: if_splits option.splits)
  obtain i where i: "(if reuse_operation h entry s \<noteq> '''' then Some (reuse_operation h entry s) else rnd) = Some i"
    using assms(3) e by (auto simp: deleteByHash_def Let_def split: if_splits option.splits)
  define e1 where "e1 = entry\<lparr>rgState := StateDeleting, rgError := [], rgOperationID := i\<rparr>"
  obtain err e' s1 where w: "writeRegistryEntryLocked now e1 s = (err, e', s1)" by (metis prod_cases3)
  have n: "err = None" "ssDisk s' = ssDisk s1"
    using assms(3) e i w by (auto simp: deleteByHash_def Let_def e1_def put_entry_def split: if_splits option.splits)
  have "powered s" using write_off [OF _ w] n by blast
  then have "rgInfoHash e1 = hex_bytes h" using durable_entry(3) [OF assms(1) e(2)] by (simp add: e1_def)
  then show ?thesis using write_on_disk [OF w [unfolded n(1)], of h] n(2) by (auto simp: e1_def)
qed

lemma runDelete_operation:
  assumes "calm s" "durable px utf8 UNIV s" "deletionPendingLocked h s" "map_of (ssOperations s) i \<noteq> None"
  shows "map_option opState (findOperation i (runDelete px True now (h, t, i) s)) = Some StateDeleted"
proof -
  define s0 where "s0 = stopMetadataFetch h s"
  have s0: "calm s0" "durable px utf8 UNIV s0" "deletionPendingLocked h s0" "ssOperations s0 = ssOperations s"
    using assms by (simp_all add: s0_def calm_def stopMetadataFetch_def deletionPendingLocked_def)
  obtain s1 where p: "performDelete px True h t s0 = ([], s1)" "calm s1" using performDelete_calm [OF s0(1-3)] by blast
  have "ssOperations s1 = ssOperations s" using performDelete_durable(2) [OF s0(2,3) p(1)] s0(4) by (simp add: tame_def)
  moreover from p(2) obtain m x where "removeRegistryEntryLocked h s1 = (None, s1\<lparr>ssDisk := (ssDisk s1)\<lparr>dkState := m\<rparr>, ssStates := x\<rparr>)" using registry_calm by blast
  ultimately show ?thesis using p(1) assms(4)
    by (auto simp: runDelete_def endDelete_def s0_def [symmetric] Let_def findOperation_def set_operation_def split: option.splits)
qed

lemma crashed_fields: "dkState (crashed fs s) = dkState (ssDisk s)" "dkFaults (crashed fs s) = fs" "\<not> dkOff (crashed fs s)"
  by (simp_all add: crashed_def)

lemma restored_crashed: "restored (crashed fs s) = restored (ssDisk s)"
  by (simp add: restored_def crashed_def fun_eq_iff)

lemma restored_live:
  assumes "restored d s" "map_of (dkState d) h = Some e" "\<not> (rgState e = StateDeleting \<or> rgState e = StateDeleteFailed)"
  shows "\<exists>e'. map_of (ssStates s) h = Some e' \<and> same_torrent e e' \<and> map_of (ssTorrents s) h \<noteq> None"
  using assms(1) [unfolded restored_def, THEN spec, of h] assms(2,3) by auto

lemma restored_deleted:
  assumes "restored d s" "map_of (dkState d) h = Some e" "rgState e = StateDeleting \<or> rgState e = StateDeleteFailed"
  shows "map_of (ssStates s) h = None" "map_of (dkState (ssDisk s)) h = None" "map_of (dkFinal (ssDisk s)) h = None"
    "map_of (dkPending (ssDisk s)) h = None" "h \<notin> set (dkSubtitles (ssDisk s))"
  using assms(1) [unfolded restored_def, THEN spec, of h] assms(2,3) by auto


text \<open>A small history: one torrent is added from its metainfo, then its deletion is accepted.\<close>

definition sample_hash :: hash where
  "sample_hash = replicate 20 CHR ''A''"

definition sample_parsers :: parsers where
  "sample_parsers = \<lparr>pzMeta = (\<lambda>d. Some \<lparr>spHash = sample_hash, spName = ''film'', spDisplayName = ''''\<rparr>),
     pzMagnet = (\<lambda>d. None), pzShape = (\<lambda>d. Some (''film'', True))\<rparr>"

definition sample_torrent :: Torrent where
  "sample_torrent = \<lparr>tnName = ''film'', tnFiles = None, tnFilesID = 0, tnSingle = True\<rparr>"

definition sample_added :: World where
  "sample_added = \<lparr>wSession = snd (AddTorrentAndPersist sample_parsers (Some sample_torrent) (\<lambda>_. True) 5 (MetainfoBytes ''data'') (newSession emptyDisk)),
     wWorkers = []\<rparr>"

definition sample_deleting :: World where
  "sample_deleting = (case deleteByHash (Some ''op'') 6 sample_hash False (wSession sample_added) of
     (r, d, s) \<Rightarrow> sample_added\<lparr>wSession := s, wWorkers := wWorkers sample_added @ (case d of None \<Rightarrow> [] | Some x \<Rightarrow> [(x, Stopping, [])])\<rparr>)"

lemma sample_added_life: "life sample_parsers utf8 sample_added"
proof -
  let ?w = "\<lparr>wSession = newSession emptyDisk, wWorkers = []\<rparr>"
  have "life_step sample_parsers utf8 ?w (?w\<lparr>wSession := snd (AddTorrentAndPersist sample_parsers (Some sample_torrent)
      (\<lambda>_. True) 5 (MetainfoBytes ''data'') (wSession ?w))\<rparr>)" by (rule life_step.Add) simp
  from life.Next [OF life.First this] show ?thesis by (simp add: sample_added_def)
qed

lemma sample_deleting_life: "life sample_parsers utf8 sample_deleting"
proof -
  obtain r d s where x: "deleteByHash (Some ''op'') 6 sample_hash False (wSession sample_added) = (r, d, s)" by (metis prod_cases3)
  have "(6::time) \<noteq> 0" by simp
  from life.Next [OF sample_added_life life_step.Delete [OF this x]] show ?thesis by (simp add: sample_deleting_def x)
qed

lemma sample_hash_length [simp]: "length sample_hash = 20" "sample_hash \<noteq> zeroHash"
  by (simp_all add: sample_hash_def zeroHash_def numeral_eq_Suc)

lemmas sample_defs = sample_parsers_def sample_torrent_def newSession_def emptyDisk_def

lemma sample_added_session:
  "wSession sample_added =
     (let e = (newRegistryEntry 5 sample_hash ''film'' StateReady)\<lparr>rgUpdatedAt := 5\<rparr>
      in (newSession (emptyDisk\<lparr>dkFinal := [(sample_hash, ''data'')], dkState := [(sample_hash, e)]\<rparr>))
           \<lparr>ssStates := [(sample_hash, e)], ssTorrents := [(sample_hash, sample_torrent)]\<rparr>)"
  by (simp add: sample_added_def AddTorrentAndPersist_def addManagedLocked_def prepareTorrentSpecLocked_def deletionPendingLocked_def specFromBytes_def
      publishGuardedMetainfo_def publishMetainfo_def subtitleNamespaceConflictLocked_def filesystemViewsLocked_def
      on_disk_def disk_do_def writeRegistryEntryLocked_def parse_own newRegistryEntry_def added_entry_def validTorrentState_def
      put_entry_def publishTorrentLocked_def removePendingMagnet_def aput_def adel_def Let_def sample_defs)

lemma sample_deleting_world:
  "sample_deleting =
     (let e = (newRegistryEntry 5 sample_hash ''film'' StateDeleting)\<lparr>rgUpdatedAt := 6, rgOperationID := ''op''\<rparr>;
          op = \<lparr>opID = ''op'', opTorrentID = hex_bytes sample_hash, opState = StateDeleting, opError = [], opErrorCode = [],
                opCreatedAt = 6, opUpdatedAt = 6\<rparr>
      in \<lparr>wSession = (newSession (emptyDisk\<lparr>dkFinal := [(sample_hash, ''data'')], dkState := [(sample_hash, e)]\<rparr>))
           \<lparr>ssStates := [(sample_hash, e)], ssOperations := [(''op'', op)], ssActiveOps := [(sample_hash, ''op'')],
            ssLastOps := [(sample_hash, ''op'')]\<rparr>, wWorkers = [((sample_hash, Some sample_torrent, ''op''), Stopping, [])]\<rparr>)"
  using sample_added_session
  by (simp add: sample_deleting_def deleteByHash_def known_deletion_def reuse_operation_def on_disk_def disk_do_def writeRegistryEntryLocked_def
      parse_own newRegistryEntry_def validTorrentState_def put_entry_def aput_def adel_def Let_def sample_defs) (simp add: sample_added_def)

lemma sample_worker: "((sample_hash, Some sample_torrent, ''op''), Stopping, []) \<in> set (wWorkers sample_deleting)"
  by (simp add: sample_deleting_world Let_def)

lemma sample_calm: "calm (wSession sample_deleting)"
  by (simp add: sample_deleting_world Let_def calm_def newSession_def emptyDisk_def)






text \<open>
  C34: a running deletion that meets no fault ends after its five phases: the torrent has left the registry, in memory and
  on disk, with all of its files, and its operation reports success. Everything of other torrents is as before.
\<close>

theorem registry_delete_completes:
  assumes "life px utf8 w" "((h, t, i), Stopping, []) \<in> set (wWorkers w)" "calm (wSession w)" "now \<noteq> 0"
  shows "\<exists>s. run_worker px True now 5 (Some ((h, t, i), Stopping, []), wSession w) = (None, s) \<and> gone {h} (wSession w) s
    \<and> map_of (ssStates s) h = None \<and> map_option opState (findOperation i s) = Some StateDeleted"
proof -
  have ok: "durable px utf8 UNIV (wSession w)" "deletionPendingLocked h (wSession w)" "map_of (ssOperations (wSession w)) i \<noteq> None"
    using life_ok [OF assms(1)] assms(2) by (auto simp: world_ok_def worker_ok_def worker_hash_def worker_op_def)
  let ?s = "runDelete px True now (h, t, i) (wSession w)"
  note g = runDelete_calm [OF assms(3) ok(1,2), where now = now and t = t and i = i]
  have "powered ?s" using g by (simp add: gone_def calm_def)
  from mirror_states [OF runDelete_durable(1) [OF ok(1,2) assms(4)] this] have "map_of (ssStates ?s) h = None"
    using g by (simp add: gone_def restrict_map_def)
  moreover have "map_option opState (findOperation i ?s) = Some StateDeleted" using runDelete_operation [OF assms(3) ok] .
  ultimately show ?thesis using g run_worker_runDelete by blast
qed

theorem registry_delete_completes_witness:
  "\<exists>s. run_worker sample_parsers True 7 5 (Some ((sample_hash, Some sample_torrent, ''op''), Stopping, []), wSession sample_deleting) = (None, s)
     \<and> map_of (ssStates s) sample_hash = None \<and> map_option opState (findOperation ''op'' s) = Some StateDeleted"
  using registry_delete_completes [OF sample_deleting_life sample_worker sample_calm, where now = 7] by auto





section \<open>A directory that cannot be synced\<close>

text \<open>
  \<open>writeFileAtomic\<close> also fails when the new sidecar is in place but its directory could not be synced. An add
  then removes the metainfo again although the sidecar stays, and the next start refuses the whole directory.
\<close>

definition unsynced_add :: "(life_error + registryEntry) \<times> Session" where
  "unsynced_add = AddTorrentAndPersist sample_parsers (Some sample_torrent) (\<lambda>_. True) 5 (MetainfoBytes ''data'')
     (newSession (emptyDisk\<lparr>dkFaults := [NoFault, NotSynced]\<rparr>))"

lemma unsynced_add_result:
  "unsynced_add =
     (Inl ErrStorage, newSession (emptyDisk\<lparr>dkState := [(sample_hash, (newRegistryEntry 5 sample_hash ''film'' StateReady)\<lparr>rgUpdatedAt := 5\<rparr>)]\<rparr>))"
  by (simp add: unsynced_add_def AddTorrentAndPersist_def addManagedLocked_def prepareTorrentSpecLocked_def deletionPendingLocked_def specFromBytes_def
      publishGuardedMetainfo_def publishMetainfo_def subtitleNamespaceConflictLocked_def filesystemViewsLocked_def loadMetainfoFile_def
      on_disk_def disk_do_def writeRegistryEntryLocked_def parse_own newRegistryEntry_def added_entry_def validTorrentState_def
      put_entry_def publishTorrentLocked_def removeFinalMetainfo_def aput_def adel_def Let_def sample_defs)

lemma unsynced_add_blocks_start:
  "\<exists>s. startSession sample_parsers (\<lambda>_. True) (\<lambda>sp. Some sample_torrent) [] [] 9 (crashed [] (snd unsynced_add)) = Inl (ErrNoMetainfo, s)"
proof -
  have h: "hex_bytes sample_hash \<noteq> []" using hex_bytes_length [of sample_hash] by auto
  show ?thesis
    by (simp add: h unsynced_add_result startSession_def loadCategories_def loadRegistry_def validateRegistryEntry_def parse_own crashed_def
      newRegistryEntry_def validTorrentState_def put_entry_def resumeDeletions_def pending_deletions_def restoreRegistryEntries_def
      restore_entry_def aput_def Let_def newSession_def emptyDisk_def)
qed

end
