(* ===== verification/Strm.thy ===== *)
theory Strm
  imports Layout "HOL-Library.Multiset"
begin

text \<open>
  The names of the STRM projection (\<open>internal/vfs/strm.go\<close>) and the classification of payload names
  (\<open>internal/media/media.go\<close>): which files are shown as playlist files, the names these get below their
  directories and at the root, and the way back to the payload.

  Strings are lists of bytes. \<open>sha\<close> stands for the hexadecimal SHA-256 digest of a path, \<open>hex\<close> for the
  hexadecimal form of an info hash. Maps that are only filled and read are association lists, sets of
  names are lists.
\<close>

section \<open>UTF-8\<close>

definition byte_in :: "nat \<Rightarrow> nat \<Rightarrow> char \<Rightarrow> bool" where
  "byte_in lo hi c \<longleftrightarrow> lo \<le> of_char c \<and> of_char c \<le> hi"

abbreviation tail_byte :: "char \<Rightarrow> bool" where
  "tail_byte \<equiv> byte_in 0x80 0xBF"

text \<open>The size of the rune at the front of a string, 0 when it is not a valid encoding.\<close>

definition rune_size :: "string \<Rightarrow> nat" where
  "rune_size s =
     (case s of
        [] \<Rightarrow> 0
      | a # r \<Rightarrow>
          if byte_in 0 0x7F a then 1
          else if byte_in 0xC2 0xDF a then (case r of b # _ \<Rightarrow> if tail_byte b then 2 else 0 | _ \<Rightarrow> 0)
          else if byte_in 0xE0 0xEF a
          then (case r of
                  b # c # _ \<Rightarrow>
                    if byte_in (if of_char a = (0xE0 :: nat) then 0xA0 else 0x80) (if of_char a = (0xED :: nat) then 0x9F else 0xBF) b
                       \<and> tail_byte c then 3 else 0
                | _ \<Rightarrow> 0)
          else if byte_in 0xF0 0xF4 a
          then (case r of
                  b # c # d # _ \<Rightarrow>
                    if byte_in (if of_char a = (0xF0 :: nat) then 0x90 else 0x80) (if of_char a = (0xF4 :: nat) then 0x8F else 0xBF) b
                       \<and> tail_byte c \<and> tail_byte d then 4 else 0
                | _ \<Rightarrow> 0)
          else 0)"

function ValidString :: "string \<Rightarrow> bool" where
  "ValidString s = (if s = [] then True else if rune_size s = 0 then False else ValidString (drop (rune_size s) s))"
  by auto
termination by (relation "measure length") auto

text \<open>\<open>strings.ToValidUTF8\<close>: a run of invalid bytes becomes one replacement; the flag tells whether one is open.\<close>

function to_valid :: "string \<Rightarrow> bool \<Rightarrow> string \<Rightarrow> string" where
  "to_valid rep open s =
     (if s = [] then []
      else if rune_size s = 0 then (if open then [] else rep) @ to_valid rep True (tl s)
      else take (rune_size s) s @ to_valid rep False (drop (rune_size s) s))"
  by auto
termination by (relation "measure (\<lambda>(_, _, s). length s)") auto

declare ValidString.simps [simp del] to_valid.simps [simp del]

definition ToValidUTF8 :: "string \<Rightarrow> string \<Rightarrow> string" where
  "ToValidUTF8 s rep = to_valid rep False s"

section \<open>Media types\<close>

definition videoContentTypes :: "(string \<times> string) list" where
  "videoContentTypes =
     [(''.3gp'', ''video/3gpp''), (''.avi'', ''video/x-msvideo''), (''.flv'', ''video/x-flv''), (''.m2ts'', ''video/mp2t''),
      (''.m4v'', ''video/x-m4v''), (''.mkv'', ''video/x-matroska''), (''.mov'', ''video/quicktime''), (''.mp4'', ''video/mp4''),
      (''.mpeg'', ''video/mpeg''), (''.mpg'', ''video/mpeg''), (''.mts'', ''video/mp2t''), (''.ts'', ''video/mp2t''),
      (''.webm'', ''video/webm''), (''.wmv'', ''video/x-ms-wmv'')]"

text \<open>\<open>path.Ext\<close>: from the last dot of the last component.\<close>

definition Ext :: "string \<Rightarrow> string" where
  "Ext name =
     (let last = takeWhile (\<lambda>c. c \<noteq> slash) (rev name)
      in if CHR ''.'' \<in> set last then CHR ''.'' # rev (takeWhile (\<lambda>c. c \<noteq> CHR ''.'') last) else '''')"

definition lower_char :: "char \<Rightarrow> char" where
  "lower_char c = (if byte_in 65 90 c then char_of (of_char c + (32 :: nat)) else c)"

text \<open>
  \<open>strings.ToLower\<close> as far as it can yield an ASCII text: the ASCII letters, the Kelvin sign, whose lower
  case is \<open>k\<close>, and the dotted capital I, whose lower case is \<open>i\<close>. Every other rune stays outside ASCII.
\<close>

fun ToLower :: "string \<Rightarrow> string" where
  "ToLower [] = []"
| "ToLower (c # s) =
     (if c = CHR 0xE2 \<and> take 2 s = [CHR 0x84, CHR 0xAA] then CHR ''k'' # ToLower (drop 2 s)
      else if c = CHR 0xC4 \<and> take 1 s = [CHR 0xB0] then CHR ''i'' # ToLower (drop 1 s)
      else lower_char c # ToLower s)"

definition VideoExtension :: "string \<Rightarrow> string \<times> bool" where
  "VideoExtension name = (let ext = Ext name in (ext, map_of videoContentTypes (ToLower ext) \<noteq> None))"

text \<open>The texts that \<open>strings.EqualFold\<close> identifies with \<open>.iso\<close>; the long s folds to s.\<close>

definition iso_forms :: "string list" where
  "iso_forms = concat (map (\<lambda>i. concat (map (\<lambda>s. map (\<lambda>o'. ''.'' @ i @ s @ o') [''o'', ''O'']) [''s'', ''S'', [CHR 0xC5, CHR 0xBF]]))
     [''i'', ''I''])"

definition IsDiscImage :: "string \<Rightarrow> bool" where
  "IsDiscImage name \<longleftrightarrow> Ext name \<in> set iso_forms"

definition ContentType :: "string \<Rightarrow> string" where
  "ContentType name =
     (case map_of videoContentTypes (ToLower (Ext name)) of
        Some contentType \<Rightarrow> contentType
      | None \<Rightarrow> if IsDiscImage name then ''application/x-iso9660-image'' else ''application/octet-stream'')"

section \<open>Names\<close>

record strmFile =
  stOriginal :: string
  stPath :: string
  stGenerated :: bool

record strmName =
  snIndex :: nat
  snKey :: string
  snStem :: string
  snExt :: string
  snDisc :: bool
  snHash :: string
  snName :: string

definition strmExtension :: "string \<Rightarrow> string \<times> bool" where
  "strmExtension name =
     (case VideoExtension name of
        (ext, ok) \<Rightarrow>
          if ok then (ext, False)
          else if IsDiscImage name then (drop (length name - 4) name, True)
          else ('''', False))"

definition ending :: "strmName \<Rightarrow> string" where
  "ending n = (if snDisc n then ''.iso.strm'' else ''.strm'')"

function cut_valid :: "string \<Rightarrow> string" where
  "cut_valid base = (if ValidString base then base else cut_valid (butlast base))"
  by auto
termination
proof (relation "measure length", goal_cases)
  case (2 base)
  then have "base \<noteq> []" by (auto simp: ValidString.simps)
  then show ?case by simp
qed simp

declare cut_valid.simps [simp del]

text \<open>The limit is never negative for the suffixes in use, see the bounds below.\<close>

definition fitSTRMName :: "string \<Rightarrow> string \<Rightarrow> string \<Rightarrow> string \<Rightarrow> string" where
  "fitSTRMName base0 end0 suf0 hash =
     (let suf = (if suf0 = '''' \<and> length base0 + length end0 > 255 then ''-'' @ take 8 hash else suf0);
          limit = 255 - length end0 - length suf;
          base = (if length base0 > limit then cut_valid (take limit base0) else base0)
      in base @ suf @ end0)"

definition sanitize :: "string \<Rightarrow> string" where
  "sanitize stem = map (\<lambda>c. if c = slash \<or> c = CHR 0x5C \<or> c = CHR 0x00 then CHR ''_'' else c) (ToValidUTF8 stem ''_'')"

text \<open>The loop over growing prefixes of the hash: its result is the last name that was tried.\<close>

fun hash_loop :: "string \<Rightarrow> string \<Rightarrow> string \<Rightarrow> string list \<Rightarrow> nat list \<Rightarrow> string \<Rightarrow> string" where
  "hash_loop base end0 hash used [] name = name"
| "hash_loop base end0 hash used (l # ls) name =
     (let name' = fitSTRMName base end0 (''-'' @ take l hash) hash
      in if name' \<notin> set used then name' else hash_loop base end0 hash used ls name')"

definition sequence_name :: "string \<Rightarrow> string \<Rightarrow> string \<Rightarrow> nat \<Rightarrow> string" where
  "sequence_name base end0 hash i = fitSTRMName base end0 (''-'' @ hash @ ''-'' @ decimal i) hash"

lemma dash_tail: "c \<notin> set u \<Longrightarrow> c \<notin> set v \<Longrightarrow> x @ c # u = y @ c # v \<Longrightarrow> u = v"
proof -
  assume c: "c \<notin> set u" "c \<notin> set v" and "x @ c # u = y @ c # v"
  then have "rev u @ c # rev x = rev v @ c # rev y" by (metis append.assoc append_Cons append_Nil rev.simps(2) rev_append)
  then have "takeWhile (\<lambda>d. d \<noteq> c) (rev u @ c # rev x) = takeWhile (\<lambda>d. d \<noteq> c) (rev v @ c # rev y)" by simp
  moreover have "takeWhile (\<lambda>d. d \<noteq> c) (rev w @ c # z) = rev w" if "c \<notin> set w" for w z
    using that by (subst takeWhile_append2) auto
  ultimately show "u = v" using c by simp
qed

lemma decimal_no_dash: "CHR ''-'' \<notin> set (decimal n)"
  using decimal_chars [of _ n] by fastforce

lemma sequence_name_inj: "inj (sequence_name base end0 hash)"
proof (rule injI)
  have shape: "\<exists>x. sequence_name base end0 hash i = (x @ ''-'' @ hash) @ CHR ''-'' # decimal i @ end0" for i
    by (auto simp: sequence_name_def fitSTRMName_def Let_def)
  fix i j
  assume "sequence_name base end0 hash i = sequence_name base end0 hash j"
  then obtain x y where "(x @ ''-'' @ hash) @ CHR ''-'' # decimal i @ end0 = (y @ ''-'' @ hash) @ CHR ''-'' # decimal j @ end0"
    using shape by metis
  then have "((x @ ''-'' @ hash) @ CHR ''-'' # decimal i) @ end0 = ((y @ ''-'' @ hash) @ CHR ''-'' # decimal j) @ end0" by simp
  then have "(x @ ''-'' @ hash) @ CHR ''-'' # decimal i = (y @ ''-'' @ hash) @ CHR ''-'' # decimal j" by (simp only: append_same_eq)
  then show "i = j" using dash_tail [OF decimal_no_dash decimal_no_dash] by (metis decimal_inj)
qed

function sequence_loop :: "string \<Rightarrow> string \<Rightarrow> string \<Rightarrow> string list \<Rightarrow> nat \<Rightarrow> string" where
  "sequence_loop base end0 hash used i =
     (let name = sequence_name base end0 hash i
      in if name \<in> set used then sequence_loop base end0 hash used (Suc i) else name)"
  by auto
termination
  by (relation "measure (\<lambda>(base, end0, hash, used, i). card {j. i \<le> j \<and> sequence_name base end0 hash j \<in> set used})")
    (auto intro!: fresh_counter sequence_name_inj)

declare sequence_loop.simps [simp del]


definition hash_lengths :: "string \<Rightarrow> nat list" where
  "hash_lengths hash = filter (\<lambda>l. l mod 4 = 0) [8..<Suc (length hash)]"

text \<open>One round of the assignment loop.\<close>

definition alloc_one :: "string list \<Rightarrow> string list \<Rightarrow> strmName \<Rightarrow> string" where
  "alloc_one preferred used n =
     (let first = fitSTRMName (snStem n) (ending n) '''' (snHash n);
          base = (if \<not> snDisc n \<and> (count_list preferred first > 1 \<or> first \<in> set used) then snStem n @ snExt n else snStem n);
          name = fitSTRMName base (ending n) '''' (snHash n)
      in if name \<in> set used
         then let name' = hash_loop base (ending n) (snHash n) used (hash_lengths (snHash n)) name
              in if name' \<in> set used then sequence_loop base (ending n) (snHash n) used 1 else name'
         else name)"

fun alloc_loop :: "string list \<Rightarrow> string list \<Rightarrow> strmName list \<Rightarrow> strmName list" where
  "alloc_loop preferred used [] = []"
| "alloc_loop preferred used (n # ns) =
     (let name = alloc_one preferred used n in n\<lparr>snName := name\<rparr> # alloc_loop preferred (name # used) ns)"

definition allocateSTRMNames :: "strmName list \<Rightarrow> string list \<Rightarrow> strmName list" where
  "allocateSTRMNames names used =
     (let names' = map (\<lambda>n. n\<lparr>snStem := sanitize (snStem n)\<rparr>) names
      in alloc_loop (map (\<lambda>n. fitSTRMName (snStem n) (ending n) '''' (snHash n)) names') used (sort_key snKey names'))"

section \<open>Files of a torrent\<close>

definition dir_get :: "(string \<times> 'a list) list \<Rightarrow> string \<Rightarrow> 'a list" where
  "dir_get m dir = (case map_of m dir of None \<Rightarrow> [] | Some xs \<Rightarrow> xs)"

definition reserve :: "string \<Rightarrow> string \<Rightarrow> (string \<times> string list) list \<Rightarrow> (string \<times> string list) list" where
  "reserve dir name m = aput dir (name # dir_get m dir) m"

fun reserve_dirs :: "string \<Rightarrow> string list \<Rightarrow> (string \<times> string list) list \<Rightarrow> string \<times> (string \<times> string list) list" where
  "reserve_dirs dir [] m = (dir, m)"
| "reserve_dirs dir (part # parts) m = reserve_dirs (joinRel dir part) parts (reserve dir part m)"

definition TrimSuffix :: "string \<Rightarrow> string \<Rightarrow> string" where
  "TrimSuffix s suf = (if length suf \<le> length s \<and> drop (length s - length suf) s = suf then take (length s - length suf) s else s)"

definition TrimPrefix :: "string \<Rightarrow> string \<Rightarrow> string" where
  "TrimPrefix s pre = (if take (length pre) s = pre then drop (length pre) s else s)"

record strm_dirs =
  sdUsed :: "(string \<times> string list) list"
  sdNames :: "(string \<times> strmName list) list"

text \<open>The loop of \<open>strmFiles\<close> over the files of a torrent that is not a single file.\<close>

definition scan_file :: "(string \<Rightarrow> string) \<Rightarrow> nat \<times> FileView \<Rightarrow> strm_dirs \<Rightarrow> strm_dirs" where
  "scan_file sha x st =
     (case x of
        (i, f) \<Rightarrow>
          let parts = split_at slash (fvPath f);
              (dir, used) = reserve_dirs '''' (butlast parts) (sdUsed st);
              name = last parts;
              (ext, disc) = strmExtension (fvPath f)
          in if ext = '''' then st\<lparr>sdUsed := reserve dir name used\<rparr>
             else st\<lparr>sdUsed := used,
                     sdNames := aput dir (dir_get (sdNames st) dir
                       @ [\<lparr>snIndex = i, snKey = fvPath f, snStem = TrimSuffix name ext, snExt = ext, snDisc = disc,
                           snHash = sha (fvPath f), snName = ''''\<rparr>]) (sdNames st)\<rparr>)"

definition scan_files :: "(string \<Rightarrow> string) \<Rightarrow> FileView list \<Rightarrow> strm_dirs" where
  "scan_files sha files = fold (scan_file sha) (enumerate 0 files) \<lparr>sdUsed = [], sdNames = []\<rparr>"

definition set_path :: "string \<Rightarrow> strmName \<Rightarrow> strmFile list \<Rightarrow> strmFile list" where
  "set_path dir n files = files[snIndex n := (files ! snIndex n)\<lparr>stPath := joinRel dir (snName n)\<rparr>]"

definition set_dir :: "strm_dirs \<Rightarrow> string \<Rightarrow> strmFile list \<Rightarrow> strmFile list" where
  "set_dir st dir files =
     fold (set_path dir) (allocateSTRMNames (dir_get (sdNames st) dir) (dir_get (sdUsed st) dir)) files"

definition plain_file :: "FileView \<Rightarrow> strmFile" where
  "plain_file f = \<lparr>stOriginal = fvPath f, stPath = fvPath f, stGenerated = fst (strmExtension (fvPath f)) \<noteq> ''''\<rparr>"

definition strmFiles :: "(string \<Rightarrow> string) \<Rightarrow> TorrentView \<Rightarrow> strmFile list" where
  "strmFiles sha view =
     (let files = map plain_file (tvFiles view)
      in if mediaRoot view \<noteq> None then files
         else let st = scan_files sha (tvFiles view) in fold (set_dir st) (map fst (sdNames st)) files)"

section \<open>Names of the root\<close>

text \<open>The state of the loop over the entries of one category: the names in use and the names to allocate.\<close>

definition root_used :: "rootEntry \<Rightarrow> string list" where
  "root_used e =
     (case mediaRoot (reView e) of
        None \<Rightarrow> [reName e]
      | Some f \<Rightarrow> (if fst (strmExtension (fvPath f)) = '''' then [reName e] else [])
          @ filter (\<lambda>p. slash \<notin> set p) (map svPath (tvSubtitles (reView e))))"

definition root_name :: "(hash \<Rightarrow> string) \<Rightarrow> (hash \<Rightarrow> nat) \<Rightarrow> rootEntry \<Rightarrow> strmName list" where
  "root_name hex index e =
     (case mediaRoot (reView e) of
        None \<Rightarrow> []
      | Some f \<Rightarrow>
          let (ext, disc) = strmExtension (fvPath f);
              view = reView e;
              stem = (let visibleExt = fst (strmExtension (tvName view))
                      in if visibleExt \<noteq> '''' then TrimSuffix (tvName view) visibleExt else tvName view)
          in if ext = '''' then []
             else [\<lparr>snIndex = index (tvHash view), snKey = hex (tvHash view), snStem = stem @ TrimPrefix (reName e) (tvName view),
                    snExt = ext, snDisc = disc, snHash = hex (tvHash view), snName = ''''\<rparr>])"

definition set_name :: "nat \<Rightarrow> string \<Rightarrow> TorrentView list \<Rightarrow> TorrentView list" where
  "set_name i name projected = projected[i := (projected ! i)\<lparr>tvName := name\<rparr>]"

text \<open>\<open>indices\<close> maps a hash to the last view that has it.\<close>

definition view_index :: "TorrentView list \<Rightarrow> hash \<Rightarrow> nat" where
  "view_index views h = (case map_of (map (\<lambda>(i, v). (tvHash v, i)) (rev (enumerate 0 views))) h of Some i \<Rightarrow> i | None \<Rightarrow> 0)"

definition root_category ::
  "(hash \<Rightarrow> string) \<Rightarrow> TorrentView list \<Rightarrow> string list \<Rightarrow> string \<Rightarrow> TorrentView list \<Rightarrow> TorrentView list" where
  "root_category hex views categories category projected =
     (let reserved = (if category = '''' then categoryReservations categories else []);
          entries = rootEntriesForCategory hex views category reserved;
          named = fold (\<lambda>e. set_name (view_index views (tvHash (reView e))) (reName e)) entries projected;
          used = concat (map root_used entries) @ reserved;
          names = concat (map (root_name hex (view_index views)) entries)
      in fold (\<lambda>n. set_name (snIndex n) (snName n)) (allocateSTRMNames names used) named)"

definition strmRootNames :: "(hash \<Rightarrow> string) \<Rightarrow> TorrentView list \<Rightarrow> string list \<Rightarrow> TorrentView list \<Rightarrow> TorrentView list" where
  "strmRootNames hex views categories projected =
     fold (root_category hex views categories) (remdups (map tvCategory views)) projected"


section \<open>Lemmas on names\<close>

lemma hash_loop_result:
  "hash_loop base e h used ls name = name \<or> (\<exists>l. l \<in> set ls \<and> hash_loop base e h used ls name = fitSTRMName base e (''-'' @ take l h) h)"
  by (induction ls arbitrary: name) (auto simp: Let_def)

lemma sequence_loop_result:
  "\<exists>j. sequence_loop base e h used i = sequence_name base e h j \<and> sequence_name base e h j \<notin> set used \<and> i \<le> j
     \<and> (\<forall>k. i \<le> k \<and> k < j \<longrightarrow> sequence_name base e h k \<in> set used)"
proof (induction base e h used i rule: sequence_loop.induct)
  case (1 base e h used i)
  show ?case
  proof (cases "sequence_name base e h i \<in> set used")
    case True
    have next_i: "sequence_loop base e h used i = sequence_loop base e h used (Suc i)"
      using True by (simp add: sequence_loop.simps [of _ _ _ _ i])
    from "1.IH" [OF refl True] obtain j where j: "sequence_loop base e h used (Suc i) = sequence_name base e h j"
      "sequence_name base e h j \<notin> set used" "Suc i \<le> j" "\<forall>k. Suc i \<le> k \<and> k < j \<longrightarrow> sequence_name base e h k \<in> set used"
      by blast
    have "\<forall>k. i \<le> k \<and> k < j \<longrightarrow> sequence_name base e h k \<in> set used" using j(4) True by (metis le_antisym not_less_eq_eq)
    then show ?thesis using j next_i by (intro exI [of _ j]) simp
  next
    case False
    then show ?thesis by (auto simp: sequence_loop.simps [of _ _ _ _ i])
  qed
qed

text \<open>The counter stays below the number of names in use.\<close>

lemma sequence_loop_bound:
  "\<exists>j \<le> i + length used. sequence_loop base e h used i = sequence_name base e h j"
proof -
  obtain j where j: "sequence_loop base e h used i = sequence_name base e h j" "i \<le> j"
    "\<forall>k. i \<le> k \<and> k < j \<longrightarrow> sequence_name base e h k \<in> set used" using sequence_loop_result by blast
  have "sequence_name base e h ` {i..<j} \<subseteq> set used" using j(3) by auto
  then have "card (sequence_name base e h ` {i..<j}) \<le> card (set used)" by (intro card_mono) auto
  also have "\<dots> \<le> length used" by (rule card_length)
  finally have "j - i \<le> length used"
    using card_image [OF inj_on_subset [OF sequence_name_inj subset_UNIV], of base e h "{i..<j}"] by simp
  then show ?thesis using j by (intro exI [of _ j]) auto
qed

lemma sequence_loop_fresh: "sequence_loop base e h used i \<notin> set used"
  using sequence_loop_result [of base e h used i] by metis

lemma alloc_one_fresh: "alloc_one preferred used n \<notin> set used"
  by (simp add: alloc_one_def Let_def sequence_loop_fresh)

lemma alloc_loop_fresh:
  "distinct (map snName (alloc_loop preferred used ns)) \<and> set (map snName (alloc_loop preferred used ns)) \<inter> set used = {}"
proof (induction ns arbitrary: used)
  case (Cons n ns)
  then show ?case using alloc_one_fresh [of preferred used n] Cons [of "alloc_one preferred used n # used"] by (auto simp: Let_def)
qed simp

text \<open>The forms of an allocated name: a base with an empty suffix, a prefix of the hash, or the hash with a counter.\<close>

definition name_suffix :: "string \<Rightarrow> nat \<Rightarrow> string \<Rightarrow> bool" where
  "name_suffix h k suf \<longleftrightarrow> suf = '''' \<or> (\<exists>l. suf = ''-'' @ take l h) \<or> (\<exists>j \<le> k. suf = ''-'' @ h @ ''-'' @ decimal j)"

lemma alloc_one_form:
  "\<exists>base suf. alloc_one preferred used n = fitSTRMName base (ending n) suf (snHash n)
     \<and> (base = snStem n \<or> base = snStem n @ snExt n) \<and> name_suffix (snHash n) (Suc (length used)) suf"
proof -
  let ?f = "\<lambda>base suf. fitSTRMName base (ending n) suf (snHash n)"
  have h: "\<exists>suf. hash_loop base (ending n) (snHash n) used ls (?f base '''') = ?f base suf \<and> name_suffix (snHash n) (Suc (length used)) suf"
    for base ls
    using hash_loop_result [of base "ending n" "snHash n" used ls "?f base ''''"] unfolding name_suffix_def by blast
  have s: "\<exists>suf. sequence_loop base (ending n) (snHash n) used 1 = ?f base suf \<and> name_suffix (snHash n) (Suc (length used)) suf" for base
    using sequence_loop_bound [of 1 used base "ending n" "snHash n"] unfolding name_suffix_def sequence_name_def by force
  have e: "name_suffix (snHash n) (Suc (length used)) ''''" by (simp add: name_suffix_def)
  define base where "base = (let first = ?f (snStem n) '''' in
    if \<not> snDisc n \<and> (count_list preferred first > 1 \<or> first \<in> set used) then snStem n @ snExt n else snStem n)"
  have b: "base = snStem n \<or> base = snStem n @ snExt n" by (simp add: base_def Let_def)
  define name' where "name' = hash_loop base (ending n) (snHash n) used (hash_lengths (snHash n)) (?f base '''')"
  have "alloc_one preferred used n =
     (if ?f base '''' \<in> set used
      then if name' \<in> set used then sequence_loop base (ending n) (snHash n) used 1 else name'
      else ?f base '''')"
    unfolding alloc_one_def base_def name'_def Let_def ..
  then consider "alloc_one preferred used n = sequence_loop base (ending n) (snHash n) used 1"
    | "alloc_one preferred used n = hash_loop base (ending n) (snHash n) used (hash_lengths (snHash n)) (?f base '''')"
    | "alloc_one preferred used n = ?f base ''''" by (cases "?f base '''' \<in> set used"; cases "name' \<in> set used") (simp_all add: name'_def)
  then show ?thesis using b h s e by cases metis+
qed


subsection \<open>Length and characters\<close>

lemma cut_valid_prefix: "\<exists>r. s = cut_valid s @ r"
proof (induction s rule: cut_valid.induct)
  case (1 s)
  show ?case
  proof (cases "ValidString s")
    case False
    then obtain r where r: "butlast s = cut_valid (butlast s) @ r" using 1 by blast
    have "s \<noteq> []" using False by (auto simp: ValidString.simps)
    then have "s = butlast s @ [last s]" by simp
    then show ?thesis using r False by (metis append.assoc cut_valid.simps)
  qed (simp add: cut_valid.simps)
qed

lemma cut_valid_valid: "ValidString (cut_valid s)"
  by (induction s rule: cut_valid.induct) (simp add: cut_valid.simps)

lemma cut_valid_length: "length (cut_valid s) \<le> length s"
  using cut_valid_prefix [of s] by (metis le_add1 length_append)

text \<open>The suffix that is used: a long name without suffix gets one.\<close>

definition used_suffix :: "string \<Rightarrow> string \<Rightarrow> string \<Rightarrow> string \<Rightarrow> string" where
  "used_suffix base e suf h = (if suf = '''' \<and> length base + length e > 255 then ''-'' @ take 8 h else suf)"

lemma fit_shape:
  "\<exists>b r. fitSTRMName base e suf h = b @ used_suffix base e suf h @ e \<and> base = b @ r \<and> (b = base \<or> ValidString b)
     \<and> length b \<le> 255 - length e - length (used_suffix base e suf h)"
proof -
  let ?limit = "255 - length e - length (used_suffix base e suf h)"
  let ?b = "if length base > ?limit then cut_valid (take ?limit base) else base"
  obtain r where r: "take ?limit base = cut_valid (take ?limit base) @ r" using cut_valid_prefix by blast
  have "\<exists>r. base = ?b @ r"
  proof (cases "length base > ?limit")
    case True
    have "base = cut_valid (take ?limit base) @ r @ drop ?limit base" using r by (metis append.assoc append_take_drop_id)
    then show ?thesis using True by (metis (full_types))
  qed simp
  moreover have "length ?b \<le> ?limit" using cut_valid_length [of "take ?limit base"] by auto
  moreover have "fitSTRMName base e suf h = ?b @ used_suffix base e suf h @ e"
    by (simp add: fitSTRMName_def used_suffix_def Let_def)
  moreover have "?b = base \<or> ValidString ?b" using cut_valid_valid by simp
  ultimately show ?thesis by blast
qed

lemma fit_length: "length e + length (used_suffix base e suf h) \<le> 255 \<Longrightarrow> length (fitSTRMName base e suf h) \<le> 255"
  using fit_shape [of base e suf h] by force

lemma fit_chars: "set (fitSTRMName base e suf h) \<subseteq> set base \<union> set (used_suffix base e suf h) \<union> set e"
  using fit_shape [of base e suf h] by force

lemma fit_ending: "\<exists>x. fitSTRMName base e suf h = x @ e"
  using fit_shape [of base e suf h] by (metis append.assoc)

lemma suffix_length:
  assumes "name_suffix h k suf" and "length h \<le> 64" and "k < 10 ^ 20"
  shows "length (used_suffix base e suf h) \<le> 86"
proof -
  have "length (decimal j) \<le> 20" if "j \<le> k" for j using that assms(3) decimal_length [of j 20] by simp
  then show ?thesis using assms(1,2) by (fastforce simp: name_suffix_def used_suffix_def)
qed

lemma suffix_chars:
  assumes "name_suffix h k suf"
  shows "set (used_suffix base e suf h) \<subseteq> {CHR ''-''} \<union> set h \<union> {c. 48 \<le> (of_char c :: nat) \<and> of_char c \<le> (57 :: nat)}"
proof -
  have "set (take l h) \<subseteq> set h" for l by (rule set_take_subset)
  then show ?thesis using assms decimal_chars by (fastforce simp: name_suffix_def used_suffix_def)
qed

text \<open>The characters that a name of a directory entry must not have.\<close>

definition bad_chars :: "char set" where
  "bad_chars = {slash, CHR 0x5C, CHR 0x00}"

lemma sanitize_chars: "set (sanitize s) \<inter> bad_chars = {}"
  by (auto simp: sanitize_def bad_chars_def slash_def)


subsection \<open>Valid UTF-8\<close>

abbreviation ascii :: "char \<Rightarrow> bool" where
  "ascii c \<equiv> of_char c < (128 :: nat)"

lemma rune_size_le: "rune_size s \<le> length s"
  by (auto simp: rune_size_def split: list.splits)

lemma rune_size_front:
  assumes "rune_size (s @ t) \<noteq> 0" and "rune_size (s @ t) \<le> length s"
  shows "rune_size (s @ u) = rune_size (s @ t)"
proof (cases s)
  case (Cons a r)
  consider "byte_in 0 0x7F a" | "\<not> byte_in 0 0x7F a" "byte_in 0xC2 0xDF a"
    | "\<not> byte_in 0 0x7F a" "\<not> byte_in 0xC2 0xDF a" "byte_in 0xE0 0xEF a"
    | "\<not> byte_in 0 0x7F a" "\<not> byte_in 0xC2 0xDF a" "\<not> byte_in 0xE0 0xEF a" "byte_in 0xF0 0xF4 a"
    | "\<not> byte_in 0 0x7F a" "\<not> byte_in 0xC2 0xDF a" "\<not> byte_in 0xE0 0xEF a" "\<not> byte_in 0xF0 0xF4 a" by blast
  then show ?thesis
  proof cases
    case 2
    then show ?thesis using assms Cons by (cases r; cases t) (simp_all add: rune_size_def split: if_splits)
  next
    case 3
    then show ?thesis using assms Cons
      by (cases r; cases "tl r") (simp_all add: rune_size_def split: list.splits if_splits)
  next
    case 4
    have "rune_size (s @ t) = 0 \<or> rune_size (s @ t) = 4" using 4 Cons by (auto simp: rune_size_def split: list.split)
    then have "3 \<le> length r" using assms Cons by simp
    then obtain b c d r' where "r = b # c # d # r'" by (auto simp: numeral_3_eq_3 Suc_le_length_iff)
    then show ?thesis using 4 Cons by (simp add: rune_size_def)
  qed (use assms Cons in \<open>simp_all add: rune_size_def\<close>)
qed (use assms in simp)

lemma rune_size_append: "rune_size a \<noteq> 0 \<Longrightarrow> rune_size (a @ b) = rune_size a"
  using rune_size_front [of a "[]" b] rune_size_le [of a] by simp

lemma rune_size_take: "rune_size s \<noteq> 0 \<Longrightarrow> rune_size (take (rune_size s) s) = rune_size s"
  using rune_size_front [of "take (rune_size s) s" "drop (rune_size s) s" "[]"] rune_size_le [of s] by simp

lemma ValidString_Nil [simp]: "ValidString []"
  by (simp add: ValidString.simps)

lemma ValidString_append: "ValidString a \<Longrightarrow> ValidString b \<Longrightarrow> ValidString (a @ b)"
proof (induction a rule: ValidString.induct)
  case (1 a)
  show ?case
  proof (cases "a = []")
    case False
    then have r: "rune_size a \<noteq> 0" and v: "ValidString (drop (rune_size a) a)"
      using 1(2) by (auto simp: ValidString.simps [of a] split: if_splits)
    have "ValidString (drop (rune_size a) a @ b)" using "1.IH" [OF False r v 1(3)] .
    then show ?thesis using r False rune_size_le [of a] by (simp add: ValidString.simps [of "a @ b"] rune_size_append)
  qed (use 1 in simp)
qed

lemma ValidString_ascii: "(\<And>c. c \<in> set s \<Longrightarrow> ascii c) \<Longrightarrow> ValidString s"
proof (induction s)
  case (Cons c s)
  have "rune_size (c # s) = 1" using Cons.prems [of c] by (simp add: rune_size_def byte_in_def)
  then show ?case using Cons by (simp add: ValidString.simps [of "c # s"])
qed simp

lemma ValidString_rune: "rune_size s \<noteq> 0 \<Longrightarrow> ValidString (take (rune_size s) s)"
  using rune_size_take [of s] rune_size_le [of s] by (subst ValidString.simps) simp

lemma to_valid_valid: "ValidString rep \<Longrightarrow> ValidString (to_valid rep open s)"
proof (induction rep "open" s rule: to_valid.induct)
  case (1 rep "open" s)
  consider "s = []" | "s \<noteq> []" "rune_size s = 0" | "s \<noteq> []" "rune_size s \<noteq> 0" by blast
  then show ?case
  proof cases
    case 3
    then show ?thesis using "1.IH"(2) [OF 3 "1.prems"] ValidString_rune [of s] ValidString_append
      by (simp add: to_valid.simps [of rep "open" s])
  next
    case 2
    then show ?thesis using "1.IH"(1) [OF 2 "1.prems"] "1.prems" ValidString_append
      by (simp add: to_valid.simps [of rep "open" s])
  qed (simp add: to_valid.simps)
qed

lemma rune_size_map:
  assumes "\<And>c. ascii c \<Longrightarrow> ascii (g c)" and "\<And>c. \<not> ascii c \<Longrightarrow> g c = c"
  shows "rune_size (map g s) = rune_size s"
proof -
  have b: "byte_in lo hi (g c) = byte_in lo hi c" if "128 \<le> lo" for lo hi c
    using assms(1) [of c] assms(2) [of c] that by (cases "ascii c") (auto simp: byte_in_def)
  have a: "byte_in 0 127 (g c) = byte_in 0 127 c" for c
    using assms(1) [of c] assms(2) [of c] by (cases "ascii c") (auto simp: byte_in_def)
  have e: "of_char (g c) = n \<longleftrightarrow> of_char c = n" if "128 \<le> n" for c and n :: nat
    using assms(1) [of c] assms(2) [of c] that by (cases "ascii c") auto
  show ?thesis by (auto simp: rune_size_def a b e split: list.splits)
qed

lemma ValidString_map:
  assumes "\<And>c. ascii c \<Longrightarrow> ascii (g c)" and "\<And>c. \<not> ascii c \<Longrightarrow> g c = c" and "ValidString s"
  shows "ValidString (map g s)"
  using assms(3)
proof (induction s rule: ValidString.induct)
  case (1 s)
  show ?case
  proof (cases "s = []")
    case False
    then have r: "rune_size s \<noteq> 0" and v: "ValidString (drop (rune_size s) s)"
      using 1(2) by (auto simp: ValidString.simps [of s] split: if_splits)
    have "ValidString (drop (rune_size s) (map g s))" using "1.IH" [OF False r v] by (simp add: drop_map)
    then show ?thesis using r False rune_size_map [OF assms(1,2), of s] by (simp add: ValidString.simps [of "map g s"])
  qed simp
qed

lemma sanitize_valid: "ValidString (sanitize s)"
  unfolding sanitize_def ToValidUTF8_def
proof (rule ValidString_map)
  have "ValidString ''_''" by (rule ValidString_ascii) simp
  then show "ValidString (to_valid ''_'' False s)" by (rule to_valid_valid)
qed (auto simp: slash_def)

text \<open>An extension of the table has no character that a name must not have.\<close>

lemma ToLower_ascii:
  assumes "\<And>c. c \<in> set (ToLower e) \<Longrightarrow> ascii c \<and> c \<notin> bad_chars"
  shows "ValidString e \<and> set e \<inter> bad_chars = {}"
  using assms
proof (induction e rule: ToLower.induct)
  case (2 c s)
  have cut: "drop k s = r \<Longrightarrow> take k s = t \<Longrightarrow> s = t @ r" for k r t by (metis append_take_drop_id)
  consider (kelvin) "c = CHR 0xE2" "take 2 s = [CHR 0x84, CHR 0xAA]"
    | (dotted) "\<not> (c = CHR 0xE2 \<and> take 2 s = [CHR 0x84, CHR 0xAA])" "c = CHR 0xC4" "take 1 s = [CHR 0xB0]"
    | (other) "\<not> (c = CHR 0xE2 \<and> take 2 s = [CHR 0x84, CHR 0xAA])" "\<not> (c = CHR 0xC4 \<and> take 1 s = [CHR 0xB0])" by blast
  then show ?case
  proof cases
    case kelvin
    have "ValidString (drop 2 s) \<and> set (drop 2 s) \<inter> bad_chars = {}" using "2.IH"(1) kelvin "2.prems" by simp
    moreover have "c # s = [CHR 0xE2, CHR 0x84, CHR 0xAA] @ drop 2 s" using kelvin cut [of 2 "drop 2 s"] by simp
    moreover have "ValidString [CHR 0xE2, CHR 0x84, CHR 0xAA]" by (simp add: ValidString.simps rune_size_def byte_in_def)
    moreover have "set [CHR 0xE2, CHR 0x84, CHR 0xAA] \<inter> bad_chars = {}" by (simp add: bad_chars_def slash_def)
    ultimately show ?thesis using ValidString_append by (metis Int_Un_distrib2 Un_empty set_append)
  next
    case dotted
    have "ValidString (drop 1 s) \<and> set (drop 1 s) \<inter> bad_chars = {}" using "2.IH"(2) dotted "2.prems" by simp
    moreover have "c # s = [CHR 0xC4, CHR 0xB0] @ drop 1 s" using dotted cut [of 1 "drop 1 s"] by simp
    moreover have "ValidString [CHR 0xC4, CHR 0xB0]" by (simp add: ValidString.simps rune_size_def byte_in_def)
    moreover have "set [CHR 0xC4, CHR 0xB0] \<inter> bad_chars = {}" by (simp add: bad_chars_def slash_def)
    ultimately show ?thesis using ValidString_append by (metis Int_Un_distrib2 Un_empty set_append)
  next
    case other
    then have l: "ToLower (c # s) = lower_char c # ToLower s" by auto
    then have "ValidString s \<and> set s \<inter> bad_chars = {}" using "2.IH"(3) other "2.prems" by simp
    moreover have a: "ascii (lower_char c)" "lower_char c \<notin> bad_chars" using "2.prems" [of "lower_char c"] l by simp_all
    then have "ascii c" "c \<notin> bad_chars"
      by (auto simp: lower_char_def byte_in_def bad_chars_def slash_def split: if_splits)
    moreover from this have "ValidString [c]" by (intro ValidString_ascii) simp
    ultimately show ?thesis using ValidString_append [of "[c]" s] by simp
  qed
qed simp

lemma video_keys: "map_of videoContentTypes e \<noteq> None \<Longrightarrow> c \<in> set e \<Longrightarrow> ascii c \<and> c \<notin> bad_chars"
  by (auto simp: videoContentTypes_def bad_chars_def slash_def split: if_splits)

lemma VideoExtension_ok: "VideoExtension name = (ext, True) \<Longrightarrow> ValidString ext \<and> set ext \<inter> bad_chars = {}"
  using ToLower_ascii [of ext] video_keys [of "ToLower ext"] by (auto simp: VideoExtension_def Let_def)


section \<open>Properties of the names\<close>

text \<open>What the callers pass: the hash is a digest in hexadecimal, the extension one that was recognised.\<close>

definition digest_ok :: "string \<Rightarrow> bool" where
  "digest_ok h \<longleftrightarrow> 8 \<le> length h \<and> length h \<le> 64 \<and> set h \<subseteq> set ''0123456789abcdef''"

definition name_ok :: "strmName \<Rightarrow> bool" where
  "name_ok n \<longleftrightarrow> digest_ok (snHash n) \<and> (\<not> snDisc n \<longrightarrow> (\<exists>p. VideoExtension p = (snExt n, True)))"

lemma digest_chars: "digest_ok h \<Longrightarrow> c \<in> set h \<Longrightarrow> ascii c \<and> c \<notin> bad_chars"
  by (auto simp: digest_ok_def bad_chars_def slash_def)

text \<open>A name that may stand in a directory.\<close>

definition leaf_ok :: "string \<Rightarrow> bool" where
  "leaf_ok s \<longleftrightarrow> s \<noteq> '''' \<and> length s \<le> 255 \<and> set s \<inter> bad_chars = {} \<and> ValidString s"

lemma ending_ok: "length (ending n) \<le> 9" "c \<in> set (ending n) \<Longrightarrow> ascii c \<and> c \<notin> bad_chars" "ending n \<noteq> ''''"
  by (auto simp: ending_def bad_chars_def slash_def split: if_splits)

lemma alloc_one_base:
  assumes "snDisc n"
  shows "\<exists>suf. alloc_one preferred used n = fitSTRMName (snStem n) (ending n) suf (snHash n) \<and> name_suffix (snHash n) (Suc (length used)) suf"
proof -
  have "alloc_one preferred used n = alloc_one preferred used (n\<lparr>snExt := ''''\<rparr>)" using assms by (simp add: alloc_one_def ending_def Let_def)
  then show ?thesis using alloc_one_form [of preferred used "n\<lparr>snExt := ''''\<rparr>"] by (auto simp: ending_def)
qed

lemma alloc_one_ok:
  assumes n: "name_ok n" and stem: "ValidString (snStem n)" "set (snStem n) \<inter> bad_chars = {}" and k: "Suc (length used) < 10 ^ 20"
  shows "leaf_ok (alloc_one preferred used n) \<and> (\<exists>x. alloc_one preferred used n = x @ ending n)"
proof -
  obtain base suf where f: "alloc_one preferred used n = fitSTRMName base (ending n) suf (snHash n)"
    and b: "base = snStem n \<or> (\<not> snDisc n \<and> base = snStem n @ snExt n)" and s: "name_suffix (snHash n) (Suc (length used)) suf"
  proof (cases "snDisc n")
    case True
    then show thesis using alloc_one_base that by metis
  next
    case False
    then show thesis using alloc_one_form that by metis
  qed
  let ?s = "used_suffix base (ending n) suf (snHash n)"
  have h: "length (snHash n) \<le> 64" using n by (simp add: name_ok_def digest_ok_def)
  have base: "ValidString base" "set base \<inter> bad_chars = {}"
    using b stem n VideoExtension_ok ValidString_append unfolding name_ok_def by (fastforce)+
  have sc: "ascii c \<and> c \<notin> bad_chars" if "c \<in> set ?s" for c
    using that suffix_chars [OF s, of base "ending n"] digest_chars n by (fastforce simp: name_ok_def bad_chars_def slash_def)
  have len: "length (fitSTRMName base (ending n) suf (snHash n)) \<le> 255"
    using suffix_length [OF s h k, of base "ending n"] ending_ok(1) [of n] by (intro fit_length) simp
  obtain x r where x: "fitSTRMName base (ending n) suf (snHash n) = x @ ?s @ ending n" "base = x @ r" "x = base \<or> ValidString x"
    using fit_shape by metis
  have "ValidString (x @ ?s @ ending n)"
    using x(3) base(1) sc ending_ok(2) by (intro ValidString_append) (auto intro: ValidString_ascii)
  moreover have "set (x @ ?s @ ending n) \<inter> bad_chars = {}" using x(2) base(2) sc ending_ok(2) [of _ n] by auto
  moreover have "\<exists>y. x @ ?s @ ending n = y @ ending n" by (metis append.assoc)
  ultimately show ?thesis using len ending_ok(3) [of n] unfolding f x(1) leaf_ok_def by simp
qed

lemma alloc_loop_ok:
  assumes "\<And>n. n \<in> set ns \<Longrightarrow> name_ok n \<and> ValidString (snStem n) \<and> set (snStem n) \<inter> bad_chars = {}"
    and "Suc (length used + length ns) < 10 ^ 20" and "m \<in> set (alloc_loop preferred used ns)"
  shows "leaf_ok (snName m) \<and> (\<exists>x. snName m = x @ ending m)"
  using assms
proof (induction ns arbitrary: used)
  case (Cons n ns)
  let ?a = "alloc_one preferred used n"
  have a: "leaf_ok ?a \<and> (\<exists>x. ?a = x @ ending n)" using Cons.prems by (intro alloc_one_ok) auto
  consider "m = n\<lparr>snName := ?a\<rparr>" | "m \<in> set (alloc_loop preferred (?a # used) ns)"
    using Cons.prems(3) by (auto simp: Let_def)
  then show ?case
  proof cases
    case 1
    then show ?thesis using a by (simp add: ending_def)
  next
    case 2
    then show ?thesis using Cons.IH [of "?a # used"] Cons.prems(1,2) by simp
  qed
qed simp

lemma alloc_fit:
  assumes "\<And>n. n \<in> set names \<Longrightarrow> name_ok n" and "length used + length names < 10 ^ 19"
  shows "distinct (map snName (allocateSTRMNames names used))
     \<and> (\<forall>n \<in> set (allocateSTRMNames names used). snName n \<notin> set used \<and> leaf_ok (snName n) \<and> (\<exists>x. snName n = x @ ending n))"
proof -
  let ?ns = "sort_key snKey (map (\<lambda>n. n\<lparr>snStem := sanitize (snStem n)\<rparr>) names)"
  have ok: "name_ok n \<and> ValidString (snStem n) \<and> set (snStem n) \<inter> bad_chars = {}" if "n \<in> set ?ns" for n
  proof -
    obtain n0 where "n0 \<in> set names" "n = n0\<lparr>snStem := sanitize (snStem n0)\<rparr>" using \<open>n \<in> set ?ns\<close> by auto
    then show ?thesis using assms(1) [of n0] sanitize_valid sanitize_chars by (simp add: name_ok_def)
  qed
  have k: "Suc (length used + length ?ns) < 10 ^ 20" using assms(2) by simp
  show ?thesis unfolding allocateSTRMNames_def Let_def
    using alloc_loop_fresh [of _ used ?ns] alloc_loop_ok [of ?ns used, OF ok k] by auto
qed

text \<open>
  C19: the names that are assigned to the playlist files of one directory are pairwise distinct and
  distinct from all names already in use there; each has at most 255 bytes, is valid UTF-8 without slash,
  backslash or zero byte, and keeps its complete ending. The search for a free name always ends.
\<close>

theorem strm_names_fit:
  assumes "\<And>n. n \<in> set names \<Longrightarrow> name_ok n" and "length used + length names < 10 ^ 19"
  shows "distinct (map snName (allocateSTRMNames names used))
     \<and> (\<forall>n \<in> set (allocateSTRMNames names used). snName n \<notin> set used \<and> leaf_ok (snName n) \<and> (\<exists>x. snName n = x @ ending n))"
  using assms by (rule alloc_fit)

definition sample_name :: "nat \<Rightarrow> strmName" where
  "sample_name i = \<lparr>snIndex = i, snKey = decimal i, snStem = ''a/b'', snExt = ''.mkv'', snDisc = False, snHash = replicate 64 (CHR ''0''), snName = ''''\<rparr>"

lemma sample_name_ok: "name_ok (sample_name i)"
proof -
  have "VideoExtension ''x.mkv'' = (''.mkv'', True)"
    by (simp add: VideoExtension_def Ext_def videoContentTypes_def lower_char_def byte_in_def slash_def)
  then show ?thesis by (auto simp: name_ok_def digest_ok_def sample_name_def)
qed

theorem strm_names_fit_witness:
  "distinct (map snName (allocateSTRMNames [sample_name 1, sample_name 2] [''a_b.strm'']))"
  using strm_names_fit [of "[sample_name 1, sample_name 2]" "[''a_b.strm'']"] sample_name_ok by auto


section \<open>Lemmas on the files of a torrent\<close>

definition parts_of :: "FileView \<Rightarrow> string list" where
  "parts_of f = split_at slash (fvPath f)"

definition dir_of :: "FileView \<Rightarrow> string" where
  "dir_of f = join slash (butlast (parts_of f))"

abbreviation generated :: "FileView \<Rightarrow> bool" where
  "generated f \<equiv> fst (strmExtension (fvPath f)) \<noteq> ''''"

definition name_of :: "(string \<Rightarrow> string) \<Rightarrow> nat \<times> FileView \<Rightarrow> strmName" where
  "name_of sha x =
     (case x of (i, f) \<Rightarrow>
        \<lparr>snIndex = i, snKey = fvPath f, snStem = TrimSuffix (last (parts_of f)) (fst (strmExtension (fvPath f))),
         snExt = fst (strmExtension (fvPath f)), snDisc = snd (strmExtension (fvPath f)), snHash = sha (fvPath f), snName = ''''\<rparr>)"

text \<open>Paths as torrents have them: no component is empty.\<close>

definition plain_path :: "FileView \<Rightarrow> bool" where
  "plain_path f \<longleftrightarrow> '''' \<notin> set (parts_of f)"

lemma join_snoc: "ps \<noteq> [] \<Longrightarrow> join sep (ps @ [p]) = join sep ps @ sep # p"
proof (induction ps)
  case (Cons a ps)
  then show ?case by (cases ps) (simp_all add: join_Cons)
qed simp

lemma join_empty: "'''' \<notin> set ps \<Longrightarrow> join slash ps = '''' \<longleftrightarrow> ps = []"
  by (cases ps; cases "tl ps") (auto simp: join_Cons)

lemma joinRel_join: "'''' \<notin> set ps \<Longrightarrow> joinRel (join slash ps) p = join slash (ps @ [p])"
  using join_empty [of ps] by (cases "ps = []") (simp_all add: joinRel_def join_snoc slash_def)

lemma dir_get_reserve: "dir_get (reserve d n m) e = (if e = d then n # dir_get m d else dir_get m e)"
  by (simp add: reserve_def dir_get_def)

lemma dir_get_aput: "dir_get (aput d xs m) e = (if e = d then xs else dir_get m e)"
  by (simp add: dir_get_def)

lemma reserve_dirs_dir:
  "'''' \<notin> set pre \<Longrightarrow> '''' \<notin> set ps \<Longrightarrow> fst (reserve_dirs (join slash pre) ps m) = join slash (pre @ ps)"
proof (induction ps arbitrary: pre m)
  case (Cons p ps)
  then show ?case using Cons.IH [of "pre @ [p]"] joinRel_join [of pre p] by simp
qed simp

lemma reserve_dirs_grows: "set (dir_get m d) \<subseteq> set (dir_get (snd (reserve_dirs dir ps m)) d)"
proof (induction ps arbitrary: dir m)
  case (Cons p ps)
  show ?case using Cons.IH [of "reserve dir p m" "joinRel dir p"] by (auto simp: dir_get_reserve split: if_splits)
qed simp

lemma reserve_dirs_parts:
  assumes "'''' \<notin> set pre" and "'''' \<notin> set ps" and "k < length ps"
  shows "ps ! k \<in> set (dir_get (snd (reserve_dirs (join slash pre) ps m)) (join slash (pre @ take k ps)))"
  using assms
proof (induction ps arbitrary: pre m k)
  case (Cons p ps)
  let ?m = "reserve (join slash pre) p m"
  have e: "reserve_dirs (join slash pre) (p # ps) m = reserve_dirs (join slash (pre @ [p])) ps ?m"
    using Cons.prems joinRel_join [of pre p] by simp
  show ?case
  proof (cases k)
    case 0
    have "p \<in> set (dir_get ?m (join slash pre))" by (simp add: dir_get_reserve)
    then show ?thesis using 0 e reserve_dirs_grows by fastforce
  next
    case (Suc j)
    then show ?thesis using Cons.IH [of "pre @ [p]" j ?m] Cons.prems e by simp
  qed
qed simp

text \<open>The state of the scan after a list of files.\<close>

definition scanned :: "(string \<Rightarrow> string) \<Rightarrow> (nat \<times> FileView) list \<Rightarrow> strm_dirs \<Rightarrow> bool" where
  "scanned sha xs st \<longleftrightarrow>
     distinct (map fst (sdNames st))
     \<and> (\<forall>d. dir_get (sdNames st) d = map (name_of sha) (filter (\<lambda>x. generated (snd x) \<and> dir_of (snd x) = d) xs))
     \<and> (\<forall>d. dir_get (sdNames st) d \<noteq> [] \<longrightarrow> d \<in> fst ` set (sdNames st))
     \<and> (\<forall>x \<in> set xs. (\<not> generated (snd x) \<longrightarrow> last (parts_of (snd x)) \<in> set (dir_get (sdUsed st) (dir_of (snd x))))
          \<and> (\<forall>k < length (parts_of (snd x)) - 1.
               parts_of (snd x) ! k \<in> set (dir_get (sdUsed st) (join slash (take k (parts_of (snd x)))))))"

lemma scan_file_eq:
  assumes "plain_path f"
  shows "scan_file sha (i, f) st =
     (let used = snd (reserve_dirs '''' (butlast (parts_of f)) (sdUsed st))
      in if generated f
         then st\<lparr>sdUsed := used, sdNames := aput (dir_of f) (dir_get (sdNames st) (dir_of f) @ [name_of sha (i, f)]) (sdNames st)\<rparr>
         else st\<lparr>sdUsed := reserve (dir_of f) (last (parts_of f)) used\<rparr>)"
proof -
  have "'''' \<notin> set (butlast (parts_of f))" using assms by (auto simp: plain_path_def dest: in_set_butlastD)
  then have d: "fst (reserve_dirs '''' (butlast (parts_of f)) (sdUsed st)) = dir_of f"
    using reserve_dirs_dir [of "[]"] by (simp add: dir_of_def)
  show ?thesis using d
    by (auto simp: scan_file_def Let_def parts_of_def name_of_def split: prod.splits)
qed

lemma scanned_step:
  assumes "scanned sha xs st" and "plain_path f"
  shows "scanned sha (xs @ [(i, f)]) (scan_file sha (i, f) st)"
proof -
  let ?ps = "parts_of f"
  let ?used = "snd (reserve_dirs '''' (butlast ?ps) (sdUsed st))"
  let ?st = "scan_file sha (i, f) st"
  have grow: "set (dir_get (sdUsed st) d) \<subseteq> set (dir_get ?used d)" for d by (rule reserve_dirs_grows)
  have grow': "set (dir_get ?used d) \<subseteq> set (dir_get (sdUsed ?st) d)" for d
    using assms(2) by (auto simp: scan_file_eq Let_def dir_get_reserve)
  have nb: "'''' \<notin> set (butlast ?ps)" using assms(2) by (auto simp: plain_path_def dest: in_set_butlastD)
  have own: "?ps ! k \<in> set (dir_get (sdUsed ?st) (join slash (take k ?ps)))" if "k < length ?ps - 1" for k
  proof -
    have "butlast ?ps ! k \<in> set (dir_get ?used (join slash (take k (butlast ?ps))))"
      using reserve_dirs_parts [of "[]" "butlast ?ps" k] nb that by simp
    moreover have "butlast ?ps ! k = ?ps ! k" "take k (butlast ?ps) = take k ?ps"
      using that by (simp_all add: nth_butlast take_butlast)
    ultimately show ?thesis using grow' by auto
  qed
  have leaf: "last ?ps \<in> set (dir_get (sdUsed ?st) (dir_of f))" if "\<not> generated f"
    using assms(2) that by (simp add: scan_file_eq Let_def dir_get_reserve)
  have names: "dir_get (sdNames ?st) d = map (name_of sha) (filter (\<lambda>x. generated (snd x) \<and> dir_of (snd x) = d) (xs @ [(i, f)]))" for d
    using assms by (auto simp: scan_file_eq Let_def scanned_def dir_get_aput)
  have keys: "d \<in> fst ` set (sdNames ?st)" if "dir_get (sdNames ?st) d \<noteq> []" for d
    using assms that by (auto simp: scan_file_eq Let_def scanned_def dir_get_aput split: if_splits)
  have dist: "distinct (map fst (sdNames ?st))" using assms by (simp add: scan_file_eq Let_def scanned_def)
  have old: "(\<not> generated (snd x) \<longrightarrow> last (parts_of (snd x)) \<in> set (dir_get (sdUsed ?st) (dir_of (snd x))))
      \<and> (\<forall>k < length (parts_of (snd x)) - 1. parts_of (snd x) ! k \<in> set (dir_get (sdUsed ?st) (join slash (take k (parts_of (snd x))))))"
    if "x \<in> set xs" for x
    using assms(1) that grow grow' unfolding scanned_def by (meson subsetD)
  show ?thesis unfolding scanned_def using names keys dist old own leaf by auto
qed

lemma scan_files_scanned:
  assumes "\<And>f. f \<in> set files \<Longrightarrow> plain_path f"
  shows "scanned sha (enumerate 0 files) (scan_files sha files)"
proof -
  have "scanned sha xs (fold (scan_file sha) xs \<lparr>sdUsed = [], sdNames = []\<rparr>)" if "\<And>x. x \<in> set xs \<Longrightarrow> plain_path (snd x)" for xs
    using that
  proof (induction xs rule: rev_induct)
    case Nil
    then show ?case by (simp add: scanned_def dir_get_def)
  next
    case (snoc x xs)
    then show ?case using scanned_step [of sha xs _ "snd x" "fst x"] by simp
  qed
  moreover have "plain_path (snd x)" if "x \<in> set (enumerate 0 files)" for x
    using that assms [OF nth_mem, of "fst x"] by (simp add: in_set_enumerate_eq)
  ultimately show ?thesis unfolding scan_files_def by blast
qed


subsection \<open>Assigned paths\<close>

lemma alloc_loop_indices: "map snIndex (alloc_loop preferred used ns) = map snIndex ns"
  by (induction ns arbitrary: used) (simp_all add: Let_def)

lemma alloc_indices: "mset (map snIndex (allocateSTRMNames names used)) = mset (map snIndex names)"
  unfolding allocateSTRMNames_def Let_def alloc_loop_indices by (simp add: image_mset.compositionality comp_def)

text \<open>All assignments of the last loop in one list.\<close>

definition assignments :: "strm_dirs \<Rightarrow> (string \<times> strmName) list" where
  "assignments st =
     concat (map (\<lambda>d. map (Pair d) (allocateSTRMNames (dir_get (sdNames st) d) (dir_get (sdUsed st) d))) (map fst (sdNames st)))"

abbreviation assign :: "string \<times> strmName \<Rightarrow> strmFile list \<Rightarrow> strmFile list" where
  "assign x files \<equiv> set_path (fst x) (snd x) files"

lemma fold_set_dir: "fold (set_dir st) (map fst (sdNames st)) files = fold assign (assignments st) files"
proof -
  have d: "set_dir st d files = fold assign (map (Pair d) (allocateSTRMNames (dir_get (sdNames st) d) (dir_get (sdUsed st) d))) files" for d files
    by (simp add: set_dir_def fold_map comp_def)
  have "fold (set_dir st) ds files = fold assign (concat (map (\<lambda>d. map (Pair d) (allocateSTRMNames (dir_get (sdNames st) d) (dir_get (sdUsed st) d))) ds)) files"
    for ds by (induction ds arbitrary: files) (simp_all add: d)
  then show ?thesis by (simp add: assignments_def)
qed

lemma fold_assign_length [simp]: "length (fold assign xs files) = length files"
  by (induction xs arbitrary: files) (simp_all add: set_path_def)

lemma fold_assign_other: "i \<notin> set (map (snIndex \<circ> snd) xs) \<Longrightarrow> fold assign xs files ! i = files ! i"
  by (induction xs arbitrary: files) (simp_all add: set_path_def)

lemma fold_assign_own:
  assumes "distinct (map (snIndex \<circ> snd) xs)" and "(d, n) \<in> set xs" and "snIndex n < length files"
  shows "fold assign xs files ! snIndex n = (files ! snIndex n)\<lparr>stPath := joinRel d (snName n)\<rparr>"
  using assms
proof (induction xs arbitrary: files)
  case (Cons x xs)
  show ?case
  proof (cases "x = (d, n)")
    case True
    then have "snIndex n \<notin> set (map (snIndex \<circ> snd) xs)" using Cons.prems by auto
    then show ?thesis using True Cons.prems fold_assign_other [of "snIndex n" xs "assign x files"] by (simp add: set_path_def)
  next
    case False
    then have "(d, n) \<in> set xs" using Cons.prems by auto
    moreover have "snIndex (snd x) \<noteq> snIndex n" using Cons.prems calculation by (auto simp: rev_image_eqI)
    ultimately show ?thesis using Cons.IH [of "assign x files"] Cons.prems by (simp add: set_path_def)
  qed
qed simp

lemma assignments_indices:
  assumes "scanned sha (enumerate 0 files) st"
  shows "distinct (map (snIndex \<circ> snd) (assignments st))"
    and "(d, n) \<in> set (assignments st) \<Longrightarrow> snIndex n < length files \<and> generated (files ! snIndex n) \<and> dir_of (files ! snIndex n) = d"
    and "i < length files \<Longrightarrow> generated (files ! i) \<Longrightarrow> \<exists>n. (dir_of (files ! i), n) \<in> set (assignments st) \<and> snIndex n = i"
proof -
  let ?alloc = "\<lambda>d. allocateSTRMNames (dir_get (sdNames st) d) (dir_get (sdUsed st) d)"
  let ?here = "\<lambda>d. filter (\<lambda>x. generated (snd x) \<and> dir_of (snd x) = d) (enumerate 0 files)"
  have g: "dir_get (sdNames st) d = map (name_of sha) (?here d)" for d using assms unfolding scanned_def by blast
  have idx: "map snIndex (map (name_of sha) xs) = map fst xs" for xs by (induction xs) (auto simp: name_of_def)
  have perm: "mset (map snIndex (?alloc d)) = mset (map fst (?here d))" for d
    unfolding alloc_indices g idx ..
  have dist: "distinct (map snIndex (?alloc d))" for d
  proof -
    have "distinct (map fst (enumerate 0 files))" by (simp add: enumerate_eq_zip)
    then have "distinct (map fst (?here d))" by (rule distinct_map_filter)
    then show ?thesis using mset_eq_imp_distinct_iff [OF perm [of d]] by simp
  qed
  have mem: "set (map snIndex (?alloc d)) = {i. i < length files \<and> generated (files ! i) \<and> dir_of (files ! i) = d}" for d
    using mset_eq_setD [OF perm [of d]] by (force simp: in_set_enumerate_eq image_def)
  show two: "(d, n) \<in> set (assignments st) \<Longrightarrow> snIndex n < length files \<and> generated (files ! snIndex n) \<and> dir_of (files ! snIndex n) = d" for d n
    using mem [of d] by (auto simp: assignments_def)
  show "\<exists>n. (dir_of (files ! i), n) \<in> set (assignments st) \<and> snIndex n = i" if "i < length files" "generated (files ! i)" for i
  proof -
    have "i \<in> set (map snIndex (?alloc (dir_of (files ! i))))" using mem that by blast
    then obtain n where n: "n \<in> set (?alloc (dir_of (files ! i)))" "snIndex n = i" by auto
    then have "dir_get (sdNames st) (dir_of (files ! i)) \<noteq> []" using alloc_indices [of "[]"] by auto
    then have "dir_of (files ! i) \<in> fst ` set (sdNames st)" using assms unfolding scanned_def by blast
    then have "(dir_of (files ! i), n) \<in> set (assignments st)"
      using n(1) unfolding assignments_def set_concat set_map by (intro UN_I [of "map (Pair (dir_of (files ! i))) (?alloc (dir_of (files ! i)))"]) auto
    then show ?thesis using n(2) by blast
  qed
  have "distinct (map (snIndex \<circ> snd) (concat (map (\<lambda>d. map (Pair d) (?alloc d)) ds)))" if "distinct ds" for ds
    using that
  proof (induction ds)
    case (Cons d ds)
    have "set (map snIndex (?alloc d)) \<inter> set (map (snIndex \<circ> snd) (concat (map (\<lambda>d. map (Pair d) (?alloc d)) ds))) = {}"
    proof (rule equals0I)
      fix i
      assume i: "i \<in> set (map snIndex (?alloc d)) \<inter> set (map (snIndex \<circ> snd) (concat (map (\<lambda>d. map (Pair d) (?alloc d)) ds)))"
      then obtain e where e: "e \<in> set ds" "i \<in> set (map snIndex (?alloc e))" by auto
      have "dir_of (files ! i) = d" using i unfolding mem by blast
      moreover have "dir_of (files ! i) = e" using e(2) unfolding mem by blast
      ultimately show False using e(1) Cons.prems by simp
    qed
    then show ?case using Cons dist [of d] by (simp add: comp_def)
  qed simp
  then show "distinct (map (snIndex \<circ> snd) (assignments st))" using assms unfolding assignments_def scanned_def by blast
qed


text \<open>The parts of a path that a file is shown under.\<close>

definition digests :: "(string \<Rightarrow> string) \<Rightarrow> bool" where
  "digests sha \<longleftrightarrow> (\<forall>p. length (sha p) = 64 \<and> set (sha p) \<subseteq> set ''0123456789abcdef'')"

lemma strmExtension_name: "digest_ok (sha (fvPath f)) \<Longrightarrow> generated f \<Longrightarrow> name_ok (name_of sha (i, f))"
  by (auto simp: name_ok_def name_of_def strmExtension_def Let_def split: prod.splits if_splits)

text \<open>One file of the projection: a passthrough file as it is, a generated one under a fresh name of its directory.\<close>

definition shown :: "FileView list \<Rightarrow> strm_dirs \<Rightarrow> nat \<Rightarrow> strmFile \<Rightarrow> string \<Rightarrow> bool" where
  "shown files st i x name \<longleftrightarrow>
     stOriginal x = fvPath (files ! i) \<and> stGenerated x = generated (files ! i)
     \<and> stPath x = join slash (butlast (parts_of (files ! i)) @ [name]) \<and> slash \<notin> set name \<and> name \<noteq> ''''
     \<and> (if generated (files ! i)
        then name \<notin> set (dir_get (sdUsed st) (dir_of (files ! i)))
          \<and> (\<exists>n. (dir_of (files ! i), n) \<in> set (assignments st) \<and> snIndex n = i \<and> snName n = name)
        else name = last (parts_of (files ! i)))"

text \<open>The number of components of all paths bounds the number of names in one directory.\<close>

definition parts_total :: "FileView list \<Rightarrow> nat" where
  "parts_total files = sum_list (map (\<lambda>f. length (parts_of f)) files)"

lemma files_total: "length files \<le> parts_total files"
proof (induction files)
  case (Cons f files)
  have "0 < length (parts_of f)" by (simp add: parts_of_def split_at_ne)
  then show ?case using Cons unfolding parts_total_def by (simp del: length_greater_0_conv)
qed (simp add: parts_total_def)

lemma reserve_length: "length (dir_get (reserve d n m) e) \<le> Suc (length (dir_get m e))"
  by (simp add: dir_get_reserve)

lemma reserve_dirs_length: "length (dir_get (snd (reserve_dirs dir ps m)) d) \<le> length (dir_get m d) + length ps"
proof (induction ps arbitrary: dir m)
  case (Cons p ps)
  have "length (dir_get (snd (reserve_dirs dir (p # ps) m)) d) \<le> length (dir_get (reserve dir p m) d) + length ps"
    using Cons.IH by simp
  then show ?case using reserve_length [of dir p m d] by simp
qed simp

lemma scan_file_length:
  "length (dir_get (sdUsed (scan_file sha (i, f) st)) d) \<le> length (dir_get (sdUsed st) d) + length (parts_of f)"
proof -
  obtain dir used where r: "reserve_dirs '''' (butlast (parts_of f)) (sdUsed st) = (dir, used)" by force
  have "0 < length (parts_of f)" by (simp add: parts_of_def split_at_ne)
  moreover have "length (dir_get used d) \<le> length (dir_get (sdUsed st) d) + (length (parts_of f) - 1)"
    using reserve_dirs_length [of "''''" "butlast (parts_of f)" "sdUsed st" d] unfolding r by simp
  ultimately have "length (dir_get used d) + 1 \<le> length (dir_get (sdUsed st) d) + length (parts_of f)" by linarith
  moreover have "sdUsed (scan_file sha (i, f) st) = used \<or> sdUsed (scan_file sha (i, f) st) = reserve dir (last (parts_of f)) used"
    using r by (auto simp: scan_file_def Let_def parts_of_def split: prod.splits)
  ultimately show ?thesis using reserve_length [of dir "last (parts_of f)" used d] by auto
qed

lemma used_total: "length (dir_get (sdUsed (scan_files sha files)) d) \<le> parts_total files"
proof -
  have "length (dir_get (sdUsed (fold (scan_file sha) xs st)) d) \<le> length (dir_get (sdUsed st) d) + parts_total (map snd xs)" for xs st
  proof (induction xs arbitrary: st)
    case (Cons x xs)
    have "length (dir_get (sdUsed (fold (scan_file sha) (x # xs) st)) d) \<le> length (dir_get (sdUsed (scan_file sha x st)) d) + parts_total (map snd xs)"
      using Cons.IH by simp
    then show ?case using scan_file_length [of sha "fst x" "snd x" st d] by (simp add: parts_total_def)
  qed (simp add: parts_total_def)
  from this [of "enumerate 0 files" "\<lparr>sdUsed = [], sdNames = []\<rparr>"]
  show ?thesis by (simp add: scan_files_def dir_get_def enumerate_eq_zip)
qed

lemma strmFiles_shown:
  assumes multi: "mediaRoot view = None" and plain: "\<And>f. f \<in> set (tvFiles view) \<Longrightarrow> plain_path f"
    and sha: "digests sha" and i: "i < length (tvFiles view)" and small: "parts_total (tvFiles view) < 5 * 10 ^ 18"
  shows "\<exists>name. shown (tvFiles view) (scan_files sha (tvFiles view)) i (strmFiles sha view ! i) name"
proof -
  let ?files = "tvFiles view" and ?st = "scan_files sha (tvFiles view)"
  let ?f = "?files ! i"
  have sc: "scanned sha (enumerate 0 ?files) ?st" using plain by (rule scan_files_scanned)
  have eq: "strmFiles sha view = fold assign (assignments ?st) (map plain_file ?files)"
    using multi fold_set_dir [of ?st] by (simp add: strmFiles_def Let_def)
  have pp: "plain_path ?f" using plain i by simp
  have ne: "parts_of ?f \<noteq> []" by (simp add: parts_of_def split_at_ne)
  have noslash: "slash \<notin> set p" if "p \<in> set (parts_of ?f)" for p
    using that split_at_parts [of p slash] by (simp add: parts_of_def)
  show ?thesis
  proof (cases "generated ?f")
    case False
    have "i \<notin> set (map (snIndex \<circ> snd) (assignments ?st))" using assignments_indices(2) [OF sc] False by force
    then have x: "strmFiles sha view ! i = plain_file ?f" using eq i fold_assign_other by simp
    have "fvPath ?f = join slash (butlast (parts_of ?f) @ [last (parts_of ?f)])"
      using ne by (simp add: parts_of_def)
    then show ?thesis using False x noslash pp ne
      by (intro exI [of _ "last (parts_of ?f)"]) (auto simp: shown_def plain_file_def plain_path_def dest: last_in_set)
  next
    case True
    then obtain n where n: "(dir_of ?f, n) \<in> set (assignments ?st)" "snIndex n = i"
      using assignments_indices(3) [OF sc i] by blast
    have x: "strmFiles sha view ! i = (plain_file ?f)\<lparr>stPath := joinRel (dir_of ?f) (snName n)\<rparr>"
      using eq fold_assign_own [OF assignments_indices(1) [OF sc] n(1), of "map plain_file ?files"] n(2) i by simp
    let ?here = "filter (\<lambda>x. generated (snd x) \<and> dir_of (snd x) = dir_of ?f) (enumerate 0 ?files)"
    have names: "dir_get (sdNames ?st) (dir_of ?f) = map (name_of sha) ?here" using sc unfolding scanned_def by blast
    have ok: "name_ok m" if "m \<in> set (dir_get (sdNames ?st) (dir_of ?f))" for m
      using that sha strmExtension_name unfolding names by (auto simp: digests_def digest_ok_def)
    have len: "length (dir_get (sdNames ?st) (dir_of ?f)) \<le> length ?files"
      unfolding names using length_filter_le [of _ "enumerate 0 ?files"] by simp
    have "n \<in> set (allocateSTRMNames (dir_get (sdNames ?st) (dir_of ?f)) (dir_get (sdUsed ?st) (dir_of ?f)))"
      using n(1) by (auto simp: assignments_def)
    then have leaf: "snName n \<notin> set (dir_get (sdUsed ?st) (dir_of ?f))" "leaf_ok (snName n)"
      using alloc_fit [of "dir_get (sdNames ?st) (dir_of ?f)" "dir_get (sdUsed ?st) (dir_of ?f)", OF ok] len small
        used_total [of sha ?files "dir_of ?f"] files_total [of ?files] by auto
    have "'''' \<notin> set (butlast (parts_of ?f))" using pp by (auto simp: plain_path_def dest: in_set_butlastD)
    then have "joinRel (dir_of ?f) (snName n) = join slash (butlast (parts_of ?f) @ [snName n])" by (simp add: dir_of_def joinRel_join)
    then show ?thesis using True x n leaf
      by (intro exI [of _ "snName n"]) (auto simp: shown_def plain_file_def leaf_ok_def bad_chars_def)
  qed
qed


lemma strmFiles_length [simp]: "length (strmFiles sha view) = length (tvFiles view)"
  by (simp add: strmFiles_def Let_def fold_set_dir)

lemma shown_split:
  assumes "shown files st i x name"
  shows "split_at slash (stPath x) = butlast (parts_of (files ! i)) @ [name]"
proof -
  have "slash \<notin> set p" if "p \<in> set (butlast (parts_of (files ! i)))" for p
    using that split_at_parts [of p slash] by (auto simp: parts_of_def dest: in_set_butlastD)
  then show ?thesis using assms by (auto simp: shown_def intro!: split_at_join)
qed

lemma scanned_used:
  assumes "scanned sha (enumerate 0 files) st" and "k < length files"
  shows "\<not> generated (files ! k) \<Longrightarrow> last (parts_of (files ! k)) \<in> set (dir_get (sdUsed st) (dir_of (files ! k)))"
    and "l < length (parts_of (files ! k)) - 1
      \<Longrightarrow> parts_of (files ! k) ! l \<in> set (dir_get (sdUsed st) (join slash (take l (parts_of (files ! k)))))"
proof -
  have "(k, files ! k) \<in> set (enumerate 0 files)" using assms(2) by (simp add: in_set_enumerate_eq)
  then show "\<not> generated (files ! k) \<Longrightarrow> last (parts_of (files ! k)) \<in> set (dir_get (sdUsed st) (dir_of (files ! k)))"
    and "l < length (parts_of (files ! k)) - 1
      \<Longrightarrow> parts_of (files ! k) ! l \<in> set (dir_get (sdUsed st) (join slash (take l (parts_of (files ! k)))))"
    using assms(1) unfolding scanned_def by fastforce+
qed

lemma shown_unique:
  assumes sc: "scanned sha (enumerate 0 files) st" and i: "i < length files" "shown files st i x n" and j: "j < length files" "shown files st j y m"
    and eq: "stPath x = stPath y" and dist: "distinct (map fvPath files)"
  shows "i = j"
proof -
  have "butlast (parts_of (files ! i)) @ [n] = butlast (parts_of (files ! j)) @ [m]"
    using shown_split i(2) j(2) eq by metis
  then have p: "butlast (parts_of (files ! i)) = butlast (parts_of (files ! j))" "n = m" by simp_all
  then have d: "dir_of (files ! i) = dir_of (files ! j)" by (simp add: dir_of_def)
  note used = scanned_used(1) [OF sc]
  consider (plain) "\<not> generated (files ! i)" "\<not> generated (files ! j)" | (mixed) "generated (files ! i) \<noteq> generated (files ! j)"
    | (both) "generated (files ! i)" "generated (files ! j)" by blast
  then show ?thesis
  proof cases
    case plain
    then have "stPath x = fvPath (files ! i)" "stPath y = fvPath (files ! j)"
      using i j by (simp_all add: shown_def parts_of_def split_at_ne)
    then have "fvPath (files ! i) = fvPath (files ! j)" using eq by argo
    then show ?thesis using nth_eq_iff_index_eq [OF dist, of i j] i(1) j(1) by simp
  next
    case mixed
    then show ?thesis using used [of i] used [of j] i j p d by (auto simp: shown_def split: if_splits)
  next
    case both
    then obtain a b where a: "(dir_of (files ! i), a) \<in> set (assignments st)" "snIndex a = i" "snName a = n"
      and b: "(dir_of (files ! i), b) \<in> set (assignments st)" "snIndex b = j" "snName b = n"
      using i j p d by (auto simp: shown_def)
    have "distinct (map snName (allocateSTRMNames (dir_get (sdNames st) (dir_of (files ! i))) (dir_get (sdUsed st) (dir_of (files ! i)))))"
      unfolding allocateSTRMNames_def Let_def using alloc_loop_fresh by blast
    then show ?thesis using a b by (auto simp: assignments_def distinct_map dest: inj_onD)
  qed
qed


lemma shown_no_directory:
  assumes sc: "scanned sha (enumerate 0 files) st" and i: "i < length files" "shown files st i x n" "generated (files ! i)"
    and j: "j < length files" "shown files st j y m"
  shows "stPath y \<noteq> stPath x @ slash # r"
proof
  assume eq: "stPath y = stPath x @ slash # r"
  let ?pi = "parts_of (files ! i)" and ?pj = "parts_of (files ! j)"
  have "butlast ?pj @ [m] = (butlast ?pi @ [n]) @ split_at slash r"
    using eq shown_split [OF i(2)] shown_split [OF j(2)] split_at_append by metis
  moreover obtain q qs where "split_at slash r = qs @ [q]" using split_at_ne by (metis append_butlast_last_id)
  ultimately have b: "butlast ?pj = butlast ?pi @ n # qs" by simp
  let ?k = "length (butlast ?pi)"
  have k: "?k < length ?pj - 1" using b by (metis add_Suc_right length_append length_butlast length_Cons less_add_Suc1)
  then have "butlast ?pj ! ?k = ?pj ! ?k" "take ?k (butlast ?pj) = take ?k ?pj" by (simp_all only: nth_butlast length_butlast) (simp add: take_butlast)
  then have "?pj ! ?k = n" "take ?k ?pj = butlast ?pi"
    using b by (metis nth_append_length, metis append_eq_conv_conj)
  moreover have "?pj ! ?k \<in> set (dir_get (sdUsed st) (join slash (take ?k ?pj)))"
    using scanned_used(2) [OF sc j(1) k] .
  ultimately show False using i(2,3) by (simp add: shown_def dir_of_def)
qed

lemma strm_paths_distinct:
  assumes "mediaRoot view = None" and "\<And>f. f \<in> set (tvFiles view) \<Longrightarrow> plain_path f" and "distinct (map fvPath (tvFiles view))"
    and "digests sha" and "parts_total (tvFiles view) < 5 * 10 ^ 18"
  shows "distinct (map stPath (strmFiles sha view))"
  unfolding distinct_conv_nth
proof (intro allI impI)
  fix i j
  let ?S = "strmFiles sha view"
  have sc: "scanned sha (enumerate 0 (tvFiles view)) (scan_files sha (tvFiles view))" using assms(2) by (rule scan_files_scanned)
  have sh: "\<exists>name. shown (tvFiles view) (scan_files sha (tvFiles view)) i (?S ! i) name" if "i < length (tvFiles view)" for i
    using strmFiles_shown [OF assms(1,2,4) that assms(5)] .
  assume "i < length (map stPath ?S)" "j < length (map stPath ?S)" "i \<noteq> j"
  then show "map stPath ?S ! i \<noteq> map stPath ?S ! j" using sh [of i] sh [of j] shown_unique [OF sc] assms(3) by (metis length_map nth_map strmFiles_length)
qed


definition sample_digest :: "string \<Rightarrow> string" where
  "sample_digest p = replicate 64 (CHR ''0'')"

definition sample_view :: TorrentView where
  "sample_view = emptyView\<lparr>tvFiles := map (\<lambda>p. \<lparr>fvPath = p, fvSize = 1\<rparr>) [''a.mkv'', ''a.avi'', ''a.strm/x'']\<rparr>"



section \<open>Root names\<close>

abbreviation rename_all :: "(nat \<times> string) list \<Rightarrow> TorrentView list \<Rightarrow> TorrentView list" where
  "rename_all xs ps \<equiv> fold (\<lambda>x. set_name (fst x) (snd x)) xs ps"

lemma set_name_length [simp]: "length (set_name i n ps) = length ps"
  by (simp add: set_name_def)

lemma rename_all_length [simp]: "length (rename_all xs ps) = length ps"
  by (induction xs arbitrary: ps) simp_all

lemma rename_all_name:
  "i < length ps \<Longrightarrow> tvName (rename_all xs ps ! i) = (case map_of (rev xs) i of None \<Rightarrow> tvName (ps ! i) | Some n \<Rightarrow> n)"
proof (induction xs arbitrary: ps)
  case (Cons x xs)
  have "tvName (rename_all (x # xs) ps ! i) = (case map_of (rev xs) i of None \<Rightarrow> tvName (set_name (fst x) (snd x) ps ! i) | Some n \<Rightarrow> n)"
    using Cons.IH [of "set_name (fst x) (snd x) ps"] Cons.prems by simp
  also have "\<dots> = (case map_of (rev (x # xs)) i of None \<Rightarrow> tvName (ps ! i) | Some n \<Rightarrow> n)"
    using Cons.prems by (cases x) (auto simp: set_name_def map_add_def nth_list_update split: option.splits)
  finally show ?case .
qed simp

text \<open>The renamings of one category, in order.\<close>

definition category_entries :: "(hash \<Rightarrow> string) \<Rightarrow> TorrentView list \<Rightarrow> string list \<Rightarrow> string \<Rightarrow> rootEntry list" where
  "category_entries hex views categories c =
     rootEntriesForCategory hex views c (if c = '''' then categoryReservations categories else [])"

definition category_used :: "(hash \<Rightarrow> string) \<Rightarrow> TorrentView list \<Rightarrow> string list \<Rightarrow> string \<Rightarrow> string list" where
  "category_used hex views categories c =
     concat (map root_used (category_entries hex views categories c)) @ (if c = '''' then categoryReservations categories else [])"

definition category_names :: "(hash \<Rightarrow> string) \<Rightarrow> TorrentView list \<Rightarrow> string list \<Rightarrow> string \<Rightarrow> strmName list" where
  "category_names hex views categories c =
     allocateSTRMNames (concat (map (root_name hex (view_index views)) (category_entries hex views categories c)))
       (category_used hex views categories c)"

definition renamings :: "(hash \<Rightarrow> string) \<Rightarrow> TorrentView list \<Rightarrow> string list \<Rightarrow> string \<Rightarrow> (nat \<times> string) list" where
  "renamings hex views categories c =
     map (\<lambda>e. (view_index views (tvHash (reView e)), reName e)) (category_entries hex views categories c)
     @ map (\<lambda>n. (snIndex n, snName n)) (category_names hex views categories c)"

lemma root_category_eq: "root_category hex views categories c ps = rename_all (renamings hex views categories c) ps"
  by (simp add: root_category_def renamings_def category_names_def category_used_def category_entries_def Let_def fold_map comp_def)

lemma view_index_nth:
  assumes "distinct (map tvHash views)" and "i < length views"
  shows "view_index views (tvHash (views ! i)) = i"
proof -
  let ?m = "map (\<lambda>(i, v). (tvHash v, i)) (rev (enumerate 0 views))"
  have f: "map fst ?m = rev (map tvHash views)"
    by (rule nth_equalityI) (simp_all add: rev_nth nth_enumerate_eq split_beta)
  have "distinct (map fst ?m)" unfolding f using assms(1) by simp
  moreover have "(tvHash (views ! i), i) \<in> set ?m" using assms(2) by (force simp: in_set_enumerate_eq)
  ultimately have "map_of ?m (tvHash (views ! i)) = Some i" by (rule map_of_is_SomeI)
  then show ?thesis unfolding view_index_def by simp
qed

text \<open>An entry of a category belongs to a view of that category, and every such view has one entry.\<close>

lemma category_entry_view:
  assumes "distinct (map tvHash views)" and "e \<in> set (category_entries hex views categories c)"
  shows "view_index views (tvHash (reView e)) < length views" and "reView e = views ! view_index views (tvHash (reView e))"
    and "tvCategory (reView e) = c"
proof -
  have "reView e \<in> {v \<in> set views. tvCategory v = c}" using root_views assms(2) unfolding category_entries_def by blast
  then obtain i where i: "i < length views" "reView e = views ! i" "tvCategory (reView e) = c" by (auto simp: in_set_conv_nth)
  then show "view_index views (tvHash (reView e)) < length views" and "reView e = views ! view_index views (tvHash (reView e))"
    and "tvCategory (reView e) = c" using view_index_nth [OF assms(1) i(1)] by simp_all
qed

lemma category_view_entry:
  assumes "i < length views"
  obtains e where "e \<in> set (category_entries hex views categories (tvCategory (views ! i)))" and "reView e = views ! i"
proof -
  have "views ! i \<in> reView ` set (category_entries hex views categories (tvCategory (views ! i)))"
    unfolding category_entries_def root_views using assms by simp
  then show thesis using that by auto
qed

lemma category_entry_unique:
  assumes "distinct (map tvHash views)" and "e \<in> set (category_entries hex views categories c)" "e' \<in> set (category_entries hex views categories c)"
    and "reView e = reView e'"
  shows "e = e'"
proof -
  let ?vs = "sort_key tvHash (filter (\<lambda>v. tvCategory v = c) views)"
  let ?es = "name_views hex ?vs (if c = '''' then categoryReservations categories else [])"
  have "distinct (map tvHash ?vs)" using assms(1) by (simp add: distinct_map_sort_key distinct_map_filter)
  then have "distinct (map tvHash (map reView ?es))" using name_views_names [of hex ?vs] by metis
  then have "inj_on reView (set ?es)" by (metis distinct_map)
  then show ?thesis using assms(2-4) unfolding category_entries_def rootEntriesForCategory_def by (simp add: inj_on_eq_iff)
qed

text \<open>The final name of a view: that of its entry, or the name that was allocated for it.\<close>

lemma root_name_index: "snIndex ` set (root_name hex f e) = (if root_name hex f e = [] then {} else {f (tvHash (reView e))})"
proof (cases "mediaRoot (reView e)")
  case (Some x)
  obtain ext disc where "strmExtension (fvPath x) = (ext, disc)" by force
  then show ?thesis using Some by (simp add: root_name_def Let_def)
qed (simp add: root_name_def)

lemma category_names_index:
  "i \<in> snIndex ` set (category_names hex views categories c) \<longleftrightarrow>
     (\<exists>e \<in> set (category_entries hex views categories c). root_name hex (view_index views) e \<noteq> [] \<and> view_index views (tvHash (reView e)) = i)"
proof -
  let ?es = "category_entries hex views categories c"
  have "set (map snIndex (category_names hex views categories c)) = set (map snIndex (concat (map (root_name hex (view_index views)) ?es)))"
    unfolding category_names_def by (rule mset_eq_setD [OF alloc_indices])
  also have "\<dots> = (\<Union>e \<in> set ?es. snIndex ` set (root_name hex (view_index views) e))" by auto
  finally show ?thesis unfolding root_name_index by (auto split: if_splits)
qed

lemma renamings_own:
  assumes d: "distinct (map tvHash views)" and i: "i < length views"
    and e: "e \<in> set (category_entries hex views categories (tvCategory (views ! i)))" "reView e = views ! i"
  shows "if root_name hex (view_index views) e = []
      then map_of (rev (renamings hex views categories (tvCategory (views ! i)))) i = Some (reName e)
           \<and> reName e \<in> set (category_used hex views categories (tvCategory (views ! i)))
      else \<exists>n \<in> set (category_names hex views categories (tvCategory (views ! i))). snIndex n = i
           \<and> map_of (rev (renamings hex views categories (tvCategory (views ! i)))) i = Some (snName n)"
proof -
  let ?c = "tvCategory (views ! i)"
  let ?es = "category_entries hex views categories ?c" and ?ns = "category_names hex views categories ?c"
  let ?A = "map (\<lambda>e. (view_index views (tvHash (reView e)), reName e)) ?es" and ?B = "map (\<lambda>n. (snIndex n, snName n)) ?ns"
  have m: "map_of (rev (renamings hex views categories ?c)) i = (case map_of (rev ?B) i of Some x \<Rightarrow> Some x | None \<Rightarrow> map_of (rev ?A) i)"
    by (simp add: renamings_def map_add_def)
  have same: "e' = e" if "e' \<in> set ?es" "view_index views (tvHash (reView e')) = i" for e'
    using category_entry_unique [OF d that(1) e(1)] category_entry_view(2) [OF d that(1)] that(2) e(2) by simp
  have ie: "view_index views (tvHash (reView e)) = i" using view_index_nth [OF d i] e(2) by simp
  show ?thesis
  proof (cases "root_name hex (view_index views) e = []")
    case True
    then have "i \<notin> snIndex ` set ?ns" unfolding category_names_index using same by blast
    then have b: "map_of (rev ?B) i = None" by (auto simp: map_of_eq_None_iff)
    have "(i, reName e) \<in> set (rev ?A)" using e(1) ie by force
    then obtain x where x: "map_of (rev ?A) i = Some x" by (metis weak_map_of_SomeI)
    then have "(i, x) \<in> set (rev ?A)" by (rule map_of_SomeD)
    then have "x = reName e" using same by auto
    moreover have "reName e \<in> set (root_used e)"
      using True by (auto simp: root_used_def root_name_def Let_def split: option.splits prod.splits if_splits)
    ultimately show ?thesis using True b x m e(1) by (auto simp: category_used_def)
  next
    case False
    then have "i \<in> snIndex ` set ?ns" unfolding category_names_index using e(1) ie by blast
    then obtain n where "n \<in> set ?ns" "snIndex n = i" by auto
    then have "(i, snName n) \<in> set (rev ?B)" by force
    then obtain x where x: "map_of (rev ?B) i = Some x" by (metis weak_map_of_SomeI)
    then have "(i, x) \<in> set (rev ?B)" by (rule map_of_SomeD)
    then show ?thesis using False x m by auto
  qed
qed

lemma renamings_other:
  assumes "distinct (map tvHash views)" and "i < length views" and "tvCategory (views ! i) \<noteq> c"
  shows "map_of (rev (renamings hex views categories c)) i = None"
proof -
  let ?es = "category_entries hex views categories c"
  have out: "view_index views (tvHash (reView e)) \<noteq> i" if "e \<in> set ?es" for e
    using category_entry_view(2,3) [OF assms(1) that] assms(3) by auto
  then have "i \<notin> snIndex ` set (category_names hex views categories c)" unfolding category_names_index by blast
  moreover have "i \<notin> (\<lambda>e. view_index views (tvHash (reView e))) ` set ?es" using out by blast
  ultimately have "i \<notin> fst ` set (renamings hex views categories c)" by (simp add: renamings_def image_Un image_image)
  then show ?thesis by (simp add: map_of_eq_None_iff)
qed


text \<open>The name that the whole procedure leaves at a view.\<close>

lemma strmRootNames_name:
  assumes d: "distinct (map tvHash views)" and i: "i < length views" and ps: "length ps = length views"
  shows "tvName (strmRootNames hex views categories ps ! i) = the (map_of (rev (renamings hex views categories (tvCategory (views ! i)))) i)"
proof -
  let ?c = "tvCategory (views ! i)"
  have own: "map_of (rev (renamings hex views categories ?c)) i \<noteq> None"
  proof -
    obtain e where e: "e \<in> set (category_entries hex views categories ?c)" "reView e = views ! i"
      using category_view_entry [OF i] by blast
    show ?thesis using renamings_own [OF d i e] by (auto split: if_splits)
  qed
  have keep: "tvName (fold (root_category hex views categories) cs qs ! i) = tvName (qs ! i)" if "?c \<notin> set cs" "length qs = length views" for cs qs
    using that
  proof (induction cs arbitrary: qs)
    case (Cons c cs)
    then have "tvName (root_category hex views categories c qs ! i) = tvName (qs ! i)"
      using renamings_other [OF d i, of c] i by (simp add: root_category_eq rename_all_name)
    then show ?case using Cons by (simp add: root_category_eq)
  qed simp
  have "tvName (fold (root_category hex views categories) cs qs ! i) = the (map_of (rev (renamings hex views categories ?c)) i)"
    if "?c \<in> set cs" "distinct cs" "length qs = length views" for cs qs
    using that
  proof (induction cs arbitrary: qs)
    case (Cons c cs)
    show ?case
    proof (cases "c = ?c")
      case True
      then have "tvName (fold (root_category hex views categories) cs (root_category hex views categories c qs) ! i)
          = tvName (root_category hex views categories c qs ! i)" using Cons.prems by (intro keep) (auto simp: root_category_eq)
      moreover have "tvName (root_category hex views categories c qs ! i) = the (map_of (rev (renamings hex views categories ?c)) i)"
        using True own Cons.prems(3) i by (auto simp: root_category_eq rename_all_name split: option.splits)
      ultimately show ?thesis by simp
    next
      case False
      then show ?thesis using Cons by (simp add: root_category_eq)
    qed
  qed simp
  then show ?thesis using i ps by (simp add: strmRootNames_def)
qed

text \<open>
  C23: the names that the projection gives to the torrents are pairwise distinct within each
  category, and no torrent without category takes the name of a category, although generated names replace
  those that the layout had made unique.
\<close>

theorem strm_root_unique:
  assumes "distinct (map tvHash views)" and "length projected = length views"
  shows "\<forall>i < length views.
     (\<forall>j < length views. i \<noteq> j \<and> tvCategory (views ! i) = tvCategory (views ! j)
        \<longrightarrow> tvName (strmRootNames hex views categories projected ! i) \<noteq> tvName (strmRootNames hex views categories projected ! j))
     \<and> (tvCategory (views ! i) = '''' \<longrightarrow> tvName (strmRootNames hex views categories projected ! i) \<notin> set categories)"
proof (intro allI impI conjI)
  fix i
  assume i: "i < length views"
  let ?P = "\<lambda>i. tvName (strmRootNames hex views categories projected ! i)"
  let ?used = "\<lambda>c. set (category_used hex views categories c)"
  let ?names = "\<lambda>c. category_names hex views categories c"
  have name: "\<exists>e \<in> set (category_entries hex views categories (tvCategory (views ! i))). reView e = views ! i
      \<and> ((?P i = reName e \<and> reName e \<in> ?used (tvCategory (views ! i)))
         \<or> (\<exists>n \<in> set (?names (tvCategory (views ! i))). snIndex n = i \<and> ?P i = snName n))" if "i < length views" for i
  proof -
    note i' = that
    obtain e where e: "e \<in> set (category_entries hex views categories (tvCategory (views ! i)))" "reView e = views ! i"
      using category_view_entry [OF i'] by blast
    show ?thesis
    proof (rule bexI [OF _ e(1)], rule conjI [OF e(2)])
      show "(?P i = reName e \<and> reName e \<in> ?used (tvCategory (views ! i)))
         \<or> (\<exists>n \<in> set (?names (tvCategory (views ! i))). snIndex n = i \<and> ?P i = snName n)"
        using renamings_own [OF assms(1) i' e] unfolding strmRootNames_name [OF assms(1) i' assms(2), of hex categories]
        by (auto split: if_splits)
    qed
  qed
  have fresh: "distinct (map snName (?names c))" "snName n \<notin> ?used c" if "n \<in> set (?names c)" for n c
    using that alloc_loop_fresh unfolding category_names_def allocateSTRMNames_def Let_def by (blast, fastforce)
  have disjoint: "reName e \<notin> set categories" if "e \<in> set (category_entries hex views categories '''')" for e
    using that root_names(2) [of hex views "''''" categories] by (auto simp: category_entries_def categoryReservations_def)
  show "?P i \<noteq> ?P j" if "j < length views" "i \<noteq> j \<and> tvCategory (views ! i) = tvCategory (views ! j)" for j
  proof -
    note ij = that
    obtain e e' where e: "e \<in> set (category_entries hex views categories (tvCategory (views ! i)))" "reView e = views ! i"
        "(?P i = reName e \<and> reName e \<in> ?used (tvCategory (views ! i))) \<or> (\<exists>n \<in> set (?names (tvCategory (views ! i))). snIndex n = i \<and> ?P i = snName n)"
      and e': "e' \<in> set (category_entries hex views categories (tvCategory (views ! i)))" "reView e' = views ! j"
        "(?P j = reName e' \<and> reName e' \<in> ?used (tvCategory (views ! i))) \<or> (\<exists>n \<in> set (?names (tvCategory (views ! i))). snIndex n = j \<and> ?P j = snName n)"
      using name [OF i] name [OF ij(1)] ij(2) by metis
    have "views ! i \<noteq> views ! j" using ij nth_eq_iff_index_eq [OF assms(1), of i j] i by auto
    then have "reName e \<noteq> reName e'"
      using e(1,2) e'(1,2) root_names(1) unfolding category_entries_def by (metis distinct_map inj_onD)
    then show ?thesis using e(3) e'(3) fresh ij(2) by (metis distinct_map inj_onD)
  qed
  show "?P i \<notin> set categories" if "tvCategory (views ! i) = ''''"
  proof -
    have "set categories \<subseteq> ?used ''''" by (simp add: category_used_def categoryReservations_def)
    then show ?thesis using name [OF i] fresh disjoint that by (metis subsetD)
  qed
qed

definition sample_root :: "TorrentView list" where
  "sample_root = map (\<lambda>h. emptyView\<lparr>tvName := ''m.mkv'', tvHash := h, tvSingleFile := True, tvFiles := [\<lparr>fvPath = ''m.mkv'', fvSize = 1\<rparr>]\<rparr>) [''a'', ''b'']"

theorem strm_root_unique_witness:
  "tvName (strmRootNames hex_bytes sample_root [''m.strm''] sample_root ! 0) \<noteq> tvName (strmRootNames hex_bytes sample_root [''m.strm''] sample_root ! 1)"
  using strm_root_unique [of sample_root sample_root hex_bytes "[''m.strm'']"] by (simp add: sample_root_def emptyView_def)

section \<open>An extension with a long s\<close>

text \<open>
  \<open>EqualFold\<close> takes the long s for an s, but its encoding has two bytes: the extension that is cut off by the
  length of \<open>.iso\<close> then lacks its dot, and the dot stays in the stem.
\<close>

lemma long_s_image:
  "strmExtension (''x.i'' @ [CHR 0xC5, CHR 0xBF] @ ''o'') = (''i'' @ [CHR 0xC5, CHR 0xBF] @ ''o'', True)
   \<and> TrimSuffix (''x.i'' @ [CHR 0xC5, CHR 0xBF] @ ''o'') (''i'' @ [CHR 0xC5, CHR 0xBF] @ ''o'') = ''x.''"
  by (simp add: strmExtension_def VideoExtension_def IsDiscImage_def iso_forms_def Ext_def videoContentTypes_def lower_char_def
      byte_in_def slash_def TrimSuffix_def)

end
