(* ===== verification/SnapshotCache.thy ===== *)
theory SnapshotCache
  imports Layout
begin

text \<open>
  The cache of per-torrent snapshots (\<open>internal/vfs/snapshot_cache.go\<close>): a reader observes a hash, or all
  hashes of the library, before it asks the backend, and may publish what it built only if nothing
  newer happened to that hash in the meantime.

  Slots, values and listings are pointers, so they are addresses here: \<open>scCurrent\<close> is the field of a slot,
  \<open>scListing\<close> the object of a listing. The generic value type only matters by its identity. Every method
  is one step under the mutex. A Go map that is iterated is an association list.
\<close>

section \<open>Model\<close>

record snapshotObservation =
  obSlot :: "nat option"
  obValue :: "nat option"
  obListing :: "nat option"

record snapshotListing =
  lsObserved :: "hash \<rightharpoonup> snapshotObservation"
  lsInvalidated :: "hash \<Rightarrow> bool"
  lsAllowed :: "hash \<Rightarrow> bool"
  lsRestricted :: bool

record snapshotCache =
  scSlots :: "(hash \<times> nat) list"
  scCurrent :: "nat \<Rightarrow> nat option"
  scListings :: "nat list"
  scListing :: "nat \<Rightarrow> snapshotListing"
  scNext :: nat

definition noObservation :: snapshotObservation where
  "noObservation = \<lparr>obSlot = None, obValue = None, obListing = None\<rparr>"

definition emptyListing :: snapshotListing where
  "emptyListing = \<lparr>lsObserved = Map.empty, lsInvalidated = (\<lambda>_. False), lsAllowed = (\<lambda>_. False), lsRestricted = False\<rparr>"

definition newSnapshotCache :: snapshotCache where
  "newSnapshotCache = \<lparr>scSlots = [], scCurrent = (\<lambda>_. None), scListings = [], scListing = (\<lambda>_. emptyListing), scNext = 0\<rparr>"

text \<open>\<open>&snapshotSlot{current: v}\<close>, stored under a hash.\<close>

definition new_slot :: "hash \<Rightarrow> nat option \<Rightarrow> snapshotCache \<Rightarrow> snapshotCache" where
  "new_slot h v c =
     c\<lparr>scSlots := aput h (scNext c) (scSlots c), scCurrent := (scCurrent c)(scNext c := v), scNext := Suc (scNext c)\<rparr>"

definition observe :: "hash \<Rightarrow> snapshotCache \<Rightarrow> snapshotObservation \<times> snapshotCache" where
  "observe h c =
     (case map_of (scSlots c) h of
        Some a \<Rightarrow> (\<lparr>obSlot = Some a, obValue = scCurrent c a, obListing = None\<rparr>, c)
      | None \<Rightarrow> (\<lparr>obSlot = Some (scNext c), obValue = None, obListing = None\<rparr>, new_slot h None c))"

definition finish :: "hash \<Rightarrow> snapshotObservation \<Rightarrow> snapshotCache \<Rightarrow> snapshotCache" where
  "finish h ob c =
     (case map_of (scSlots c) h of
        None \<Rightarrow> c
      | Some a \<Rightarrow> if Some a = obSlot ob \<and> scCurrent c a = None then c\<lparr>scSlots := adel h (scSlots c)\<rparr> else c)"

definition observeListing :: "snapshotCache \<Rightarrow> nat \<times> snapshotCache" where
  "observeListing c =
     (let l = scNext c;
          listing = emptyListing\<lparr>lsObserved :=
            (\<lambda>h. map_option (\<lambda>a. \<lparr>obSlot = Some a, obValue = scCurrent c a, obListing = Some l\<rparr>) (map_of (scSlots c) h))\<rparr>
      in (l, c\<lparr>scListings := l # scListings c, scListing := (scListing c)(l := listing), scNext := Suc l\<rparr>))"

definition observed_at :: "nat \<Rightarrow> hash \<Rightarrow> snapshotCache \<Rightarrow> snapshotObservation" where
  "observed_at l h c = (case lsObserved (scListing c l) h of None \<Rightarrow> noObservation | Some ob \<Rightarrow> ob)"

definition observation :: "nat \<Rightarrow> hash \<Rightarrow> snapshotCache \<Rightarrow> snapshotObservation" where
  "observation l h c = (observed_at l h c)\<lparr>obListing := Some l\<rparr>"

definition currentLocked :: "hash \<Rightarrow> snapshotCache \<Rightarrow> nat option" where
  "currentLocked h c = (case map_of (scSlots c) h of None \<Rightarrow> None | Some a \<Rightarrow> scCurrent c a)"

definition unchangedLocked :: "hash \<Rightarrow> snapshotObservation \<Rightarrow> snapshotCache \<Rightarrow> bool" where
  "unchangedLocked h ob c =
     (if (case obListing ob of
            None \<Rightarrow> False
          | Some l \<Rightarrow> lsInvalidated (scListing c l) h \<or> (lsRestricted (scListing c l) \<and> \<not> lsAllowed (scListing c l) h))
      then False
      else map_of (scSlots c) h = obSlot ob
           \<and> (case map_of (scSlots c) h of None \<Rightarrow> True | Some a \<Rightarrow> scCurrent c a = obValue ob))"

definition publishLocked :: "hash \<Rightarrow> snapshotObservation \<Rightarrow> nat \<Rightarrow> snapshotCache \<Rightarrow> bool \<times> snapshotCache" where
  "publishLocked h ob v c =
     (if \<not> unchangedLocked h ob c then (False, c)
      else case map_of (scSlots c) h of
             None \<Rightarrow> (True, new_slot h (Some v) c)
           | Some a \<Rightarrow> (True, c\<lparr>scCurrent := (scCurrent c)(a := Some v)\<rparr>))"

definition forgetLocked :: "hash \<Rightarrow> snapshotObservation \<Rightarrow> snapshotCache \<Rightarrow> snapshotCache" where
  "forgetLocked h ob c =
     (if \<not> unchangedLocked h ob c then c
      else c\<lparr>scSlots := adel h (scSlots c),
             scListing := (\<lambda>l. if l \<in> set (scListings c)
                              then (scListing c l)\<lparr>lsInvalidated := (lsInvalidated (scListing c l))(h := True)\<rparr>
                              else scListing c l)\<rparr>)"

text \<open>The two loops of \<open>finishListing\<close>.\<close>

definition dead_observation :: "nat \<Rightarrow> hash \<Rightarrow> snapshotCache \<Rightarrow> snapshotObservation" where
  "dead_observation l h c =
     (case map_of (scSlots c) h of
        None \<Rightarrow> observed_at l h c
      | Some a \<Rightarrow> if scCurrent c a = None then \<lparr>obSlot = Some a, obValue = None, obListing = None\<rparr> else observed_at l h c)"

definition drop_dead :: "nat \<Rightarrow> (hash \<Rightarrow> bool) \<Rightarrow> hash \<Rightarrow> snapshotCache \<Rightarrow> snapshotCache" where
  "drop_dead l live h c = (if live h then c else forgetLocked h (dead_observation l h c) c)"

definition restrict_listing :: "(hash \<Rightarrow> bool) \<Rightarrow> snapshotListing \<Rightarrow> snapshotListing" where
  "restrict_listing live p =
     (if \<not> lsRestricted p then p\<lparr>lsAllowed := live, lsRestricted := True\<rparr>
      else p\<lparr>lsAllowed := (\<lambda>h. lsAllowed p h \<and> live h)\<rparr>)"

definition finishListing :: "nat \<Rightarrow> (hash \<Rightarrow> bool) \<Rightarrow> snapshotCache \<Rightarrow> snapshotCache" where
  "finishListing l live c =
     (let c1 = fold (drop_dead l live) (map fst (scSlots c)) c;
          pending = filter (\<lambda>x. x \<noteq> l) (scListings c1)
      in c1\<lparr>scListings := pending,
            scListing := (\<lambda>p. if p \<in> set pending then restrict_listing live (scListing c1 p) else scListing c1 p)\<rparr>)"

text \<open>
  The replacement of a slot by one with the same value, which a reader of newer metadata does
  (\<open>refreshCreatedAtLocked\<close> in \<open>strm_cache.go\<close>) so that older observations no longer match.
\<close>

definition renewSlot :: "hash \<Rightarrow> snapshotCache \<Rightarrow> snapshotCache" where
  "renewSlot h c = (case currentLocked h c of None \<Rightarrow> c | Some v \<Rightarrow> new_slot h (Some v) c)"

section \<open>Histories\<close>

text \<open>
  Every event that makes older observations of a hash stale counts up its version: a publication, a
  removal, a renewed slot, and the end of a library listing without the hash. \<open>pending\<close> holds the
  observations handed out with the version they saw, \<open>begun\<close> the versions a listing saw, and
  \<open>published\<close> the values published so far.
\<close>

record history =
  cache :: snapshotCache
  ver :: "hash \<Rightarrow> nat"
  pending :: "(hash \<times> snapshotObservation \<times> nat) set"
  begun :: "nat \<Rightarrow> hash \<Rightarrow> nat"
  published :: "nat set"

definition no_history :: history where
  "no_history = \<lparr>cache = newSnapshotCache, ver = (\<lambda>_. 0), pending = {}, begun = (\<lambda>_ _. 0), published = {}\<rparr>"

definition bump :: "hash \<Rightarrow> bool \<Rightarrow> (hash \<Rightarrow> nat) \<Rightarrow> hash \<Rightarrow> nat" where
  "bump h b f = (if b then f(h := Suc (f h)) else f)"

text \<open>The observations a reader may hold: its own, or that of a listing still in progress.\<close>

definition holds_obs :: "history \<Rightarrow> hash \<Rightarrow> snapshotObservation \<Rightarrow> nat \<Rightarrow> bool" where
  "holds_obs s h ob g \<longleftrightarrow> (h, ob, g) \<in> pending s
     \<or> (\<exists>l \<in> set (scListings (cache s)). ob = observation l h (cache s) \<and> g = begun s l h)"

inductive hist_step :: "history \<Rightarrow> history \<Rightarrow> bool" where
  obs: "observe h (cache s) = (ob, c) \<Longrightarrow>
    hist_step s (s\<lparr>cache := c, pending := insert (h, ob, ver s h) (pending s)\<rparr>)"
| listing: "observeListing (cache s) = (l, c) \<Longrightarrow>
    hist_step s (s\<lparr>cache := c, begun := (begun s)(l := ver s)\<rparr>)"
| ended: "hist_step s (s\<lparr>cache := finish h ob (cache s)\<rparr>)"
| publish: "holds_obs s h ob g \<Longrightarrow> v \<notin> published s \<Longrightarrow> publishLocked h ob v (cache s) = (b, c) \<Longrightarrow>
    hist_step s (s\<lparr>cache := c, ver := bump h b (ver s), published := (if b then insert v (published s) else published s)\<rparr>)"
| forget: "hist_step s (s\<lparr>cache := forgetLocked h ob (cache s), ver := bump h (unchangedLocked h ob (cache s)) (ver s)\<rparr>)"
| renew: "hist_step s (s\<lparr>cache := renewSlot h (cache s), ver := bump h (currentLocked h (cache s) \<noteq> None) (ver s)\<rparr>)"
| listed: "l \<in> set (scListings (cache s)) \<Longrightarrow> c = finishListing l live (cache s) \<Longrightarrow>
    hist_step s (s\<lparr>cache := c,
                   ver := (\<lambda>h. if \<not> live h \<and> currentLocked h c = None then Suc (ver s h) else ver s h)\<rparr>)"

inductive hist_reach :: "history \<Rightarrow> bool" where
  start: "hist_reach no_history"
| step: "hist_reach s \<Longrightarrow> hist_step s s' \<Longrightarrow> hist_reach s'"

section \<open>Invariant\<close>

definition slots_ok :: "snapshotCache \<Rightarrow> bool" where
  "slots_ok c \<longleftrightarrow> distinct (map fst (scSlots c)) \<and> (\<forall>h a. map_of (scSlots c) h = Some a \<longrightarrow> a < scNext c)
     \<and> (\<forall>h h' a. map_of (scSlots c) h = Some a \<longrightarrow> map_of (scSlots c) h' = Some a \<longrightarrow> h = h')
     \<and> (\<forall>l \<in> set (scListings c). l < scNext c)"

definition current_ok :: "history \<Rightarrow> bool" where
  "current_ok s \<longleftrightarrow> (\<forall>h v. currentLocked h (cache s) = Some v \<longrightarrow> v \<in> published s)"

text \<open>An observation that saw the slot at an address and one that saw no slot.\<close>

definition seen_slot :: "history \<Rightarrow> hash \<Rightarrow> nat \<Rightarrow> nat option \<Rightarrow> nat \<Rightarrow> bool" where
  "seen_slot s h a w g \<longleftrightarrow> a < scNext (cache s) \<and> (\<forall>v. w = Some v \<longrightarrow> v \<in> published s)
     \<and> (map_of (scSlots (cache s)) h = Some a \<longrightarrow> scCurrent (cache s) a = w \<longrightarrow> ver s h = g)"

definition seen_none :: "history \<Rightarrow> hash \<Rightarrow> nat \<Rightarrow> nat \<Rightarrow> bool" where
  "seen_none s h l g \<longleftrightarrow>
     currentLocked h (cache s) = None \<longrightarrow> ver s h = g \<or> lsInvalidated (scListing (cache s) l) h
        \<or> lsRestricted (scListing (cache s) l) \<and> \<not> lsAllowed (scListing (cache s) l) h"

definition obs_ok :: "history \<Rightarrow> hash \<Rightarrow> snapshotObservation \<Rightarrow> nat \<Rightarrow> bool" where
  "obs_ok s h ob g \<longleftrightarrow>
     (case obSlot ob of
        Some a \<Rightarrow> seen_slot s h a (obValue ob) g
      | None \<Rightarrow> (case obListing ob of None \<Rightarrow> False | Some l \<Rightarrow> seen_none s h l g))"

definition hist_inv :: "history \<Rightarrow> bool" where
  "hist_inv s \<longleftrightarrow> slots_ok (cache s) \<and> current_ok s
     \<and> (\<forall>h ob g. (h, ob, g) \<in> pending s \<longrightarrow> obListing ob = None \<and> obs_ok s h ob g)
     \<and> (\<forall>l \<in> set (scListings (cache s)). \<forall>h. obs_ok s h (observation l h (cache s)) (begun s l h))"

lemma obs_ok_unchanged:
  assumes "obs_ok s h ob g" "unchangedLocked h ob (cache s)"
  shows "ver s h = g"
  using assms
  by (auto simp: obs_ok_def unchangedLocked_def seen_slot_def seen_none_def currentLocked_def split: option.splits if_splits)

text \<open>What a step may do to a hash: leave it alone, or make every older observation stale.\<close>

definition fenced :: "snapshotCache \<Rightarrow> nat \<Rightarrow> hash \<Rightarrow> bool" where
  "fenced c l h \<longleftrightarrow> lsInvalidated (scListing c l) h \<or> lsRestricted (scListing c l) \<and> \<not> lsAllowed (scListing c l) h"

definition calm :: "history \<Rightarrow> history \<Rightarrow> hash \<Rightarrow> bool" where
  "calm s s' h \<longleftrightarrow> ver s' h = ver s h
     \<and> (\<forall>a. map_of (scSlots (cache s')) h = Some a \<longrightarrow>
            scNext (cache s) \<le> a \<or> map_of (scSlots (cache s)) h = Some a \<and> scCurrent (cache s') a = scCurrent (cache s) a)
     \<and> (currentLocked h (cache s') = None \<longrightarrow> currentLocked h (cache s) = None)"

definition moved :: "history \<Rightarrow> history \<Rightarrow> hash \<Rightarrow> bool" where
  "moved s s' h \<longleftrightarrow>
     (\<forall>a. map_of (scSlots (cache s')) h = Some a \<longrightarrow>
        scNext (cache s) \<le> a \<or> (\<exists>v. scCurrent (cache s') a = Some v \<and> v \<notin> published s))
     \<and> (currentLocked h (cache s') = None \<longrightarrow> (\<forall>l \<in> set (scListings (cache s')). fenced (cache s') l h))"

definition frame :: "history \<Rightarrow> history \<Rightarrow> bool" where
  "frame s s' \<longleftrightarrow> scNext (cache s) \<le> scNext (cache s') \<and> published s \<subseteq> published s'
     \<and> (\<forall>h. calm s s' h \<or> moved s s' h)
     \<and> (\<forall>l h. l < scNext (cache s) \<longrightarrow> fenced (cache s) l h \<longrightarrow> fenced (cache s') l h)
     \<and> (\<forall>l h. l < scNext (cache s) \<longrightarrow> observation l h (cache s') = observation l h (cache s) \<and> begun s' l h = begun s l h)"

lemma obs_ok_frame:
  assumes "frame s s'" "obs_ok s h ob g" "\<And>l. obListing ob = Some l \<Longrightarrow> l \<in> set (scListings (cache s')) \<and> l < scNext (cache s)"
  shows "obs_ok s' h ob g"
proof (cases "obSlot ob")
  case (Some a)
  then have so: "seen_slot s h a (obValue ob) g" using assms(2) by (simp add: obs_ok_def)
  have "seen_slot s' h a (obValue ob) g"
    unfolding seen_slot_def
  proof (intro conjI impI allI)
    show "a < scNext (cache s')" using so assms(1) by (auto simp: seen_slot_def frame_def)
    show "v \<in> published s'" if "obValue ob = Some v" for v
      using so assms(1) that by (auto simp: seen_slot_def frame_def)
    assume cur: "map_of (scSlots (cache s')) h = Some a" "scCurrent (cache s') a = obValue ob"
    have "a < scNext (cache s)" using so by (simp add: seen_slot_def)
    moreover have "\<not> (\<exists>v. scCurrent (cache s') a = Some v \<and> v \<notin> published s)"
      using so cur(2) by (auto simp: seen_slot_def)
    ultimately have "calm s s' h" using assms(1) cur(1) unfolding frame_def moved_def by (metis not_le)
    then show "ver s' h = g" using so cur \<open>a < scNext (cache s)\<close> by (auto simp: calm_def seen_slot_def)
  qed
  then show ?thesis using Some by (simp add: obs_ok_def)
next
  case None
  then obtain l where l: "obListing ob = Some l" and sn: "seen_none s h l g"
    using assms(2) by (auto simp: obs_ok_def split: option.splits)
  have fm: "fenced (cache s) l h \<longrightarrow> fenced (cache s') l h" using assms(1,3) l by (auto simp: frame_def)
  have "calm s s' h \<or> moved s s' h" using assms(1) by (simp add: frame_def)
  then have "seen_none s' h l g"
    using sn fm assms(3) [OF l] by (auto simp: seen_none_def calm_def moved_def fenced_def)
  then show ?thesis using None l by (simp add: obs_ok_def)
qed

lemma obListing_observation [simp]: "obListing (observation l h c) = Some l"
  by (simp add: observation_def)

lemma hist_inv_frame:
  assumes "hist_inv s" "frame s s'" "slots_ok (cache s')" "current_ok s'" "pending s' = pending s"
    "set (scListings (cache s')) \<subseteq> set (scListings (cache s))"
  shows "hist_inv s'"
proof -
  have lt: "l < scNext (cache s)" if "l \<in> set (scListings (cache s))" for l
    using assms(1) that by (auto simp: hist_inv_def slots_ok_def)
  have p: "obListing ob = None \<and> obs_ok s' h ob g" if "(h, ob, g) \<in> pending s'" for h ob g
    using obs_ok_frame [OF assms(2), of h ob g] assms(1,5) that by (auto simp: hist_inv_def)
  have o: "obs_ok s' h (observation l h (cache s')) (begun s' l h)" if l: "l \<in> set (scListings (cache s'))" for l h
  proof -
    have "obs_ok s h (observation l h (cache s)) (begun s l h)" using assms(1,6) l by (auto simp: hist_inv_def)
    moreover have "observation l h (cache s') = observation l h (cache s)" "begun s' l h = begun s l h"
      using assms(2,6) l lt by (auto simp: frame_def)
    ultimately show ?thesis
      using obs_ok_frame [OF assms(2), of h "observation l h (cache s)" "begun s l h"] l assms(6) lt [of l] by auto
  qed
  show ?thesis using p o assms(3,4) by (simp add: hist_inv_def)
qed

lemma slots_ok_new_slot: "slots_ok c \<Longrightarrow> slots_ok (new_slot h v c)"
  unfolding slots_ok_def new_slot_def by (auto simp: less_SucI) (metis less_irrefl)+

lemma slots_ok_adel: "slots_ok c \<Longrightarrow> slots_ok (c\<lparr>scSlots := adel h (scSlots c)\<rparr>)"
  unfolding slots_ok_def by (auto split: if_splits)

lemma slots_ok_heap [simp]:
  "slots_ok (c\<lparr>scCurrent := f\<rparr>) = slots_ok c" "slots_ok (c\<lparr>scListing := g\<rparr>) = slots_ok c"
  by (simp_all add: slots_ok_def)

lemma new_slot_simps [simp]:
  "map_of (scSlots (new_slot h v c)) = (map_of (scSlots c))(h \<mapsto> scNext c)"
  "scNext (new_slot h v c) = Suc (scNext c)" "scListings (new_slot h v c) = scListings c"
  "scListing (new_slot h v c) = scListing c" "scCurrent (new_slot h v c) = (scCurrent c)(scNext c := v)"
  by (simp_all add: new_slot_def)

lemma observation_cong: "scListing c' l = scListing c l \<Longrightarrow> observation l h c' = observation l h c"
  by (simp add: observation_def observed_at_def)

lemma current_okD:
  "current_ok s \<Longrightarrow> map_of (scSlots (cache s)) h = Some a \<Longrightarrow> scCurrent (cache s) a = Some v \<Longrightarrow> v \<in> published s"
  unfolding current_ok_def currentLocked_def by (metis option.simps(5))

lemma slot_lt: "slots_ok c \<Longrightarrow> map_of (scSlots c) h = Some a \<Longrightarrow> a < scNext c"
  by (simp add: slots_ok_def)

lemma currentLocked_new_slot:
  "slots_ok c \<Longrightarrow> currentLocked k (new_slot h v c) = (if k = h then v else currentLocked k c)"
  by (auto simp: currentLocked_def split: option.splits dest: slot_lt)

text \<open>A freshly created slot: other hashes are left alone.\<close>

lemma frame_new_slot:
  assumes "slots_ok (cache s)" "cache s' = new_slot h v (cache s)" "published s \<subseteq> published s'" "begun s' = begun s"
    "\<And>k. k \<noteq> h \<Longrightarrow> ver s' k = ver s k" "v \<noteq> None \<or> currentLocked h (cache s) = None \<and> ver s' h = ver s h"
  shows "frame s s'"
proof -
  have "calm s s' k" if "k \<noteq> h" for k
    using that assms slot_lt [OF assms(1), of k]
    by (auto simp: calm_def currentLocked_new_slot)
  moreover have "calm s s' h \<or> moved s s' h"
    using assms by (cases v) (auto simp: calm_def moved_def currentLocked_new_slot)
  ultimately have "calm s s' k \<or> moved s s' k" for k by (cases "k = h") auto
  then show ?thesis using assms(2-4) by (simp add: frame_def fenced_def observation_def observed_at_def)
qed

lemma pending_irrelevant [simp]:
  "obs_ok (s\<lparr>pending := p\<rparr>) h ob g = obs_ok s h ob g" "current_ok (s\<lparr>pending := p\<rparr>) = current_ok s"
  by (simp_all add: obs_ok_def seen_slot_def seen_none_def current_ok_def split: option.splits)

lemma hist_inv_observe:
  assumes inv: "hist_inv s" and ob: "observe h (cache s) = (ob, c)"
  shows "hist_inv (s\<lparr>cache := c, pending := insert (h, ob, ver s h) (pending s)\<rparr>)"
proof -
  let ?m = "s\<lparr>cache := c\<rparr>"
  have ok: "slots_ok (cache s)" "current_ok s" using inv by (auto simp: hist_inv_def)
  have "hist_inv ?m \<and> obs_ok ?m h ob (ver s h) \<and> obListing ob = None"
  proof (cases "map_of (scSlots (cache s)) h")
    case (Some a)
    then have "c = cache s" "ob = \<lparr>obSlot = Some a, obValue = scCurrent (cache s) a, obListing = None\<rparr>"
      using ob by (auto simp: observe_def)
    then show ?thesis using inv Some ok slot_lt [OF ok(1) Some] current_okD [OF ok(2) Some]
      by (auto simp: obs_ok_def seen_slot_def)
  next
    case None
    then have c: "c = new_slot h None (cache s)" "ob = \<lparr>obSlot = Some (scNext (cache s)), obValue = None, obListing = None\<rparr>"
      using ob by (auto simp: observe_def)
    have "frame s ?m"
      by (rule frame_new_slot [OF ok(1), of _ h None]) (use None c in \<open>simp_all add: currentLocked_def\<close>)
    moreover have "current_ok ?m" using ok by (auto simp: current_ok_def c currentLocked_new_slot)
    ultimately have "hist_inv ?m" using hist_inv_frame [OF inv, of ?m] ok c by (simp add: slots_ok_new_slot)
    then show ?thesis by (simp add: obs_ok_def seen_slot_def c)
  qed
  then have "hist_inv (?m\<lparr>pending := insert (h, ob, ver s h) (pending s)\<rparr>)" by (auto simp: hist_inv_def)
  then show ?thesis by simp
qed

lemma hist_inv_listing:
  assumes inv: "hist_inv s" and ob: "observeListing (cache s) = (l, c)"
  shows "hist_inv (s\<lparr>cache := c, begun := (begun s)(l := ver s)\<rparr>)"
proof -
  let ?s = "s\<lparr>cache := c, begun := (begun s)(l := ver s)\<rparr>"
  have ok: "slots_ok (cache s)" "current_ok s" using inv by (auto simp: hist_inv_def)
  have l: "l = scNext (cache s)" and c: "scSlots c = scSlots (cache s)" "scCurrent c = scCurrent (cache s)"
    "scNext c = Suc l" "scListings c = l # scListings (cache s)"
    "scListing c = (scListing (cache s))(l := emptyListing\<lparr>lsObserved :=
            (\<lambda>h. map_option (\<lambda>a. \<lparr>obSlot = Some a, obValue = scCurrent (cache s) a, obListing = Some l\<rparr>) (map_of (scSlots (cache s)) h))\<rparr>)"
    using ob by (auto simp: observeListing_def Let_def)
  have cl: "currentLocked h c = currentLocked h (cache s)" for h by (simp add: currentLocked_def c split: option.splits)
  have "calm s ?s h" for h by (auto simp: calm_def c currentLocked_def split: option.splits)
  then have fr: "frame s ?s" using l by (auto simp: frame_def c fenced_def observation_def observed_at_def)
  have sok: "slots_ok c" using ok(1) l by (auto simp: slots_ok_def c less_SucI)
  have p: "obListing ob = None \<and> obs_ok ?s h ob g" if "(h, ob, g) \<in> pending s" for h ob g
    using obs_ok_frame [OF fr, of h ob g] inv that by (auto simp: hist_inv_def)
  have old: "obs_ok ?s h (observation k h c) (begun ?s k h)" if k: "k \<in> set (scListings (cache s))" for k h
  proof -
    have "k < scNext (cache s)" using ok(1) k by (simp add: slots_ok_def)
    moreover have "obs_ok s h (observation k h (cache s)) (begun s k h)" using inv k by (simp add: hist_inv_def)
    ultimately have "obs_ok ?s h (observation k h (cache s)) (begun s k h)"
      using obs_ok_frame [OF fr, of h "observation k h (cache s)" "begun s k h"] k by (simp add: c)
    then show ?thesis using \<open>k < scNext (cache s)\<close> l fr by (auto simp: frame_def)
  qed
  have new: "obs_ok ?s h (observation l h c) (begun ?s l h)" for h
    using slot_lt [OF ok(1), of h] current_okD [OF ok(2), of h]
    by (auto simp: obs_ok_def observation_def observed_at_def noObservation_def seen_slot_def seen_none_def c l
        split: option.splits)
  show ?thesis using p old new ok(2) sok
    by (auto simp: hist_inv_def c current_ok_def cl)
qed

lemma hist_inv_finish:
  assumes inv: "hist_inv s"
  shows "hist_inv (s\<lparr>cache := finish h ob (cache s)\<rparr>)" (is "hist_inv ?s")
proof (cases "finish h ob (cache s) = cache s")
  case False
  then obtain a where a: "map_of (scSlots (cache s)) h = Some a" "scCurrent (cache s) a = None"
    and c: "finish h ob (cache s) = (cache s)\<lparr>scSlots := adel h (scSlots (cache s))\<rparr>"
    by (auto simp: finish_def split: option.splits if_splits)
  have ok: "slots_ok (cache s)" "current_ok s" using inv by (auto simp: hist_inv_def)
  have "calm s ?s k" for k using a by (auto simp: calm_def c currentLocked_def split: option.splits)
  then have "frame s ?s" by (simp add: frame_def c fenced_def observation_def observed_at_def)
  moreover have "current_ok ?s" using ok(2) by (auto simp: current_ok_def c currentLocked_def split: option.splits)
  ultimately show ?thesis using hist_inv_frame [OF inv, of ?s] slots_ok_adel [OF ok(1), of h] by (simp add: c)
qed (use inv in simp)

lemma hist_inv_publish:
  assumes inv: "hist_inv s" and v: "v \<notin> published s" and pub: "publishLocked h ob v (cache s) = (b, c)"
  shows "hist_inv (s\<lparr>cache := c, ver := bump h b (ver s), published := (if b then insert v (published s) else published s)\<rparr>)"
    (is "hist_inv ?s")
proof (cases b)
  case False
  then have "c = cache s" using pub by (auto simp: publishLocked_def split: if_splits option.splits)
  then show ?thesis using False inv by (simp add: bump_def)
next
  case b: True
  have ok: "slots_ok (cache s)" "current_ok s" using inv by (auto simp: hist_inv_def)
  show ?thesis
  proof (cases "map_of (scSlots (cache s)) h")
    case None
    then have c: "c = new_slot h (Some v) (cache s)" using pub b by (auto simp: publishLocked_def split: if_splits)
    have "frame s ?s"
      by (rule frame_new_slot [OF ok(1), of _ h "Some v"]) (use b c in \<open>auto simp: bump_def\<close>)
    moreover have "current_ok ?s" using ok b by (auto simp: current_ok_def c currentLocked_new_slot)
    ultimately show ?thesis using hist_inv_frame [OF inv, of ?s] ok(1) by (simp add: c slots_ok_new_slot)
  next
    case (Some a)
    then have c: "c = (cache s)\<lparr>scCurrent := (scCurrent (cache s))(a := Some v)\<rparr>"
      using pub b by (auto simp: publishLocked_def split: if_splits)
    have other: "map_of (scSlots (cache s)) k \<noteq> Some a" if "k \<noteq> h" for k
      using ok(1) Some that by (auto simp: slots_ok_def)
    have cl: "currentLocked k c = (if k = h then Some v else currentLocked k (cache s))" for k
      using other [of k] Some by (auto simp: currentLocked_def c split: option.splits)
    have "calm s ?s k" if "k \<noteq> h" for k using that other [OF that] cl [of k] b by (auto simp: calm_def c bump_def currentLocked_def split: option.splits)
    moreover have "moved s ?s h" using cl [of h] v Some by (simp add: moved_def c)
    ultimately have "calm s ?s k \<or> moved s ?s k" for k by (cases "k = h") auto
    then have "frame s ?s" using b by (auto simp: frame_def c fenced_def observation_def observed_at_def)
    moreover have "current_ok ?s" using ok(2) b by (auto simp: current_ok_def cl)
    ultimately show ?thesis using hist_inv_frame [OF inv, of ?s] ok(1) by (simp add: c)
  qed
qed

lemma forget_simps:
  assumes "unchangedLocked h ob c"
  shows "map_of (scSlots (forgetLocked h ob c)) = (map_of (scSlots c))(h := None)"
    "scCurrent (forgetLocked h ob c) = scCurrent c" "scNext (forgetLocked h ob c) = scNext c"
    "scListings (forgetLocked h ob c) = scListings c"
    "lsInvalidated (scListing (forgetLocked h ob c) l) k \<longleftrightarrow>
       lsInvalidated (scListing c l) k \<or> l \<in> set (scListings c) \<and> k = h"
    "lsRestricted (scListing (forgetLocked h ob c) l) = lsRestricted (scListing c l)"
    "lsAllowed (scListing (forgetLocked h ob c) l) = lsAllowed (scListing c l)"
    "lsObserved (scListing (forgetLocked h ob c) l) = lsObserved (scListing c l)"
  using assms by (auto simp: forgetLocked_def)

lemma slots_ok_forget: "slots_ok c \<Longrightarrow> slots_ok (forgetLocked h ob c)"
  using slots_ok_adel [of c h] by (simp add: forgetLocked_def)

lemma hist_inv_forget:
  assumes inv: "hist_inv s"
  shows "hist_inv (s\<lparr>cache := forgetLocked h ob (cache s), ver := bump h (unchangedLocked h ob (cache s)) (ver s)\<rparr>)"
    (is "hist_inv ?s")
proof (cases "unchangedLocked h ob (cache s)")
  case False
  then show ?thesis using inv by (simp add: forgetLocked_def bump_def)
next
  case True
  note f = forget_simps [OF True]
  have ok: "slots_ok (cache s)" "current_ok s" using inv by (auto simp: hist_inv_def)
  have "calm s ?s k" if "k \<noteq> h" for k using that True by (auto simp: calm_def f bump_def currentLocked_def split: option.splits)
  moreover have "moved s ?s h" by (auto simp: moved_def f fenced_def)
  ultimately have "calm s ?s k \<or> moved s ?s k" for k by (cases "k = h") auto
  then have "frame s ?s" by (auto simp: frame_def f fenced_def observation_def observed_at_def)
  moreover have "current_ok ?s" using ok(2) by (auto simp: current_ok_def f currentLocked_def split: option.splits if_splits)
  ultimately show ?thesis using hist_inv_frame [OF inv, of ?s] slots_ok_forget [OF ok(1), of h ob] by (simp add: f)
qed

lemma hist_inv_renew:
  assumes inv: "hist_inv s"
  shows "hist_inv (s\<lparr>cache := renewSlot h (cache s), ver := bump h (currentLocked h (cache s) \<noteq> None) (ver s)\<rparr>)"
    (is "hist_inv ?s")
proof (cases "currentLocked h (cache s)")
  case None
  then show ?thesis using inv by (simp add: renewSlot_def bump_def)
next
  case (Some v)
  have ok: "slots_ok (cache s)" "current_ok s" using inv by (auto simp: hist_inv_def)
  have "frame s ?s"
    by (rule frame_new_slot [OF ok(1), of _ h "Some v"]) (use Some in \<open>auto simp: renewSlot_def bump_def\<close>)
  moreover have "current_ok ?s" using ok Some by (auto simp: current_ok_def renewSlot_def currentLocked_new_slot)
  ultimately show ?thesis using hist_inv_frame [OF inv, of ?s] ok(1) Some by (simp add: renewSlot_def slots_ok_new_slot)
qed

text \<open>The loop of \<open>finishListing\<close> over the slots, hash by hash.\<close>

definition dropped :: "nat \<Rightarrow> (hash \<Rightarrow> bool) \<Rightarrow> snapshotCache \<Rightarrow> hash \<Rightarrow> bool" where
  "dropped l live c h \<longleftrightarrow> \<not> live h \<and> unchangedLocked h (dead_observation l h c) c"

text \<open>Two caches that agree on everything that concerns one hash.\<close>

definition same_at :: "hash \<Rightarrow> snapshotCache \<Rightarrow> snapshotCache \<Rightarrow> bool" where
  "same_at h c c' \<longleftrightarrow> map_of (scSlots c') h = map_of (scSlots c) h \<and> scCurrent c' = scCurrent c
     \<and> (\<forall>l. lsInvalidated (scListing c' l) h = lsInvalidated (scListing c l) h
          \<and> lsRestricted (scListing c' l) = lsRestricted (scListing c l)
          \<and> lsAllowed (scListing c' l) = lsAllowed (scListing c l) \<and> lsObserved (scListing c' l) = lsObserved (scListing c l))"

lemma dropped_same_at: "same_at h c c' \<Longrightarrow> dropped l live c' h = dropped l live c h"
  by (auto simp: dropped_def same_at_def unchangedLocked_def dead_observation_def observed_at_def split: option.splits)

lemma drop_dead_effect:
  "scCurrent (drop_dead l live h c) = scCurrent c" "scNext (drop_dead l live h c) = scNext c"
  "scListings (drop_dead l live h c) = scListings c"
  "lsObserved (scListing (drop_dead l live h c) p) = lsObserved (scListing c p)"
  "lsRestricted (scListing (drop_dead l live h c) p) = lsRestricted (scListing c p)"
  "lsAllowed (scListing (drop_dead l live h c) p) = lsAllowed (scListing c p)"
  "map_of (scSlots (drop_dead l live h c)) = (map_of (scSlots c))(h := (if dropped l live c h then None else map_of (scSlots c) h))"
  "lsInvalidated (scListing (drop_dead l live h c) p) k \<longleftrightarrow>
     lsInvalidated (scListing c p) k \<or> p \<in> set (scListings c) \<and> k = h \<and> dropped l live c h"
  "slots_ok c \<Longrightarrow> slots_ok (drop_dead l live h c)"
  using slots_ok_forget by (auto simp: drop_dead_def dropped_def forgetLocked_def fun_upd_idem)

lemma drop_fold_effect:
  "distinct hs \<Longrightarrow>
   scCurrent (fold (drop_dead l live) hs c) = scCurrent c \<and> scNext (fold (drop_dead l live) hs c) = scNext c
   \<and> scListings (fold (drop_dead l live) hs c) = scListings c
   \<and> (\<forall>p. lsObserved (scListing (fold (drop_dead l live) hs c) p) = lsObserved (scListing c p)
        \<and> lsRestricted (scListing (fold (drop_dead l live) hs c) p) = lsRestricted (scListing c p)
        \<and> lsAllowed (scListing (fold (drop_dead l live) hs c) p) = lsAllowed (scListing c p))
   \<and> (\<forall>k. map_of (scSlots (fold (drop_dead l live) hs c)) k =
            (if k \<in> set hs \<and> dropped l live c k then None else map_of (scSlots c) k))
   \<and> (\<forall>p k. lsInvalidated (scListing (fold (drop_dead l live) hs c) p) k \<longleftrightarrow>
            lsInvalidated (scListing c p) k \<or> p \<in> set (scListings c) \<and> k \<in> set hs \<and> dropped l live c k)
   \<and> (slots_ok c \<longrightarrow> slots_ok (fold (drop_dead l live) hs c))"
proof (induction hs arbitrary: c)
  case (Cons h hs)
  let ?c = "drop_dead l live h c"
  have d: "dropped l live ?c k = dropped l live c k" if "k \<in> set hs" for k
  proof (rule dropped_same_at)
    have "k \<noteq> h" using that Cons.prems by auto
    then show "same_at k c ?c" by (simp add: same_at_def drop_dead_effect)
  qed
  show ?case using Cons.IH [of ?c] Cons.prems d by (auto simp: drop_dead_effect)
qed simp

lemma not_live_placeholder:
  assumes "\<not> live h" "map_of (scSlots c) h = Some a" "scCurrent c a = None"
  shows "dropped l live c h"
  using assms by (simp add: dropped_def unchangedLocked_def dead_observation_def)

lemma finishListing_effect:
  fixes l live c
  defines "c' \<equiv> finishListing l live c"
  assumes ok: "slots_ok c"
  shows "scCurrent c' = scCurrent c" "scNext c' = scNext c"
    "set (scListings c') = set (scListings c) - {l}"
    "lsObserved (scListing c' p) = lsObserved (scListing c p)"
    "map_of (scSlots c') k = (if dropped l live c k then None else map_of (scSlots c) k)"
    "p \<in> set (scListings c') \<Longrightarrow> dropped l live c k \<Longrightarrow> map_of (scSlots c) k \<noteq> None \<Longrightarrow> fenced c' p k"
    "p \<in> set (scListings c') \<Longrightarrow> \<not> live k \<Longrightarrow> fenced c' p k"
    "fenced c p k \<Longrightarrow> fenced c' p k"
    "slots_ok c'"
proof -
  have d: "distinct (map fst (scSlots c))" using ok by (simp add: slots_ok_def)
  note e = drop_fold_effect [OF d, of l live c]
  have dom: "k \<in> fst ` set (scSlots c)" if "map_of (scSlots c) k = Some a" for k a
    using that by (metis domI dom_map_of_conv_image_fst)
  show "scCurrent c' = scCurrent c" "scNext c' = scNext c" "set (scListings c') = set (scListings c) - {l}"
    "lsObserved (scListing c' p) = lsObserved (scListing c p)"
    using e by (auto simp: c'_def finishListing_def Let_def restrict_listing_def)
  show "map_of (scSlots c') k = (if dropped l live c k then None else map_of (scSlots c) k)"
    using e map_of_eq_None_iff [of "scSlots c" k] by (auto simp: c'_def finishListing_def Let_def)
  have i: "lsInvalidated (scListing c' p) k \<longleftrightarrow>
             lsInvalidated (scListing c p) k \<or> p \<in> set (scListings c) \<and> k \<in> fst ` set (scSlots c) \<and> dropped l live c k" for p k
    using e by (simp add: c'_def finishListing_def Let_def restrict_listing_def)
  have m: "set (scListings c') \<subseteq> set (scListings c)" using e by (auto simp: c'_def finishListing_def Let_def)
  have r: "lsRestricted (scListing c' p) \<longleftrightarrow> p \<in> set (scListings c') \<or> lsRestricted (scListing c p)"
    "lsAllowed (scListing c' p) k \<longleftrightarrow>
       (if p \<in> set (scListings c') then live k \<and> (lsRestricted (scListing c p) \<longrightarrow> lsAllowed (scListing c p) k)
        else lsAllowed (scListing c p) k)" for p k
    using e by (auto simp: c'_def finishListing_def Let_def restrict_listing_def)
  show "fenced c' p k" if "p \<in> set (scListings c')" "dropped l live c k" "map_of (scSlots c) k \<noteq> None"
    using i [of p k] m dom [of k] that by (auto simp: fenced_def)
  show "fenced c' p k" if "p \<in> set (scListings c')" "\<not> live k"
    using r that by (simp add: fenced_def)
  show "fenced c' p k" if "fenced c p k"
    using that i [of p k] r [of p] by (auto simp: fenced_def)
  have "slots_ok (fold (drop_dead l live) (map fst (scSlots c)) c)" using e ok by blast
  then show "slots_ok c'" by (simp add: c'_def finishListing_def Let_def slots_ok_def)
qed

lemma hist_inv_listed:
  assumes inv: "hist_inv s"
  shows "hist_inv (s\<lparr>cache := finishListing l live (cache s),
                     ver := (\<lambda>h. if \<not> live h \<and> currentLocked h (finishListing l live (cache s)) = None then Suc (ver s h) else ver s h)\<rparr>)"
    (is "hist_inv ?s")
proof -
  have ok: "slots_ok (cache s)" "current_ok s" using inv by (auto simp: hist_inv_def)
  note e = finishListing_effect [where l = l and live = live and c = "cache s", OF ok(1)]
  have cl: "currentLocked h (finishListing l live (cache s)) = (if dropped l live (cache s) h then None else currentLocked h (cache s))" for h
    by (simp add: currentLocked_def e(1,5) split: option.splits)
  have "calm s ?s h \<or> moved s ?s h" for h
  proof (cases "\<not> live h \<and> currentLocked h (finishListing l live (cache s)) = None")
    case True
    then have "map_of (scSlots (finishListing l live (cache s))) h = None"
      using not_live_placeholder [of live h "cache s" _ l] by (auto simp: cl e(1,5) currentLocked_def split: if_splits option.splits)
    then have "moved s ?s h" using True e(7) by (simp add: moved_def)
    then show ?thesis ..
  next
    case False
    then have "\<not> dropped l live (cache s) h" by (auto simp: dropped_def cl)
    then have "calm s ?s h" using False cl [of h] by (auto simp: calm_def e(1,5))
    then show ?thesis ..
  qed
  then have "frame s ?s" using e(2,4,8) by (simp add: frame_def observation_def observed_at_def)
  moreover have "current_ok ?s" using ok(2) by (auto simp: current_ok_def cl split: if_splits)
  ultimately show ?thesis using hist_inv_frame [OF inv, of ?s] e(3,9) by auto
qed

lemma hist_inv_start: "hist_inv no_history"
  by (simp add: hist_inv_def no_history_def newSnapshotCache_def slots_ok_def current_ok_def currentLocked_def)

lemma hist_inv_step: "hist_step s s' \<Longrightarrow> hist_inv s \<Longrightarrow> hist_inv s'"
proof (induction rule: hist_step.induct)
  case (listed l s c live)
  then show ?case using hist_inv_listed [where s = s and l = l and live = live] by simp
next
  case (renew s h)
  then show ?case by (rule hist_inv_renew)
qed (simp_all add: hist_inv_observe hist_inv_listing hist_inv_finish hist_inv_publish hist_inv_forget hist_inv_renew)

lemma hist_inv_reach: "hist_reach s \<Longrightarrow> hist_inv s"
  by (induction rule: hist_reach.induct) (auto simp: hist_inv_start intro: hist_inv_step)

text \<open>
  C9: A snapshot built from an old observation is never published: in every
  interleaving of observations, listings, publications and removals, if a reader's observation of a
  hash still lets it publish, then no publication, removal, renewal or completed listing without
  that hash happened since the reader observed it.
\<close>

theorem snapshot_no_stale_publish:
  assumes "hist_reach s" "holds_obs s h ob g" "fst (publishLocked h ob v (cache s))"
  shows "ver s h = g"
proof -
  have "unchangedLocked h ob (cache s)" using assms(3) by (auto simp: publishLocked_def split: if_splits)
  moreover have "obs_ok s h ob g" using hist_inv_reach [OF assms(1)] assms(2) by (auto simp: hist_inv_def holds_obs_def)
  ultimately show ?thesis by (rule obs_ok_unchanged [rotated])
qed

theorem snapshot_no_stale_publish_witness:
  "ver (no_history\<lparr>cache := snd (observe ''h'' newSnapshotCache),
                   pending := {(''h'', fst (observe ''h'' newSnapshotCache), 0)}\<rparr>) ''h'' = 0"
proof (rule snapshot_no_stale_publish [of _ _ "fst (observe ''h'' newSnapshotCache)" _ 7])
  let ?s = "no_history\<lparr>cache := snd (observe ''h'' newSnapshotCache), pending := {(''h'', fst (observe ''h'' newSnapshotCache), 0)}\<rparr>"
  show "hist_reach ?s"
    using hist_reach.step [OF hist_reach.start hist_step.obs [of "''h''" no_history "fst (observe ''h'' newSnapshotCache)" "snd (observe ''h'' newSnapshotCache)"]]
    by (simp add: no_history_def)
  show "holds_obs ?s ''h'' (fst (observe ''h'' newSnapshotCache)) 0" by (simp add: holds_obs_def)
  show "fst (publishLocked ''h'' (fst (observe ''h'' newSnapshotCache)) 7 (cache ?s))"
    by (simp add: publishLocked_def unchangedLocked_def observe_def new_slot_def newSnapshotCache_def aput_def no_history_def)
qed

text \<open>Publishing right after an observation succeeds and the value is then the current one.\<close>

lemma observe_publish:
  assumes "slots_ok c" "observe h c = (ob, c')"
  shows "fst (publishLocked h ob v c') \<and> currentLocked h (snd (publishLocked h ob v c')) = Some v"
  using assms
  by (auto simp: observe_def publishLocked_def unchangedLocked_def currentLocked_def split: option.splits)

section \<open>Effect on the current value\<close>

lemma current_observe: "slots_ok c \<Longrightarrow> observe h c = (ob, c') \<Longrightarrow> currentLocked k c' = currentLocked k c"
proof (cases "map_of (scSlots c) h")
  case None
  assume "slots_ok c" "observe h c = (ob, c')"
  then show ?thesis using None currentLocked_new_slot [of c k h None]
    by (auto simp: observe_def) (simp add: currentLocked_def)
qed (simp add: observe_def)

lemma current_finish: "currentLocked k (finish h ob c) = currentLocked k c"
  by (auto simp: finish_def currentLocked_def split: option.splits)

lemma current_observeListing: "observeListing c = (l, c') \<Longrightarrow> currentLocked k c' = currentLocked k c"
  by (auto simp: observeListing_def currentLocked_def Let_def split: option.splits)

lemma current_forget:
  "currentLocked k (forgetLocked h ob c) = (if k = h \<and> unchangedLocked h ob c then None else currentLocked k c)"
  by (auto simp: forgetLocked_def currentLocked_def split: option.splits)

lemma current_finishListing:
  "slots_ok c \<Longrightarrow> currentLocked k (finishListing l live c) = (if dropped l live c k then None else currentLocked k c)"
  using finishListing_effect [where c = c and l = l and live = live]
  by (simp add: currentLocked_def split: option.splits)

lemma current_publish:
  assumes "slots_ok c" "publishLocked h ob v c = (b, c')"
  shows "currentLocked k c' = (if b \<and> k = h then Some v else currentLocked k c)"
proof (cases "map_of (scSlots c) h")
  case None
  then show ?thesis using assms by (auto simp: publishLocked_def currentLocked_new_slot split: if_splits)
next
  case (Some a)
  moreover have "map_of (scSlots c) k \<noteq> Some a" if "k \<noteq> h" using assms(1) Some that by (auto simp: slots_ok_def)
  ultimately show ?thesis using assms(2)
    by (auto simp: publishLocked_def currentLocked_def split: if_splits option.splits)
qed

lemma slots_ok_observe: "slots_ok c \<Longrightarrow> observe h c = (ob, c') \<Longrightarrow> slots_ok c'"
  using slots_ok_new_slot by (auto simp: observe_def split: option.splits)

lemma slots_ok_finish: "slots_ok c \<Longrightarrow> slots_ok (finish h ob c)"
  using slots_ok_adel by (auto simp: finish_def split: option.splits)

lemma slots_ok_observeListing: "slots_ok c \<Longrightarrow> observeListing c = (l, c') \<Longrightarrow> slots_ok c'"
  by (auto simp: observeListing_def slots_ok_def Let_def less_SucI)

lemma slots_ok_publish: "slots_ok c \<Longrightarrow> publishLocked h ob v c = (b, c') \<Longrightarrow> slots_ok c'"
  using slots_ok_new_slot by (auto simp: publishLocked_def split: option.splits if_splits)

lemmas slots_ok_ops = slots_ok_observe slots_ok_finish slots_ok_observeListing slots_ok_publish slots_ok_forget
  finishListing_effect(9)

end
