(* ===== verification/VfsTree.thy ===== *)
theory VfsTree
  imports SnapshotCache
begin

text \<open>
  The virtual file tree (\<open>internal/vfs/tree.go\<close>, \<open>contents.go\<close>): path lookup, directory listings, the
  cache of directory indexes, stable identities, opened handles.

  The backend is a parameter: the record \<open>Backend\<close> holds what it answers, its optional interfaces are
  \<open>None\<close> when the backend does not have them. Directory versions and directory snapshots are objects
  at addresses; an index is named by the address of its version and its prefix. Callbacks are numbers, and
  \<open>fired\<close> logs the ones that were run. Each locked section is a step of its own: the theorems about the directory cache hold for
  an arbitrary observation and an arbitrary state of the cache, so also when other calls come in between.
\<close>

section \<open>Model\<close>

datatype tree_error =
    ErrExists | ErrNotFound | ErrIsDir | ErrNotDir | ErrNotEmpty | ErrReadOnly | ErrPermission | ErrInvalidName
  | ErrCrossDir | ErrClosed | BackendError string

datatype entryKind = rootKind | categoryKind | directoryKind | payloadKind | subtitleKind

record reference =
  rfHash :: hash
  rfRel :: string
  rfCategory :: string
  rfKind :: entryKind

record Entry =
  enName :: string
  enPath :: string
  enIsDir :: bool
  enSize :: int
  enCreatedAt :: time
  enModifiedAt :: time
  enIdentity :: nat
  enRef :: reference

record directoryIndex =
  diEntries :: "fsEntry list"
  diByName :: "string \<rightharpoonup> fsEntry"
  diOwner :: nat
  diSnapshot :: "nat option"

record directoryVersion =
  dvFilesID :: "nat option"
  dvFiles :: "FileView list"
  dvSubtitles :: "SubtitleView list"
  dvPrefixes :: "(string \<times> directoryIndex) list"

record Directory =
  drEntry :: Entry
  drEntries :: "Entry list"
  drVersion :: nat
  drCacheable :: bool
  drCleanups :: "nat list"

record FileStat =
  fsSize :: int
  fsCreatedAt :: time

record SubtitleStat =
  ssSize :: int
  ssModifiedAt :: time

record Backend =
  bkTorrents :: "TorrentView list"
  bkOpenFile :: "hash \<Rightarrow> string \<Rightarrow> tree_error + nat option"
  bkCategories :: "string list option"
  bkContents :: "(hash \<Rightarrow> tree_error + TorrentContents) option"
  bkFileStat :: "(hash \<Rightarrow> string \<Rightarrow> tree_error + FileStat) option"
  bkSubtitleStat :: "(hash \<Rightarrow> string \<Rightarrow> tree_error + SubtitleStat) option"
  bkOpenSnapshot :: "(hash \<Rightarrow> string \<Rightarrow> tree_error + nat option \<times> FileStat) option"
  bkOpenSubtitle :: "(hash \<Rightarrow> string \<Rightarrow> tree_error + nat option \<times> SubtitleStat) option"

record Tree =
  nextID :: nat
  nextVersion :: nat
  ids :: "string \<rightharpoonup> nat"
  directories :: snapshotCache
  versions :: "nat \<Rightarrow> directoryVersion"
  snapshots :: "nat \<Rightarrow> Directory"
  nextObj :: nat
  fired :: "nat list"

definition rootRef :: reference where
  "rootRef = \<lparr>rfHash = '''', rfRel = '''', rfCategory = '''', rfKind = rootKind\<rparr>"

definition rootEntry0 :: Entry where
  "rootEntry0 = \<lparr>enName = ''/'', enPath = ''/'', enIsDir = True, enSize = 0, enCreatedAt = 0, enModifiedAt = 0,
                 enIdentity = 1, enRef = rootRef\<rparr>"

definition noVersion :: directoryVersion where
  "noVersion = \<lparr>dvFilesID = None, dvFiles = [], dvSubtitles = [], dvPrefixes = []\<rparr>"

definition noDirectory :: Directory where
  "noDirectory = \<lparr>drEntry = rootEntry0, drEntries = [], drVersion = 0, drCacheable = False, drCleanups = []\<rparr>"

definition NewTree :: Tree where
  "NewTree = \<lparr>nextID = 1, nextVersion = 0, ids = [''/'' \<mapsto> 1], directories = newSnapshotCache,
              versions = (\<lambda>_. noVersion), snapshots = (\<lambda>_. noDirectory), nextObj = 0, fired = []\<rparr>"

definition identity :: "string \<Rightarrow> Tree \<Rightarrow> nat \<times> Tree" where
  "identity key t =
     (case ids t key of
        Some i \<Rightarrow> (i, t)
      | None \<Rightarrow> (Suc (nextID t), t\<lparr>nextID := Suc (nextID t), ids := (ids t)(key \<mapsto> Suc (nextID t))\<rparr>))"

fun virtual_loop :: "string list \<Rightarrow> tree_error + string list" where
  "virtual_loop [] = Inr []"
| "virtual_loop (p # ps) =
     (if p = '''' then virtual_loop ps
      else if p = ''.'' \<or> p = ''..'' then Inl ErrInvalidName
      else case virtual_loop ps of Inl e \<Rightarrow> Inl e | Inr out \<Rightarrow> Inr (p # out))"

definition virtualParts :: "string \<Rightarrow> tree_error + string list" where
  "virtualParts raw = (if CHR 0x00 \<in> set raw then Inl ErrInvalidName else virtual_loop (split_at slash raw))"

definition childPath :: "string \<Rightarrow> string \<Rightarrow> string" where
  "childPath parent name = (if parent \<noteq> [] \<and> last parent = slash then butlast parent else parent) @ ''/'' @ name"

definition torrentContents :: "Backend \<Rightarrow> hash \<Rightarrow> tree_error + TorrentContents" where
  "torrentContents bk h =
     (case bkContents bk of
        Some provider \<Rightarrow> provider h
      | None \<Rightarrow> (case List.find (\<lambda>v. tvHash v = h) (bkTorrents bk) of
                  Some view \<Rightarrow> Inr (contentsOfView view)
                | None \<Rightarrow> Inl ErrNotFound))"

subsection \<open>Eviction of snapshots\<close>

definition evict :: "nat \<Rightarrow> Tree \<Rightarrow> Tree" where
  "evict d t =
     t\<lparr>snapshots := (snapshots t)(d := (snapshots t d)\<lparr>drCacheable := False, drCleanups := []\<rparr>),
       fired := fired t @ drCleanups (snapshots t d)\<rparr>"

definition OnCacheEviction :: "nat \<Rightarrow> nat option \<Rightarrow> Tree \<Rightarrow> Tree" where
  "OnCacheEviction d cleanup t =
     (case cleanup of
        None \<Rightarrow> t
      | Some f \<Rightarrow>
          if drCacheable (snapshots t d)
          then t\<lparr>snapshots := (snapshots t)(d := (snapshots t d)\<lparr>drCleanups := drCleanups (snapshots t d) @ [f]\<rparr>)\<rparr>
          else t\<lparr>fired := fired t @ [f]\<rparr>)"

definition evictDirectoryVersion :: "nat option \<Rightarrow> Tree \<Rightarrow> Tree" where
  "evictDirectoryVersion v t =
     (case v of
        None \<Rightarrow> t
      | Some a \<Rightarrow> fold evict (List.map_filter (\<lambda>(p, i). diSnapshot i) (dvPrefixes (versions t a))) t)"

definition forgetDirectory :: "hash \<Rightarrow> snapshotObservation \<Rightarrow> Tree \<Rightarrow> Tree" where
  "forgetDirectory h ob t =
     (let previous = currentLocked h (directories t);
          t1 = t\<lparr>directories := forgetLocked h ob (directories t)\<rparr>
      in if currentLocked h (directories t1) \<noteq> previous then evictDirectoryVersion previous t1 else t1)"

definition finishDirectoryListing :: "nat \<Rightarrow> (hash \<Rightarrow> bool) \<Rightarrow> Tree \<Rightarrow> Tree" where
  "finishDirectoryListing l live t =
     (let c = directories t;
          candidates = List.map_filter (\<lambda>(h, a). if live h then None else map_option (\<lambda>v. (h, v)) (scCurrent c a)) (scSlots c);
          t1 = t\<lparr>directories := finishListing l live c\<rparr>;
          retired = filter (\<lambda>(h, v). currentLocked h (directories t1) \<noteq> Some v) candidates
      in fold (\<lambda>(h, v). evictDirectoryVersion (Some v)) retired t1)"

subsection \<open>The index of a directory\<close>

definition build_index :: "directoryVersion \<Rightarrow> nat \<Rightarrow> string \<Rightarrow> directoryIndex" where
  "build_index dv owner pre =
     (let entries = childrenOfViews (dvFiles dv) (dvSubtitles dv) pre
      in \<lparr>diEntries = entries, diByName = fold (\<lambda>e m. m(feName e \<mapsto> e)) entries Map.empty, diOwner = owner, diSnapshot = None\<rparr>)"

definition version_stale :: "directoryVersion \<Rightarrow> TorrentContents \<Rightarrow> bool" where
  "version_stale dv contents \<longleftrightarrow>
     dvFilesID dv \<noteq> tcFilesID contents \<or> (tcFilesID contents = None \<and> dvFiles dv \<noteq> tcFiles contents)
     \<or> dvSubtitles dv \<noteq> tcSubtitles contents"

text \<open>
  The version of \<open>index_directory\<close>: the current one, or a new one that is published when the observation is
  still good. The result is the address of the version, the version to retire, and the tree.
\<close>

definition choose_version :: "hash \<Rightarrow> TorrentContents \<Rightarrow> snapshotObservation \<Rightarrow> Tree \<Rightarrow> nat \<times> nat option \<times> Tree" where
  "choose_version h contents ob t =
     (let cur = currentLocked h (directories t)
      in case (case cur of Some v \<Rightarrow> if version_stale (versions t v) contents then None else Some v | None \<Rightarrow> None) of
           Some v \<Rightarrow> (v, None, t)
         | None \<Rightarrow>
             let a = nextObj t;
                 built = \<lparr>dvFilesID = tcFilesID contents, dvFiles = tcFiles contents,
                          dvSubtitles = tcSubtitles contents, dvPrefixes = []\<rparr>;
                 (ok, c) = publishLocked h ob a (directories t)
             in (a, if ok then cur else None,
                 t\<lparr>versions := (versions t)(a := built), nextObj := Suc a, directories := c\<rparr>))"

definition index_directory ::
  "hash \<Rightarrow> string \<Rightarrow> TorrentContents \<Rightarrow> snapshotObservation \<Rightarrow> Tree \<Rightarrow> directoryIndex \<times> Tree" where
  "index_directory h pre contents ob t =
     (let (v, retired, t1) = choose_version h contents ob t
      in case map_of (dvPrefixes (versions t1 v)) pre of
           Some index \<Rightarrow> (index, evictDirectoryVersion retired t1)
         | None \<Rightarrow>
             let index = build_index (versions t1 v) v pre;
                 t2 = (if pre = '''' \<or> diEntries index \<noteq> []
                       then t1\<lparr>versions := (versions t1)(v := (versions t1 v)\<lparr>dvPrefixes := aput pre index (dvPrefixes (versions t1 v))\<rparr>)\<rparr>
                       else t1)
             in (index, evictDirectoryVersion retired t2))"

definition directory :: "Backend \<Rightarrow> hash \<Rightarrow> string \<Rightarrow> Tree \<Rightarrow> (tree_error + TorrentContents \<times> directoryIndex) \<times> Tree" where
  "directory bk h pre t =
     (let (ob, c) = observe h (directories t);
          t0 = t\<lparr>directories := c\<rparr>;
          fin = (\<lambda>t. t\<lparr>directories := finish h ob (directories t)\<rparr>)
      in case torrentContents bk h of
           Inl e \<Rightarrow> (Inl e, fin (forgetDirectory h ob t0))
         | Inr contents \<Rightarrow>
             if tcSingleFile contents \<and> length (tcFiles contents) = 1
             then (Inl ErrNotFound, fin (forgetDirectory h ob t0))
             else
               let (index, t1) = index_directory h pre contents ob t0
               in if pre \<noteq> '''' \<and> diEntries index = [] then (Inl ErrNotFound, fin t1)
                  else (Inr (contents, index), fin t1))"

subsection \<open>Children and lookup\<close>

definition layoutChild :: "(hash \<Rightarrow> string) \<Rightarrow> Entry \<Rightarrow> fsEntry \<Rightarrow> TorrentContents \<Rightarrow> Tree \<Rightarrow> Entry \<times> Tree" where
  "layoutChild hex parent item contents t =
     (let h = rfHash (enRef parent);
          entry = \<lparr>enName = feName item, enPath = childPath (enPath parent) (feName item), enIsDir = feIsDir item,
                   enSize = feSize item, enCreatedAt = tcCreatedAt contents, enModifiedAt = feModifiedAt item,
                   enIdentity = 0, enRef = rootRef\<rparr>
      in if feIsDir item
         then let rel = joinRel (rfRel (enRef parent)) (feName item);
                  (i, t') = identity (dirKey hex h rel) t
              in (entry\<lparr>enRef := \<lparr>rfHash = h, rfRel = rel, rfCategory = '''', rfKind = directoryKind\<rparr>, enIdentity := i\<rparr>, t')
         else let kind = (if feIsSubtitle item then subtitleKind else payloadKind);
                  (i, t') = identity (fileKey hex h (fePath item)) t
              in (entry\<lparr>enRef := \<lparr>rfHash = h, rfRel = fePath item, rfCategory = '''', rfKind = kind\<rparr>, enIdentity := i\<rparr>, t'))"

definition rootChild :: "(hash \<Rightarrow> string) \<Rightarrow> Entry \<Rightarrow> rootEntry \<Rightarrow> Tree \<Rightarrow> Entry \<times> Tree" where
  "rootChild hex parent item t =
     (let h = tvHash (reView item);
          entry = \<lparr>enName = reName item, enPath = childPath (enPath parent) (reName item), enIsDir = False,
                   enSize = reSize item, enCreatedAt = tvCreatedAt (reView item), enModifiedAt = reModifiedAt item,
                   enIdentity = 0, enRef = rootRef\<rparr>
      in if reIsCategory item
         then let (i, t') = identity (categoryKey (reName item)) t
              in (entry\<lparr>enIsDir := True, enRef := \<lparr>rfHash = '''', rfRel = '''', rfCategory = reName item, rfKind = categoryKind\<rparr>,
                        enIdentity := i\<rparr>, t')
         else if reIsSubtitle item
         then let (i, t') = identity (fileKey hex h (rePath item)) t
              in (entry\<lparr>enRef := \<lparr>rfHash = h, rfRel = rePath item, rfCategory = '''', rfKind = subtitleKind\<rparr>, enIdentity := i\<rparr>, t')
         else case mediaRoot (reView item) of
                Some file \<Rightarrow>
                  let (i, t') = identity (fileKey hex h (fvPath file)) t
                  in (entry\<lparr>enSize := fvSize file,
                            enRef := \<lparr>rfHash = h, rfRel = fvPath file, rfCategory = '''', rfKind = payloadKind\<rparr>, enIdentity := i\<rparr>, t')
              | None \<Rightarrow>
                  let (i, t') = identity (torrentKey hex h) t
                  in (entry\<lparr>enIsDir := True, enRef := \<lparr>rfHash = h, rfRel = '''', rfCategory = '''', rfKind = directoryKind\<rparr>,
                            enIdentity := i\<rparr>, t'))"

fun map_tree :: "('a \<Rightarrow> Tree \<Rightarrow> Entry \<times> Tree) \<Rightarrow> 'a list \<Rightarrow> Tree \<Rightarrow> Entry list \<times> Tree" where
  "map_tree f [] t = ([], t)"
| "map_tree f (x # xs) t = (let (e, t1) = f x t; (es, t2) = map_tree f xs t1 in (e # es, t2))"

definition children :: "(hash \<Rightarrow> string) \<Rightarrow> Backend \<Rightarrow> Entry \<Rightarrow> Tree \<Rightarrow> (tree_error + Entry list) \<times> Tree" where
  "children hex bk parent t =
     (if \<not> enIsDir parent then (Inl ErrNotDir, t)
      else case rfKind (enRef parent) of
             directoryKind \<Rightarrow>
               (case directory bk (rfHash (enRef parent)) (rfRel (enRef parent)) t of
                  (Inl e, t1) \<Rightarrow> (Inl e, t1)
                | (Inr (contents, index), t1) \<Rightarrow>
                    let (es, t2) = map_tree (\<lambda>item. layoutChild hex parent item contents) (diEntries index) t1 in (Inr es, t2))
           | payloadKind \<Rightarrow> (Inr [], t)
           | subtitleKind \<Rightarrow> (Inr [], t)
           | _ \<Rightarrow>
               let (l, c) = observeListing (directories t);
                   views = bkTorrents bk;
                   t1 = finishDirectoryListing l (\<lambda>h. h \<in> set (map tvHash views)) (t\<lparr>directories := c\<rparr>);
                   categories = (case bkCategories bk of Some cs \<Rightarrow> cs | None \<Rightarrow> []);
                   (es, t2) = map_tree (rootChild hex parent) (VisibleRootEntries hex views categories (rfCategory (enRef parent))) t1
               in (Inr es, t2))"

fun lookup_loop :: "(hash \<Rightarrow> string) \<Rightarrow> Backend \<Rightarrow> Entry \<Rightarrow> string list \<Rightarrow> Tree \<Rightarrow> (tree_error + Entry) \<times> Tree" where
  "lookup_loop hex bk entry [] t = (Inr entry, t)"
| "lookup_loop hex bk entry (part # parts) t =
     (if rfKind (enRef entry) = directoryKind
      then case directory bk (rfHash (enRef entry)) (rfRel (enRef entry)) t of
             (Inl e, t1) \<Rightarrow> (Inl e, t1)
           | (Inr (contents, index), t1) \<Rightarrow>
               (case diByName index part of
                  None \<Rightarrow> (Inl ErrNotFound, t1)
                | Some child \<Rightarrow>
                    let (e, t2) = layoutChild hex entry child contents t1 in lookup_loop hex bk e parts t2)
      else case children hex bk entry t of
             (Inl e, t1) \<Rightarrow> (Inl e, t1)
           | (Inr es, t1) \<Rightarrow>
               (case List.find (\<lambda>c. enName c = part) es of
                  None \<Rightarrow> (Inl ErrNotFound, t1)
                | Some child \<Rightarrow> lookup_loop hex bk child parts t1))"

definition Lookup :: "(hash \<Rightarrow> string) \<Rightarrow> Backend \<Rightarrow> string \<Rightarrow> Tree \<Rightarrow> (tree_error + Entry) \<times> Tree" where
  "Lookup hex bk raw t =
     (case virtualParts raw of
        Inl e \<Rightarrow> (Inl e, t)
      | Inr parts \<Rightarrow> lookup_loop hex bk rootEntry0 parts t)"

definition Stat :: "(hash \<Rightarrow> string) \<Rightarrow> Backend \<Rightarrow> string \<Rightarrow> Tree \<Rightarrow> (tree_error + Entry) \<times> Tree" where
  "Stat hex bk raw t =
     (case Lookup hex bk raw t of
        (Inl e, t1) \<Rightarrow> (Inl e, t1)
      | (Inr entry, t1) \<Rightarrow>
          let refreshed =
                (case rfKind (enRef entry) of
                   payloadKind \<Rightarrow>
                     (case bkFileStat bk of
                        None \<Rightarrow> Inr entry
                      | Some source \<Rightarrow>
                          (case source (rfHash (enRef entry)) (rfRel (enRef entry)) of
                             Inl e \<Rightarrow> Inl e
                           | Inr info \<Rightarrow> Inr (entry\<lparr>enSize := fsSize info, enCreatedAt := fsCreatedAt info\<rparr>)))
                 | subtitleKind \<Rightarrow>
                     (case bkSubtitleStat bk of
                        None \<Rightarrow> Inr entry
                      | Some source \<Rightarrow>
                          (case source (rfHash (enRef entry)) (rfRel (enRef entry)) of
                             Inl e \<Rightarrow> Inl e
                           | Inr info \<Rightarrow> Inr (entry\<lparr>enSize := ssSize info, enModifiedAt := ssModifiedAt info\<rparr>)))
                 | _ \<Rightarrow> Inr entry)
          in case refreshed of
               Inl e \<Rightarrow> (Inl e, t1)
             | Inr entry \<Rightarrow> if enSize entry < 0 then (Inl ErrInvalidName, t1) else (Inr entry, t1))"

subsection \<open>Opened directories\<close>

definition same_snapshot :: "Entry \<Rightarrow> TorrentContents \<Rightarrow> Directory \<Rightarrow> bool" where
  "same_snapshot entry contents d \<longleftrightarrow> enPath (drEntry d) = enPath entry \<and> enCreatedAt (drEntry d) = tcCreatedAt contents"

text \<open>The pointer \<open>index.snapshot\<close> of the index of a version.\<close>

definition index_snapshot :: "directoryIndex \<Rightarrow> string \<Rightarrow> Tree \<Rightarrow> nat option" where
  "index_snapshot index pre t =
     (case map_of (dvPrefixes (versions t (diOwner index))) pre of None \<Rightarrow> None | Some i \<Rightarrow> diSnapshot i)"

definition set_snapshot :: "directoryIndex \<Rightarrow> string \<Rightarrow> nat \<Rightarrow> Tree \<Rightarrow> Tree" where
  "set_snapshot index pre d t =
     (let v = diOwner index
      in case map_of (dvPrefixes (versions t v)) pre of
           None \<Rightarrow> t
         | Some i \<Rightarrow>
             t\<lparr>versions := (versions t)(v := (versions t v)\<lparr>dvPrefixes := aput pre (i\<lparr>diSnapshot := Some d\<rparr>) (dvPrefixes (versions t v))\<rparr>)\<rparr>)"

text \<open>A snapshot that is still good is returned; when its version lost the cache it is evicted.\<close>

definition reuse_snapshot :: "hash \<Rightarrow> directoryIndex \<Rightarrow> nat \<Rightarrow> Tree \<Rightarrow> Tree" where
  "reuse_snapshot h index d t =
     (if currentLocked h (directories t) \<noteq> Some (diOwner index) then evict d t else t)"

definition publish_snapshot ::
  "Entry \<Rightarrow> Entry list \<Rightarrow> directoryIndex \<Rightarrow> string \<Rightarrow> Tree \<Rightarrow> nat \<times> Tree" where
  "publish_snapshot entry es index pre t =
     (let d = nextObj t;
          dir = \<lparr>drEntry = entry, drEntries = es, drVersion = Suc (nextVersion t),
                 drCacheable = (currentLocked (rfHash (enRef entry)) (directories t) = Some (diOwner index)), drCleanups = []\<rparr>;
          previous = index_snapshot index pre t;
          t1 = set_snapshot index pre d
                 (t\<lparr>nextVersion := Suc (nextVersion t), nextObj := Suc d, snapshots := (snapshots t)(d := dir)\<rparr>)
      in (d, case previous of None \<Rightarrow> t1 | Some p \<Rightarrow> evict p t1))"

definition good_snapshot :: "Entry \<Rightarrow> TorrentContents \<Rightarrow> directoryIndex \<Rightarrow> string \<Rightarrow> Tree \<Rightarrow> nat option" where
  "good_snapshot entry contents index pre t =
     (case index_snapshot index pre t of
        None \<Rightarrow> None
      | Some d \<Rightarrow> if same_snapshot entry contents (snapshots t d) then Some d else None)"

text \<open>The last locked section looks for a snapshot again before it publishes its own.\<close>

definition install_snapshot ::
  "Entry \<Rightarrow> TorrentContents \<Rightarrow> Entry list \<Rightarrow> directoryIndex \<Rightarrow> string \<Rightarrow> Tree \<Rightarrow> nat \<times> Tree" where
  "install_snapshot entry contents es index pre t =
     (case good_snapshot entry contents index pre t of
        Some d \<Rightarrow> (d, reuse_snapshot (rfHash (enRef entry)) index d t)
      | None \<Rightarrow> publish_snapshot (entry\<lparr>enCreatedAt := tcCreatedAt contents\<rparr>) es index pre t)"

definition OpenDir :: "(hash \<Rightarrow> string) \<Rightarrow> Backend \<Rightarrow> string \<Rightarrow> Tree \<Rightarrow> (tree_error + nat) \<times> Tree" where
  "OpenDir hex bk raw t =
     (case Lookup hex bk raw t of
        (Inl e, t1) \<Rightarrow> (Inl e, t1)
      | (Inr entry, t1) \<Rightarrow>
          if \<not> enIsDir entry then (Inl ErrNotDir, t1)
          else if rfKind (enRef entry) \<noteq> directoryKind
          then (case children hex bk entry t1 of
                  (Inl e, t2) \<Rightarrow> (Inl e, t2)
                | (Inr es, t2) \<Rightarrow>
                    let d = nextObj t2
                    in (Inr d, t2\<lparr>nextVersion := Suc (nextVersion t2), nextObj := Suc d,
                                  snapshots := (snapshots t2)(d := \<lparr>drEntry = entry, drEntries = es,
                                    drVersion = Suc (nextVersion t2), drCacheable = False, drCleanups = []\<rparr>)\<rparr>))
          else
            let h = rfHash (enRef entry); pre = rfRel (enRef entry)
            in case directory bk h pre t1 of
                 (Inl e, t2) \<Rightarrow> (Inl e, t2)
               | (Inr (contents, index), t2) \<Rightarrow>
                   (case good_snapshot entry contents index pre t2 of
                      Some d \<Rightarrow> (Inr d, reuse_snapshot h index d t2)
                    | None \<Rightarrow>
                        let (es, t3) = map_tree (\<lambda>item. layoutChild hex entry item contents) (diEntries index) t2;
                            (d, t4) = install_snapshot entry contents es index pre t3
                        in (Inr d, t4)))"

definition ReadDir :: "(hash \<Rightarrow> string) \<Rightarrow> Backend \<Rightarrow> string \<Rightarrow> Tree \<Rightarrow> (tree_error + Entry list) \<times> Tree" where
  "ReadDir hex bk raw t =
     (case OpenDir hex bk raw t of
        (Inl e, t1) \<Rightarrow> (Inl e, t1)
      | (Inr d, t1) \<Rightarrow> (Inr (drEntries (snapshots t1 d)), t1))"

subsection \<open>Opened files\<close>

record Handle =
  hdEntry :: Entry
  hdReader :: nat
  hdCancelled :: bool
  hdClosed :: bool
  hdOnce :: bool
  hdErr :: "tree_error option"

text \<open>
  \<open>closeReader\<close> closes a reader that is a closer: None when it is not one, else its error. The last
  component of a result lists the readers that were closed.
\<close>

definition Open :: "(nat \<Rightarrow> tree_error option option) \<Rightarrow> (hash \<Rightarrow> string) \<Rightarrow> Backend \<Rightarrow> string \<Rightarrow> Tree \<Rightarrow> (tree_error + Handle) \<times> Tree \<times> nat list" where
  "Open closeReader hex bk raw t =
     (case Lookup hex bk raw t of
        (Inl e, t1) \<Rightarrow> (Inl e, t1, [])
      | (Inr entry, t1) \<Rightarrow>
          if enIsDir entry then (Inl ErrIsDir, t1, [])
          else
            let h = rfHash (enRef entry); rel = rfRel (enRef entry);
                opened =
                  (if rfKind (enRef entry) = subtitleKind
                   then (case bkOpenSubtitle bk of
                           None \<Rightarrow> Inl ErrNotFound
                         | Some source \<Rightarrow>
                             (case source h rel of
                                Inl e \<Rightarrow> Inl e
                              | Inr (r, info) \<Rightarrow> Inr (r, entry\<lparr>enSize := ssSize info, enModifiedAt := ssModifiedAt info\<rparr>)))
                   else (case bkOpenSnapshot bk of
                           Some source \<Rightarrow>
                             (case source h rel of
                                Inl e \<Rightarrow> Inl e
                              | Inr (r, info) \<Rightarrow> Inr (r, entry\<lparr>enSize := fsSize info, enCreatedAt := fsCreatedAt info\<rparr>))
                         | None \<Rightarrow> (case bkOpenFile bk h rel of Inl e \<Rightarrow> Inl e | Inr r \<Rightarrow> Inr (r, entry))))
            in case opened of
                 Inl e \<Rightarrow> (Inl e, t1, [])
               | Inr (None, entry) \<Rightarrow> (Inl ErrInvalidName, t1, [])
               | Inr (Some r, entry) \<Rightarrow>
                   if enSize entry < 0 then (Inl ErrInvalidName, t1, if closeReader r \<noteq> None then [r] else [])
                   else (Inr \<lparr>hdEntry = entry, hdReader = r, hdCancelled = False, hdClosed = False, hdOnce = False, hdErr = None\<rparr>, t1, []))"

text \<open>
  \<open>ReadAtContext\<close>: \<open>cancelled\<close> is the state of the caller's context, \<open>readReader\<close> the call of the
  underlying reader.
\<close>

definition handle_read ::
  "(nat \<Rightarrow> int \<Rightarrow> int \<Rightarrow> 'b) \<Rightarrow> (tree_error \<Rightarrow> 'b) \<Rightarrow> bool \<Rightarrow> int \<Rightarrow> int \<Rightarrow> Handle \<Rightarrow> 'b" where
  "handle_read readReader failed cancelled len off hn =
     (if hdClosed hn then failed ErrClosed
      else if off < 0 then failed ErrInvalidName
      else if cancelled \<or> hdCancelled hn then failed (BackendError ''context canceled'')
      else readReader (hdReader hn) len off)"

definition CloseHandle :: "(nat \<Rightarrow> tree_error option option) \<Rightarrow> Handle \<Rightarrow> tree_error option \<times> Handle \<times> nat list" where
  "CloseHandle closeReader hn =
     (if hdOnce hn then (hdErr hn, hn, [])
      else case closeReader (hdReader hn) of
             None \<Rightarrow> (hdErr hn, hn\<lparr>hdOnce := True, hdCancelled := True, hdClosed := True\<rparr>, [])
           | Some e \<Rightarrow> (e, hn\<lparr>hdOnce := True, hdCancelled := True, hdClosed := True, hdErr := e\<rparr>, [hdReader hn]))"

section \<open>Specification without caches\<close>

definition spec_directory :: "Backend \<Rightarrow> hash \<Rightarrow> string \<Rightarrow> tree_error + TorrentContents \<times> fsEntry list" where
  "spec_directory bk h pre =
     (case torrentContents bk h of
        Inl e \<Rightarrow> Inl e
      | Inr contents \<Rightarrow>
          if tcSingleFile contents \<and> length (tcFiles contents) = 1 then Inl ErrNotFound
          else let es = childrenOfViews (tcFiles contents) (tcSubtitles contents) pre
               in if pre \<noteq> '''' \<and> es = [] then Inl ErrNotFound else Inr (contents, es))"

text \<open>The entries of a directory without their identity.\<close>

definition child_of :: "Entry \<Rightarrow> time \<Rightarrow> fsEntry \<Rightarrow> Entry" where
  "child_of parent created item =
     \<lparr>enName = feName item, enPath = childPath (enPath parent) (feName item), enIsDir = feIsDir item,
      enSize = feSize item, enCreatedAt = created, enModifiedAt = feModifiedAt item, enIdentity = 0,
      enRef = (if feIsDir item
               then \<lparr>rfHash = rfHash (enRef parent), rfRel = joinRel (rfRel (enRef parent)) (feName item), rfCategory = '''',
                     rfKind = directoryKind\<rparr>
               else \<lparr>rfHash = rfHash (enRef parent), rfRel = fePath item, rfCategory = '''',
                     rfKind = (if feIsSubtitle item then subtitleKind else payloadKind)\<rparr>)\<rparr>"

definition root_child_of :: "Entry \<Rightarrow> rootEntry \<Rightarrow> Entry" where
  "root_child_of parent item =
     \<lparr>enName = reName item, enPath = childPath (enPath parent) (reName item),
      enIsDir = (reIsCategory item \<or> \<not> reIsSubtitle item \<and> mediaRoot (reView item) = None),
      enSize = (if reIsCategory item \<or> reIsSubtitle item then reSize item
                else case mediaRoot (reView item) of Some file \<Rightarrow> fvSize file | None \<Rightarrow> reSize item),
      enCreatedAt = tvCreatedAt (reView item), enModifiedAt = reModifiedAt item, enIdentity = 0,
      enRef = (if reIsCategory item
               then \<lparr>rfHash = '''', rfRel = '''', rfCategory = reName item, rfKind = categoryKind\<rparr>
               else if reIsSubtitle item
               then \<lparr>rfHash = tvHash (reView item), rfRel = rePath item, rfCategory = '''', rfKind = subtitleKind\<rparr>
               else case mediaRoot (reView item) of
                      Some file \<Rightarrow> \<lparr>rfHash = tvHash (reView item), rfRel = fvPath file, rfCategory = '''', rfKind = payloadKind\<rparr>
                    | None \<Rightarrow> \<lparr>rfHash = tvHash (reView item), rfRel = '''', rfCategory = '''', rfKind = directoryKind\<rparr>)\<rparr>"

definition spec_children :: "(hash \<Rightarrow> string) \<Rightarrow> Backend \<Rightarrow> Entry \<Rightarrow> tree_error + Entry list" where
  "spec_children hex bk parent =
     (if \<not> enIsDir parent then Inl ErrNotDir
      else case rfKind (enRef parent) of
             directoryKind \<Rightarrow>
               (case spec_directory bk (rfHash (enRef parent)) (rfRel (enRef parent)) of
                  Inl e \<Rightarrow> Inl e
                | Inr (contents, items) \<Rightarrow> Inr (map (child_of parent (tcCreatedAt contents)) items))
           | payloadKind \<Rightarrow> Inr []
           | subtitleKind \<Rightarrow> Inr []
           | _ \<Rightarrow> Inr (map (root_child_of parent)
                    (VisibleRootEntries hex (bkTorrents bk) (case bkCategories bk of Some cs \<Rightarrow> cs | None \<Rightarrow> [])
                       (rfCategory (enRef parent)))))"

fun spec_walk :: "(hash \<Rightarrow> string) \<Rightarrow> Backend \<Rightarrow> Entry \<Rightarrow> string list \<Rightarrow> tree_error + Entry" where
  "spec_walk hex bk entry [] = Inr entry"
| "spec_walk hex bk entry (part # parts) =
     (case spec_children hex bk entry of
        Inl e \<Rightarrow> Inl e
      | Inr es \<Rightarrow> (case List.find (\<lambda>c. enName c = part) es of
                     None \<Rightarrow> Inl ErrNotFound
                   | Some child \<Rightarrow> spec_walk hex bk child parts))"

definition strip :: "Entry \<Rightarrow> Entry" where
  "strip e = e\<lparr>enIdentity := 0\<rparr>"

definition spec_lookup :: "(hash \<Rightarrow> string) \<Rightarrow> Backend \<Rightarrow> string \<Rightarrow> tree_error + Entry" where
  "spec_lookup hex bk raw =
     (case virtualParts raw of Inl e \<Rightarrow> Inl e | Inr parts \<Rightarrow> spec_walk hex bk (strip rootEntry0) parts)"

definition spec_readdir :: "(hash \<Rightarrow> string) \<Rightarrow> Backend \<Rightarrow> string \<Rightarrow> tree_error + Entry list" where
  "spec_readdir hex bk raw =
     (case spec_lookup hex bk raw of Inl e \<Rightarrow> Inl e | Inr d \<Rightarrow> spec_children hex bk d)"

section \<open>Invariant\<close>

definition version_ok :: "(nat \<Rightarrow> FileView list) \<Rightarrow> nat \<Rightarrow> directoryVersion \<Rightarrow> bool" where
  "version_ok listOf v dv \<longleftrightarrow>
     (\<forall>i. dvFilesID dv = Some i \<longrightarrow> dvFiles dv = listOf i)
     \<and> (\<forall>p ix. map_of (dvPrefixes dv) p = Some ix \<longrightarrow>
          diEntries ix = childrenOfViews (dvFiles dv) (dvSubtitles dv) p
          \<and> diByName ix = map_of (map (\<lambda>e. (feName e, e)) (diEntries ix)) \<and> diOwner ix = v)"

definition keys_of :: "(hash \<Rightarrow> string) \<Rightarrow> reference \<Rightarrow> string set" where
  "keys_of hex r =
     (case rfKind r of
        rootKind \<Rightarrow> {[slash]}
      | categoryKind \<Rightarrow> {categoryKey (rfCategory r)}
      | directoryKind \<Rightarrow> insert (dirKey hex (rfHash r) (rfRel r)) (if rfRel r = '''' then {torrentKey hex (rfHash r)} else {})
      | _ \<Rightarrow> {fileKey hex (rfHash r) (rfRel r)})"

definition tagged :: "(hash \<Rightarrow> string) \<Rightarrow> Tree \<Rightarrow> Entry \<Rightarrow> bool" where
  "tagged hex t e \<longleftrightarrow> (\<exists>k \<in> keys_of hex (enRef e). ids t k = Some (enIdentity e))"

definition ids_ok :: "Tree \<Rightarrow> bool" where
  "ids_ok t \<longleftrightarrow> (\<forall>k i. ids t k = Some i \<longrightarrow> i \<le> nextID t) \<and> (\<forall>k k' i. ids t k = Some i \<longrightarrow> ids t k' = Some i \<longrightarrow> k = k')
     \<and> ids t [slash] = Some 1"

definition owners_ok :: "Tree \<Rightarrow> bool" where
  "owners_ok t \<longleftrightarrow> slots_ok (directories t)
     \<and> (\<forall>h v. currentLocked h (directories t) = Some v \<longrightarrow> v < nextObj t)
     \<and> (\<forall>h h' v. currentLocked h (directories t) = Some v \<longrightarrow> currentLocked h' (directories t) = Some v \<longrightarrow> h = h')"

text \<open>A directory snapshot that an index holds lists what the index lists.\<close>

definition snap_ok :: "(hash \<Rightarrow> string) \<Rightarrow> Tree \<Rightarrow> nat \<Rightarrow> string \<Rightarrow> directoryIndex \<Rightarrow> nat \<Rightarrow> bool" where
  "snap_ok hex t v p ix d \<longleftrightarrow>
     d < nextObj t
     \<and> map strip (drEntries (snapshots t d)) =
         map (child_of (drEntry (snapshots t d)) (enCreatedAt (drEntry (snapshots t d)))) (diEntries ix)
     \<and> rfRel (enRef (drEntry (snapshots t d))) = p
     \<and> (\<forall>h. currentLocked h (directories t) = Some v \<longrightarrow> rfHash (enRef (drEntry (snapshots t d))) = h)
     \<and> (\<forall>e \<in> set (drEntries (snapshots t d)). tagged hex t e)"

definition snaps_ok :: "(hash \<Rightarrow> string) \<Rightarrow> Tree \<Rightarrow> bool" where
  "snaps_ok hex t \<longleftrightarrow> (\<forall>v p ix d. map_of (dvPrefixes (versions t v)) p = Some ix \<longrightarrow> diSnapshot ix = Some d \<longrightarrow> snap_ok hex t v p ix d)"

definition tree_ok :: "(hash \<Rightarrow> string) \<Rightarrow> (nat \<Rightarrow> FileView list) \<Rightarrow> Tree \<Rightarrow> bool" where
  "tree_ok hex listOf t \<longleftrightarrow> (\<forall>v. version_ok listOf v (versions t v)) \<and> ids_ok t \<and> owners_ok t \<and> snaps_ok hex t"

text \<open>The backend keeps the promise of \<open>FileListID\<close>: an identity names one immutable list.\<close>

definition backend_ok :: "(nat \<Rightarrow> FileView list) \<Rightarrow> Backend \<Rightarrow> bool" where
  "backend_ok listOf bk \<longleftrightarrow>
     (\<forall>h c i. torrentContents bk h = Inr c \<longrightarrow> tcFilesID c = Some i \<longrightarrow> tcFiles c = listOf i)"

definition ids_le :: "Tree \<Rightarrow> Tree \<Rightarrow> bool" where
  "ids_le t t' \<longleftrightarrow> ids t \<subseteq>\<^sub>m ids t'"

lemma ids_le_refl [simp]: "ids_le t t"
  by (simp add: ids_le_def)

lemma ids_le_trans: "ids_le t t' \<Longrightarrow> ids_le t' t'' \<Longrightarrow> ids_le t t''"
  by (auto simp: ids_le_def intro: map_le_trans)

lemma tagged_mono: "tagged hex t e \<Longrightarrow> ids_le t t' \<Longrightarrow> tagged hex t' e"
  by (auto simp: tagged_def ids_le_def map_le_def dom_def) metis

subsection \<open>Changes the invariant survives\<close>

text \<open>A change of the snapshot cache that forgets at most, and an eviction of snapshots.\<close>

lemma tree_ok_cache:
  assumes "tree_ok hex listOf t" "slots_ok c"
    "\<And>h. currentLocked h c = currentLocked h (directories t) \<or> currentLocked h c = None"
  shows "tree_ok hex listOf (t\<lparr>directories := c\<rparr>)"
proof -
  have c: "currentLocked h c = Some v \<Longrightarrow> currentLocked h (directories t) = Some v" for h v using assms(3) [of h] by auto
  then have "owners_ok (t\<lparr>directories := c\<rparr>)" using assms(1,2) unfolding tree_ok_def owners_ok_def by simp metis
  moreover have "snaps_ok hex (t\<lparr>directories := c\<rparr>)"
    using assms(1) c by (auto simp: tree_ok_def snaps_ok_def snap_ok_def tagged_def)
  ultimately show ?thesis using assms(1) by (simp add: tree_ok_def ids_ok_def)
qed

lemma evict_frame [simp]:
  "ids (evict d t) = ids t" "nextID (evict d t) = nextID t" "versions (evict d t) = versions t"
  "directories (evict d t) = directories t" "nextObj (evict d t) = nextObj t"
  "drEntry (snapshots (evict d t) x) = drEntry (snapshots t x)"
  "drEntries (snapshots (evict d t) x) = drEntries (snapshots t x)"
  by (simp_all add: evict_def)

lemma tagged_cong: "ids t' = ids t \<Longrightarrow> tagged hex t' e = tagged hex t e"
  by (simp add: tagged_def)

lemma tree_ok_evict [simp]: "tree_ok hex listOf (evict d t) = tree_ok hex listOf t"
  by (simp add: tree_ok_def ids_ok_def owners_ok_def snaps_ok_def snap_ok_def tagged_cong [of "evict d t" t])

lemma fold_evict_frame:
  "tree_ok hex listOf (fold evict ds t) = tree_ok hex listOf t" "ids (fold evict ds t) = ids t"
  "versions (fold evict ds t) = versions t" "directories (fold evict ds t) = directories t"
  by (induction ds arbitrary: t) simp_all

lemma evictVersion_frame [simp]:
  "tree_ok hex listOf (evictDirectoryVersion v t) = tree_ok hex listOf t"
  "ids (evictDirectoryVersion v t) = ids t" "versions (evictDirectoryVersion v t) = versions t"
  "directories (evictDirectoryVersion v t) = directories t"
  by (auto simp: evictDirectoryVersion_def fold_evict_frame split: option.splits)

lemma owners_slots: "tree_ok hex listOf t \<Longrightarrow> slots_ok (directories t)"
  by (simp add: tree_ok_def owners_ok_def)

lemma forgetDirectory_ok:
  assumes "tree_ok hex listOf t"
  shows "tree_ok hex listOf (forgetDirectory h ob t)" "ids (forgetDirectory h ob t) = ids t"
proof -
  have "tree_ok hex listOf (t\<lparr>directories := forgetLocked h ob (directories t)\<rparr>)"
    by (rule tree_ok_cache [OF assms]) (auto simp: current_forget slots_ok_forget owners_slots [OF assms])
  then show "tree_ok hex listOf (forgetDirectory h ob t)" "ids (forgetDirectory h ob t) = ids t"
    by (simp_all add: forgetDirectory_def Let_def)
qed

lemma fold_evictVersion_frame:
  "tree_ok hex listOf (fold (\<lambda>(h, v). evictDirectoryVersion (Some v)) xs t) = tree_ok hex listOf t"
  "ids (fold (\<lambda>(h, v). evictDirectoryVersion (Some v)) xs t) = ids t"
  by (induction xs arbitrary: t) (auto simp: split_beta)

lemma finishDirectoryListing_ok:
  assumes "tree_ok hex listOf t"
  shows "tree_ok hex listOf (finishDirectoryListing l live t)" "ids (finishDirectoryListing l live t) = ids t"
proof -
  have "tree_ok hex listOf (t\<lparr>directories := finishListing l live (directories t)\<rparr>)"
    by (rule tree_ok_cache [OF assms])
      (auto simp: current_finishListing finishListing_effect(9) owners_slots [OF assms])
  then show "tree_ok hex listOf (finishDirectoryListing l live t)" "ids (finishDirectoryListing l live t) = ids t"
    by (simp_all add: finishDirectoryListing_def Let_def fold_evictVersion_frame)
qed

lemma finish_ok:
  assumes "tree_ok hex listOf t"
  shows "tree_ok hex listOf (t\<lparr>directories := finish h ob (directories t)\<rparr>)"
  by (rule tree_ok_cache [OF assms]) (auto simp: current_finish slots_ok_finish owners_slots [OF assms])

lemma observe_ok:
  assumes "tree_ok hex listOf t" "observe h (directories t) = (ob, c)"
  shows "tree_ok hex listOf (t\<lparr>directories := c\<rparr>)"
  by (rule tree_ok_cache [OF assms(1)])
    (auto simp: current_observe [OF owners_slots [OF assms(1)] assms(2)] slots_ok_observe [OF owners_slots [OF assms(1)] assms(2)])

subsection \<open>The directory cache is transparent\<close>

lemma fold_byName: "fold (\<lambda>e m. m(feName e \<mapsto> e)) xs m = m ++ map_of (map (\<lambda>e. (feName e, e)) (rev xs))"
  by (induction xs arbitrary: m) (simp_all add: map_add_upd_left)

lemma build_index_ok:
  "diEntries (build_index dv v p) = childrenOfViews (dvFiles dv) (dvSubtitles dv) p"
  "diByName (build_index dv v p) = map_of (map (\<lambda>e. (feName e, e)) (childrenOfViews (dvFiles dv) (dvSubtitles dv) p))"
  "diOwner (build_index dv v p) = v" "diSnapshot (build_index dv v p) = None"
proof -
  let ?es = "childrenOfViews (dvFiles dv) (dvSubtitles dv) p"
  have "distinct (map fst (map (\<lambda>e. (feName e, e)) ?es))" using children_distinct by (simp add: comp_def)
  then have "map_of (rev (map (\<lambda>e. (feName e, e)) ?es)) = map_of (map (\<lambda>e. (feName e, e)) ?es)"
    by (metis distinct_rev map_of_inject_set rev_map set_rev)
  then show "diByName (build_index dv v p) = map_of (map (\<lambda>e. (feName e, e)) ?es)"
    by (simp add: build_index_def Let_def fold_byName rev_map)
qed (simp_all add: build_index_def Let_def)

lemma choose_version_ok:
  assumes t: "tree_ok hex listOf t" and k: "\<And>i. tcFilesID contents = Some i \<Longrightarrow> tcFiles contents = listOf i"
    and c: "choose_version h contents ob t = (v, r, t1)"
  shows "tree_ok hex listOf t1" "ids t1 = ids t" "dvFiles (versions t1 v) = tcFiles contents"
    "dvSubtitles (versions t1 v) = tcSubtitles contents"
    "{x. currentLocked x (directories t1) = Some v} \<subseteq> {h}"
    "dvPrefixes (versions t1 v) \<noteq> [] \<Longrightarrow> currentLocked h (directories t1) = Some v"
proof -
  let ?pick = "case currentLocked h (directories t) of
                 Some w \<Rightarrow> if version_stale (versions t w) contents then None else Some w | None \<Rightarrow> None"
  obtain b c' where pub: "publishLocked h ob (nextObj t) (directories t) = (b, c')"
    by (cases "publishLocked h ob (nextObj t) (directories t)")
  consider (old) "t1 = t" "\<not> version_stale (versions t v) contents" "currentLocked h (directories t) = Some v"
    | (new) "v = nextObj t" "publishLocked h ob v (directories t) = (b, c')"
      "t1 = t\<lparr>versions := (versions t)(v := \<lparr>dvFilesID = tcFilesID contents, dvFiles = tcFiles contents,
                          dvSubtitles = tcSubtitles contents, dvPrefixes = []\<rparr>), nextObj := Suc v, directories := c'\<rparr>"
  proof (cases ?pick)
    case None
    then have "v = nextObj t" "t1 = t\<lparr>versions := (versions t)(v := \<lparr>dvFilesID = tcFilesID contents, dvFiles = tcFiles contents,
                          dvSubtitles = tcSubtitles contents, dvPrefixes = []\<rparr>), nextObj := Suc v, directories := c'\<rparr>"
      using c pub by (auto simp: choose_version_def Let_def)
    then show ?thesis using pub new by simp
  next
    case (Some w)
    then have "\<not> version_stale (versions t w) contents" "currentLocked h (directories t) = Some w"
      by (auto split: option.splits if_splits)
    then show ?thesis using Some c old by (simp add: choose_version_def Let_def)
  qed
  then have "tree_ok hex listOf t1 \<and> ids t1 = ids t \<and> dvFiles (versions t1 v) = tcFiles contents
    \<and> dvSubtitles (versions t1 v) = tcSubtitles contents \<and> {x. currentLocked x (directories t1) = Some v} \<subseteq> {h}
    \<and> (dvPrefixes (versions t1 v) \<noteq> [] \<longrightarrow> currentLocked h (directories t1) = Some v)"
  proof cases
    case old
    have "version_ok listOf v (versions t v)" using t by (simp add: tree_ok_def)
    moreover have "{x. currentLocked x (directories t) = Some v} \<subseteq> {h}"
      using t old(3) by (auto simp: tree_ok_def owners_ok_def)
    moreover have "dvFiles (versions t v) = tcFiles contents" "dvSubtitles (versions t v) = tcSubtitles contents"
      using calculation(1) old(2) k by (cases "tcFilesID contents"; auto simp: version_stale_def version_ok_def)+
    ultimately show ?thesis using old t by simp
  next
    case new
    note sl = owners_slots [OF t]
    have cl: "currentLocked x c' = (if b \<and> x = h then Some v else currentLocked x (directories t))" for x
      by (rule current_publish [OF sl new(2)])
    have lt: "currentLocked x (directories t) = Some w \<Longrightarrow> w < nextObj t" for x w
      using t by (auto simp: tree_ok_def owners_ok_def)
    have "owners_ok t1"
      using t slots_ok_publish [OF sl new(2)] lt unfolding owners_ok_def tree_ok_def new(1,3)
      by (auto simp: cl new(1) less_SucI split: if_splits)
    moreover have "snaps_ok hex t1"
      using t unfolding snaps_ok_def tree_ok_def
      by (force simp: new(3) new(1) snap_ok_def cl tagged_def less_SucI split: if_splits)
    moreover have "version_ok listOf x (versions t1 x)" for x
      using t k by (auto simp: new(3) tree_ok_def version_ok_def)
    moreover have "{x. currentLocked x c' = Some v} \<subseteq> {h}"
      using lt by (fastforce simp: cl new(1) split: if_splits)
    ultimately show ?thesis using t by (simp add: tree_ok_def ids_ok_def new(3))
  qed
  then show "tree_ok hex listOf t1" "ids t1 = ids t" "dvFiles (versions t1 v) = tcFiles contents"
    "dvSubtitles (versions t1 v) = tcSubtitles contents"
    "{x. currentLocked x (directories t1) = Some v} \<subseteq> {h}"
    "dvPrefixes (versions t1 v) \<noteq> [] \<Longrightarrow> currentLocked h (directories t1) = Some v" by auto
qed

text \<open>What \<open>index_directory\<close> returns: the children of the given contents, whatever the cache holds.\<close>

definition owner_ok :: "hash \<Rightarrow> directoryIndex \<Rightarrow> Tree \<Rightarrow> bool" where
  "owner_ok h ix t \<longleftrightarrow> {x. currentLocked x (directories t) = Some (diOwner ix)} \<subseteq> {h}
     \<and> (diSnapshot ix \<noteq> None \<longrightarrow> currentLocked h (directories t) = Some (diOwner ix))"

definition index_for :: "TorrentContents \<Rightarrow> string \<Rightarrow> directoryIndex \<Rightarrow> bool" where
  "index_for contents pre ix \<longleftrightarrow>
     diEntries ix = childrenOfViews (tcFiles contents) (tcSubtitles contents) pre
     \<and> diByName ix = map_of (map (\<lambda>e. (feName e, e)) (diEntries ix))"

lemma store_index_ok:
  assumes "tree_ok hex listOf t" "map_of (dvPrefixes (versions t v)) p = None"
  shows "tree_ok hex listOf (t\<lparr>versions := (versions t)(v := (versions t v)\<lparr>dvPrefixes :=
            aput p (build_index (versions t v) v p) (dvPrefixes (versions t v))\<rparr>)\<rparr>)" (is "tree_ok hex listOf ?t")
proof -
  have "version_ok listOf x (versions ?t x)" for x
    using assms(1) by (auto simp: tree_ok_def version_ok_def build_index_ok)
  moreover have "snaps_ok hex ?t"
    using assms(1) unfolding snaps_ok_def tree_ok_def by (auto simp: build_index_ok snap_ok_def tagged_def)
  ultimately show ?thesis using assms(1) by (simp add: tree_ok_def ids_ok_def owners_ok_def)
qed

lemma index_directory_ok:
  assumes t: "tree_ok hex listOf t" and k: "\<And>i. tcFilesID contents = Some i \<Longrightarrow> tcFiles contents = listOf i"
    and d: "index_directory h pre contents ob t = (ix, t')"
  shows "tree_ok hex listOf t'" "ids t' = ids t" "index_for contents pre ix" "owner_ok h ix t'"
    "pre = '''' \<or> diEntries ix \<noteq> [] \<Longrightarrow> map_of (dvPrefixes (versions t' (diOwner ix))) pre = Some ix"
proof -
  obtain v r t1 where c: "choose_version h contents ob t = (v, r, t1)" by (metis prod_cases3)
  note co = choose_version_ok [OF t k c]
  have "tree_ok hex listOf t' \<and> ids t' = ids t \<and> index_for contents pre ix \<and> owner_ok h ix t'
    \<and> (pre = '''' \<or> diEntries ix \<noteq> [] \<longrightarrow> map_of (dvPrefixes (versions t' (diOwner ix))) pre = Some ix)"
  proof (cases "map_of (dvPrefixes (versions t1 v)) pre")
    case (Some i)
    then have ix: "ix = i" "t' = evictDirectoryVersion r t1" using d c by (auto simp: index_directory_def)
    have "version_ok listOf v (versions t1 v)" using co(1) by (simp add: tree_ok_def)
    then have "index_for contents pre i" "diOwner i = v" using Some co(3,4) by (simp_all add: version_ok_def index_for_def)
    moreover have "currentLocked h (directories t1) = Some v" using Some by (intro co(6)) auto
    ultimately show ?thesis using Some co(1,2,5) by (simp add: ix owner_ok_def)
  next
    case None
    let ?ix = "build_index (versions t1 v) v pre"
    have "ix = ?ix" "t' = evictDirectoryVersion r (if pre = '''' \<or> diEntries ?ix \<noteq> []
        then t1\<lparr>versions := (versions t1)(v := (versions t1 v)\<lparr>dvPrefixes := aput pre ?ix (dvPrefixes (versions t1 v))\<rparr>)\<rparr> else t1)"
      using d c None by (auto simp: index_directory_def Let_def)
    then show ?thesis using co store_index_ok [OF co(1) None] by (auto simp: build_index_ok index_for_def owner_ok_def)
  qed
  then show "tree_ok hex listOf t'" "ids t' = ids t" "index_for contents pre ix" "owner_ok h ix t'"
    "pre = '''' \<or> diEntries ix \<noteq> [] \<Longrightarrow> map_of (dvPrefixes (versions t' (diOwner ix))) pre = Some ix" by auto
qed

lemma directory_ok:
  assumes t: "tree_ok hex listOf t" and bk: "backend_ok listOf bk" and d: "directory bk h pre t = (r, t')"
  shows "tree_ok hex listOf t'" "ids t' = ids t"
    "case r of Inl e \<Rightarrow> spec_directory bk h pre = Inl e
     | Inr (contents, ix) \<Rightarrow> spec_directory bk h pre = Inr (contents, diEntries ix) \<and> index_for contents pre ix \<and> owner_ok h ix t'
         \<and> map_of (dvPrefixes (versions t' (diOwner ix))) pre = Some ix"
proof -
  obtain ob c where ob: "observe h (directories t) = (ob, c)" by (cases "observe h (directories t)")
  let ?t0 = "t\<lparr>directories := c\<rparr>" and ?fin = "\<lambda>t. t\<lparr>directories := finish h ob (directories t)\<rparr>"
  have t0: "tree_ok hex listOf ?t0" by (rule observe_ok [OF t ob])
  have "tree_ok hex listOf t' \<and> ids t' = ids t \<and> (case r of Inl e \<Rightarrow> spec_directory bk h pre = Inl e
     | Inr (contents, ix) \<Rightarrow> spec_directory bk h pre = Inr (contents, diEntries ix) \<and> index_for contents pre ix \<and> owner_ok h ix t'
         \<and> map_of (dvPrefixes (versions t' (diOwner ix))) pre = Some ix)"
  proof (cases "torrentContents bk h")
    case (Inl e)
    then have "r = Inl e" "t' = ?fin (forgetDirectory h ob ?t0)" using d ob by (auto simp: directory_def Let_def)
    then show ?thesis using Inl forgetDirectory_ok [OF t0, of h ob] finish_ok by (simp add: spec_directory_def)
  next
    case (Inr contents)
    show ?thesis
    proof (cases "tcSingleFile contents \<and> length (tcFiles contents) = 1")
      case True
      then have "r = Inl ErrNotFound" "t' = ?fin (forgetDirectory h ob ?t0)" using d ob Inr by (auto simp: directory_def Let_def)
      then show ?thesis using Inr True forgetDirectory_ok [OF t0, of h ob] finish_ok by (simp add: spec_directory_def)
    next
      case False
      obtain ix t1 where di: "index_directory h pre contents ob ?t0 = (ix, t1)" by (cases "index_directory h pre contents ob ?t0")
      have k: "tcFiles contents = listOf i" if "tcFilesID contents = Some i" for i
        using bk Inr that by (auto simp: backend_ok_def)
      note o = index_directory_ok [OF t0 k di]
      have "t' = ?fin t1" "r = (if pre \<noteq> '''' \<and> diEntries ix = [] then Inl ErrNotFound else Inr (contents, ix))"
        using d ob Inr False di by (auto simp: directory_def Let_def split: if_splits)
      then show ?thesis using o finish_ok [OF o(1)] Inr False
        by (auto simp: spec_directory_def Let_def index_for_def owner_ok_def current_finish)
    qed
  qed
  then show "tree_ok hex listOf t'" "ids t' = ids t" "case r of Inl e \<Rightarrow> spec_directory bk h pre = Inl e
     | Inr (contents, ix) \<Rightarrow> spec_directory bk h pre = Inr (contents, diEntries ix) \<and> index_for contents pre ix \<and> owner_ok h ix t'
         \<and> map_of (dvPrefixes (versions t' (diOwner ix))) pre = Some ix" by auto
qed

subsection \<open>Identities\<close>

text \<open>A step that only assigns identities.\<close>

definition ids_step :: "Tree \<Rightarrow> Tree \<Rightarrow> bool" where
  "ids_step t t' \<longleftrightarrow> ids_le t t' \<and> versions t' = versions t \<and> directories t' = directories t \<and> snapshots t' = snapshots t
     \<and> nextObj t' = nextObj t"

lemma ids_step_trans: "ids_step t t' \<Longrightarrow> ids_step t' t'' \<Longrightarrow> ids_step t t''"
  by (auto simp: ids_step_def intro: ids_le_trans)

lemma tree_ok_ids_step:
  assumes "tree_ok hex listOf t" "ids_step t t'" "ids_ok t'"
  shows "tree_ok hex listOf t'"
proof -
  have "tagged hex t e \<Longrightarrow> tagged hex t' e" for e using assms(2) tagged_mono by (auto simp: ids_step_def)
  then show ?thesis using assms
    by (auto simp: tree_ok_def ids_step_def owners_ok_def snaps_ok_def snap_ok_def)
qed

lemma identity_ok:
  assumes "tree_ok hex listOf t" "identity key t = (i, t')"
  shows "tree_ok hex listOf t'" "ids_step t t'" "ids t' key = Some i"
proof -
  have ids: "ids_ok t" using assms(1) by (simp add: tree_ok_def)
  have "ids_ok t' \<and> ids_step t t' \<and> ids t' key = Some i"
  proof (cases "ids t key")
    case None
    have lt: "ids t k = Some j \<Longrightarrow> j \<noteq> Suc (nextID t)" for k j using ids by (fastforce simp: ids_ok_def)
    have t': "t' = t\<lparr>nextID := Suc (nextID t), ids := (ids t)(key \<mapsto> Suc (nextID t))\<rparr>" "i = Suc (nextID t)"
      using assms(2) None by (auto simp: identity_def)
    have "ids_ok t'" using ids lt None unfolding ids_ok_def t' by (auto simp: le_SucI)
    then show ?thesis using None by (auto simp: t' ids_step_def ids_le_def map_le_def)
  next
    case (Some j)
    then show ?thesis using assms(2) ids by (auto simp: identity_def ids_step_def)
  qed
  then show "tree_ok hex listOf t'" "ids_step t t'" "ids t' key = Some i"
    using tree_ok_ids_step [OF assms(1)] by auto
qed

lemma layoutChild_ok:
  assumes "tree_ok hex listOf t" "layoutChild hex parent item contents t = (e, t')"
  shows "tree_ok hex listOf t' \<and> ids_step t t' \<and> tagged hex t' e \<and> strip e = child_of parent (tcCreatedAt contents) item"
proof (cases "feIsDir item")
  case True
  let ?k = "dirKey hex (rfHash (enRef parent)) (joinRel (rfRel (enRef parent)) (feName item))"
  obtain i t1 where i: "identity ?k t = (i, t1)" by (cases "identity ?k t")
  show ?thesis using assms(2) True i identity_ok [OF assms(1) i]
    by (auto simp: layoutChild_def Let_def strip_def child_of_def tagged_def keys_of_def)
next
  case False
  let ?k = "fileKey hex (rfHash (enRef parent)) (fePath item)"
  obtain i t1 where i: "identity ?k t = (i, t1)" by (cases "identity ?k t")
  show ?thesis using assms(2) False i identity_ok [OF assms(1) i]
    by (auto simp: layoutChild_def Let_def strip_def child_of_def tagged_def keys_of_def)
qed

definition root_key :: "(hash \<Rightarrow> string) \<Rightarrow> rootEntry \<Rightarrow> string" where
  "root_key hex item =
     (if reIsCategory item then categoryKey (reName item)
      else if reIsSubtitle item then fileKey hex (tvHash (reView item)) (rePath item)
      else case mediaRoot (reView item) of
             Some file \<Rightarrow> fileKey hex (tvHash (reView item)) (fvPath file)
           | None \<Rightarrow> torrentKey hex (tvHash (reView item)))"

lemma rootChild_ok:
  assumes "tree_ok hex listOf t" "rootChild hex parent item t = (e, t')"
  shows "tree_ok hex listOf t' \<and> ids_step t t' \<and> tagged hex t' e \<and> strip e = root_child_of parent item"
proof -
  obtain i t1 where i: "identity (root_key hex item) t = (i, t1)" by (cases "identity (root_key hex item) t")
  show ?thesis using assms(2) i identity_ok [OF assms(1) i]
    by (cases "mediaRoot (reView item)"; cases "reIsCategory item"; cases "reIsSubtitle item")
      (auto simp: rootChild_def root_key_def Let_def strip_def root_child_of_def tagged_def keys_of_def)
qed

lemma map_tree_ok:
  assumes "tree_ok hex listOf t" "map_tree f xs t = (es, t')"
    "\<And>x t e t'. tree_ok hex listOf t \<Longrightarrow> f x t = (e, t') \<Longrightarrow>
       tree_ok hex listOf t' \<and> ids_step t t' \<and> tagged hex t' e \<and> strip e = g x"
  shows "tree_ok hex listOf t' \<and> ids_step t t' \<and> (\<forall>e \<in> set es. tagged hex t' e) \<and> map strip es = map g xs"
  using assms(1,2)
proof (induction xs arbitrary: t es)
  case Nil
  then show ?case by (simp add: ids_step_def)
next
  case (Cons x xs)
  obtain e t1 es1 where f: "f x t = (e, t1)" and m: "map_tree f xs t1 = (es1, t')" and es: "es = e # es1"
    using Cons.prems(2) by (auto simp: Let_def split: prod.splits)
  note a = assms(3) [OF Cons.prems(1) f]
  then have b: "tree_ok hex listOf t' \<and> ids_step t1 t' \<and> (\<forall>e \<in> set es1. tagged hex t' e) \<and> map strip es1 = map g xs"
    using Cons.IH m by blast
  then have "tagged hex t' e" using a tagged_mono by (auto simp: ids_step_def)
  then show ?case using a b es ids_step_trans by auto
qed

subsection \<open>Lookup\<close>

lemma ids_le_step: "ids_step t t' \<Longrightarrow> ids_le t t'"
  by (simp add: ids_step_def)

lemma strip_sel [simp]:
  "enName (strip e) = enName e" "enPath (strip e) = enPath e" "enIsDir (strip e) = enIsDir e" "enRef (strip e) = enRef e"
  by (simp_all add: strip_def)

lemma child_of_cong:
  "enPath p = enPath q \<Longrightarrow> rfHash (enRef p) = rfHash (enRef q) \<Longrightarrow> rfRel (enRef p) = rfRel (enRef q) \<Longrightarrow> child_of p = child_of q"
  unfolding child_of_def [abs_def] by metis

lemma root_child_of_cong: "enPath p = enPath q \<Longrightarrow> root_child_of p = root_child_of q"
  by (simp add: root_child_of_def [abs_def])

lemma child_of_strip: "child_of (strip e) = child_of e" "root_child_of (strip e) = root_child_of e"
  by (rule child_of_cong root_child_of_cong; simp)+

lemma spec_children_strip [simp]: "spec_children hex bk (strip e) = spec_children hex bk e"
  unfolding spec_children_def strip_sel child_of_strip by (rule refl)

lemma root_children_ok:
  assumes t: "tree_ok hex listOf t" and k: "rfKind (enRef parent) = rootKind \<or> rfKind (enRef parent) = categoryKind"
    and dir: "enIsDir parent" and c: "children hex bk parent t = (r, t')"
  shows "tree_ok hex listOf t' \<and> ids_le t t' \<and> (\<exists>es. r = Inr es \<and> spec_children hex bk parent = Inr (map strip es)
           \<and> (\<forall>e \<in> set es. tagged hex t' e))"
proof -
  let ?live = "\<lambda>h. h \<in> set (map tvHash (bkTorrents bk))"
  let ?items = "VisibleRootEntries hex (bkTorrents bk) (case bkCategories bk of Some cs \<Rightarrow> cs | None \<Rightarrow> [])
                  (rfCategory (enRef parent))"
  obtain l c1 where l: "observeListing (directories t) = (l, c1)" by (cases "observeListing (directories t)")
  have "tree_ok hex listOf (t\<lparr>directories := c1\<rparr>)"
    by (rule tree_ok_cache [OF t])
      (auto simp: current_observeListing [OF l] slots_ok_observeListing [OF owners_slots [OF t] l])
  note f = finishDirectoryListing_ok [OF this, of l ?live]
  obtain es t2 where m: "map_tree (rootChild hex parent) ?items (finishDirectoryListing l ?live (t\<lparr>directories := c1\<rparr>)) = (es, t2)"
    by (cases "map_tree (rootChild hex parent) ?items (finishDirectoryListing l ?live (t\<lparr>directories := c1\<rparr>))")
  have "r = Inr es" "t' = t2" using c k dir l m by (auto simp: children_def Let_def)
  moreover note map_tree_ok [OF f(1) m rootChild_ok]
  ultimately show ?thesis using f(2) k dir by (auto simp: spec_children_def ids_step_def ids_le_def)
qed

lemma children_ok:
  assumes t: "tree_ok hex listOf t" and bk: "backend_ok listOf bk" and c: "children hex bk parent t = (r, t')"
  shows "tree_ok hex listOf t'" "ids_le t t'"
    "case r of Inl e \<Rightarrow> spec_children hex bk parent = Inl e
     | Inr es \<Rightarrow> spec_children hex bk parent = Inr (map strip es) \<and> (\<forall>e \<in> set es. tagged hex t' e)"
proof -
  have "tree_ok hex listOf t' \<and> ids_le t t' \<and> (case r of Inl e \<Rightarrow> spec_children hex bk parent = Inl e
     | Inr es \<Rightarrow> spec_children hex bk parent = Inr (map strip es) \<and> (\<forall>e \<in> set es. tagged hex t' e))"
  proof (cases "enIsDir parent")
    case False
    then show ?thesis using t c by (auto simp: children_def spec_children_def)
  next
    case dir: True
    show ?thesis
    proof (cases "rfKind (enRef parent)")
      case directoryKind
      obtain r1 t1 where d: "directory bk (rfHash (enRef parent)) (rfRel (enRef parent)) t = (r1, t1)"
        by (cases "directory bk (rfHash (enRef parent)) (rfRel (enRef parent)) t")
      note o = directory_ok [OF t bk d]
      show ?thesis
      proof (cases r1)
        case (Inl e)
        then have "r = Inl e" "t' = t1" using c dir directoryKind d by (auto simp: children_def)
        then show ?thesis using o Inl dir directoryKind by (simp add: spec_children_def ids_le_def)
      next
        case (Inr ci)
        obtain contents ix where ci: "ci = (contents, ix)" by (cases ci)
        obtain es t2 where m: "map_tree (\<lambda>item. layoutChild hex parent item contents) (diEntries ix) t1 = (es, t2)"
          by (cases "map_tree (\<lambda>item. layoutChild hex parent item contents) (diEntries ix) t1")
        have "r = Inr es" "t' = t2" using c dir directoryKind d Inr ci m by (auto simp: children_def)
        moreover note map_tree_ok [OF o(1) m layoutChild_ok]
        ultimately show ?thesis using o Inr ci dir directoryKind
          by (auto simp: spec_children_def ids_step_def ids_le_def)
      qed
    next
      case payloadKind
      then show ?thesis using t c dir by (auto simp: children_def spec_children_def)
    next
      case subtitleKind
      then show ?thesis using t c dir by (auto simp: children_def spec_children_def)
    next
      case rootKind
      then show ?thesis using root_children_ok [OF t disjI1 dir c] by auto
    next
      case categoryKind
      then show ?thesis using root_children_ok [OF t disjI2 dir c] by auto
    qed
  qed
  then show "tree_ok hex listOf t'" "ids_le t t'"
    "case r of Inl e \<Rightarrow> spec_children hex bk parent = Inl e
     | Inr es \<Rightarrow> spec_children hex bk parent = Inr (map strip es) \<and> (\<forall>e \<in> set es. tagged hex t' e)" by auto
qed

lemma find_map_of: "map_of (map (\<lambda>e. (feName e, e)) xs) n = List.find (\<lambda>e. feName e = n) xs"
  by (induction xs) auto

lemma find_map_Some: "List.find P (map f xs) = map_option f (List.find (P \<circ> f) xs)"
  by (induction xs) auto

text \<open>The kind of an entry and its directory flag agree.\<close>

definition kind_ok :: "Entry \<Rightarrow> bool" where
  "kind_ok e \<longleftrightarrow> (rfKind (enRef e) = directoryKind \<longrightarrow> enIsDir e)"

lemma kind_ok_strip [simp]: "kind_ok (strip e) = kind_ok e"
  by (simp add: kind_ok_def)

lemma kind_ok_children: "spec_children hex bk p = Inr es \<Longrightarrow> e \<in> set es \<Longrightarrow> kind_ok e"
  by (auto simp: spec_children_def kind_ok_def child_of_def root_child_of_def
      split: if_splits entryKind.splits sum.splits option.splits)

lemma spec_children_directory:
  "enIsDir p \<Longrightarrow> rfKind (enRef p) = directoryKind \<Longrightarrow>
   spec_children hex bk p = (case spec_directory bk (rfHash (enRef p)) (rfRel (enRef p)) of
     Inl e \<Rightarrow> Inl e | Inr (contents, items) \<Rightarrow> Inr (map (child_of p (tcCreatedAt contents)) items))"
  by (simp add: spec_children_def)

text \<open>One step of the walk finds what the specification finds.\<close>

definition step_ok :: "(hash \<Rightarrow> string) \<Rightarrow> Backend \<Rightarrow> Entry \<Rightarrow> string \<Rightarrow> (tree_error + Entry) \<Rightarrow> Tree \<Rightarrow> bool" where
  "step_ok hex bk entry part r t' \<longleftrightarrow>
     (case r of
        Inl e \<Rightarrow> spec_walk hex bk (strip entry) [part] = Inl e
      | Inr child \<Rightarrow> spec_walk hex bk (strip entry) [part] = Inr (strip child) \<and> tagged hex t' child \<and> kind_ok child)"

lemma spec_walk_Cons:
  "spec_walk hex bk e (p # ps) = (case spec_walk hex bk e [p] of Inl x \<Rightarrow> Inl x | Inr c \<Rightarrow> spec_walk hex bk c ps)"
  by (simp split: sum.splits option.splits)

lemma find_strip: "List.find (\<lambda>c. enName c = n) (map strip es) = map_option strip (List.find (\<lambda>c. enName c = n) es)"
  by (simp add: find_map_Some comp_def)

definition walk_ok :: "(hash \<Rightarrow> string) \<Rightarrow> (nat \<Rightarrow> FileView list) \<Rightarrow> Backend \<Rightarrow> Entry \<Rightarrow> string list \<Rightarrow> Tree \<Rightarrow> (tree_error + Entry) \<Rightarrow> Tree \<Rightarrow> bool" where
  "walk_ok hex listOf bk entry parts t r t' \<longleftrightarrow> tree_ok hex listOf t' \<and> ids_le t t'
     \<and> (case r of
          Inl e \<Rightarrow> spec_walk hex bk (strip entry) parts = Inl e
        | Inr x \<Rightarrow> spec_walk hex bk (strip entry) parts = Inr (strip x) \<and> tagged hex t' x \<and> kind_ok x)"

lemma walk_ok_Cons:
  assumes "spec_walk hex bk (strip entry) [part] = Inr (strip child)" "ids_le t t1"
    "walk_ok hex listOf bk child parts t1 r t'"
  shows "walk_ok hex listOf bk entry (part # parts) t r t'"
proof -
  have "spec_walk hex bk (strip entry) (part # parts) = spec_walk hex bk (strip child) parts"
    by (subst spec_walk_Cons) (simp only: assms(1) sum.case)
  then show ?thesis using assms(2,3) ids_le_trans unfolding walk_ok_def by metis
qed

lemma lookup_loop_ok:
  assumes "backend_ok listOf bk"
  shows "tree_ok hex listOf t \<Longrightarrow> tagged hex t entry \<Longrightarrow> kind_ok entry \<Longrightarrow> lookup_loop hex bk entry parts t = (r, t') \<Longrightarrow>
    walk_ok hex listOf bk entry parts t r t'"
proof (induction parts arbitrary: entry t)
  case Nil
  then show ?case by (auto simp: walk_ok_def)
next
  case (Cons part parts)
  show ?case
  proof (cases "rfKind (enRef entry) = directoryKind")
    case True
    then have dir: "enIsDir entry" using Cons.prems(3) by (simp add: kind_ok_def)
    obtain r1 t1 where d: "directory bk (rfHash (enRef entry)) (rfRel (enRef entry)) t = (r1, t1)"
      by (cases "directory bk (rfHash (enRef entry)) (rfRel (enRef entry)) t")
    note o = directory_ok [OF Cons.prems(1) assms d]
    note sc = spec_children_directory [OF dir True, of hex bk]
    show ?thesis
    proof (cases r1)
      case (Inl e)
      then have "r = Inl e" "t' = t1" using Cons.prems(4) True d by auto
      then show ?thesis using o Inl sc by (simp add: walk_ok_def ids_le_def)
    next
      case (Inr ci)
      obtain contents ix where ci: "ci = (contents, ix)" by (cases ci)
      have ch: "spec_children hex bk entry = Inr (map (child_of entry (tcCreatedAt contents)) (diEntries ix))"
        and by_name: "diByName ix part = List.find (\<lambda>e. feName e = part) (diEntries ix)"
        using o(3) Inr ci sc by (simp_all add: index_for_def find_map_of)
      have sp: "spec_walk hex bk (strip entry) [part] = (case List.find (\<lambda>e. feName e = part) (diEntries ix) of
              None \<Rightarrow> Inl ErrNotFound | Some item \<Rightarrow> Inr (child_of entry (tcCreatedAt contents) item))"
        by (simp add: ch find_map_Some comp_def child_of_def split: option.splits)
      show ?thesis
      proof (cases "List.find (\<lambda>e. feName e = part) (diEntries ix)")
        case None
        then have "r = Inl ErrNotFound" "t' = t1" using Cons.prems(4) True d Inr ci by_name by auto
        then show ?thesis using o(1,2) None sp spec_walk_Cons [of hex bk "strip entry" part parts]
          by (simp add: walk_ok_def ids_le_def)
      next
        case (Some item)
        obtain e t2 where l: "layoutChild hex entry item contents t1 = (e, t2)" by (cases "layoutChild hex entry item contents t1")
        note lo = layoutChild_ok [OF o(1) l]
        have "lookup_loop hex bk e parts t2 = (r, t')"
          using Cons.prems(4) True d Inr ci by_name Some l by simp
        moreover have "kind_ok e"
          using kind_ok_children [OF ch, of "strip e"] lo find_SomeD [OF Some] unfolding kind_ok_strip by simp
        ultimately have "walk_ok hex listOf bk e parts t2 r t'" using Cons.IH lo by simp
        moreover have "ids_le t t2" using o(2) lo by (simp add: ids_step_def ids_le_def)
        ultimately show ?thesis using sp Some lo by (intro walk_ok_Cons) auto
      qed
    qed
  next
    case False
    obtain r1 t1 where c: "children hex bk entry t = (r1, t1)" by (cases "children hex bk entry t")
    note o = children_ok [OF Cons.prems(1) assms c]
    show ?thesis
    proof (cases r1)
      case (Inl e)
      then have "r = Inl e" "t' = t1" using Cons.prems(4) False c by auto
      then show ?thesis using o Inl by (simp add: walk_ok_def)
    next
      case (Inr es)
      then have ch: "spec_children hex bk entry = Inr (map strip es)" using o(3) by simp
      show ?thesis
      proof (cases "List.find (\<lambda>c. enName c = part) es")
        case None
        then have "r = Inl ErrNotFound" "t' = t1" using Cons.prems(4) False c Inr by auto
        then show ?thesis using o(1,2) None ch by (simp add: walk_ok_def find_strip)
      next
        case (Some child)
        then have "lookup_loop hex bk child parts t1 = (r, t')" using Cons.prems(4) False c Inr by simp
        moreover have "tagged hex t1 child" "kind_ok child"
          using find_SomeD [OF Some] o(3) Inr kind_ok_children [OF ch, of "strip child"] by auto
        ultimately have "walk_ok hex listOf bk child parts t1 r t'" using Cons.IH [OF o(1)] by blast
        then show ?thesis using o(2) ch Some by (intro walk_ok_Cons) (auto simp: find_strip)
      qed
    qed
  qed
qed

lemma root_tagged: "tree_ok hex listOf t \<Longrightarrow> tagged hex t rootEntry0 \<and> kind_ok rootEntry0"
  by (simp add: tree_ok_def ids_ok_def tagged_def rootEntry0_def rootRef_def keys_of_def kind_ok_def)

lemma Lookup_ok:
  assumes "tree_ok hex listOf t" "backend_ok listOf bk" "Lookup hex bk raw t = (r, t')"
  shows "tree_ok hex listOf t' \<and> ids_le t t'
    \<and> (case r of Inl e \<Rightarrow> spec_lookup hex bk raw = Inl e
       | Inr x \<Rightarrow> spec_lookup hex bk raw = Inr (strip x) \<and> tagged hex t' x \<and> kind_ok x)"
proof (cases "virtualParts raw")
  case (Inl e)
  then show ?thesis using assms by (auto simp: Lookup_def spec_lookup_def)
next
  case (Inr parts)
  then have "lookup_loop hex bk rootEntry0 parts t = (r, t')" using assms(3) by (simp add: Lookup_def)
  then have "walk_ok hex listOf bk rootEntry0 parts t r t'"
    using lookup_loop_ok [OF assms(2,1)] root_tagged [OF assms(1)] by simp
  then show ?thesis using Inr by (simp add: walk_ok_def spec_lookup_def split: sum.splits)
qed

subsection \<open>Opened directories\<close>

lemma evict_reuse [simp]:
  "tree_ok hex listOf (reuse_snapshot h ix d t) = tree_ok hex listOf t" "ids (reuse_snapshot h ix d t) = ids t"
  "drEntries (snapshots (reuse_snapshot h ix d t) x) = drEntries (snapshots t x)"
  by (simp_all add: reuse_snapshot_def)

text \<open>A new directory object leaves the old ones alone.\<close>

lemma new_directory_ok:
  assumes "tree_ok hex listOf t"
  shows "tree_ok hex listOf (t\<lparr>nextVersion := n, nextObj := Suc (nextObj t), snapshots := (snapshots t)(nextObj t := d)\<rparr>)"
    (is "tree_ok hex listOf ?t")
proof -
  have "snap_ok hex ?t v p ix x" if "snap_ok hex t v p ix x" for v p ix x
  proof -
    have "x \<noteq> nextObj t" using that by (auto simp: snap_ok_def)
    then show ?thesis using that by (simp add: snap_ok_def tagged_def)
  qed
  then have "snaps_ok hex ?t" using assms by (auto simp: tree_ok_def snaps_ok_def)
  then show ?thesis using assms by (auto simp: tree_ok_def ids_ok_def owners_ok_def less_SucI)
qed

lemma snap_ok_cong:
  "nextObj t' = nextObj t \<Longrightarrow> snapshots t' = snapshots t \<Longrightarrow> directories t' = directories t \<Longrightarrow> ids t' = ids t \<Longrightarrow>
     diEntries ix' = diEntries ix \<Longrightarrow> snap_ok hex t' v p ix' d = snap_ok hex t v p ix d"
  by (simp add: snap_ok_def tagged_def)

lemma set_snapshot_ok:
  assumes "tree_ok hex listOf t" "\<And>i. map_of (dvPrefixes (versions t (diOwner ix))) p = Some i \<Longrightarrow> snap_ok hex t (diOwner ix) p i d"
  shows "tree_ok hex listOf (set_snapshot ix p d t)"
proof (cases "map_of (dvPrefixes (versions t (diOwner ix))) p")
  case None
  then show ?thesis using assms(1) by (simp add: set_snapshot_def)
next
  case (Some i)
  let ?v = "diOwner ix"
  let ?t = "t\<lparr>versions := (versions t)(?v := (versions t ?v)\<lparr>dvPrefixes := aput p (i\<lparr>diSnapshot := Some d\<rparr>) (dvPrefixes (versions t ?v))\<rparr>)\<rparr>"
  have "version_ok listOf v (versions ?t v)" for v
    using assms(1) Some by (auto simp: tree_ok_def version_ok_def)
  moreover have "snaps_ok hex ?t"
    unfolding snaps_ok_def
  proof (intro allI impI)
    fix v q j x
    assume j: "map_of (dvPrefixes (versions ?t v)) q = Some j" "diSnapshot j = Some x"
    have old: "snap_ok hex ?t v q j x" if "map_of (dvPrefixes (versions t v)) q = Some j"
      using assms(1) that j(2) snap_ok_cong [of ?t t j j] by (auto simp: tree_ok_def snaps_ok_def)
    show "snap_ok hex ?t v q j x"
    proof (cases "v = ?v \<and> q = p")
      case True
      then have "j = i\<lparr>diSnapshot := Some d\<rparr>" "x = d" using j by auto
      then show ?thesis using True assms(2) [OF Some] snap_ok_cong [of ?t t j i] by simp
    next
      case False
      then show ?thesis using j(1) old by (auto split: if_splits)
    qed
  qed
  ultimately have "tree_ok hex listOf ?t" using assms(1) by (simp add: tree_ok_def ids_ok_def owners_ok_def)
  then show ?thesis using Some by (simp add: set_snapshot_def Let_def)
qed

lemma set_snapshot_frame [simp]:
  "ids (set_snapshot ix p d t) = ids t" "snapshots (set_snapshot ix p d t) = snapshots t"
  by (simp_all add: set_snapshot_def Let_def split: option.splits)

lemma publish_snapshot_ok:
  assumes t: "tree_ok hex listOf t" and own: "owner_ok (rfHash (enRef entry)) ix t"
    and ix: "map_of (dvPrefixes (versions t (diOwner ix))) (rfRel (enRef entry)) = Some i" "diEntries i = diEntries ix"
    and es: "map strip es = map (child_of entry (enCreatedAt entry)) (diEntries ix)" "\<forall>e \<in> set es. tagged hex t e"
    and p: "publish_snapshot entry es ix (rfRel (enRef entry)) t = (d, t')"
  shows "tree_ok hex listOf t' \<and> ids t' = ids t \<and> drEntries (snapshots t' d) = es"
proof -
  let ?pre = "rfRel (enRef entry)"
  let ?dir = "\<lparr>drEntry = entry, drEntries = es, drVersion = Suc (nextVersion t),
                 drCacheable = (currentLocked (rfHash (enRef entry)) (directories t) = Some (diOwner ix)), drCleanups = []\<rparr>"
  let ?t1 = "t\<lparr>nextVersion := Suc (nextVersion t), nextObj := Suc (nextObj t), snapshots := (snapshots t)(nextObj t := ?dir)\<rparr>"
  let ?t2 = "set_snapshot ix ?pre (nextObj t) ?t1"
  have d: "d = nextObj t" "t' = (case index_snapshot ix ?pre t of None \<Rightarrow> ?t2 | Some p \<Rightarrow> evict p ?t2)"
    using p by (auto simp: publish_snapshot_def Let_def)
  have "snap_ok hex ?t1 (diOwner ix) ?pre i (nextObj t)"
    using es own ix(2) by (auto simp: snap_ok_def tagged_def owner_ok_def)
  then have "tree_ok hex listOf ?t2" using new_directory_ok [OF t] ix(1) by (intro set_snapshot_ok) auto
  then show ?thesis by (auto simp: d split: option.splits)
qed

lemma good_snapshot_entries:
  assumes t: "tree_ok hex listOf t" and own: "owner_ok (rfHash (enRef entry)) ix t"
    and ix: "map_of (dvPrefixes (versions t (diOwner ix))) (rfRel (enRef entry)) = Some ix"
    and g: "good_snapshot entry contents ix (rfRel (enRef entry)) t = Some d"
  shows "map strip (drEntries (snapshots t d)) = map (child_of entry (tcCreatedAt contents)) (diEntries ix)
    \<and> (\<forall>e \<in> set (drEntries (snapshots t d)). tagged hex t e)"
proof -
  let ?D = "snapshots t d"
  have s: "diSnapshot ix = Some d" "same_snapshot entry contents ?D"
    using g ix by (auto simp: good_snapshot_def index_snapshot_def split: option.splits if_splits)
  then have so: "snap_ok hex t (diOwner ix) (rfRel (enRef entry)) ix d"
    using t ix by (auto simp: tree_ok_def snaps_ok_def)
  moreover have "rfHash (enRef (drEntry ?D)) = rfHash (enRef entry)"
    using so s(1) own by (auto simp: snap_ok_def owner_ok_def)
  ultimately have "child_of (drEntry ?D) = child_of entry"
    using s(2) by (intro child_of_cong) (auto simp: snap_ok_def same_snapshot_def)
  then show ?thesis using so s(2) by (auto simp: snap_ok_def same_snapshot_def)
qed

lemma owner_ok_step: "owner_ok h ix t \<Longrightarrow> ids_step t t' \<Longrightarrow> owner_ok h ix t'"
  by (simp add: owner_ok_def ids_step_def)

lemma OpenDir_directory_ok:
  assumes t: "tree_ok hex listOf t2" and own: "owner_ok (rfHash (enRef entry)) ix t2"
    and ix: "map_of (dvPrefixes (versions t2 (diOwner ix))) (rfRel (enRef entry)) = Some ix"
    and m: "map_tree (\<lambda>item. layoutChild hex entry item contents) (diEntries ix) t2 = (es, t3)"
    and i: "install_snapshot entry contents es ix (rfRel (enRef entry)) t3 = (d, t4)"
  shows "tree_ok hex listOf t4 \<and> ids_le t2 t4
    \<and> map strip (drEntries (snapshots t4 d)) = map (child_of entry (tcCreatedAt contents)) (diEntries ix)
    \<and> (\<forall>e \<in> set (drEntries (snapshots t4 d)). tagged hex t4 e)"
proof -
  have m3: "tree_ok hex listOf t3 \<and> ids_step t2 t3 \<and> (\<forall>e \<in> set es. tagged hex t3 e)
      \<and> map strip es = map (child_of entry (tcCreatedAt contents)) (diEntries ix)"
    by (rule map_tree_ok [OF t m layoutChild_ok])
  have own3: "owner_ok (rfHash (enRef entry)) ix t3" using owner_ok_step [OF own] m3 by blast
  have ix3: "map_of (dvPrefixes (versions t3 (diOwner ix))) (rfRel (enRef entry)) = Some ix"
    using ix m3 by (simp add: ids_step_def)
  show ?thesis
  proof (cases "good_snapshot entry contents ix (rfRel (enRef entry)) t3")
    case (Some x)
    then have "d = x" "t4 = reuse_snapshot (rfHash (enRef entry)) ix x t3" using i by (auto simp: install_snapshot_def)
    then show ?thesis using good_snapshot_entries [OF conjunct1 [OF m3] own3 ix3 Some] m3
      by (simp add: ids_step_def ids_le_def tagged_def)
  next
    case None
    let ?e = "entry\<lparr>enCreatedAt := tcCreatedAt contents\<rparr>"
    have "child_of ?e = child_of entry" by (rule child_of_cong) simp_all
    moreover have "publish_snapshot ?e es ix (rfRel (enRef ?e)) t3 = (d, t4)" using i None by (simp add: install_snapshot_def)
    ultimately have "tree_ok hex listOf t4 \<and> ids t4 = ids t3 \<and> drEntries (snapshots t4 d) = es"
      using m3 own3 ix3 by (intro publish_snapshot_ok [where i = ix and entry = ?e]) auto
    then show ?thesis using m3 by (simp add: ids_step_def ids_le_def tagged_def)
  qed
qed

text \<open>A directory listing without caches, as the last step of \<open>OpenDir\<close>.\<close>

definition listed :: "(hash \<Rightarrow> string) \<Rightarrow> (nat \<Rightarrow> FileView list) \<Rightarrow> Backend \<Rightarrow> Entry \<Rightarrow> Tree \<Rightarrow> (tree_error + nat) \<Rightarrow> Tree \<Rightarrow> bool" where
  "listed hex listOf bk entry t r t' \<longleftrightarrow> tree_ok hex listOf t' \<and> ids_le t t'
     \<and> (case r of
          Inl e \<Rightarrow> spec_children hex bk entry = Inl e
        | Inr d \<Rightarrow> spec_children hex bk entry = Inr (map strip (drEntries (snapshots t' d)))
            \<and> (\<forall>e \<in> set (drEntries (snapshots t' d)). tagged hex t' e))"

lemma OpenDir_ok:
  assumes t: "tree_ok hex listOf t" and bk: "backend_ok listOf bk" and r: "OpenDir hex bk raw t = (r, t')"
    and l: "Lookup hex bk raw t = (Inr entry, t1)"
  shows "listed hex listOf bk entry t r t'"
proof -
  note lo = Lookup_ok [OF t bk l]
  have t1: "tree_ok hex listOf t1" "ids_le t t1" using lo by auto
  show ?thesis
  proof (cases "enIsDir entry")
    case False
    then show ?thesis using r l t1 by (auto simp: OpenDir_def listed_def spec_children_def)
  next
    case dir: True
    show ?thesis
    proof (cases "rfKind (enRef entry) = directoryKind")
      case False
      obtain r2 t2 where c: "children hex bk entry t1 = (r2, t2)" by (cases "children hex bk entry t1")
      note co = children_ok [OF t1(1) bk c]
      show ?thesis
      proof (cases r2)
        case (Inl e)
        then show ?thesis using r l dir False c co t1(2) ids_le_trans by (auto simp: OpenDir_def listed_def)
      next
        case (Inr es)
        let ?d = "\<lparr>drEntry = entry, drEntries = es, drVersion = Suc (nextVersion t2), drCacheable = False, drCleanups = []\<rparr>"
        have "r = Inr (nextObj t2)" "t' = t2\<lparr>nextVersion := Suc (nextVersion t2), nextObj := Suc (nextObj t2),
              snapshots := (snapshots t2)(nextObj t2 := ?d)\<rparr>"
          using r l dir False c Inr by (auto simp: OpenDir_def Let_def)
        then show ?thesis using co Inr new_directory_ok [OF co(1)] ids_le_trans [OF t1(2) co(2)]
          by (simp add: listed_def ids_le_def tagged_def)
      qed
    next
      case True
      obtain r2 t2 where d: "directory bk (rfHash (enRef entry)) (rfRel (enRef entry)) t1 = (r2, t2)"
        by (cases "directory bk (rfHash (enRef entry)) (rfRel (enRef entry)) t1")
      note o = directory_ok [OF t1(1) bk d]
      note sc = spec_children_directory [OF dir True, of hex bk]
      show ?thesis
      proof (cases r2)
        case (Inl e)
        then show ?thesis using r l dir True d o t1(2) sc by (auto simp: OpenDir_def listed_def Let_def ids_le_def)
      next
        case (Inr ci)
        obtain contents ix where ci: "ci = (contents, ix)" by (cases ci)
        have sp: "spec_children hex bk entry = Inr (map (child_of entry (tcCreatedAt contents)) (diEntries ix))"
          and own: "owner_ok (rfHash (enRef entry)) ix t2"
          and ix: "map_of (dvPrefixes (versions t2 (diOwner ix))) (rfRel (enRef entry)) = Some ix"
          using o(3) Inr ci sc by simp_all
        have le: "ids_le t t2" using t1(2) o(2) by (simp add: ids_le_def)
        show ?thesis
        proof (cases "good_snapshot entry contents ix (rfRel (enRef entry)) t2")
          case (Some x)
          have "r = Inr x" "t' = reuse_snapshot (rfHash (enRef entry)) ix x t2"
            using r l dir True d Inr ci Some by (auto simp: OpenDir_def Let_def)
          then show ?thesis using good_snapshot_entries [OF o(1) own ix Some] sp o(1) le
            by (simp add: listed_def ids_le_def tagged_def)
        next
          case None
          obtain es t3 where m: "map_tree (\<lambda>item. layoutChild hex entry item contents) (diEntries ix) t2 = (es, t3)"
            by (cases "map_tree (\<lambda>item. layoutChild hex entry item contents) (diEntries ix) t2")
          obtain x t4 where i: "install_snapshot entry contents es ix (rfRel (enRef entry)) t3 = (x, t4)"
            by (cases "install_snapshot entry contents es ix (rfRel (enRef entry)) t3")
          have "r = Inr x" "t' = t4" using r l dir True d Inr ci None m i by (auto simp: OpenDir_def Let_def)
          then show ?thesis using OpenDir_directory_ok [OF o(1) own ix m i] sp ids_le_trans [OF le]
            by (simp add: listed_def)
        qed
      qed
    qed
  qed
qed

lemma ReadDir_ok:
  assumes t: "tree_ok hex listOf t" and bk: "backend_ok listOf bk" and r: "ReadDir hex bk raw t = (r, t')"
  shows "tree_ok hex listOf t' \<and> ids_le t t'
    \<and> (case r of Inl e \<Rightarrow> spec_readdir hex bk raw = Inl e
       | Inr es \<Rightarrow> spec_readdir hex bk raw = Inr (map strip es) \<and> (\<forall>e \<in> set es. tagged hex t' e))"
proof -
  obtain r1 t1 where l: "Lookup hex bk raw t = (r1, t1)" by (cases "Lookup hex bk raw t")
  note lo = Lookup_ok [OF t bk l]
  show ?thesis
  proof (cases r1)
    case (Inl e)
    then show ?thesis using r l lo by (auto simp: ReadDir_def OpenDir_def spec_readdir_def)
  next
    case (Inr entry)
    obtain r2 t2 where o: "OpenDir hex bk raw t = (r2, t2)" by (cases "OpenDir hex bk raw t")
    have "listed hex listOf bk entry t r2 t2" using OpenDir_ok [OF t bk o] l Inr by simp
    then show ?thesis using r o lo Inr
      by (cases r2) (auto simp: ReadDir_def listed_def spec_readdir_def)
  qed
qed

section \<open>Properties\<close>

text \<open>A client's calls; the backend may answer differently each time.\<close>

datatype tree_call = LookupCall Backend string | ReadDirCall Backend string

type_synonym tree_reply = "tree_error + Entry list"

definition single_reply :: "tree_error + Entry \<Rightarrow> tree_reply" where
  "single_reply r = (case r of Inl e \<Rightarrow> Inl e | Inr x \<Rightarrow> Inr [x])"

definition strip_reply :: "tree_reply \<Rightarrow> tree_reply" where
  "strip_reply r = (case r of Inl e \<Rightarrow> Inl e | Inr es \<Rightarrow> Inr (map strip es))"

fun call_backend :: "tree_call \<Rightarrow> Backend" where
  "call_backend (LookupCall bk raw) = bk"
| "call_backend (ReadDirCall bk raw) = bk"

fun tree_call_step :: "(hash \<Rightarrow> string) \<Rightarrow> tree_call \<Rightarrow> Tree \<Rightarrow> tree_reply \<times> Tree" where
  "tree_call_step hex (LookupCall bk raw) t = (case Lookup hex bk raw t of (r, t') \<Rightarrow> (single_reply r, t'))"
| "tree_call_step hex (ReadDirCall bk raw) t = ReadDir hex bk raw t"

fun spec_reply :: "(hash \<Rightarrow> string) \<Rightarrow> tree_call \<Rightarrow> tree_reply" where
  "spec_reply hex (LookupCall bk raw) = single_reply (spec_lookup hex bk raw)"
| "spec_reply hex (ReadDirCall bk raw) = spec_readdir hex bk raw"

fun tree_run :: "(hash \<Rightarrow> string) \<Rightarrow> tree_call list \<Rightarrow> Tree \<Rightarrow> tree_reply list \<times> Tree" where
  "tree_run hex [] t = ([], t)"
| "tree_run hex (c # cs) t = (let (r, t1) = tree_call_step hex c t; (rs, t2) = tree_run hex cs t1 in (r # rs, t2))"

definition reply_entries :: "tree_reply \<Rightarrow> Entry list" where
  "reply_entries r = (case r of Inl e \<Rightarrow> [] | Inr es \<Rightarrow> es)"

lemma tree_call_ok:
  assumes "tree_ok hex listOf t" "backend_ok listOf (call_backend c)" "tree_call_step hex c t = (r, t')"
  shows "tree_ok hex listOf t' \<and> ids_le t t' \<and> strip_reply r = spec_reply hex c
    \<and> (\<forall>e \<in> set (reply_entries r). tagged hex t' e)"
proof (cases c)
  case (LookupCall bk raw)
  obtain r1 where r1: "Lookup hex bk raw t = (r1, t')" "r = single_reply r1"
    using assms(3) LookupCall by (auto split: prod.splits)
  show ?thesis using Lookup_ok [OF assms(1) _ r1(1)] assms(2) LookupCall r1(2)
    by (cases r1) (auto simp: reply_entries_def single_reply_def strip_reply_def)
next
  case (ReadDirCall bk raw)
  show ?thesis using ReadDir_ok [OF assms(1), of bk raw r t'] assms(2,3) ReadDirCall
    by (cases r) (auto simp: reply_entries_def strip_reply_def)
qed

lemma tree_run_ok:
  "tree_ok hex listOf t \<Longrightarrow> list_all (\<lambda>c. backend_ok listOf (call_backend c)) cs \<Longrightarrow> tree_run hex cs t = (rs, t') \<Longrightarrow>
   tree_ok hex listOf t' \<and> ids_le t t' \<and> map strip_reply rs = map (spec_reply hex) cs
   \<and> (\<forall>r \<in> set rs. \<forall>e \<in> set (reply_entries r). tagged hex t' e)"
proof (induction cs arbitrary: t rs)
  case Nil
  then show ?case by simp
next
  case (Cons c cs)
  obtain r t1 rs1 where a: "tree_call_step hex c t = (r, t1)" "tree_run hex cs t1 = (rs1, t')" "rs = r # rs1"
    using Cons.prems(3) by (auto simp: Let_def split: prod.splits)
  have o: "tree_ok hex listOf t1" "ids_le t t1" "strip_reply r = spec_reply hex c"
    "\<forall>e \<in> set (reply_entries r). tagged hex t1 e"
    using tree_call_ok [OF Cons.prems(1) _ a(1)] Cons.prems(2) by simp_all
  have la: "list_all (\<lambda>c. backend_ok listOf (call_backend c)) cs" using Cons.prems(2) by simp
  have i: "tree_ok hex listOf t'" "ids_le t1 t'" "map strip_reply rs1 = map (spec_reply hex) cs"
    "\<forall>r \<in> set rs1. \<forall>e \<in> set (reply_entries r). tagged hex t' e"
    using Cons.IH [OF o(1) la a(2)] by blast+
  have "\<forall>e \<in> set (reply_entries r). tagged hex t' e" using o(4) i(2) tagged_mono by blast
  then show ?case using o i a(3) ids_le_trans [OF o(2) i(2)] by simp
qed

lemma tree_ok_New: "tree_ok hex listOf NewTree"
  by (simp add: tree_ok_def NewTree_def version_ok_def noVersion_def ids_ok_def slash_def owners_ok_def slots_ok_def
      newSnapshotCache_def currentLocked_def snaps_ok_def)

text \<open>
  C5: The caches of the tree are not observable: every sequence of lookups and directory
  listings, over a backend that may change between the calls, is answered as the specification
  answers it, which computes every listing from the backend's current answer. The backend keeps the
  promise that a file list identity names one immutable list.
\<close>

theorem tree_refines_spec:
  assumes "list_all (\<lambda>c. backend_ok listOf (call_backend c)) cs"
  shows "map strip_reply (fst (tree_run hex cs NewTree)) = map (spec_reply hex) cs"
  using tree_run_ok [OF tree_ok_New assms, of hex] by (cases "tree_run hex cs NewTree") auto

definition wit_view :: TorrentView where
  "wit_view = \<lparr>tvName = ''show'', tvHash = ''h'', tvCategory = '''', tvCreatedAt = 5,
     tvFiles = [\<lparr>fvPath = ''s1/e1.mkv'', fvSize = 3\<rparr>, \<lparr>fvPath = ''s1/e2.mkv'', fvSize = 4\<rparr>], tvFilesID = Some 1,
     tvSubtitles = [], tvSingleFile = False\<rparr>"

definition wit_backend :: Backend where
  "wit_backend = \<lparr>bkTorrents = [wit_view], bkOpenFile = (\<lambda>h p. Inl ErrNotFound), bkCategories = None, bkContents = None,
     bkFileStat = None, bkSubtitleStat = None, bkOpenSnapshot = None, bkOpenSubtitle = None\<rparr>"

lemma wit_backend_ok: "backend_ok (\<lambda>_. tvFiles wit_view) wit_backend"
  by (auto simp: backend_ok_def torrentContents_def wit_backend_def contentsOfView_def split: if_splits)

theorem tree_refines_spec_witness:
  "map strip_reply (fst (tree_run hex_bytes
      [LookupCall wit_backend ''/show/s1/e1.mkv'', ReadDirCall wit_backend ''show/s1''] NewTree))
   = map (spec_reply hex_bytes) [LookupCall wit_backend ''/show/s1/e1.mkv'', ReadDirCall wit_backend ''show/s1'']"
  by (rule tree_refines_spec [of "\<lambda>_. tvFiles wit_view"]) (simp add: wit_backend_ok)

text \<open>The same object: the same category, or the same place in the same torrent.\<close>

definition is_file_kind :: "entryKind \<Rightarrow> bool" where
  "is_file_kind k \<longleftrightarrow> k = payloadKind \<or> k = subtitleKind"

definition same_object :: "Entry \<Rightarrow> Entry \<Rightarrow> bool" where
  "same_object e1 e2 \<longleftrightarrow>
     (let r1 = enRef e1; r2 = enRef e2
      in if is_file_kind (rfKind r1) then is_file_kind (rfKind r2) \<and> rfHash r1 = rfHash r2 \<and> rfRel r1 = rfRel r2
         else rfKind r1 = rfKind r2
              \<and> (rfKind r1 = categoryKind \<longrightarrow> rfCategory r1 = rfCategory r2)
              \<and> (rfKind r1 = directoryKind \<longrightarrow> rfHash r1 = rfHash r2 \<and> rfRel r1 = rfRel r2))"

lemma keys_of_same:
  assumes "hex_ok hex" "k \<in> keys_of hex (enRef e1)" "k \<in> keys_of hex (enRef e2)"
  shows "same_object e1 e2"
proof -
  have s: "hex a @ slash # p = hex b @ slash # q \<longleftrightarrow> a = b \<and> p = q" for a b p q
    using assms(1) slash_split [of "hex a" p "hex b" q] by (auto simp: hex_ok_def inj_def)
  have h: "hex a = hex b \<longleftrightarrow> a = b" for a b using assms(1) by (auto simp: hex_ok_def inj_def)
  show ?thesis using assms(2,3)
    by (cases "rfKind (enRef e1)"; cases "rfKind (enRef e2)")
      (auto simp: keys_of_def same_object_def is_file_kind_def Let_def torrentKey_def fileKey_def dirKey_def categoryKey_def
        s [unfolded slash_def] h slash_def split: if_splits)
qed

lemma keys_of_unique:
  assumes "same_object e1 e2" "rfKind (enRef e1) = directoryKind \<longrightarrow> rfRel (enRef e1) \<noteq> ''''"
  shows "\<exists>k. keys_of hex (enRef e1) = {k} \<and> keys_of hex (enRef e2) = {k}"
  using assms
  by (cases "rfKind (enRef e1)"; cases "rfKind (enRef e2)")
    (auto simp: keys_of_def same_object_def is_file_kind_def Let_def)


definition wit_calls :: "tree_call list" where
  "wit_calls = [ReadDirCall wit_backend ''show/s1'', LookupCall wit_backend ''/show//s1/e2.mkv'']"

definition wit_entries :: "Entry list" where
  "wit_entries = concat (map reply_entries (fst (tree_run hex_bytes wit_calls NewTree)))"


text \<open>Lookup of a child path.\<close>

lemma virtual_loop_append:
  "virtual_loop (ps @ qs) = (case virtual_loop ps of Inl e \<Rightarrow> Inl e | Inr xs \<Rightarrow>
     (case virtual_loop qs of Inl e \<Rightarrow> Inl e | Inr ys \<Rightarrow> Inr (xs @ ys)))"
  by (induction ps) (auto split: sum.splits)

text \<open>A name that can be a component of a path.\<close>

definition component :: "string \<Rightarrow> bool" where
  "component n \<longleftrightarrow> n \<noteq> '''' \<and> n \<noteq> ''.'' \<and> n \<noteq> ''..'' \<and> slash \<notin> set n \<and> CHR 0x00 \<notin> set n"

lemma virtualParts_child:
  assumes "component n" "virtualParts raw = Inr parts"
  shows "virtualParts (raw @ slash # n) = Inr (parts @ [n])"
  using assms
  by (auto simp: virtualParts_def component_def split_at_append split_at_single virtual_loop_append slash_def
      split: sum.splits if_splits)

lemma spec_walk_append:
  "spec_walk hex bk e (ps @ qs) = (case spec_walk hex bk e ps of Inl x \<Rightarrow> Inl x | Inr d \<Rightarrow> spec_walk hex bk d qs)"
  by (induction ps arbitrary: e) (simp_all split: sum.splits option.splits)

lemma spec_children_distinct:
  assumes "\<And>cs. bkCategories bk = Some cs \<Longrightarrow> distinct cs" "spec_children hex bk d = Inr es"
  shows "distinct (map enName es)"
proof -
  have "distinct (map reName (VisibleRootEntries hex views cs cat))" if "distinct cs" for views cs cat
    using layout_root_sorted [OF that, of hex views cat] by (simp add: strict_sorted_iff)
  moreover have "distinct (case bkCategories bk of Some cs \<Rightarrow> cs | None \<Rightarrow> [])" using assms(1) by (simp split: option.splits)
  moreover have "enName \<circ> root_child_of d = reName" "enName \<circ> child_of d c = feName" for c
    by (simp_all add: root_child_of_def child_of_def comp_def)
  ultimately show ?thesis using assms(2) children_distinct
    by (auto simp: spec_children_def spec_directory_def Let_def split: if_splits entryKind.splits sum.splits)
qed

lemma find_distinct:
  "distinct (map f xs) \<Longrightarrow> List.find (\<lambda>x. f x = n) xs = Some x \<longleftrightarrow> x \<in> set xs \<and> f x = n"
  by (induction xs) auto

text \<open>
  tree_lookup_listed: Looking up and listing agree: when a path is a directory, the path of a child can be
  looked up exactly if the directory listing has an entry of that name, and it is that entry.
\<close>

theorem tree_lookup_listed:
  assumes "tree_ok hex listOf t" "backend_ok listOf bk" "\<And>cs. bkCategories bk = Some cs \<Longrightarrow> distinct cs" "component n"
    "ReadDir hex bk raw t = (Inr es, t1)" "Lookup hex bk (raw @ slash # n) t1 = (r, t2)"
  shows "case r of Inl e \<Rightarrow> e = ErrNotFound \<and> n \<notin> set (map enName es)
         | Inr x \<Rightarrow> enName x = n \<and> {e \<in> set (map strip es). enName e = n} = {strip x}"
proof -
  have rd: "tree_ok hex listOf t1" "spec_readdir hex bk raw = Inr (map strip es)"
    using ReadDir_ok [OF assms(1,2,5)] by auto
  then obtain d parts where d: "virtualParts raw = Inr parts" "spec_walk hex bk (strip rootEntry0) parts = Inr d"
    "spec_children hex bk d = Inr (map strip es)"
    by (auto simp: spec_readdir_def spec_lookup_def split: sum.splits)
  have "spec_lookup hex bk (raw @ slash # n) = spec_walk hex bk d [n]"
    by (simp add: spec_lookup_def virtualParts_child [OF assms(4) d(1)] spec_walk_append d(2))
  then have sp: "spec_lookup hex bk (raw @ slash # n) = (case List.find (\<lambda>c. enName c = n) (map strip es) of
        None \<Rightarrow> Inl ErrNotFound | Some c \<Rightarrow> Inr c)"
    by (simp add: d(3) split: option.splits)
  have dist: "distinct (map enName (map strip es))" by (rule spec_children_distinct [OF assms(3) d(3)])
  show ?thesis
  proof (cases "List.find (\<lambda>c. enName c = n) (map strip es)")
    case None
    then have "n \<notin> set (map enName es)" by (auto simp: find_None_or_Some)
    moreover have "spec_lookup hex bk (raw @ slash # n) = Inl ErrNotFound" using sp None by simp
    ultimately show ?thesis using Lookup_ok [OF rd(1) assms(2,6)] by (auto split: sum.splits)
  next
    case (Some c)
    then have "spec_lookup hex bk (raw @ slash # n) = Inr c" using sp by simp
    moreover have "{e \<in> set (map strip es). enName e = n} = {c}"
    proof -
      have "x \<in> {c} \<longleftrightarrow> x \<in> {e \<in> set (map strip es). enName e = n}" for x
        using find_distinct [OF dist, of n x] Some by auto
      then show ?thesis by blast
    qed
    moreover have "enName c = n" using find_SomeD [OF Some] by simp
    ultimately show ?thesis using Lookup_ok [OF rd(1) assms(2,6)] by (auto split: sum.splits)
  qed
qed

theorem tree_lookup_listed_witness:
  "case fst (Lookup hex_bytes wit_backend (''show'' @ slash # ''s1'') (snd (ReadDir hex_bytes wit_backend ''show'' NewTree))) of
     Inl e \<Rightarrow> False
   | Inr x \<Rightarrow> enName x = ''s1'' \<and> {e \<in> set (map strip (projr (fst (ReadDir hex_bytes wit_backend ''show'' NewTree)))). enName e = ''s1''} = {strip x}"
proof -
  let ?rd = "ReadDir hex_bytes wit_backend ''show'' NewTree" and ?lk = "\<lambda>t. Lookup hex_bytes wit_backend (''show'' @ slash # ''s1'') t"
  have r: "isl (fst ?rd) = False" "map enName (projr (fst ?rd)) = [''s1'']" "isl (fst (?lk (snd ?rd))) = False"
    by code_simp+
  then have e: "?rd = (Inr (projr (fst ?rd)), snd ?rd)" by (cases "fst ?rd") (simp_all add: prod_eq_iff)
  have c: "component ''s1''" by (simp add: component_def slash_def)
  have b: "bkCategories wit_backend = Some cs \<Longrightarrow> distinct cs" for cs by (simp add: wit_backend_def)
  have l: "?lk (snd ?rd) = (fst (?lk (snd ?rd)), snd (?lk (snd ?rd)))" by simp
  show ?thesis using tree_lookup_listed [OF tree_ok_New wit_backend_ok b c e l] r(3)
    by (cases "fst (?lk (snd ?rd))") simp_all
qed

end
