(* ===== verification/StrmBackend.thy ===== *)
theory StrmBackend
  imports Strm VfsTree
begin

text \<open>
  The STRM projection of a backend (\<open>internal/vfs/strm_cache.go\<close>): the cached path mapping of each torrent,
  the projected lists with the sizes of the playlist texts, and the opening of a projected file.

  Entries and identities of lists are pointers, so they are addresses here; the cache of snapshots is that of
  \<open>SnapshotCache\<close>. Every method is one step: the channels that let concurrent first readers of a mapping or a
  projection share the work are not modelled. \<open>url\<close> is the method \<open>StreamURL\<close> of the source backend.
\<close>

section \<open>Model\<close>

text \<open>The size of a playlist text with the identity of its revision; 0 and \<open>None\<close> as long as it is unknown.\<close>

type_synonym strmTextSize = "int \<times> nat option"

record strmTorrent =
  etPayload :: "FileView list"
  etSourceID :: "nat option"
  etSingle :: bool
  etFiles :: "strmFile list"
  etTextSizes :: "strmTextSize list"
  etCreatedAt :: time
  etProjected :: "FileView list option"
  etProjectedID :: "nat option"
  etComplete :: bool

record strmBackend =
  sbCache :: snapshotCache
  sbEntries :: "nat \<Rightarrow> strmTorrent"
  sbNext :: nat
  sbBuilds :: nat

type_synonym linker = "hash \<Rightarrow> string \<Rightarrow> tree_error + string"

definition matches :: "TorrentView \<Rightarrow> strmTorrent \<Rightarrow> bool" where
  "matches view e =
     (if etSingle e \<noteq> tvSingleFile view then False
      else if tvFilesID view \<noteq> None then etSourceID e = tvFilesID view
      else etSourceID e = None \<and> etPayload e = tvFiles view)"

definition viewOfContents :: "hash \<Rightarrow> TorrentContents \<Rightarrow> TorrentView" where
  "viewOfContents h c =
     \<lparr>tvName = '''', tvHash = h, tvCategory = '''', tvCreatedAt = tcCreatedAt c, tvFiles = tcFiles c, tvFilesID = tcFilesID c,
      tvSubtitles = tcSubtitles c, tvSingleFile = tcSingleFile c\<rparr>"

definition refreshCreatedAtLocked :: "TorrentView \<Rightarrow> nat \<Rightarrow> snapshotObservation \<Rightarrow> strmBackend \<Rightarrow> strmBackend" where
  "refreshCreatedAtLocked view e ob b =
     (if unchangedLocked (tvHash view) ob (sbCache b) \<and> etCreatedAt (sbEntries b e) \<noteq> tvCreatedAt view
      then b\<lparr>sbEntries := (sbEntries b)(e := (sbEntries b e)\<lparr>etCreatedAt := tvCreatedAt view\<rparr>),
             sbCache := new_slot (tvHash view) (Some e) (sbCache b)\<rparr>
      else b)"

definition built_entry :: "(string \<Rightarrow> string) \<Rightarrow> TorrentView \<Rightarrow> strmTorrent" where
  "built_entry sha view =
     \<lparr>etPayload = tvFiles view, etSourceID = tvFilesID view, etSingle = tvSingleFile view, etFiles = strmFiles sha view,
      etTextSizes = replicate (length (tvFiles view)) (0, None), etCreatedAt = tvCreatedAt view, etProjected = None,
      etProjectedID = None, etComplete = False\<rparr>"

definition projectTorrent :: "(string \<Rightarrow> string) \<Rightarrow> TorrentView \<Rightarrow> snapshotObservation \<Rightarrow> strmBackend \<Rightarrow> nat \<times> strmBackend" where
  "projectTorrent sha view ob b =
     (case currentLocked (tvHash view) (sbCache b) of
        Some e \<Rightarrow>
          if matches view (sbEntries b e) then (e, refreshCreatedAtLocked view e ob b)
          else (sbNext b, b\<lparr>sbEntries := (sbEntries b)(sbNext b := built_entry sha view),
                            sbCache := snd (publishLocked (tvHash view) ob (sbNext b) (sbCache b)),
                            sbNext := Suc (sbNext b), sbBuilds := Suc (sbBuilds b)\<rparr>)
      | None \<Rightarrow> (sbNext b, b\<lparr>sbEntries := (sbEntries b)(sbNext b := built_entry sha view),
                            sbCache := snd (publishLocked (tvHash view) ob (sbNext b) (sbCache b)),
                            sbNext := Suc (sbNext b), sbBuilds := Suc (sbBuilds b)\<rparr>))"

text \<open>The list that \<open>projectionLocked\<close> computes: the shown paths with the sizes of their content.\<close>

definition shown_size :: "strmTorrent \<Rightarrow> nat \<Rightarrow> int" where
  "shown_size e i = (if stGenerated (etFiles e ! i) then fst (etTextSizes e ! i) else fvSize (etPayload e ! i))"

definition projection :: "strmTorrent \<Rightarrow> FileView list" where
  "projection e = map (\<lambda>i. \<lparr>fvPath = stPath (etFiles e ! i), fvSize = shown_size e i\<rparr>) [0..<length (etFiles e)]"

definition sizes_known :: "strmTorrent \<Rightarrow> bool" where
  "sizes_known e \<longleftrightarrow> list_all (\<lambda>i. \<not> stGenerated (etFiles e ! i) \<or> fst (etTextSizes e ! i) \<noteq> 0) [0..<length (etFiles e)]"

definition projectionLocked :: "nat \<Rightarrow> strmBackend \<Rightarrow> (FileView list \<times> nat option) \<times> strmBackend" where
  "projectionLocked e b =
     (let t = sbEntries b e
      in case etProjected t of
           Some files \<Rightarrow> ((files, etProjectedID t), b)
         | None \<Rightarrow>
             let id = (if sizes_known t \<and> etSourceID t \<noteq> None then Some (sbNext b) else None);
                 t' = t\<lparr>etProjected := Some (projection t), etComplete := sizes_known t, etProjectedID := id\<rparr>
             in ((projection t, id),
                 b\<lparr>sbEntries := (sbEntries b)(e := t'), sbNext := (if id = None then sbNext b else Suc (sbNext b))\<rparr>))"

text \<open>The files whose size is still missing, and the sizes that their links give.\<close>

definition missing_sizes :: "strmTorrent \<Rightarrow> nat list" where
  "missing_sizes t = filter (\<lambda>i. stGenerated (etFiles t ! i) \<and> fst (etTextSizes t ! i) = 0) [0..<length (etFiles t)]"

definition signed_size :: "linker \<Rightarrow> hash \<Rightarrow> strmTorrent \<Rightarrow> nat \<Rightarrow> int option" where
  "signed_size url h t i =
     (if i \<in> set (missing_sizes t)
      then (case url h (stOriginal (etFiles t ! i)) of Inl _ \<Rightarrow> None | Inr link \<Rightarrow> Some (int (length link) + 1))
      else None)"

definition projectedFiles :: "linker \<Rightarrow> hash \<Rightarrow> nat \<Rightarrow> strmBackend \<Rightarrow> (FileView list \<times> nat option) \<times> strmBackend" where
  "projectedFiles url h e b =
     (let t = sbEntries b e
      in if etComplete t then projectionLocked e b
         else if list_ex (\<lambda>i. signed_size url h t i \<noteq> None) [0..<length (etFiles t)]
         then
           let sizes = map (\<lambda>i. case signed_size url h t i of
                                   Some n \<Rightarrow> (n, Some (sbNext b))
                                 | None \<Rightarrow> etTextSizes t ! i) [0..<length (etTextSizes t)];
               b' = b\<lparr>sbEntries := (sbEntries b)(e := t\<lparr>etTextSizes := sizes, etProjected := None\<rparr>), sbNext := Suc (sbNext b)\<rparr>
           in projectionLocked e b'
         else projectionLocked e b)"

definition projectContents ::
  "(string \<Rightarrow> string) \<Rightarrow> linker \<Rightarrow> TorrentView \<Rightarrow> snapshotObservation \<Rightarrow> strmBackend \<Rightarrow> TorrentContents \<times> strmBackend" where
  "projectContents sha url view ob b =
     (let (e, b1) = projectTorrent sha view ob b;
          ((files, id), b2) = projectedFiles url (tvHash view) e b1
      in (\<lparr>tcFiles = files, tcFilesID = id, tcSubtitles = tvSubtitles view, tcCreatedAt = tvCreatedAt view,
           tcSingleFile = tvSingleFile view\<rparr>, b2))"

abbreviation on_cache :: "(snapshotCache \<Rightarrow> snapshotCache) \<Rightarrow> strmBackend \<Rightarrow> strmBackend" where
  "on_cache f b \<equiv> b\<lparr>sbCache := f (sbCache b)\<rparr>"

text \<open>The loop of \<open>Torrents\<close> over the source views.\<close>

fun project_views ::
  "(string \<Rightarrow> string) \<Rightarrow> linker \<Rightarrow> nat \<Rightarrow> TorrentView list \<Rightarrow> strmBackend \<Rightarrow> TorrentView list \<times> strmBackend" where
  "project_views sha url l [] b = ([], b)"
| "project_views sha url l (v # vs) b =
     (let (c, b1) = projectContents sha url v (observation l (tvHash v) (sbCache b)) b;
          (ps, b2) = project_views sha url l vs b1
      in (v\<lparr>tvFiles := tcFiles c, tvFilesID := tcFilesID c, tvSubtitles := tcSubtitles c\<rparr> # ps, b2))"

definition Torrents ::
  "(string \<Rightarrow> string) \<Rightarrow> (hash \<Rightarrow> string) \<Rightarrow> linker \<Rightarrow> Backend \<Rightarrow> strmBackend \<Rightarrow> TorrentView list \<times> strmBackend" where
  "Torrents sha hex url bk b =
     (let (l, c) = observeListing (sbCache b);
          views = bkTorrents bk;
          (projected, b1) = project_views sha url l views (b\<lparr>sbCache := c\<rparr>);
          categories = (case bkCategories bk of Some cs \<Rightarrow> cs | None \<Rightarrow> [])
      in (strmRootNames hex views categories projected,
          on_cache (finishListing l (\<lambda>h. h \<in> set (map tvHash views))) b1))"

definition TorrentContents_of ::
  "(string \<Rightarrow> string) \<Rightarrow> linker \<Rightarrow> Backend \<Rightarrow> hash \<Rightarrow> strmBackend \<Rightarrow> (tree_error + TorrentContents) \<times> strmBackend" where
  "TorrentContents_of sha url bk h b =
     (let (ob, c) = observe h (sbCache b); b0 = b\<lparr>sbCache := c\<rparr>
      in case torrentContents bk h of
           Inl e \<Rightarrow> (Inl e, on_cache (finish h ob) (on_cache (forgetLocked h ob) b0))
         | Inr contents \<Rightarrow>
             (case projectContents sha url (viewOfContents h contents) ob b0 of
                (r, b1) \<Rightarrow> (Inr r, on_cache (finish h ob) b1)))"

subsection \<open>Payload files\<close>

record strmPayload =
  pyFile :: strmFile
  pyStat :: FileStat
  pyEntry :: nat
  pyIndex :: nat
  pySizeID :: "nat option"

text \<open>\<open>byPath\<close> holds the first index of each path.\<close>

definition byPath :: "strmTorrent \<Rightarrow> string \<Rightarrow> nat option" where
  "byPath t path = find (\<lambda>i. stPath (etFiles t ! i) = path) [0..<length (etFiles t)]"

definition payloadInEntry :: "nat \<Rightarrow> string \<Rightarrow> strmBackend \<Rightarrow> strmPayload option" where
  "payloadInEntry e path b =
     (let t = sbEntries b e
      in map_option (\<lambda>i. \<lparr>pyFile = etFiles t ! i, pyStat = \<lparr>fsSize = fvSize (etPayload t ! i), fsCreatedAt = etCreatedAt t\<rparr>,
                         pyEntry = e, pyIndex = i, pySizeID = snd (etTextSizes t ! i)\<rparr>) (byPath t path))"

definition cachedPayloadFile :: "hash \<Rightarrow> string \<Rightarrow> strmBackend \<Rightarrow> strmPayload option" where
  "cachedPayloadFile h path b =
     (case currentLocked h (sbCache b) of None \<Rightarrow> None | Some e \<Rightarrow> payloadInEntry e path b)"

definition payloadFile ::
  "(string \<Rightarrow> string) \<Rightarrow> Backend \<Rightarrow> hash \<Rightarrow> string \<Rightarrow> strmBackend \<Rightarrow> (tree_error + strmPayload) \<times> strmBackend" where
  "payloadFile sha bk h path b =
     (case cachedPayloadFile h path b of
        Some payload \<Rightarrow> (if fsSize (pyStat payload) < 0 then Inl ErrInvalidName else Inr payload, b)
      | None \<Rightarrow>
          let (ob, c) = observe h (sbCache b); b0 = b\<lparr>sbCache := c\<rparr>
          in case torrentContents bk h of
               Inl e \<Rightarrow> (Inl e, on_cache (finish h ob) (on_cache (forgetLocked h ob) b0))
             | Inr contents \<Rightarrow>
                 (case projectTorrent sha (viewOfContents h contents) ob b0 of
                    (e, b1) \<Rightarrow>
                      (case payloadInEntry e path b1 of
                         None \<Rightarrow> Inl ErrNotFound
                       | Some payload \<Rightarrow> if fsSize (pyStat payload) < 0 then Inl ErrInvalidName else Inr payload,
                       on_cache (finish h ob) b1)))"

definition rememberTextSize :: "hash \<Rightarrow> strmPayload \<Rightarrow> int \<Rightarrow> strmBackend \<Rightarrow> strmBackend" where
  "rememberTextSize h p n b =
     (if currentLocked h (sbCache b) \<noteq> Some (pyEntry p) then b
      else
        let t = sbEntries b (pyEntry p)
        in if snd (etTextSizes t ! pyIndex p) \<noteq> pySizeID p \<or> fst (etTextSizes t ! pyIndex p) = n then b
           else b\<lparr>sbEntries := (sbEntries b)(pyEntry p := t\<lparr>etTextSizes := (etTextSizes t)[pyIndex p := (n, Some (sbNext b))],
                                                          etProjected := None, etProjectedID := None, etComplete := False\<rparr>),
                  sbNext := Suc (sbNext b)\<rparr>)"

definition FileStat_of ::
  "(string \<Rightarrow> string) \<Rightarrow> linker \<Rightarrow> Backend \<Rightarrow> hash \<Rightarrow> string \<Rightarrow> strmBackend \<Rightarrow> (tree_error + FileStat) \<times> strmBackend" where
  "FileStat_of sha url bk h path b =
     (case payloadFile sha bk h path b of
        (Inl e, b1) \<Rightarrow> (Inl e, b1)
      | (Inr p, b1) \<Rightarrow>
          if stGenerated (pyFile p)
          then (case url h (stOriginal (pyFile p)) of
                  Inl e \<Rightarrow> (Inl e, b1)
                | Inr link \<Rightarrow>
                    let n = int (length link) + 1
                    in (Inr ((pyStat p)\<lparr>fsSize := n\<rparr>), rememberTextSize h p n b1))
          else (Inr (pyStat p), b1))"

text \<open>What a snapshot reads from: a text, or a reader of the source backend.\<close>

datatype strm_reader = TextReader string | PayloadReader nat

definition OpenFileSnapshot ::
  "(string \<Rightarrow> string) \<Rightarrow> linker \<Rightarrow> Backend \<Rightarrow> hash \<Rightarrow> string \<Rightarrow> strmBackend \<Rightarrow> (tree_error + strm_reader \<times> FileStat) \<times> strmBackend" where
  "OpenFileSnapshot sha url bk h path b =
     (case payloadFile sha bk h path b of
        (Inl e, b1) \<Rightarrow> (Inl e, b1)
      | (Inr p, b1) \<Rightarrow>
          if stGenerated (pyFile p)
          then (case url h (stOriginal (pyFile p)) of
                  Inl e \<Rightarrow> (Inl e, b1)
                | Inr link \<Rightarrow>
                    let txt = link @ [CHR 0x0A]
                    in (Inr (TextReader txt, \<lparr>fsSize = int (length txt), fsCreatedAt = fsCreatedAt (pyStat p)\<rparr>),
                        rememberTextSize h p (int (length txt)) b1))
          else (case bkOpenFile bk h (stOriginal (pyFile p)) of
                  Inl e \<Rightarrow> (Inl e, b1)
                | Inr None \<Rightarrow> (Inl ErrInvalidName, b1)
                | Inr (Some reader) \<Rightarrow> (Inr (PayloadReader reader, pyStat p), b1)))"

definition OpenFile_of ::
  "(string \<Rightarrow> string) \<Rightarrow> linker \<Rightarrow> Backend \<Rightarrow> hash \<Rightarrow> string \<Rightarrow> strmBackend \<Rightarrow> (tree_error + strm_reader) \<times> strmBackend" where
  "OpenFile_of sha url bk h path b =
     (case OpenFileSnapshot sha url bk h path b of (Inl e, b1) \<Rightarrow> (Inl e, b1) | (Inr x, b1) \<Rightarrow> (Inr (fst x), b1))"

text \<open>\<open>NewSTRMBackend\<close>.\<close>

definition noEntry :: strmTorrent where
  "noEntry = \<lparr>etPayload = [], etSourceID = None, etSingle = False, etFiles = [], etTextSizes = [], etCreatedAt = 0,
              etProjected = None, etProjectedID = None, etComplete = False\<rparr>"

definition NewSTRMBackend :: strmBackend where
  "NewSTRMBackend = \<lparr>sbCache = newSnapshotCache, sbEntries = (\<lambda>_. noEntry), sbNext = 0, sbBuilds = 0\<rparr>"


section \<open>Histories\<close>

text \<open>A view keeps the promise of its identity.\<close>

definition view_fits :: "(nat \<Rightarrow> FileView list) \<Rightarrow> TorrentView \<Rightarrow> bool" where
  "view_fits I view \<longleftrightarrow> (\<forall>i. tvFilesID view = Some i \<longrightarrow> I i = tvFiles view)"

text \<open>Any sequence of calls, each over the backend as it is then; \<open>I\<close> gives the list that an identity stands for.\<close>

inductive strm_reach :: "(string \<Rightarrow> string) \<Rightarrow> (nat \<Rightarrow> FileView list) \<Rightarrow> strmBackend \<Rightarrow> bool" for sha I where
  start: "strm_reach sha I NewSTRMBackend"
| listing: "strm_reach sha I b \<Longrightarrow> list_all (view_fits I) (bkTorrents bk) \<Longrightarrow> strm_reach sha I (snd (Torrents sha hex url bk b))"
| contents: "strm_reach sha I b \<Longrightarrow> backend_ok I bk \<Longrightarrow> strm_reach sha I (snd (TorrentContents_of sha url bk h b))"
| stat: "strm_reach sha I b \<Longrightarrow> backend_ok I bk \<Longrightarrow> strm_reach sha I (snd (FileStat_of sha url bk h path b))"
| open_file: "strm_reach sha I b \<Longrightarrow> backend_ok I bk \<Longrightarrow> strm_reach sha I (snd (OpenFileSnapshot sha url bk h path b))"

section \<open>Lemmas on the cache\<close>

text \<open>A step of the cache that publishes nothing, and one that may publish a value under one hash.\<close>

definition shrinks :: "snapshotCache \<Rightarrow> snapshotCache \<Rightarrow> bool" where
  "shrinks c c' \<longleftrightarrow> (slots_ok c \<longrightarrow> slots_ok c' \<and> (\<forall>k v. currentLocked k c' = Some v \<longrightarrow> currentLocked k c = Some v))"

lemma shrinks_trans: "shrinks a b \<Longrightarrow> shrinks b c \<Longrightarrow> shrinks a c"
  by (auto simp: shrinks_def)

lemma shrinks_refl: "shrinks c c"
  by (simp add: shrinks_def)

lemma shrinks_observe: "shrinks c (snd (observe h c))"
  by (auto simp: shrinks_def observe_def slots_ok_new_slot currentLocked_new_slot split: option.splits if_splits)

lemma shrinks_adel: "shrinks c (c\<lparr>scSlots := adel h (scSlots c)\<rparr>)"
  unfolding shrinks_def using slots_ok_adel by (auto simp: currentLocked_def split: option.splits if_splits)

lemma shrinks_finish: "shrinks c (finish h ob c)"
  using shrinks_adel shrinks_refl by (auto simp: finish_def split: option.splits)

lemma shrinks_forget: "shrinks c (forgetLocked h ob c)"
  unfolding shrinks_def using slots_ok_forget [of c h ob]
  by (auto simp: forgetLocked_def currentLocked_def split: option.splits if_splits)

lemma shrinks_observeListing: "shrinks c (snd (observeListing c))"
  by (auto simp: shrinks_def observeListing_def Let_def slots_ok_def currentLocked_def less_SucI split: option.splits)

lemma shrinks_finishListing: "shrinks c (finishListing l live c)"
proof -
  have fold: "shrinks c (fold (drop_dead l live) hs c)" for hs c
  proof (induction hs arbitrary: c)
    case (Cons h hs)
    have "shrinks c (drop_dead l live h c)" using shrinks_forget shrinks_refl by (simp add: drop_dead_def)
    then show ?case using Cons.IH [of "drop_dead l live h c"] shrinks_trans by simp
  qed (simp add: shrinks_refl)
  let ?c1 = "fold (drop_dead l live) (map fst (scSlots c)) c"
  have "shrinks ?c1 (?c1\<lparr>scListings := filter (\<lambda>x. x \<noteq> l) (scListings ?c1), scListing := g\<rparr>)" for g
    by (auto simp: shrinks_def slots_ok_def currentLocked_def split: option.splits)
  then show ?thesis using fold shrinks_trans unfolding finishListing_def Let_def by blast
qed

lemma publish_current:
  assumes "slots_ok c" and "publishLocked h ob v c = (ok, c')"
  shows "slots_ok c'" and "currentLocked k c' = Some w \<Longrightarrow> currentLocked k c = Some w \<or> k = h \<and> w = v"
    and "ok \<Longrightarrow> currentLocked h c' = Some v"
proof -
  show "slots_ok c'" using assms by (auto simp: publishLocked_def slots_ok_new_slot split: if_splits option.splits)
  have same: "k = h" if "map_of (scSlots c) h = Some a" "map_of (scSlots c) k = Some a" for a
    using assms(1) that by (auto simp: slots_ok_def)
  show "currentLocked k c' = Some w \<Longrightarrow> currentLocked k c = Some w \<or> k = h \<and> w = v"
  proof (cases "map_of (scSlots c) h")
    case None
    assume "currentLocked k c' = Some w"
    then show ?thesis using assms None by (auto simp: publishLocked_def currentLocked_new_slot split: if_splits)
  next
    case (Some a)
    assume "currentLocked k c' = Some w"
    then show ?thesis using assms(2) Some same by (auto simp: publishLocked_def currentLocked_def split: if_splits option.splits)
  qed
  show "ok \<Longrightarrow> currentLocked h c' = Some v"
    using assms by (auto simp: publishLocked_def currentLocked_new_slot currentLocked_def split: if_splits option.splits)
qed

section \<open>Invariant\<close>

definition strm_of :: "(string \<Rightarrow> string) \<Rightarrow> FileView list \<Rightarrow> bool \<Rightarrow> strmFile list" where
  "strm_of sha files single = strmFiles sha (emptyView\<lparr>tvFiles := files, tvSingleFile := single\<rparr>)"

lemma strmFiles_of: "strmFiles sha view = strm_of sha (tvFiles view) (tvSingleFile view)"
  by (simp add: strm_of_def strmFiles_def mediaRoot_def)

text \<open>An entry maps the paths of its own payload, and a projection that is kept is up to date.\<close>

definition entry_fits :: "(string \<Rightarrow> string) \<Rightarrow> (nat \<Rightarrow> FileView list) \<Rightarrow> strmTorrent \<Rightarrow> bool" where
  "entry_fits sha I t \<longleftrightarrow> etFiles t = strm_of sha (etPayload t) (etSingle t) \<and> length (etTextSizes t) = length (etPayload t)
     \<and> (\<forall>i. etSourceID t = Some i \<longrightarrow> I i = etPayload t) \<and> (\<forall>fs. etProjected t = Some fs \<longrightarrow> fs = projection t)"

definition strm_inv :: "(string \<Rightarrow> string) \<Rightarrow> (nat \<Rightarrow> FileView list) \<Rightarrow> strmBackend \<Rightarrow> bool" where
  "strm_inv sha I b \<longleftrightarrow> slots_ok (sbCache b)
     \<and> (\<forall>h e. currentLocked h (sbCache b) = Some e \<longrightarrow> e < sbNext b \<and> entry_fits sha I (sbEntries b e))"

lemma strm_inv_shrinks: "strm_inv sha I b \<Longrightarrow> shrinks (sbCache b) c \<Longrightarrow> strm_inv sha I (b\<lparr>sbCache := c\<rparr>)"
  by (auto simp: strm_inv_def shrinks_def)

lemma strm_inv_entry:
  assumes "strm_inv sha I b" and "entry_fits sha I (sbEntries b e) \<Longrightarrow> entry_fits sha I t" and "sbNext b \<le> n"
  shows "strm_inv sha I (b\<lparr>sbEntries := (sbEntries b)(e := t), sbNext := n\<rparr>)"
  using assms unfolding strm_inv_def by (auto dest: less_le_trans)

lemma built_entry_fits: "view_fits I view \<Longrightarrow> entry_fits sha I (built_entry sha view)"
  by (auto simp: entry_fits_def built_entry_def strmFiles_of view_fits_def)


lemma view_of_contents_fits: "backend_ok I bk \<Longrightarrow> torrentContents bk h = Inr c \<Longrightarrow> view_fits I (viewOfContents h c)"
  by (auto simp: backend_ok_def view_fits_def viewOfContents_def)

lemma projection_createdAt [simp]: "projection (t\<lparr>etCreatedAt := x\<rparr>) = projection t"
  by (simp add: projection_def shown_size_def)

text \<open>The entry that a view is projected with fits it.\<close>

definition entry_for :: "(string \<Rightarrow> string) \<Rightarrow> (nat \<Rightarrow> FileView list) \<Rightarrow> TorrentView \<Rightarrow> strmTorrent \<Rightarrow> bool" where
  "entry_for sha I view t \<longleftrightarrow> entry_fits sha I t \<and> etPayload t = tvFiles view \<and> etSingle t = tvSingleFile view"

lemma projectTorrent_inv:
  assumes "strm_inv sha I b" and "view_fits I view" and "projectTorrent sha view ob b = (e, b')"
  shows "strm_inv sha I b' \<and> entry_for sha I view (sbEntries b' e) \<and> e < sbNext b'"
proof -
  let ?h = "tvHash view"
  have built: "strm_inv sha I b' \<and> entry_for sha I view (sbEntries b' e) \<and> e < sbNext b'"
    if b': "b' = b\<lparr>sbEntries := (sbEntries b)(sbNext b := built_entry sha view),
                   sbCache := snd (publishLocked ?h ob (sbNext b) (sbCache b)), sbNext := Suc (sbNext b), sbBuilds := Suc (sbBuilds b)\<rparr>"
      and e: "e = sbNext b"
  proof -
    obtain ok c where c: "publishLocked ?h ob (sbNext b) (sbCache b) = (ok, c)" by force
    have so: "slots_ok (sbCache b)" using assms(1) by (simp add: strm_inv_def)
    have f: "entry_fits sha I (built_entry sha view)" using assms(2) by (rule built_entry_fits)
    have "entry_fits sha I (sbEntries b' x) \<and> x < sbNext b'" if "currentLocked k c = Some x" for k x
      using publish_current(2) [OF so c that] assms(1) f by (auto simp: b' strm_inv_def less_SucI)
    then have "strm_inv sha I b'" using publish_current(1) [OF so c] c by (auto simp: strm_inv_def b')
    then show ?thesis using f by (simp add: b' e entry_for_def built_entry_def)
  qed
  show ?thesis
  proof (cases "currentLocked ?h (sbCache b)")
    case None
    show ?thesis by (rule built) (use None assms(3) in \<open>auto simp: projectTorrent_def\<close>)
  next
    case (Some x)
    have fx: "entry_fits sha I (sbEntries b x)" "x < sbNext b" using assms(1) Some by (auto simp: strm_inv_def)
    show ?thesis
    proof (cases "matches view (sbEntries b x)")
      case False
      show ?thesis by (rule built) (use False Some assms(3) in \<open>auto simp: projectTorrent_def\<close>)
    next
      case True
      then have r: "e = x" "b' = refreshCreatedAtLocked view x ob b" using assms(3) Some by (auto simp: projectTorrent_def)
      have "etPayload (sbEntries b x) = tvFiles view" "etSingle (sbEntries b x) = tvSingleFile view"
        using True fx(1) assms(2) by (auto simp: matches_def entry_fits_def view_fits_def split: if_splits)
      then have "entry_for sha I view (sbEntries b' e)" using fx(1) by (auto simp: r refreshCreatedAtLocked_def entry_for_def entry_fits_def)
      moreover have "strm_inv sha I b'"
        using assms(1) Some fx by (auto simp: r refreshCreatedAtLocked_def strm_inv_def slots_ok_new_slot currentLocked_new_slot entry_fits_def)
      moreover have "e < sbNext b'" using fx(2) by (simp add: r refreshCreatedAtLocked_def)
      ultimately show ?thesis by blast
    qed
  qed
qed

lemma projectionLocked_inv:
  assumes "strm_inv sha I b" and "entry_for sha I view (sbEntries b e)" and "projectionLocked e b = ((fs, fid), b')"
  shows "strm_inv sha I b' \<and> entry_for sha I view (sbEntries b' e) \<and> fs = projection (sbEntries b e) \<and> sbCache b' = sbCache b"
proof (cases "etProjected (sbEntries b e)")
  case (Some gs)
  then show ?thesis using assms by (auto simp: projectionLocked_def Let_def entry_for_def entry_fits_def)
next
  case None
  let ?t = "sbEntries b e"
  let ?t' = "?t\<lparr>etProjected := Some (projection ?t), etComplete := sizes_known ?t, etProjectedID := fid\<rparr>"
  have r: "fs = projection ?t" "b' = b\<lparr>sbEntries := (sbEntries b)(e := ?t'), sbNext := sbNext b'\<rparr>" "sbNext b \<le> sbNext b'"
    using assms(3) None by (auto simp: projectionLocked_def Let_def split: if_splits)
  have f: "entry_fits sha I ?t \<Longrightarrow> entry_fits sha I ?t'" by (auto simp: entry_fits_def projection_def shown_size_def)
  have "strm_inv sha I b'" by (subst r(2), rule strm_inv_entry [OF assms(1) _ r(3)], rule f)
  moreover have "entry_for sha I view ?t'" using assms(2) f by (auto simp: entry_for_def)
  moreover have "sbEntries b' e = ?t'" "sbCache b' = sbCache b" by (subst r(2), simp)+
  ultimately show ?thesis using r(1) by simp
qed

lemma projectedFiles_inv:
  assumes "strm_inv sha I b" and "entry_for sha I view (sbEntries b e)" and "projectedFiles url h e b = ((fs, fid), b')"
  shows "strm_inv sha I b' \<and> entry_for sha I view (sbEntries b' e) \<and> map fvPath fs = map stPath (etFiles (sbEntries b e))
     \<and> etFiles (sbEntries b' e) = etFiles (sbEntries b e) \<and> sbCache b' = sbCache b"
proof -
  have paths: "map fvPath (projection t) = map stPath (etFiles t)" for t
    by (rule nth_equalityI) (simp_all add: projection_def)
  have files: "etFiles t = strm_of sha (tvFiles view) (tvSingleFile view)" if "entry_for sha I view t" for t
    using that by (simp add: entry_for_def entry_fits_def)
  let ?t = "sbEntries b e"
  consider "projectedFiles url h e b = projectionLocked e b"
    | sizes where "projectedFiles url h e b = projectionLocked e (b\<lparr>sbEntries := (sbEntries b)(e := ?t\<lparr>etTextSizes := sizes, etProjected := None\<rparr>), sbNext := Suc (sbNext b)\<rparr>)"
        "length sizes = length (etTextSizes ?t)"
  proof -
    let ?sizes = "map (\<lambda>i. case signed_size url h ?t i of Some n \<Rightarrow> (n, Some (sbNext b)) | None \<Rightarrow> etTextSizes ?t ! i) [0..<length (etTextSizes ?t)]"
    have "length ?sizes = length (etTextSizes ?t)" by simp
    moreover have "projectedFiles url h e b = projectionLocked e b
        \<or> projectedFiles url h e b = projectionLocked e (b\<lparr>sbEntries := (sbEntries b)(e := ?t\<lparr>etTextSizes := ?sizes, etProjected := None\<rparr>), sbNext := Suc (sbNext b)\<rparr>)"
      unfolding projectedFiles_def Let_def by presburger
    ultimately show thesis using that by blast
  qed
  then show ?thesis
  proof cases
    case 1
    then show ?thesis using projectionLocked_inv [OF assms(1,2)] assms(3) paths files assms(2) by metis
  next
    case (2 sizes)
    let ?t' = "?t\<lparr>etTextSizes := sizes, etProjected := None\<rparr>"
    let ?b = "b\<lparr>sbEntries := (sbEntries b)(e := ?t'), sbNext := Suc (sbNext b)\<rparr>"
    have f: "entry_fits sha I ?t \<Longrightarrow> entry_fits sha I ?t'" using 2(2) by (auto simp: entry_fits_def)
    have i: "strm_inv sha I ?b" by (rule strm_inv_entry [OF assms(1)], rule f) simp_all
    have en: "entry_for sha I view (sbEntries ?b e)" using assms(2) f by (simp add: entry_for_def)
    have "projectionLocked e ?b = ((fs, fid), b')" using 2(1) assms(3) by simp
    from projectionLocked_inv [OF i en this] show ?thesis
      using paths [of "sbEntries ?b e"] files [of "sbEntries b' e"] files [OF assms(2)] by simp
  qed
qed


lemma projectContents_inv:
  assumes "strm_inv sha I b" and "view_fits I view" and "projectContents sha url view ob b = (c, b')"
  shows "strm_inv sha I b' \<and> map fvPath (tcFiles c) = map stPath (strmFiles sha view)"
proof -
  obtain e b1 where e: "projectTorrent sha view ob b = (e, b1)" by force
  obtain fs fid where f: "projectedFiles url (tvHash view) e b1 = ((fs, fid), b')" "tcFiles c = fs"
    using assms(3) e by (auto simp: projectContents_def split: prod.splits)
  have i: "strm_inv sha I b1" "entry_for sha I view (sbEntries b1 e)" using projectTorrent_inv [OF assms(1,2) e] by simp_all
  show ?thesis using projectedFiles_inv [OF i f(1)] f(2) i(2) by (simp add: entry_for_def entry_fits_def strmFiles_of [of sha view])
qed

lemma project_views_inv:
  "strm_inv sha I b \<Longrightarrow> list_all (view_fits I) vs \<Longrightarrow> strm_inv sha I (snd (project_views sha url l vs b))"
proof (induction vs arbitrary: b)
  case (Cons v vs)
  obtain c b1 where c: "projectContents sha url v (observation l (tvHash v) (sbCache b)) b = (c, b1)" by force
  have "view_fits I v" using Cons.prems(2) by simp
  from projectContents_inv [OF Cons.prems(1) this c] have "strm_inv sha I b1" by simp
  then show ?case
    using Cons.IH [of b1] Cons.prems(2) c by (cases "project_views sha url l vs b1") simp
qed simp

lemma payloadFile_inv:
  assumes "strm_inv sha I b" and "backend_ok I bk" and "payloadFile sha bk h path b = (r, b')"
  shows "strm_inv sha I b'"
proof (cases "cachedPayloadFile h path b")
  case (Some p)
  then show ?thesis using assms by (auto simp: payloadFile_def)
next
  case None
  obtain ob c where ob: "observe h (sbCache b) = (ob, c)" by force
  have i: "strm_inv sha I (b\<lparr>sbCache := c\<rparr>)" using strm_inv_shrinks [OF assms(1) shrinks_observe [of _ h]] ob by simp
  note shrink = strm_inv_shrinks [OF _ shrinks_finish] strm_inv_shrinks [OF _ shrinks_forget]
  show ?thesis
  proof (cases "torrentContents bk h")
    case (Inl e)
    then have "b' = on_cache (finish h ob) (on_cache (forgetLocked h ob) (b\<lparr>sbCache := c\<rparr>))"
      using assms(3) None ob by (simp add: payloadFile_def Let_def)
    then show ?thesis using shrink(1) [OF shrink(2) [OF i]] by simp
  next
    case (Inr contents)
    obtain e b1 where e: "projectTorrent sha (viewOfContents h contents) ob (b\<lparr>sbCache := c\<rparr>) = (e, b1)" by force
    have "strm_inv sha I b1" using projectTorrent_inv [OF i view_of_contents_fits [OF assms(2) Inr] e] by simp
    moreover have "b' = on_cache (finish h ob) b1" using assms(3) None ob Inr e by (simp add: payloadFile_def Let_def)
    ultimately show ?thesis using shrink(1) by simp
  qed
qed

lemma rememberTextSize_inv: "strm_inv sha I b \<Longrightarrow> strm_inv sha I (rememberTextSize h p n b)"
  unfolding rememberTextSize_def Let_def
  by (auto intro!: strm_inv_entry simp: entry_fits_def)

lemma TorrentContents_of_inv:
  assumes "strm_inv sha I b" and "backend_ok I bk"
  shows "strm_inv sha I (snd (TorrentContents_of sha url bk h b))"
proof -
  obtain ob c where ob: "observe h (sbCache b) = (ob, c)" by force
  have i: "strm_inv sha I (b\<lparr>sbCache := c\<rparr>)" using strm_inv_shrinks [OF assms(1) shrinks_observe [of _ h]] ob by simp
  note shrink = strm_inv_shrinks [OF _ shrinks_finish] strm_inv_shrinks [OF _ shrinks_forget]
  show ?thesis
  proof (cases "torrentContents bk h")
    case (Inl e)
    then show ?thesis using shrink(1) [OF shrink(2) [OF i]] ob by (simp add: TorrentContents_of_def)
  next
    case (Inr contents)
    obtain r b1 where r: "projectContents sha url (viewOfContents h contents) ob (b\<lparr>sbCache := c\<rparr>) = (r, b1)" by force
    have "strm_inv sha I b1" using projectContents_inv [OF i view_of_contents_fits [OF assms(2) Inr] r] by simp
    then show ?thesis using shrink(1) Inr ob r by (simp add: TorrentContents_of_def)
  qed
qed

lemma strm_inv_reach: "strm_reach sha I b \<Longrightarrow> strm_inv sha I b"
proof (induction rule: strm_reach.induct)
  case start
  then show ?case by (simp add: strm_inv_def NewSTRMBackend_def newSnapshotCache_def slots_ok_def currentLocked_def)
next
  case (listing b bk hex url)
  obtain l c where l: "observeListing (sbCache b) = (l, c)" by force
  have "strm_inv sha I (b\<lparr>sbCache := c\<rparr>)" using strm_inv_shrinks [OF listing.IH shrinks_observeListing] l by simp
  then have "strm_inv sha I (snd (project_views sha url l (bkTorrents bk) (b\<lparr>sbCache := c\<rparr>)))"
    using listing.hyps(2) by (rule project_views_inv)
  then show ?case
    using strm_inv_shrinks [OF _ shrinks_finishListing] l
    by (cases "project_views sha url l (bkTorrents bk) (b\<lparr>sbCache := c\<rparr>)") (simp add: Torrents_def Let_def)
next
  case (contents b bk url h)
  then show ?case by (simp add: TorrentContents_of_inv)
next
  case (stat b bk url h path)
  obtain r b1 where r: "payloadFile sha bk h path b = (r, b1)" by force
  have "strm_inv sha I b1" using payloadFile_inv [OF stat.IH stat.hyps(2) r] .
  then show ?case using r rememberTextSize_inv by (auto simp: FileStat_of_def Let_def split: sum.splits)
next
  case (open_file b bk url h path)
  obtain r b1 where r: "payloadFile sha bk h path b = (r, b1)" by force
  have "strm_inv sha I b1" using payloadFile_inv [OF open_file.IH open_file.hyps(2) r] .
  then show ?case using r rememberTextSize_inv by (auto simp: OpenFileSnapshot_def Let_def split: sum.splits option.splits)
qed


section \<open>Properties\<close>

lemma observe_unchanged: "observe h c = (ob, c') \<Longrightarrow> unchangedLocked h ob c'"
  by (auto simp: observe_def unchangedLocked_def new_slot_def split: option.splits)

lemma projectTorrent_current:
  assumes "slots_ok (sbCache b)" and "unchangedLocked (tvHash view) ob (sbCache b)" and "projectTorrent sha view ob b = (e, b')"
  shows "currentLocked (tvHash view) (sbCache b') = Some e"
proof -
  have "fst (publishLocked (tvHash view) ob v (sbCache b))" for v using assms(2) by (simp add: publishLocked_def split: option.splits)
  then have p: "currentLocked (tvHash view) (snd (publishLocked (tvHash view) ob v (sbCache b))) = Some v" for v
    using publish_current(3) [OF assms(1)] by (metis prod.collapse)
  show ?thesis using assms(1,3) p
    by (auto simp: projectTorrent_def refreshCreatedAtLocked_def currentLocked_new_slot split: option.splits if_splits)
qed

lemma finish_current: "currentLocked h c = Some e \<Longrightarrow> currentLocked h (finish h ob c) = Some e"
  by (cases "map_of (scSlots c) h") (auto simp: finish_def currentLocked_def)

text \<open>After a successful listing of one torrent its entry is current and maps exactly the listed paths.\<close>

lemma contents_current:
  assumes "strm_inv sha I b" and "backend_ok I bk" and "torrentContents bk h = Inr c"
    and "TorrentContents_of sha url bk h b = (Inr c', b')"
  obtains e where "currentLocked h (sbCache b') = Some e" and "etFiles (sbEntries b' e) = strmFiles sha (viewOfContents h c)"
    and "etPayload (sbEntries b' e) = tcFiles c" and "map fvPath (tcFiles c') = map stPath (strmFiles sha (viewOfContents h c))"
proof -
  let ?view = "viewOfContents h c"
  obtain ob k where ob: "observe h (sbCache b) = (ob, k)" by force
  have i: "strm_inv sha I (b\<lparr>sbCache := k\<rparr>)" using strm_inv_shrinks [OF assms(1) shrinks_observe [of _ h]] ob by simp
  have so: "slots_ok k" using i by (simp add: strm_inv_def)
  have vf: "view_fits I ?view" using assms(2,3) by (rule view_of_contents_fits)
  have vh: "tvHash ?view = h" "tvFiles ?view = tcFiles c" by (simp_all add: viewOfContents_def)
  obtain e b1 where e: "projectTorrent sha ?view ob (b\<lparr>sbCache := k\<rparr>) = (e, b1)" by force
  obtain fs fid b2 where f: "projectedFiles url h e b1 = ((fs, fid), b2)" by (metis prod.exhaust)
  have r: "tcFiles c' = fs" "b' = on_cache (finish h ob) b2"
    using assms(3,4) ob e f vh by (auto simp: TorrentContents_of_def projectContents_def)
  have p: "strm_inv sha I b1" "entry_for sha I ?view (sbEntries b1 e)" using projectTorrent_inv [OF i vf e] by simp_all
  have q: "entry_for sha I ?view (sbEntries b2 e)" "map fvPath fs = map stPath (etFiles (sbEntries b1 e))" "sbCache b2 = sbCache b1"
    using projectedFiles_inv [OF p f] by simp_all
  have cur: "currentLocked h (sbCache b1) = Some e"
    using projectTorrent_current [of "b\<lparr>sbCache := k\<rparr>" ?view ob sha e b1] so observe_unchanged [OF ob] e vh by simp
  show thesis
  proof (rule that)
    show "currentLocked h (sbCache b') = Some e" using finish_current [OF cur] q(3) r(2) by simp
    show "etFiles (sbEntries b' e) = strmFiles sha ?view" using q(1) r(2) by (simp add: entry_for_def entry_fits_def strmFiles_of [of sha ?view])
    show "etPayload (sbEntries b' e) = tcFiles c" using q(1) r(2) vh by (simp add: entry_for_def)
    show "map fvPath (tcFiles c') = map stPath (strmFiles sha ?view)"
      using q(2) p(2) r(1) by (simp add: entry_for_def entry_fits_def strmFiles_of [of sha ?view])
  qed
qed

lemma byPath_nth:
  assumes "distinct (map stPath (etFiles t))" and "i < length (etFiles t)"
  shows "byPath t (stPath (etFiles t ! i)) = Some i"
proof -
  let ?P = "\<lambda>j. stPath (etFiles t ! j) = stPath (etFiles t ! i)"
  have u: "j = i" if "j < length (etFiles t)" "?P j" for j
    using that assms nth_eq_iff_index_eq [OF assms(1), of j i] by simp
  have "find ?P [0..<length (etFiles t)] \<noteq> None" using assms(2) by (auto simp: find_None_iff)
  then obtain j where j: "find ?P [0..<length (etFiles t)] = Some j" by blast
  then have "j \<in> set [0..<length (etFiles t)] \<and> ?P j" using find_mem by fastforce
  then show ?thesis using u j by (auto simp: byPath_def)
qed

lemma strm_contents_distinct:
  assumes "\<And>f. f \<in> set (tcFiles c) \<Longrightarrow> plain_path f" and "distinct (map fvPath (tcFiles c))" and "digests sha"
    and "parts_total (tcFiles c) < 5 * 10 ^ 18"
  shows "distinct (map stPath (strmFiles sha (viewOfContents h c)))"
proof (cases "mediaRoot (viewOfContents h c)")
  case None
  then show ?thesis using assms by (intro strm_paths_distinct) (auto simp: viewOfContents_def)
next
  case (Some f)
  have "stPath \<circ> plain_file = fvPath" by (simp add: fun_eq_iff plain_file_def)
  then show ?thesis using Some assms(2) by (simp add: strmFiles_def Let_def viewOfContents_def)
qed

lemma strmFiles_original:
  assumes "\<And>f. f \<in> set (tvFiles view) \<Longrightarrow> plain_path f" and "digests sha" and "parts_total (tvFiles view) < 5 * 10 ^ 18" and "i < length (tvFiles view)"
  shows "stOriginal (strmFiles sha view ! i) = fvPath (tvFiles view ! i) \<and> stGenerated (strmFiles sha view ! i) = generated (tvFiles view ! i)"
proof (cases "mediaRoot view")
  case None
  then show ?thesis using strmFiles_shown [OF None assms(1,2,4,3)] by (auto simp: shown_def)
next
  case (Some f)
  then show ?thesis using assms(4) by (simp add: strmFiles_def Let_def plain_file_def)
qed

text \<open>
  C15: after any history of calls, the path that a listing shows for the i-th file of a torrent opens
  that very file: for a video the text is exactly its current signed link with a line end, and an unavailable link
  is an error, never an empty file; every other file is opened in the source under its own path. The answer
  comes from the cached mapping, whatever the backend answers to later listings.
\<close>

theorem strm_listing_opens:
  assumes "strm_reach sha I b" and "backend_ok I bk" and "torrentContents bk h = Inr c"
    and "TorrentContents_of sha url bk h b = (Inr c', b')"
    and "\<And>f. f \<in> set (tcFiles c) \<Longrightarrow> plain_path f" and "distinct (map fvPath (tcFiles c))" and "digests sha"
    and "parts_total (tcFiles c) < 5 * 10 ^ 18" and "i < length (tcFiles c)" and "0 \<le> fvSize (tcFiles c ! i)"
  shows "map_sum id fst (fst (OpenFileSnapshot sha url' bk' h (fvPath (tcFiles c' ! i)) b')) =
     (if generated (tcFiles c ! i)
      then (case url' h (fvPath (tcFiles c ! i)) of Inl e \<Rightarrow> Inl e | Inr link \<Rightarrow> Inr (TextReader (link @ [CHR 0x0A])))
      else (case bkOpenFile bk' h (fvPath (tcFiles c ! i)) of
              Inl e \<Rightarrow> Inl e
            | Inr None \<Rightarrow> Inl ErrInvalidName
            | Inr (Some reader) \<Rightarrow> Inr (PayloadReader reader)))"
proof -
  let ?view = "viewOfContents h c" and ?S = "strmFiles sha (viewOfContents h c)"
  have inv: "strm_inv sha I b" using assms(1) by (rule strm_inv_reach)
  obtain e where e: "currentLocked h (sbCache b') = Some e" "etFiles (sbEntries b' e) = ?S" "etPayload (sbEntries b' e) = tcFiles c"
    "map fvPath (tcFiles c') = map stPath ?S" by (rule contents_current [OF inv assms(2-4)])
  have files: "tvFiles ?view = tcFiles c" by (simp add: viewOfContents_def)
  have il: "i < length ?S" using assms(9) files by simp
  have path: "fvPath (tcFiles c' ! i) = stPath (?S ! i)" using e(4) il by (metis length_map nth_map)
  have d: "distinct (map stPath ?S)" using assms(5-8) by (rule strm_contents_distinct)
  have o: "stOriginal (?S ! i) = fvPath (tcFiles c ! i)" "stGenerated (?S ! i) = generated (tcFiles c ! i)"
    using strmFiles_original [of ?view sha i] assms(5,7-9) files by simp_all
  have bp: "byPath (sbEntries b' e) (stPath (?S ! i)) = Some i" using byPath_nth [of "sbEntries b' e" i] e(2) d il by simp
  have "cachedPayloadFile h (stPath (?S ! i)) b' =
     Some \<lparr>pyFile = ?S ! i, pyStat = \<lparr>fsSize = fvSize (tcFiles c ! i), fsCreatedAt = etCreatedAt (sbEntries b' e)\<rparr>, pyEntry = e,
           pyIndex = i, pySizeID = snd (etTextSizes (sbEntries b' e) ! i)\<rparr>"
    using e(1-3) bp by (simp add: cachedPayloadFile_def payloadInEntry_def Let_def)
  then have "payloadFile sha bk' h (stPath (?S ! i)) b' =
     (Inr \<lparr>pyFile = ?S ! i, pyStat = \<lparr>fsSize = fvSize (tcFiles c ! i), fsCreatedAt = etCreatedAt (sbEntries b' e)\<rparr>, pyEntry = e,
           pyIndex = i, pySizeID = snd (etTextSizes (sbEntries b' e) ! i)\<rparr>, b')"
    using assms(10) by (simp add: payloadFile_def)
  then show ?thesis unfolding path OpenFileSnapshot_def by (simp add: o Let_def split: sum.split option.split)
qed


text \<open>A torrent with a video and a text whose link is available.\<close>

definition strm_sample :: TorrentContents where
  "strm_sample = \<lparr>tcFiles = [\<lparr>fvPath = ''d/a.mkv'', fvSize = 5\<rparr>, \<lparr>fvPath = ''d/n'', fvSize = 6\<rparr>], tcFilesID = None, tcSubtitles = [],
                  tcCreatedAt = 7, tcSingleFile = False\<rparr>"

definition strm_sample_backend :: Backend where
  "strm_sample_backend = \<lparr>bkTorrents = [], bkOpenFile = (\<lambda>h p. Inr (Some 3)), bkCategories = None, bkContents = Some (\<lambda>h. Inr strm_sample),
     bkFileStat = None, bkSubtitleStat = None, bkOpenSnapshot = None, bkOpenSubtitle = None\<rparr>"

theorem strm_listing_opens_witness:
  "\<exists>c' b'. TorrentContents_of sample_digest (\<lambda>h p. Inr ''http://x'') strm_sample_backend ''h'' NewSTRMBackend = (Inr c', b')
     \<and> map_sum id fst (fst (OpenFileSnapshot sample_digest (\<lambda>h p. Inr ''http://x'') strm_sample_backend ''h'' (fvPath (tcFiles c' ! 0)) b')) =
         Inr (TextReader (''http://x'' @ [CHR 0x0A]))"
proof -
  let ?url = "\<lambda>h p. Inr ''http://x''"
  have t: "torrentContents strm_sample_backend ''h'' = Inr strm_sample" by (simp add: torrentContents_def strm_sample_backend_def)
  obtain r b' where r: "TorrentContents_of sample_digest ?url strm_sample_backend ''h'' NewSTRMBackend = (r, b')" by force
  then obtain c' where c: "TorrentContents_of sample_digest ?url strm_sample_backend ''h'' NewSTRMBackend = (Inr c', b')"
    using t by (auto simp: TorrentContents_of_def split: prod.splits)
  have p: "parts_of \<lparr>fvPath = ''d/a.mkv'', fvSize = 5\<rparr> = [''d'', ''a.mkv'']" "parts_of \<lparr>fvPath = ''d/n'', fvSize = 6\<rparr> = [''d'', ''n'']"
    by (simp_all add: parts_of_def slash_def)
  have g: "generated \<lparr>fvPath = ''d/a.mkv'', fvSize = 5\<rparr>"
    by (simp add: strmExtension_def VideoExtension_def Ext_def videoContentTypes_def lower_char_def byte_in_def slash_def)
  have "map_sum id fst (fst (OpenFileSnapshot sample_digest ?url strm_sample_backend ''h'' (fvPath (tcFiles c' ! 0)) b')) =
     (if generated (tcFiles strm_sample ! 0)
      then (case ?url ''h'' (fvPath (tcFiles strm_sample ! 0)) of Inl e \<Rightarrow> Inl e | Inr link \<Rightarrow> Inr (TextReader (link @ [CHR 0x0A])))
      else (case bkOpenFile strm_sample_backend ''h'' (fvPath (tcFiles strm_sample ! 0)) of
              Inl e \<Rightarrow> Inl e | Inr None \<Rightarrow> Inl ErrInvalidName | Inr (Some reader) \<Rightarrow> Inr (PayloadReader reader)))"
  proof (rule strm_listing_opens [OF strm_reach.start _ t c])
    show "backend_ok (\<lambda>_. []) strm_sample_backend"
      by (auto simp: backend_ok_def torrentContents_def strm_sample_backend_def strm_sample_def)
    show "plain_path f" if "f \<in> set (tcFiles strm_sample)" for f using that p by (auto simp: strm_sample_def plain_path_def)
    show "digests sample_digest" by (simp add: digests_def sample_digest_def)
    show "parts_total (tcFiles strm_sample) < 5 * 10 ^ 18" using p by (simp add: strm_sample_def parts_total_def)
  qed (simp_all add: strm_sample_def)
  then show ?thesis using c g by (intro exI conjI) (auto simp: strm_sample_def)
qed

end
