(* ===== verification/StreamUrl.thy ===== *)
theory StreamUrl
  imports Encodings
begin

text \<open>
  Signed locations of payload files (\<open>internal/stream/signer.go\<close>, \<open>internal/stream/url.go\<close>). The session operations
  that hand them out and redeem them are the subject of \<open>StreamLinks\<close>.

  Strings are lists of bytes. \<open>hmac key message\<close> is HMAC-SHA256 and \<open>parse\<close> is \<open>url.Parse\<close>, whose result is the
  record \<open>URL\<close>; \<open>is6\<close> tells whether \<open>netip.ParseAddr\<close> reads an IPv6 address. The methods of a URL that
  the code calls are modelled.
\<close>

section \<open>Model\<close>

datatype stream_error = ErrDisabled | ErrMalformed | ErrInvalidSignature | ErrKeySize | ErrNotFound | ErrClosed

subsection \<open>Signer\<close>

definition KeySize :: nat where
  "KeySize = 32"

definition signatureDomain :: string where
  "signatureDomain = ''torrentfs-stream-v1'' @ [CHR 0x00]"

record Signer =
  signerKey :: "8 word list"

definition NewSigner :: "8 word list \<Rightarrow> stream_error + Signer" where
  "NewSigner key = (if length key \<noteq> KeySize then Inl ErrKeySize else Inr \<lparr>signerKey = key\<rparr>)"

definition sum_mac :: "(8 word list \<Rightarrow> string \<Rightarrow> 8 word list) \<Rightarrow> Signer \<Rightarrow> string \<Rightarrow> string \<Rightarrow> 8 word list" where
  "sum_mac hmac s hash path = hmac (signerKey s) (signatureDomain @ hash @ [CHR 0x00] @ path)"

definition Sign :: "(8 word list \<Rightarrow> string \<Rightarrow> 8 word list) \<Rightarrow> Signer \<Rightarrow> string \<Rightarrow> string \<Rightarrow> string" where
  "Sign hmac s hash path = RawURLEncoding (sum_mac hmac s hash path)"

definition decodeSignature :: "string \<Rightarrow> 8 word list option" where
  "decodeSignature sig =
     (if length sig \<noteq> 43 then None
      else if list_ex (\<lambda>c. \<not> (alnum c \<or> c = CHR ''-'' \<or> c = CHR ''_'')) sig then None
      else case RawURLDecoding sig of
             None \<Rightarrow> None
           | Some mac \<Rightarrow> if length mac = 32 then Some mac else None)"

definition Verify :: "(8 word list \<Rightarrow> string \<Rightarrow> 8 word list) \<Rightarrow> Signer \<Rightarrow> string \<Rightarrow> string \<Rightarrow> string \<Rightarrow> bool" where
  "Verify hmac s hash path sig = (case decodeSignature sig of None \<Rightarrow> False | Some mac \<Rightarrow> mac = sum_mac hmac s hash path)"

subsection \<open>URLs\<close>

record Location =
  lcHash :: string
  lcSignature :: string
  lcPath :: string

definition validComponent :: "string \<Rightarrow> bool" where
  "validComponent c \<longleftrightarrow> c \<noteq> '''' \<and> c \<noteq> ''.'' \<and> c \<noteq> ''..'' \<and> slash \<notin> set c \<and> CHR 0x5C \<notin> set c \<and> CHR 0x00 \<notin> set c"

definition ValidatePath :: "string \<Rightarrow> stream_error option" where
  "ValidatePath filePath = (if list_all validComponent (split_at slash filePath) then None else Some ErrMalformed)"

text \<open>The parts of \<open>url.URL\<close> that the code reads; the user information only by its presence.\<close>

record URL =
  uScheme :: string
  uOpaque :: string
  uUser :: bool
  uHost :: string
  uPath :: string
  uRawPath :: string
  uRawQuery :: string
  uForceQuery :: bool

definition keep_path :: "char \<Rightarrow> bool" where
  "keep_path c \<longleftrightarrow> alnum c \<or> c \<in> set ''-_.~$&+,/:;=@''"

definition validEncoded :: "string \<Rightarrow> bool" where
  "validEncoded s \<longleftrightarrow> list_all (\<lambda>c. keep_path c \<or> c \<in> set ''!()*[]%'' \<or> c = CHR 0x27) s"

definition EscapedPath :: "URL \<Rightarrow> string" where
  "EscapedPath u =
     (if uRawPath u \<noteq> '''' \<and> validEncoded (uRawPath u) \<and> unescape (uRawPath u) = Some (uPath u) then uRawPath u
      else if uPath u = ''*'' then ''*''
      else escape_with keep_path (uPath u))"

text \<open>
  \<open>Host\<close> is split at its last colon when only digits follow it, and brackets around an address are removed.
\<close>

definition digits :: "string \<Rightarrow> bool" where
  "digits s \<longleftrightarrow> list_all (\<lambda>c. 48 \<le> (of_char c :: nat) \<and> of_char c \<le> (57 :: nat)) s"

definition after_colon :: "string \<Rightarrow> string option" where
  "after_colon h =
     (let p = rev (takeWhile (\<lambda>c. c \<noteq> CHR '':'') (rev h))
      in if CHR '':'' \<in> set h \<and> digits p then Some p else None)"

definition Port :: "URL \<Rightarrow> string" where
  "Port u = (case after_colon (uHost u) of Some p \<Rightarrow> p | None \<Rightarrow> '''')"

definition Hostname :: "URL \<Rightarrow> string" where
  "Hostname u =
     (let h = (case after_colon (uHost u) of Some p \<Rightarrow> take (length (uHost u) - length p - 1) (uHost u) | None \<Rightarrow> uHost u)
      in if h \<noteq> '''' \<and> hd h = CHR ''['' \<and> last h = CHR '']'' \<and> 2 \<le> length h then butlast (tl h) else h)"

definition keep_host :: "char \<Rightarrow> bool" where
  "keep_host c \<longleftrightarrow> alnum c \<or> c \<in> set ''-_.~!$&()*+,;=:[]<>'' \<or> c = CHR 0x27 \<or> c = CHR 0x22"

text \<open>
  \<open>URL.String\<close> for a URL with a scheme and a host and without opaque part, user, query and fragment: the only
  ones the code prints.
\<close>

definition origin :: "URL \<Rightarrow> string" where
  "origin u = uScheme u @ ''://'' @ escape_with keep_host (uHost u)"

definition URL_String :: "URL \<Rightarrow> string" where
  "URL_String u =
     (let p = EscapedPath u
      in origin u @ (if p \<noteq> '''' \<and> hd p \<noteq> slash then [slash] else []) @ p)"

definition TrimSlash :: "string \<Rightarrow> string" where
  "TrimSlash s = (if s \<noteq> '''' \<and> last s = slash then butlast s else s)"

definition bad_component :: "string \<Rightarrow> bool" where
  "bad_component escaped \<longleftrightarrow> (case unescape escaped of None \<Rightarrow> True | Some c \<Rightarrow> \<not> validComponent c)"

definition parseBaseURL :: "(string \<Rightarrow> URL option) \<Rightarrow> (string \<Rightarrow> bool) \<Rightarrow> string \<Rightarrow> stream_error + URL" where
  "parseBaseURL parse is6 base =
     (case parse base of
        None \<Rightarrow> Inl ErrMalformed
      | Some u \<Rightarrow>
          if uScheme u \<noteq> ''http'' \<and> uScheme u \<noteq> ''https'' \<or> uOpaque u \<noteq> '''' \<or> uUser u \<or> uRawQuery u \<noteq> ''''
             \<or> uForceQuery u \<or> CHR ''#'' \<in> set base
          then Inl ErrMalformed
          else if Hostname u = '''' then Inl ErrMalformed
          else if (if uHost u \<noteq> '''' \<and> hd (uHost u) = CHR ''['' then \<not> is6 (Hostname u)
                   else list_ex (\<lambda>c. c \<in> set '':[]'') (Hostname u))
          then Inl ErrMalformed
          else if uHost u \<noteq> '''' \<and> last (uHost u) = CHR '':'' then Inl ErrMalformed
          else if Port u \<noteq> '''' \<and> (undecimal (Port u) < 1 \<or> undecimal (Port u) > 65535) then Inl ErrMalformed
          else
            let prefix = TrimSlash (EscapedPath u)
            in if prefix \<noteq> '''' \<and> (hd prefix \<noteq> slash \<or> list_ex bad_component (split_at slash (tl prefix)))
               then Inl ErrMalformed
               else Inr u)"

definition location_of :: "string \<Rightarrow> string \<Rightarrow> string" where
  "location_of hash sig = ''/stream/'' @ hex_bytes hash @ [slash] @ sig @ [slash]"

definition BuildURL ::
  "(string \<Rightarrow> URL option) \<Rightarrow> (string \<Rightarrow> bool) \<Rightarrow> string \<Rightarrow> string \<Rightarrow> string \<Rightarrow> string \<Rightarrow> stream_error + string" where
  "BuildURL parse is6 base hash sig filePath =
     (if base = '''' then Inl ErrDisabled
      else
        case parseBaseURL parse is6 base of
          Inl e \<Rightarrow> Inl e
        | Inr u \<Rightarrow>
            (case ValidatePath filePath of
               Some e \<Rightarrow> Inl e
             | None \<Rightarrow>
                 if decodeSignature sig = None then Inl ErrMalformed
                 else
                   let components = map PathEscape (split_at slash filePath);
                       escapedPrefix = TrimSlash (EscapedPath u)
                   in Inr (URL_String (u\<lparr>uPath := TrimSlash (uPath u) @ location_of hash sig @ filePath,
                                         uRawPath := escapedPrefix @ location_of hash sig @ join slash components\<rparr>))))"

fun unescape_all :: "string list \<Rightarrow> string list option" where
  "unescape_all [] = Some []"
| "unescape_all (e # es) =
     (case unescape e of
        None \<Rightarrow> None
      | Some c \<Rightarrow> if \<not> validComponent c then None else map_option (\<lambda>cs. c # cs) (unescape_all es))"

definition ParsePath :: "string \<Rightarrow> stream_error + Location" where
  "ParsePath escapedPath =
     (if escapedPath = '''' \<or> hd escapedPath \<noteq> slash \<or> CHR ''?'' \<in> set escapedPath \<or> CHR ''#'' \<in> set escapedPath
      then Inl ErrMalformed
      else
        let parts = split_at slash (tl escapedPath)
        in if length parts < 4 then Inl ErrMalformed
           else
             case unescape_all parts of
               None \<Rightarrow> Inl ErrMalformed
             | Some components \<Rightarrow>
                 if components ! 0 \<noteq> ''stream'' then Inl ErrMalformed
                 else if length (components ! 1) \<noteq> 40 then Inl ErrMalformed
                 else
                   (case unhex (components ! 1) of
                      None \<Rightarrow> Inl ErrMalformed
                    | Some hash \<Rightarrow>
                        if length hash \<noteq> 20 then Inl ErrMalformed
                        else if hex_bytes hash \<noteq> components ! 1 then Inl ErrMalformed
                        else if decodeSignature (components ! 2) = None then Inl ErrMalformed
                        else Inr \<lparr>lcHash = hash, lcSignature = components ! 2, lcPath = join slash (drop 3 components)\<rparr>))"

section \<open>Signatures\<close>

lemma url_alphabet_ok: "c \<in> set url_alphabet \<Longrightarrow> alnum c \<or> c = CHR ''-'' \<or> c = CHR ''_''"
proof -
  have "list_all (\<lambda>c. alnum c \<or> c = CHR ''-'' \<or> c = CHR ''_'') url_alphabet" by code_simp
  then show "c \<in> set url_alphabet \<Longrightarrow> ?thesis" by (auto simp: list_all_iff)
qed

lemma decodeSignature_encoding:
  assumes "length mac = 32"
  shows "decodeSignature (RawURLEncoding mac) = Some mac"
proof -
  have "\<not> list_ex (\<lambda>c. \<not> (alnum c \<or> c = CHR ''-'' \<or> c = CHR ''_'')) (RawURLEncoding mac)"
    using RawURLEncoding_chars [of mac] url_alphabet_ok by (auto simp: list_ex_iff)
  then show ?thesis using assms by (simp add: decodeSignature_def RawURLEncoding_length)
qed

lemma decodeSignature_Some: "decodeSignature sig = Some mac \<Longrightarrow> sig = RawURLEncoding mac \<and> length mac = 32"
  by (auto simp: decodeSignature_def b64.decode_iff split: if_splits option.splits)

text \<open>
  stream_verify_exact: A signature verifies for a torrent and a path exactly if it is the text that \<open>Sign\<close> hands
  out for them: no second spelling of the same authenticator is accepted. HMAC-SHA256 gives 32 bytes.
\<close>

theorem stream_verify_exact:
  assumes "length (sum_mac hmac s hash path) = 32"
  shows "Verify hmac s hash path sig \<longleftrightarrow> sig = Sign hmac s hash path"
  using decodeSignature_encoding [OF assms] decodeSignature_Some [of sig]
  by (auto simp: Verify_def Sign_def split: option.splits)

theorem stream_verify_exact_witness:
  "Verify (\<lambda>k m. k) \<lparr>signerKey = replicate 32 65\<rparr> (replicate 20 CHR ''h'') ''a.mkv''
     (Sign (\<lambda>k m. k) \<lparr>signerKey = replicate 32 65\<rparr> (replicate 20 CHR ''h'') ''a.mkv'')"
  by (subst stream_verify_exact) (simp_all add: sum_mac_def)

section \<open>Paths inside a URL\<close>

lemma slash_ne [simp]: "slash \<noteq> CHR ''%''" "slash \<noteq> CHR ''?''" "slash \<noteq> CHR ''#''"
  by (simp_all add: slash_def)

lemma unnibble_slash: "unnibble slash = None"
  by (simp add: unnibble_def slash_def)

lemma unescape_slash [simp]: "unescape (slash # s) = map_option (\<lambda>out. slash # out) (unescape s)"
  by (simp add: slash_ne)

text \<open>A slash never belongs to an escape, so decoding respects the components of a path.\<close>

lemma unescape_before_slash:
  "unescape (a @ slash # b) = Some p \<Longrightarrow> \<exists>x y. unescape a = Some x \<and> unescape b = Some y \<and> p = x @ slash # y"
proof (induction a arbitrary: p rule: unescape.induct)
  case 1
  then show ?case by auto
next
  case (2 c s)
  show ?case
  proof (cases "c = CHR ''%''")
    case True
    then obtain d e rest u v out where s: "s @ slash # b = d # e # rest" "unnibble d = Some u" "unnibble e = Some v"
        "unescape rest = Some out" "p = char_of (u * 16 + v) # out"
      using "2.prems" by (auto split: list.splits option.splits)
    have "d \<noteq> slash" "e \<noteq> slash" using s(2,3) unnibble_slash by auto
    then obtain s' where s': "s = d # e # s'" "rest = s' @ slash # b"
      using s(1) by (cases s; cases "tl s") auto
    have "unescape (s' @ slash # b) = Some out" using s(4) s'(2) by simp
    from "2.IH"(1) [OF True s'(1) refl refl s(2,3) this] show ?thesis using True s s' by auto
  next
    case False
    then obtain out where "unescape (s @ slash # b) = Some out" "p = c # out" using "2.prems" by auto
    with "2.IH"(2) [OF False] False show ?thesis by fastforce
  qed
qed

lemma EscapedPath_valid: "validEncoded (EscapedPath u) \<and> unescape (EscapedPath u) = Some (uPath u)"
proof -
  have "\<not> keep_path (CHR ''%'')" by (simp add: keep_path_def alnum_def)
  then have "unescape (escape_with keep_path (uPath u)) = Some (uPath u)" by (rule unescape_escape_with)
  moreover have n: "alnum (capital_nibble n)" for n
  proof -
    have "capital_nibble n \<in> set ''0123456789ABCDEF''" unfolding capital_nibble_def by (rule nth_mem) simp
    moreover have "list_all alnum ''0123456789ABCDEF''" by code_simp
    ultimately show ?thesis by (auto simp: list_all_iff)
  qed
  have "validEncoded (escape_with keep_path s)" for s
  proof (induction s)
    case (Cons c s)
    have "validEncoded (if keep_path c then [c] else escape_char c)"
      using n by (auto simp: validEncoded_def escape_char_def keep_path_def)
    then show ?case using Cons by (simp add: escape_with_def validEncoded_def)
  qed (simp add: validEncoded_def escape_with_def)
  moreover have "validEncoded ''*'' \<and> unescape ''*'' = Some ''*''" by (simp add: validEncoded_def)
  ultimately show ?thesis unfolding EscapedPath_def by (auto split: if_splits)
qed

lemma TrimSlash_cases: "TrimSlash s @ [slash] = s \<or> TrimSlash s = s \<and> (s = '''' \<or> last s \<noteq> slash)"
  by (cases s rule: rev_cases) (auto simp: TrimSlash_def)

text \<open>The prefix of an accepted base URL, escaped and decoded, without its final slash.\<close>

lemma unescape_prefix:
  assumes "parseBaseURL parse is6 base = Inr u"
  shows "unescape (TrimSlash (EscapedPath u)) = Some (TrimSlash (uPath u))"
proof -
  let ?e = "EscapedPath u"
  have u: "unescape ?e = Some (uPath u)" using EscapedPath_valid by blast
  have ok: "TrimSlash ?e = '''' \<or> hd (TrimSlash ?e) = slash \<and> list_all (\<lambda>c. \<not> bad_component c) (split_at slash (tl (TrimSlash ?e)))"
    using assms by (auto simp: parseBaseURL_def Let_def list_ex_iff list_all_iff split: option.splits if_splits)
  from TrimSlash_cases [of ?e] show ?thesis
  proof
    assume e: "TrimSlash ?e @ [slash] = ?e"
    with u have "unescape (TrimSlash ?e @ slash # []) = Some (uPath u)" by simp
    from unescape_before_slash [OF this] obtain x where "unescape (TrimSlash ?e) = Some x" "uPath u = x @ [slash]" by auto
    then show ?thesis by (simp add: TrimSlash_def)
  next
    assume e: "TrimSlash ?e = ?e \<and> (?e = '''' \<or> last ?e \<noteq> slash)"
    show ?thesis
    proof (cases "?e = ''''")
      case True
      then show ?thesis using u by (simp add: TrimSlash_def)
    next
      case False
      then have r: "?e = slash # tl ?e" "list_all (\<lambda>c. \<not> bad_component c) (split_at slash (tl ?e))"
        using False ok e hd_Cons_tl [of ?e] by auto
      let ?ps = "split_at slash (tl ?e)"
      have j: "slash # tl ?e = join slash ([] # ?ps)" using split_at_ne [of slash "tl ?e"] by (simp add: join_Cons)
      let ?l = "last ?ps"
      have "?l \<in> set ?ps" using split_at_ne [of slash "tl ?e"] by (rule last_in_set)
      then obtain c where c: "unescape ?l = Some c" "validComponent c"
        using r(2) by (auto simp: list_all_iff bad_component_def split: option.splits)
      have "\<exists>q. ?e = q @ slash # ?l"
      proof -
        have "ps \<noteq> [] \<Longrightarrow> \<exists>q. join slash ([] # ps) = q @ slash # last ps" for ps :: "string list"
        proof (induction ps rule: rev_induct)
          case (snoc x xs)
          show ?case by (rule exI [of _ "join slash ([] # xs)"], induction xs arbitrary: x rule: join.induct) simp_all
        qed simp
        from this [OF split_at_ne [of slash "tl ?e"]] show ?thesis using j r(1) by simp
      qed
      then obtain q where q: "?e = q @ slash # ?l" by blast
      with u have "unescape (q @ slash # ?l) = Some (uPath u)" by simp
      from unescape_before_slash [OF this] c obtain x where p: "uPath u = x @ slash # c" by auto
      have "last (uPath u) \<noteq> slash" using c(2) unfolding p validComponent_def by (metis last_appendR last_ConsR last_in_set list.distinct(1))
      then show ?thesis using u e p by (simp add: TrimSlash_def)
    qed
  qed
qed

section \<open>Round trip\<close>

definition stream_parts :: "string \<Rightarrow> string \<Rightarrow> string \<Rightarrow> string list" where
  "stream_parts hash sig path = ''stream'' # hex_bytes hash # sig # map PathEscape (split_at slash path)"

definition stream_path :: "string \<Rightarrow> string \<Rightarrow> string \<Rightarrow> string" where
  "stream_path hash sig path = slash # join slash (stream_parts hash sig path)"

lemma location_path: "location_of hash sig @ join slash (map PathEscape (split_at slash path)) = stream_path hash sig path"
  using split_at_ne [of slash path] by (simp add: location_of_def stream_path_def stream_parts_def join_Cons slash_def)

lemma unescape_join:
  "ps \<noteq> [] \<Longrightarrow> unescape (join slash (map PathEscape ps)) = Some (join slash ps)"
proof (induction ps rule: list_nonempty_induct)
  case (cons p ps)
  then show ?case using unescape_append [OF unescape_PathEscape [of p]] by (simp add: join_Cons)
qed simp

lemma plain_chars:
  assumes "list_all alnum s"
  shows "unescape s = Some s" "validEncoded s"
proof -
  have "\<not> alnum (CHR ''%'')" by (simp add: alnum_def)
  then show "unescape s = Some s" using assms by (intro unescape_plain) (auto simp: list_all_iff)
  show "validEncoded s" using assms by (auto simp: list_all_iff validEncoded_def keep_path_def)
qed

lemma hex_alnum: "list_all alnum (hex_bytes h)"
proof -
  have "list_all alnum ''0123456789abcdef''" by code_simp
  then show ?thesis using hex_bytes_chars [of h] by (auto simp: list_all_iff)
qed

lemma sig_chars:
  assumes "decodeSignature sig \<noteq> None"
  shows "list_all (\<lambda>c. alnum c \<or> c = CHR ''-'' \<or> c = CHR ''_'') sig"
  using assms by (auto simp: decodeSignature_def list_ex_iff list_all_iff split: if_splits)

lemma sig_plain:
  assumes "decodeSignature sig \<noteq> None"
  shows "unescape sig = Some sig" "validEncoded sig"
proof -
  have "\<not> (alnum (CHR ''%'') \<or> CHR ''%'' = CHR ''-'' \<or> CHR ''%'' = CHR ''_'')" by (simp add: alnum_def)
  then show "unescape sig = Some sig" using sig_chars [OF assms] by (intro unescape_plain) (auto simp: list_all_iff)
  show "validEncoded sig" using sig_chars [OF assms] by (auto simp: list_all_iff validEncoded_def keep_path_def)
qed

lemma validEncoded_append [simp]: "validEncoded (a @ b) \<longleftrightarrow> validEncoded a \<and> validEncoded b"
  by (simp add: validEncoded_def)

lemma validEncoded_slash [simp]: "validEncoded (slash # s) \<longleftrightarrow> validEncoded s"
  by (simp add: validEncoded_def keep_path_def slash_def)

lemma PathEscape_chars: "c \<in> set (PathEscape s) \<Longrightarrow> keep_segment c \<or> c = CHR ''%''"
proof -
  have n: "keep_segment (capital_nibble n)" for n
  proof -
    have "capital_nibble n \<in> set ''0123456789ABCDEF''" unfolding capital_nibble_def by (rule nth_mem) simp
    moreover have "list_all alnum ''0123456789ABCDEF''" by code_simp
    ultimately show ?thesis by (auto simp: list_all_iff keep_segment_def)
  qed
  show "c \<in> set (PathEscape s) \<Longrightarrow> ?thesis"
    using n by (auto simp: PathEscape_def escape_with_def escape_char_def split: if_splits)
qed

lemma PathEscape_valid: "validEncoded (PathEscape s)"
proof -
  have "keep_segment c \<Longrightarrow> keep_path c" for c by (auto simp: keep_path_def keep_segment_def)
  then show ?thesis using PathEscape_chars [of _ s] unfolding validEncoded_def list_all_iff by (metis list.set_intros)
qed

lemma join_valid: "list_all validEncoded ps \<Longrightarrow> validEncoded (join slash ps)"
proof (induction ps)
  case (Cons p ps)
  then show ?case by (cases ps) (simp_all add: join_Cons)
qed (simp add: validEncoded_def)

lemma stream_path_escapes:
  assumes "decodeSignature sig \<noteq> None"
  shows "validEncoded (stream_path hash sig path)"
    "unescape (stream_path hash sig path) = Some (location_of hash sig @ path)"
proof -
  have s: "validEncoded ''stream''" "unescape ''stream'' = Some ''stream''" by (simp_all add: validEncoded_def keep_path_def alnum_def)
  note h = plain_chars [OF hex_alnum [of hash]] and g = sig_plain [OF assms]
  have "list_all validEncoded (stream_parts hash sig path)"
    using s(1) h(2) g(2) PathEscape_valid by (auto simp: stream_parts_def list_all_iff)
  then show "validEncoded (stream_path hash sig path)" by (simp add: stream_path_def join_valid)
  have "unescape (join slash (stream_parts hash sig path)) = Some (''stream'' @ slash # hex_bytes hash @ slash # sig @ slash # path)"
    using split_at_ne [of slash path] unescape_join [OF split_at_ne [of slash path]]
      unescape_append [OF s(2)] unescape_append [OF h(1)] unescape_append [OF g(1)]
    by (simp add: stream_parts_def join_Cons)
  then show "unescape (stream_path hash sig path) = Some (location_of hash sig @ path)"
    by (simp add: stream_path_def location_of_def slash_def)
qed

lemma BuildURL_text:
  assumes "BuildURL parse is6 base hash sig path = Inr link"
  shows "\<exists>u. parseBaseURL parse is6 base = Inr u \<and> ValidatePath path = None \<and> decodeSignature sig \<noteq> None
    \<and> link = origin u @ TrimSlash (EscapedPath u) @ stream_path hash sig path"
proof -
  from assms obtain u where u: "parseBaseURL parse is6 base = Inr u" "ValidatePath path = None" "decodeSignature sig \<noteq> None"
    and l: "link = URL_String (u\<lparr>uPath := TrimSlash (uPath u) @ location_of hash sig @ path,
             uRawPath := TrimSlash (EscapedPath u) @ stream_path hash sig path\<rparr>)" (is "link = URL_String ?u")
    by (auto simp: BuildURL_def Let_def location_path split: if_splits sum.splits option.splits)
  have v: "validEncoded (TrimSlash (EscapedPath u))"
    using EscapedPath_valid [of u] TrimSlash_cases [of "EscapedPath u"] validEncoded_append by metis
  have "uRawPath ?u \<noteq> ''''" by (simp add: stream_path_def)
  moreover have "validEncoded (uRawPath ?u)" using v stream_path_escapes(1) [OF u(3)] by simp
  moreover have "unescape (uRawPath ?u) = Some (uPath ?u)"
    using unescape_append [OF unescape_prefix [OF u(1)]] stream_path_escapes(2) [OF u(3)] by simp
  ultimately have e: "EscapedPath ?u = TrimSlash (EscapedPath u) @ stream_path hash sig path"
    by (simp add: EscapedPath_def)
  have "TrimSlash (EscapedPath u) = '''' \<or> hd (TrimSlash (EscapedPath u)) = slash"
    using u(1) by (auto simp: parseBaseURL_def Let_def split: option.splits if_splits)
  then have "hd (EscapedPath ?u) = slash" unfolding e by (auto simp: stream_path_def hd_append)
  then have "link = origin u @ EscapedPath ?u" using l by (simp add: URL_String_def Let_def origin_def)
  then show ?thesis using u e by auto
qed

lemma unescape_all_Some:
  "unescape_all es = Some cs \<Longrightarrow> list_all validComponent cs \<and> list_all2 (\<lambda>e c. unescape e = Some c) es cs"
  by (induction es arbitrary: cs) (auto split: option.splits if_splits)

lemma unescape_all_escaped: "list_all validComponent cs \<Longrightarrow> unescape_all (map PathEscape cs) = Some cs"
  by (induction cs) simp_all

lemma PathEscape_clean: "slash \<notin> set (PathEscape s)" "CHR ''?'' \<notin> set (PathEscape s)" "CHR ''#'' \<notin> set (PathEscape s)"
  using PathEscape_chars [of slash s] PathEscape_chars [of "CHR ''?''" s] PathEscape_chars [of "CHR ''#''" s]
  by (auto simp: keep_segment_def alnum_def slash_def)

lemma valid_alnum: "list_all (\<lambda>c. alnum c \<or> c = CHR ''-'' \<or> c = CHR ''_'') s \<Longrightarrow> s \<noteq> '''' \<Longrightarrow> validComponent s"
  by (auto simp: validComponent_def list_all_iff alnum_def slash_def)

lemma join_chars: "set (join sep ps) \<subseteq> insert sep (\<Union> (set ` set ps))"
proof (induction ps)
  case (Cons p ps)
  then show ?case by (cases ps) (auto simp: join_Cons)
qed simp

lemma stream_parts_clean:
  assumes "decodeSignature sig \<noteq> None" "p \<in> set (stream_parts hash sig path)"
  shows "slash \<notin> set p \<and> CHR ''?'' \<notin> set p \<and> CHR ''#'' \<notin> set p"
proof -
  have "list_all (\<lambda>c. alnum c \<or> c = CHR ''-'' \<or> c = CHR ''_'') q \<Longrightarrow> slash \<notin> set q \<and> CHR ''?'' \<notin> set q \<and> CHR ''#'' \<notin> set q" for q
    by (auto simp: list_all_iff alnum_def slash_def)
  moreover have "list_all (\<lambda>c. alnum c \<or> c = CHR ''-'' \<or> c = CHR ''_'') q"
    if "q = ''stream'' \<or> q = hex_bytes hash \<or> q = sig" for q
    using that hex_alnum [of hash] sig_chars [OF assms(1)] by (auto simp: list_all_iff alnum_def)
  ultimately show ?thesis using assms(2) PathEscape_clean by (auto simp: stream_parts_def)
qed

lemma ParsePath_stream_path:
  assumes "length hash = 20" "decodeSignature sig \<noteq> None" "ValidatePath path = None"
  shows "ParsePath (stream_path hash sig path) = Inr \<lparr>lcHash = hash, lcSignature = sig, lcPath = path\<rparr>"
proof -
  let ?ps = "stream_parts hash sig path" and ?cs = "split_at slash path"
  have "stream_path hash sig path \<noteq> ''''" "hd (stream_path hash sig path) = slash" "tl (stream_path hash sig path) = join slash ?ps"
    by (simp_all add: stream_path_def)
  moreover have "CHR ''?'' \<notin> set (stream_path hash sig path)" "CHR ''#'' \<notin> set (stream_path hash sig path)"
    using join_chars [of slash ?ps] stream_parts_clean [OF assms(2)] by (auto simp: stream_path_def slash_def)
  moreover have "split_at slash (join slash ?ps) = ?ps"
    using stream_parts_clean [OF assms(2)] by (intro split_at_join) (auto simp: stream_parts_def)
  moreover have "\<not> length ?ps < 4" using split_at_ne [of slash path] by (cases ?cs) (auto simp: stream_parts_def)
  moreover have "unescape_all ?ps = Some (''stream'' # hex_bytes hash # sig # ?cs)"
  proof -
    have v: "list_all validComponent ?cs" using assms(3) by (simp add: ValidatePath_def split: if_splits)
    have ne: "hex_bytes hash \<noteq> ''''" "sig \<noteq> ''''"
      using assms(1) hex_bytes_length [of hash] assms(2) by (auto simp: decodeSignature_def split: if_splits)
    have h: "validComponent (hex_bytes hash)" using hex_alnum [of hash] ne by (intro valid_alnum) (auto simp: list_all_iff)
    have s: "unescape ''stream'' = Some ''stream''" "validComponent ''stream''" by (simp_all add: validComponent_def slash_def)
    show ?thesis
      using s plain_chars(1) [OF hex_alnum] h sig_plain(1) [OF assms(2)] valid_alnum [OF sig_chars [OF assms(2)] ne(2)]
        unescape_all_escaped [OF v]
      by (simp add: stream_parts_def del: unescape.simps)
  qed
  ultimately show ?thesis using assms(1,2) hex_bytes_length [of hash] by (simp add: ParsePath_def Let_def)
qed

text \<open>
  C24: A link that \<open>BuildURL\<close> makes for a signed payload path consists of the base URL, without a
  final slash, and a path under \<open>/stream\<close>; when the handler receives that path, \<open>ParsePath\<close> gives back exactly the torrent,
  the path and the signature, whatever characters the path contains, and the signature verifies.
\<close>

theorem stream_url_roundtrip:
  assumes "length hash = 20" "length (sum_mac hmac s hash path) = 32"
    "BuildURL parse is6 base hash (Sign hmac s hash path) path = Inr link"
  shows "\<exists>u p. parse base = Some u \<and> link = origin u @ TrimSlash (EscapedPath u) @ p
     \<and> ParsePath p = Inr \<lparr>lcHash = hash, lcSignature = Sign hmac s hash path, lcPath = path\<rparr>
     \<and> Verify hmac s hash path (Sign hmac s hash path)"
proof -
  have d: "decodeSignature (Sign hmac s hash path) = Some (sum_mac hmac s hash path)"
    unfolding Sign_def by (rule decodeSignature_encoding [OF assms(2)])
  obtain u where u: "parseBaseURL parse is6 base = Inr u" "ValidatePath path = None"
    "link = origin u @ TrimSlash (EscapedPath u) @ stream_path hash (Sign hmac s hash path) path"
    using BuildURL_text [OF assms(3)] by blast
  have "parse base = Some u" using u(1) by (auto simp: parseBaseURL_def Let_def split: option.splits if_splits)
  moreover have "ParsePath (stream_path hash (Sign hmac s hash path) path) = Inr \<lparr>lcHash = hash, lcSignature = Sign hmac s hash path, lcPath = path\<rparr>"
    using ParsePath_stream_path [OF assms(1) _ u(2), of "Sign hmac s hash path"] d by simp
  moreover have "Verify hmac s hash path (Sign hmac s hash path)" using d by (simp add: Verify_def)
  ultimately show ?thesis using u(3) by blast
qed

text \<open>A base URL with a prefix, for the witnesses.\<close>

definition wit_parse :: "string \<Rightarrow> URL option" where
  "wit_parse base =
     (if base = ''http://m:80/t/''
      then Some \<lparr>uScheme = ''http'', uOpaque = '''', uUser = False, uHost = ''m:80'', uPath = ''/t/'', uRawPath = '''',
                 uRawQuery = '''', uForceQuery = False\<rparr>
      else None)"

definition wit_signer :: Signer where
  "wit_signer = \<lparr>signerKey = map of_nat [1..<33]\<rparr>"

definition wit_link :: string where
  "wit_link = (case BuildURL wit_parse (\<lambda>_. False) ''http://m:80/t/'' (replicate 20 CHR ''h'')
     (Sign (\<lambda>k m. k) wit_signer (replicate 20 CHR ''h'') ''a b/100%.mkv'') ''a b/100%.mkv'' of Inr l \<Rightarrow> l | Inl _ \<Rightarrow> '''')"

lemma wit_decodes: "decodeSignature (Sign (\<lambda>k m. k) wit_signer hash path) \<noteq> None"
  unfolding Sign_def by (subst decodeSignature_encoding) (simp_all add: sum_mac_def wit_signer_def)

theorem stream_url_roundtrip_witness:
  "\<exists>u p. wit_parse ''http://m:80/t/'' = Some u \<and> wit_link = origin u @ TrimSlash (EscapedPath u) @ p
     \<and> ParsePath p = Inr \<lparr>lcHash = replicate 20 CHR ''h'',
          lcSignature = Sign (\<lambda>k m. k) wit_signer (replicate 20 CHR ''h'') ''a b/100%.mkv'', lcPath = ''a b/100%.mkv''\<rparr>
     \<and> Verify (\<lambda>k m. k) wit_signer (replicate 20 CHR ''h'') ''a b/100%.mkv''
          (Sign (\<lambda>k m. k) wit_signer (replicate 20 CHR ''h'') ''a b/100%.mkv'')"
proof (rule stream_url_roundtrip)
  show "length (replicate 20 CHR ''h'') = 20" by simp
  show "length (sum_mac (\<lambda>k m. k) wit_signer (replicate 20 CHR ''h'') ''a b/100%.mkv'') = 32"
    by (simp add: sum_mac_def wit_signer_def)
  show "BuildURL wit_parse (\<lambda>_. False) ''http://m:80/t/'' (replicate 20 CHR ''h'')
     (Sign (\<lambda>k m. k) wit_signer (replicate 20 CHR ''h'') ''a b/100%.mkv'') ''a b/100%.mkv'' = Inr wit_link"
  proof -
    have "ValidatePath ''a b/100%.mkv'' = None" by code_simp
    moreover have "parseBaseURL wit_parse (\<lambda>_. False) ''http://m:80/t/'' = Inr (the (wit_parse ''http://m:80/t/''))" by code_simp
    ultimately show ?thesis using wit_decodes by (simp add: wit_link_def BuildURL_def Let_def)
  qed
qed

text \<open>
  stream_parse_safe: \<open>ParsePath\<close> accepts a path of the handler only as a location inside a torrent: the hash
  has 20 bytes, the signature is the canonical text of a 32-byte authenticator, and the payload path is one
  that \<open>ValidatePath\<close> accepts, so no component is empty, a dot or a parent directory or contains a slash, a
  backslash or a NUL, however the request was escaped.
\<close>

theorem stream_parse_safe:
  assumes "ParsePath escapedPath = Inr loc"
  shows "length (lcHash loc) = 20 \<and> (\<exists>mac. length mac = 32 \<and> lcSignature loc = RawURLEncoding mac)
    \<and> ValidatePath (lcPath loc) = None \<and> list_all validComponent (split_at slash (lcPath loc))"
proof -
  obtain parts cs where p: "parts = split_at slash (tl escapedPath)" "\<not> length parts < 4" "unescape_all parts = Some cs"
      "length (lcHash loc) = 20" "decodeSignature (lcSignature loc) \<noteq> None" "lcPath loc = join slash (drop 3 cs)"
    using assms by (auto simp: ParsePath_def Let_def split: if_splits option.splits)
  note u = unescape_all_Some [OF p(3)]
  have "length cs = length parts" using u by (metis list_all2_lengthD)
  then have ne: "drop 3 cs \<noteq> []" using p(2) by simp
  have v: "list_all validComponent (drop 3 cs)" using u by (auto simp: list_all_iff dest: in_set_dropD)
  then have "split_at slash (lcPath loc) = drop 3 cs"
    unfolding p(6) using ne by (intro split_at_join) (auto simp: list_all_iff validComponent_def)
  moreover obtain mac where "decodeSignature (lcSignature loc) = Some mac" using p(5) by blast
  ultimately show ?thesis using v p(4) decodeSignature_Some [of "lcSignature loc" mac] by (auto simp: ValidatePath_def)
qed

theorem stream_parse_safe_witness:
  "ValidatePath (lcPath \<lparr>lcHash = replicate 20 CHR ''h'',
          lcSignature = Sign (\<lambda>k m. k) wit_signer (replicate 20 CHR ''h'') ''a b/c'', lcPath = ''a b/c''\<rparr>) = None"
proof -
  have "ParsePath (stream_path (replicate 20 CHR ''h'') (Sign (\<lambda>k m. k) wit_signer (replicate 20 CHR ''h'') ''a b/c'') ''a b/c'')
     = Inr \<lparr>lcHash = replicate 20 CHR ''h'', lcSignature = Sign (\<lambda>k m. k) wit_signer (replicate 20 CHR ''h'') ''a b/c'', lcPath = ''a b/c''\<rparr>"
    using wit_decodes by (intro ParsePath_stream_path) (simp_all add: ValidatePath_def validComponent_def slash_def)
  from stream_parse_safe [OF this] show ?thesis by blast
qed

end
