(* ===== verification/UploadRate.thy ===== *)
theory UploadRate
  imports Prelude "HOL-Library.Log_Nat"
begin

text \<open>
  The upload limit (\<open>internal/session/upload_rate.go\<close> and \<open>upload_rate_settings.go\<close>): the settings and their
  sidecar file, the compiled policy with its daily window, the search for the next boundary, and the
  controller whose runner moves the limiter at each boundary.

  Instants are nanoseconds since the epoch. The time zone is a parameter: \<open>off s\<close> is the offset from UTC in
  seconds at the second \<open>s\<close>, from which \<open>time.Time\<close> computes the wall clock.
\<close>

section \<open>Settings\<close>

record UploadRateSchedule =
  urStart :: string
  urEnd :: string

record UploadRateSettings =
  urRate :: int
  urSchedule :: "UploadRateSchedule option"

record uploadRateSettingsRecord =
  rcVersion :: int
  rcRate :: int
  rcSchedule :: "UploadRateSchedule option"

datatype rate_error =
    InvalidNegative | InvalidBoth | InvalidPositive | InvalidStart | InvalidEnd | InvalidOrder
  | ErrUploadRateSettingsStorageUnavailable | ErrUploadRateSettingsDurabilityUnconfirmed
  | ErrRateContext | ErrRateNotActive | ErrInspect | ErrIrregular | ErrRead | ErrDecode | ErrTrailing | ErrVersion

definition zeroSettings :: UploadRateSettings where
  "zeroSettings = \<lparr>urRate = 0, urSchedule = None\<rparr>"

definition uploadRateSettingsVersion :: int where
  "uploadRateSettingsVersion = 1"

text \<open>A digit of the boundary, \<open>raw[i] - '0'\<close> for a byte between \<open>'0'\<close> and \<open>'9'\<close>.\<close>

definition digit_value :: "char \<Rightarrow> int option" where
  "digit_value c = (if of_char c < (48 :: nat) \<or> of_char c > (57 :: nat) then None else Some (of_char c - 48))"

fun parseUploadScheduleTime :: "string \<Rightarrow> int option" where
  "parseUploadScheduleTime [a, b, c, d, e] =
     (case (digit_value a, digit_value b, digit_value d, digit_value e) of
        (Some h1, Some h0, Some m1, Some m0) \<Rightarrow>
          if c \<noteq> CHR '':'' then None
          else
            let hour = h1 * 10 + h0; minute = m1 * 10 + m0
            in if hour > 23 \<or> minute > 59 then None else Some (hour * 60 + minute)
      | _ \<Rightarrow> None)"
| "parseUploadScheduleTime _ = None"

section \<open>Policy\<close>

text \<open>
  \<open>rate.Limit\<close> is a \<open>float64\<close>: \<open>Inf\<close> is its largest value, and the conversion of an \<open>int64\<close> rounds to 53
  significant bits, ties to even. All limits of the code come from nonnegative integers.
\<close>

datatype limit = Inf | Limit int

definition float64_of_int :: "int \<Rightarrow> int" where
  "float64_of_int x =
     (if x < 2 ^ 53 then x
      else
        let e = nat (bitlen x - 53); q = x div 2 ^ e; r = x mod 2 ^ e
        in (if 2 * r > 2 ^ e \<or> (2 * r = 2 ^ e \<and> odd q) then q + 1 else q) * 2 ^ e)"

record uploadRatePolicy =
  plLimit :: limit
  plScheduled :: bool
  plStart :: int
  plEnd :: int
  plStartLabel :: string
  plEndLabel :: string

definition zeroPolicy :: uploadRatePolicy where
  "zeroPolicy = \<lparr>plLimit = Limit 0, plScheduled = False, plStart = 0, plEnd = 0, plStartLabel = '''', plEndLabel = ''''\<rparr>"

definition compileUploadRatePolicy :: "UploadRateSettings \<Rightarrow> uploadRatePolicy" where
  "compileUploadRatePolicy settings =
     (if urRate settings \<le> 0 then zeroPolicy
      else
        let policy = zeroPolicy\<lparr>plLimit := Limit (float64_of_int (urRate settings))\<rparr>
        in case urSchedule settings of
             None \<Rightarrow> policy
           | Some schedule \<Rightarrow>
               (case parseUploadScheduleTime (urStart schedule) of
                  None \<Rightarrow> zeroPolicy
                | Some start \<Rightarrow>
                    (case parseUploadScheduleTime (urEnd schedule) of
                       None \<Rightarrow> zeroPolicy
                     | Some stop \<Rightarrow> policy\<lparr>plScheduled := True, plStart := start, plEnd := stop,
                                        plStartLabel := urStart schedule, plEndLabel := urEnd schedule\<rparr>)))"

text \<open>The result is the normalized settings with their policy; the two values are zero with an error.\<close>

definition validateUploadRateSettings :: "UploadRateSettings \<Rightarrow> rate_error + (UploadRateSettings \<times> uploadRatePolicy)" where
  "validateUploadRateSettings settings =
     (if urRate settings < 0 then Inl InvalidNegative
      else
        let normalized = \<lparr>urRate = urRate settings, urSchedule = None\<rparr>
        in case urSchedule settings of
             None \<Rightarrow> Inr (normalized, compileUploadRatePolicy normalized)
           | Some sch \<Rightarrow>
               if urStart sch = '''' \<or> urEnd sch = '''' then Inl InvalidBoth
               else if urRate settings \<le> 0 then Inl InvalidPositive
               else case parseUploadScheduleTime (urStart sch) of
                      None \<Rightarrow> Inl InvalidStart
                    | Some start \<Rightarrow>
                        (case parseUploadScheduleTime (urEnd sch) of
                           None \<Rightarrow> Inl InvalidEnd
                         | Some stop \<Rightarrow>
                             if start \<ge> stop then Inl InvalidOrder
                             else
                               let normalized' = normalized\<lparr>urSchedule := Some sch\<rparr>
                               in Inr (normalized', compileUploadRatePolicy normalized')))"

definition enabled :: "uploadRatePolicy \<Rightarrow> bool" where
  "enabled p \<longleftrightarrow> (case plLimit p of Inf \<Rightarrow> True | Limit l \<Rightarrow> l > 0)"

abbreviation second :: int where
  "second \<equiv> 1000000000"

definition Hour :: "(int \<Rightarrow> int) \<Rightarrow> int \<Rightarrow> int" where
  "Hour off t = (let s = t div second in (s + off s) mod 86400 div 3600)"

definition Minute :: "(int \<Rightarrow> int) \<Rightarrow> int \<Rightarrow> int" where
  "Minute off t = (let s = t div second in (s + off s) mod 3600 div 60)"

definition limitedAt :: "(int \<Rightarrow> int) \<Rightarrow> uploadRatePolicy \<Rightarrow> int \<Rightarrow> bool" where
  "limitedAt off p t \<longleftrightarrow>
     (if \<not> plScheduled p then True
      else let minute = Hour off t * 60 + Minute off t in minute \<ge> plStart p \<and> minute < plEnd p)"

definition effectiveLimit :: "(int \<Rightarrow> int) \<Rightarrow> uploadRatePolicy \<Rightarrow> int \<Rightarrow> limit" where
  "effectiveLimit off p t = (if \<not> enabled p \<or> \<not> limitedAt off p t then Inf else plLimit p)"

abbreviation probeStep :: int where
  "probeStep \<equiv> 60000000000"

abbreviation maxLookahead :: int where
  "maxLookahead \<equiv> 93600000000000"

text \<open>The inner loop of \<open>nextTransition\<close>: the first candidate of the second grid up to \<open>probe\<close> that differs.\<close>

function scan_seconds :: "(int \<Rightarrow> bool) \<Rightarrow> bool \<Rightarrow> int \<Rightarrow> int \<Rightarrow> int" where
  "scan_seconds limited want candidate probe =
     (if candidate > probe then probe
      else if limited candidate \<noteq> want then candidate
      else scan_seconds limited want (candidate + second) probe)"
  by auto
termination
  by (relation "measure (\<lambda>(_, _, candidate, probe). nat (probe + 1 - candidate))") auto

function probe_minutes :: "(int \<Rightarrow> bool) \<Rightarrow> int \<Rightarrow> bool \<Rightarrow> int \<Rightarrow> int \<Rightarrow> int" where
  "probe_minutes limited t want previous probe =
     (if probe - t > maxLookahead then t + maxLookahead
      else if limited probe = want then probe_minutes limited t want probe (probe + probeStep)
      else scan_seconds limited want (previous + second) probe)"
  by auto
termination
  by (relation "measure (\<lambda>(_, t, _, _, probe). nat (t + maxLookahead + 1 - probe))") auto

declare scan_seconds.simps [simp del] probe_minutes.simps [simp del]

text \<open>\<open>None\<close> is the zero time.\<close>

definition nextTransition :: "(int \<Rightarrow> int) \<Rightarrow> uploadRatePolicy \<Rightarrow> int \<Rightarrow> int option" where
  "nextTransition off p t =
     (if \<not> plScheduled p then None
      else Some (probe_minutes (limitedAt off p) t (limitedAt off p t) t (t + probeStep)))"

section \<open>Sidecar file\<close>

text \<open>
  What the path of the sidecar holds: nothing, something that cannot be inspected, something that is not a
  regular file, a file that cannot be opened, one that is not a document of the schema, one with data
  behind the document, or a document. A power failure leaves either what readers see or what was last
  synced.
\<close>

datatype sidecar = Missing | Inaccessible | Irregular | Unopened | Undecodable | Trailing | Document uploadRateSettingsRecord

record sidecarFile =
  sfVisible :: sidecar
  sfSynced :: sidecar

datatype write_call = CreateTemp | WriteData | SyncFile | CloseFile | Rename | SyncDirectory

text \<open>The argument is the first system call that fails; the result tells whether the rename committed.\<close>

definition writeFileAtomicPublished :: "write_call option \<Rightarrow> sidecar \<Rightarrow> sidecarFile \<Rightarrow> bool \<times> bool \<times> sidecarFile" where
  "writeFileAtomicPublished fails data f =
     (case fails of
        None \<Rightarrow> (True, True, \<lparr>sfVisible = data, sfSynced = data\<rparr>)
      | Some SyncDirectory \<Rightarrow> (True, False, f\<lparr>sfVisible := data\<rparr>)
      | Some _ \<Rightarrow> (False, False, f))"

definition loadUploadRateSettings :: "sidecar \<Rightarrow> rate_error + (UploadRateSettings \<times> uploadRatePolicy)" where
  "loadUploadRateSettings f =
     (case f of
        Missing \<Rightarrow> validateUploadRateSettings zeroSettings
      | Inaccessible \<Rightarrow> Inl ErrInspect
      | Irregular \<Rightarrow> Inl ErrIrregular
      | Unopened \<Rightarrow> Inl ErrRead
      | Undecodable \<Rightarrow> Inl ErrDecode
      | Trailing \<Rightarrow> Inl ErrTrailing
      | Document r \<Rightarrow>
          if rcVersion r \<noteq> uploadRateSettingsVersion then Inl ErrVersion
          else validateUploadRateSettings \<lparr>urRate = rcRate r, urSchedule = rcSchedule r\<rparr>)"

text \<open>The result: published, error, file.\<close>

definition saveUploadRateSettings ::
  "write_call option \<Rightarrow> sidecarFile \<Rightarrow> UploadRateSettings \<Rightarrow> bool \<times> rate_error option \<times> sidecarFile" where
  "saveUploadRateSettings fails f settings =
     (if sfVisible f = Inaccessible \<or> sfVisible f = Irregular then (False, Some ErrUploadRateSettingsStorageUnavailable, f)
      else case validateUploadRateSettings settings of
             Inl e \<Rightarrow> (False, Some e, f)
           | Inr (normalized, _) \<Rightarrow>
               (case writeFileAtomicPublished fails
                       (Document \<lparr>rcVersion = uploadRateSettingsVersion, rcRate = urRate normalized, rcSchedule = urSchedule normalized\<rparr>) f of
                  (published, ok, f') \<Rightarrow>
                    if \<not> ok
                    then (if published then (True, Some ErrUploadRateSettingsDurabilityUnconfirmed, f')
                          else (False, Some ErrUploadRateSettingsStorageUnavailable, f'))
                    else (True, None, f')))"

section \<open>Controller\<close>

text \<open>
  The limiter holds its limit; the wake channel has capacity one. The runner is about to read the clock,
  holds a reading and is about to take the lock, waits with the policy and the reading of its round and the
  time its timer was started, or has stopped.
\<close>

datatype runner = AtClock | AtLock int | Waiting uploadRatePolicy int int | Stopped

record uploadRateController =
  ucLimiter :: limit
  ucPolicy :: uploadRatePolicy
  ucWake :: bool
  ucRunner :: runner

definition newUploadRateController :: "(int \<Rightarrow> int) \<Rightarrow> uploadRatePolicy \<Rightarrow> int \<Rightarrow> uploadRateController" where
  "newUploadRateController off policy now =
     \<lparr>ucLimiter = effectiveLimit off policy now, ucPolicy = policy, ucWake = False, ucRunner = AtClock\<rparr>"

definition applyLocked :: "(int \<Rightarrow> int) \<Rightarrow> int \<Rightarrow> uploadRateController \<Rightarrow> uploadRateController" where
  "applyLocked off instant c =
     (let limit = effectiveLimit off (ucPolicy c) instant
      in if limit = ucLimiter c then c else c\<lparr>ucLimiter := limit\<rparr>)"

definition signalWake :: "uploadRateController \<Rightarrow> uploadRateController" where
  "signalWake c = c\<lparr>ucWake := True\<rparr>"

definition setPolicy :: "(int \<Rightarrow> int) \<Rightarrow> uploadRatePolicy \<Rightarrow> int \<Rightarrow> uploadRateController \<Rightarrow> uploadRateController" where
  "setPolicy off policy instant c = signalWake (applyLocked off instant (c\<lparr>ucPolicy := policy\<rparr>))"

definition limitedNow :: "uploadRateController \<Rightarrow> bool" where
  "limitedNow c \<longleftrightarrow> ucLimiter c \<noteq> Inf"

text \<open>The instant at which the timer of \<open>waitForBoundary\<close> fires, when it was started at \<open>started\<close>.\<close>

definition waitForBoundary :: "int option \<Rightarrow> int \<Rightarrow> int \<Rightarrow> int option" where
  "waitForBoundary next now started =
     (case next of None \<Rightarrow> None | Some n \<Rightarrow> Some (started + (if n - now < 0 then 0 else n - now)))"

text \<open>The steps of \<open>run\<close>: a reading of the clock, the section under the lock, the end of the wait.\<close>

definition run_clock :: "int \<Rightarrow> uploadRateController \<Rightarrow> uploadRateController" where
  "run_clock clock c = c\<lparr>ucRunner := AtLock clock\<rparr>"

definition run_apply :: "(int \<Rightarrow> int) \<Rightarrow> int \<Rightarrow> int \<Rightarrow> uploadRateController \<Rightarrow> uploadRateController" where
  "run_apply off now clock c = (applyLocked off now c)\<lparr>ucRunner := Waiting (ucPolicy c) now clock\<rparr>"

section \<open>Session\<close>

record RateSession =
  rsActive :: bool
  rsClock :: int
  rsFile :: sidecarFile
  rsSettings :: UploadRateSettings
  rsControl :: uploadRateController

text \<open>The two booleans tell whether the context still lives at its two checks.\<close>

definition SetUploadRateSettings ::
  "(int \<Rightarrow> int) \<Rightarrow> bool \<Rightarrow> bool \<Rightarrow> write_call option \<Rightarrow> UploadRateSettings \<Rightarrow> RateSession
     \<Rightarrow> (UploadRateSettings \<times> rate_error option) \<times> RateSession" where
  "SetUploadRateSettings off alive alive' fails settings s =
     (if \<not> alive then ((zeroSettings, Some ErrRateContext), s)
      else case validateUploadRateSettings settings of
             Inl e \<Rightarrow> ((zeroSettings, Some e), s)
           | Inr (normalized, policy) \<Rightarrow>
               if \<not> rsActive s then ((zeroSettings, Some ErrRateNotActive), s)
               else if \<not> alive' then ((zeroSettings, Some ErrRateContext), s)
               else case saveUploadRateSettings fails (rsFile s) normalized of
                      (published, saveErr, f) \<Rightarrow>
                        if \<not> published then ((zeroSettings, saveErr), s\<lparr>rsFile := f\<rparr>)
                        else ((normalized, saveErr),
                              s\<lparr>rsFile := f, rsSettings := normalized,
                                rsControl := setPolicy off policy (rsClock s) (rsControl s)\<rparr>))"

definition getUploadRateSettings :: "RateSession \<Rightarrow> UploadRateSettings" where
  "getUploadRateSettings s = rsSettings s"

text \<open>The start of a session on the sidecar file.\<close>

definition startRateSession :: "(int \<Rightarrow> int) \<Rightarrow> int \<Rightarrow> sidecarFile \<Rightarrow> rate_error + RateSession" where
  "startRateSession off now f =
     (case loadUploadRateSettings (sfVisible f) of
        Inl e \<Rightarrow> Inl e
      | Inr (settings, policy) \<Rightarrow>
          Inr \<lparr>rsActive = True, rsClock = now, rsFile = f, rsSettings = settings,
               rsControl = newUploadRateController off policy now\<rparr>)"

text \<open>After a power failure only one of the two contents is left, and it is then the synced one.\<close>

definition power_failure :: "bool \<Rightarrow> sidecarFile \<Rightarrow> sidecarFile" where
  "power_failure lost f = (let x = (if lost then sfSynced f else sfVisible f) in \<lparr>sfVisible = x, sfSynced = x\<rparr>)"

text \<open>
  The interleavings: time passes, a request changes the settings under \<open>Session.mu\<close>, the runner takes one
  of its steps, the session closes and the runner notices the end of its context while it waits.
\<close>

inductive rate_step :: "(int \<Rightarrow> int) \<Rightarrow> RateSession \<Rightarrow> RateSession \<Rightarrow> bool" for off where
  tick: "0 < d \<Longrightarrow> rate_step off s (s\<lparr>rsClock := rsClock s + d\<rparr>)"
| request: "SetUploadRateSettings off alive alive' fails settings s = (r, s') \<Longrightarrow> rate_step off s s'"
| clock: "ucRunner (rsControl s) = AtClock \<Longrightarrow> rate_step off s (s\<lparr>rsControl := run_clock (rsClock s) (rsControl s)\<rparr>)"
| locked: "ucRunner (rsControl s) = AtLock now
     \<Longrightarrow> rate_step off s (s\<lparr>rsControl := run_apply off now (rsClock s) (rsControl s)\<rparr>)"
| wake: "ucRunner (rsControl s) = Waiting p now started \<Longrightarrow> ucWake (rsControl s)
     \<Longrightarrow> rate_step off s (s\<lparr>rsControl := (rsControl s)\<lparr>ucWake := False, ucRunner := AtClock\<rparr>\<rparr>)"
| timer: "ucRunner (rsControl s) = Waiting p now started \<Longrightarrow> waitForBoundary (nextTransition off p now) now started = Some fires
     \<Longrightarrow> fires \<le> rsClock s \<Longrightarrow> rate_step off s (s\<lparr>rsControl := (rsControl s)\<lparr>ucRunner := AtClock\<rparr>\<rparr>)"
| closing: "rate_step off s (s\<lparr>rsActive := False\<rparr>)"
| stopping: "\<not> rsActive s \<Longrightarrow> ucRunner (rsControl s) = Waiting p now started
     \<Longrightarrow> rate_step off s (s\<lparr>rsControl := (rsControl s)\<lparr>ucRunner := Stopped\<rparr>\<rparr>)"

inductive rate_reach :: "(int \<Rightarrow> int) \<Rightarrow> RateSession \<Rightarrow> bool" for off where
  start: "startRateSession off now f = Inr s \<Longrightarrow> rate_reach off s"
| step: "rate_reach off s \<Longrightarrow> rate_step off s s' \<Longrightarrow> rate_reach off s'"


section \<open>Lemmas on the policy\<close>

lemma validate_normal:
  assumes "validateUploadRateSettings s = Inr (n, p)"
  shows "p = compileUploadRatePolicy n" and "validateUploadRateSettings n = Inr (n, p)" and "n = s"
  using assms by (auto simp: validateUploadRateSettings_def Let_def split: if_splits option.splits)

lemma load_normal:
  "loadUploadRateSettings f = Inr (n, p) \<Longrightarrow> p = compileUploadRatePolicy n \<and> validateUploadRateSettings n = Inr (n, p)"
  using validate_normal unfolding loadUploadRateSettings_def by (auto split: sidecar.splits if_splits)

lemma load_saved:
  assumes "validateUploadRateSettings n = Inr (n, p)"
  shows "loadUploadRateSettings (Document \<lparr>rcVersion = uploadRateSettingsVersion, rcRate = urRate n, rcSchedule = urSchedule n\<rparr>) = Inr (n, p)"
  using assms by (cases n) (simp add: loadUploadRateSettings_def)

text \<open>
  Zones whose offsets are whole minutes and change only between two minutes, which holds of every
  zone now in use. In such a zone the state of a policy is constant on every minute of the time line.
\<close>

definition whole_minutes :: "(int \<Rightarrow> int) \<Rightarrow> bool" where
  "whole_minutes off \<longleftrightarrow> (\<forall>s. off s mod 60 = 0 \<and> off s = off (s div 60 * 60))"

lemma mod_mult_div: "0 \<le> n \<Longrightarrow> (a::int) mod (60 * n) div 60 = a div 60 mod n"
  using zmod_zmult2_eq [of n a 60] by simp

lemma wall_minute: "Hour off t * 60 + Minute off t = (t div second + off (t div second)) mod 86400 div 60"
proof -
  let ?x = "t div second + off (t div second)"
  let ?q = "?x mod 86400 div 60"
  have h: "?x mod 86400 div 3600 = ?q div 60" using zdiv_zmult2_eq [of 60 "?x mod 86400" 60] by simp
  have e: "?x mod 3600 = ?x mod 86400 mod (60 * 60)" by (simp add: mod_mod_cancel)
  have m: "?x mod 3600 div 60 = ?q mod 60" unfolding e by (rule mod_mult_div) simp
  show ?thesis unfolding Hour_def Minute_def Let_def h m by (rule div_mult_mod_eq)
qed

lemma limitedAt_minute:
  assumes "whole_minutes off" and "x div probeStep = y div probeStep"
  shows "limitedAt off p x = limitedAt off p y"
proof -
  have m: "(s + off s) mod 86400 div 60 = ((s div 60 * 60) + off (s div 60 * 60)) mod 86400 div 60" for s
  proof -
    have "off s = off (s div 60 * 60)" "off s mod 60 = 0" using assms(1) unfolding whole_minutes_def by blast+
    then obtain k where "off s = 60 * k" "off (s div 60 * 60) = 60 * k" by (metis mod_0_imp_dvd dvd_def)
    then show ?thesis using mod_mult_div [of 1440] by (simp add: add.commute)
  qed
  have d: "z div probeStep = (z div second) div 60" for z :: int using zdiv_zmult2_eq [of 60 z second] by simp
  have "(x div second) div 60 = (y div second) div 60" using assms(2) unfolding d .
  then have "Hour off x * 60 + Minute off x = Hour off y * 60 + Minute off y" unfolding wall_minute using m by metis
  then show ?thesis by (simp add: limitedAt_def)
qed

text \<open>A state function that is constant on every minute, as the search sees it.\<close>

lemma scan_seconds_first:
  assumes "limited probe \<noteq> want"
  shows "limited (scan_seconds limited want c probe) \<noteq> want \<and> scan_seconds limited want c probe \<le> probe
     \<and> (c \<le> probe \<longrightarrow> c \<le> scan_seconds limited want c probe)
     \<and> (\<forall>k::nat. c + int k * second < scan_seconds limited want c probe \<longrightarrow> limited (c + int k * second) = want)"
  using assms
proof (induction limited want c probe rule: scan_seconds.induct)
  case (1 limited want c probe)
  consider "c > probe" | "c \<le> probe" "limited c \<noteq> want" | "c \<le> probe" "limited c = want" by linarith
  then show ?case
  proof cases
    case 1
    then have "scan_seconds limited want c probe = probe" by (simp add: scan_seconds.simps)
    then show ?thesis using "1.prems" 1 by auto
  next
    case 2
    then show ?thesis by (simp add: scan_seconds.simps)
  next
    case 3
    let ?r = "scan_seconds limited want (c + second) probe"
    have r: "scan_seconds limited want c probe = ?r" using 3 by (simp add: scan_seconds.simps)
    note ih = "1.IH" [OF _ _ "1.prems"]
    have "limited (c + int k * second) = want" if "c + int k * second < ?r" for k
    proof (cases k)
      case 0
      then show ?thesis using 3 by simp
    next
      case (Suc j)
      then show ?thesis using ih 3 that by (auto simp: algebra_simps)
    qed
    moreover have "c \<le> ?r"
    proof (cases "c + second \<le> probe")
      case False
      then have "?r = probe" by (simp add: scan_seconds.simps)
      then show ?thesis using 3 by simp
    qed (use ih 3 in auto)
    ultimately show ?thesis using ih 3 unfolding r by auto
  qed
qed


lemma between_minutes:
  assumes "(x::int) \<le> y" and "y \<le> x + probeStep"
  shows "y div probeStep = x div probeStep \<or> y div probeStep = (x + probeStep) div probeStep"
proof -
  have "x div probeStep \<le> y div probeStep" using assms by (intro zdiv_mono1) auto
  moreover have "y div probeStep \<le> (x + probeStep) div probeStep" using assms by (intro zdiv_mono1) auto
  moreover have "(x + probeStep) div probeStep = x div probeStep + 1" by simp
  ultimately show ?thesis by linarith
qed

lemma scan_seconds_quiet:
  assumes block: "\<And>x y. x div probeStep = y div probeStep \<Longrightarrow> limited x = limited y"
    and prev: "limited previous = want" and probe: "probe = previous + probeStep" and differs: "limited probe \<noteq> want"
    and x: "previous < x" "x + second \<le> scan_seconds limited want (previous + second) probe"
  shows "limited x = want"
proof (rule ccontr)
  assume neq: "limited x \<noteq> want"
  let ?r = "scan_seconds limited want (previous + second) probe"
  note first = scan_seconds_first [where limited = limited and want = want and probe = probe and c = "previous + second", OF differs]
  then have r: "?r \<le> probe" by simp
  have "x div probeStep = previous div probeStep \<or> x div probeStep = probe div probeStep"
    using between_minutes [of previous x] x r probe by simp
  then have xp: "x div probeStep = probe div probeStep" using block prev neq by metis
  define j where "j = (x - previous - 1) div second"
  define c where "c = previous + second + j * second"
  have j: "0 \<le> j" using x by (simp add: j_def pos_imp_zdiv_nonneg_iff)
  have "j * second \<le> x - previous - 1" "x - previous - 1 < j * second + second"
    using div_mult_le_int [of second "x - previous - 1"] div_mult_gt_int [of second "x - previous - 1"]
    by (simp_all add: j_def algebra_simps)
  then have c: "x \<le> c" "c < x + second" by (simp_all add: c_def)
  have ck: "c = previous + second + int (nat j) * second" using j by (simp add: c_def)
  have "c < ?r" using c x by linarith
  then have "limited c = want" using first unfolding ck by blast
  moreover have "c div probeStep = probe div probeStep"
  proof (rule antisym)
    show "c div probeStep \<le> probe div probeStep" using c x r by (intro zdiv_mono1) auto
    show "probe div probeStep \<le> c div probeStep" unfolding xp [symmetric] using c by (intro zdiv_mono1) auto
  qed
  ultimately show False using block differs by metis
qed

lemma probe_minutes_quiet:
  assumes "\<And>x y. x div probeStep = y div probeStep \<Longrightarrow> limited x = limited y"
    and "\<And>y. t \<le> y \<Longrightarrow> y \<le> previous \<Longrightarrow> limited y = want"
    and "probe = previous + probeStep" and "previous = t + int k * probeStep" and "previous - t \<le> maxLookahead"
    and "t \<le> x" and "x + second \<le> probe_minutes limited t want previous probe"
  shows "limited x = want"
  using assms
proof (induction limited t want previous probe arbitrary: k rule: probe_minutes.induct)
  case (1 limited t want previous probe)
  note block = "1.prems"(1) and quiet = "1.prems"(2) and probe = "1.prems"(3) and grid = "1.prems"(4) and x = "1.prems"(6,7)
  have prev: "limited previous = want" using quiet [of previous] grid by simp
  consider "probe - t > maxLookahead" | "probe - t \<le> maxLookahead" "limited probe = want"
    | "probe - t \<le> maxLookahead" "limited probe \<noteq> want" by linarith
  then show ?case
  proof cases
    case 1
    then have "int k > 1559" using grid probe by simp
    then have "maxLookahead \<le> previous - t" using grid by simp
    moreover have "probe_minutes limited t want previous probe = t + maxLookahead" using 1 by (simp add: probe_minutes.simps)
    ultimately show ?thesis using x quiet by simp
  next
    case 2
    have "limited y = want" if "t \<le> y" "y \<le> probe" for y
    proof (cases "y \<le> previous")
      case False
      then show ?thesis using between_minutes [of previous y] that probe block prev 2 by (metis linear)
    qed (use quiet that in simp)
    note quiet' = this
    have x': "x + second \<le> probe_minutes limited t want probe (probe + probeStep)"
      using x 2 by (simp add: probe_minutes.simps [of limited t want previous])
    have far: "\<not> probe - t > maxLookahead" using 2 by linarith
    have "probe = t + int (Suc k) * probeStep" using grid probe by simp
    from "1.IH" [OF far 2(2) block quiet' refl this 2(1) x(1) x'] show ?thesis .
  next
    case 3
    then have "x + second \<le> scan_seconds limited want (previous + second) probe" using x by (simp add: probe_minutes.simps)
    then show ?thesis
      using scan_seconds_quiet [where limited = limited and want = want and x = x, OF block prev probe] 3 quiet x by (meson not_le)
  qed
qed

lemma probe_minutes_range:
  assumes "probe = previous + probeStep" and "t \<le> previous"
  shows "t < probe_minutes limited t want previous probe \<and> probe_minutes limited t want previous probe \<le> t + maxLookahead
     \<and> (limited (probe_minutes limited t want previous probe) \<noteq> want \<or> probe_minutes limited t want previous probe = t + maxLookahead)"
  using assms
proof (induction limited t want previous probe rule: probe_minutes.induct)
  case (1 limited t want previous probe)
  consider "probe - t > maxLookahead" | "probe - t \<le> maxLookahead" "limited probe = want"
    | "probe - t \<le> maxLookahead" "limited probe \<noteq> want" by linarith
  then show ?case
  proof cases
    case 3
    then show ?thesis using scan_seconds_first [of limited probe want "previous + second"] "1.prems"
      by (auto simp: probe_minutes.simps [of limited t want previous])
  qed (use 1 in \<open>auto simp: probe_minutes.simps [of limited t want previous]\<close>)
qed


section \<open>Lemmas on the controller\<close>

text \<open>
  The invariant: memory, policy and visible file agree; a reading of the clock is never in the future; and a
  runner that waits without a pending wake signal waits for a boundary of the current policy, with the
  limiter at the limit of its reading.
\<close>

fun runner_ok :: "(int \<Rightarrow> int) \<Rightarrow> int \<Rightarrow> uploadRateController \<Rightarrow> runner \<Rightarrow> bool" where
  "runner_ok off clock c AtClock = True"
| "runner_ok off clock c (AtLock now) = (now \<le> clock)"
| "runner_ok off clock c (Waiting p now started) =
     (now \<le> clock \<and> (\<not> ucWake c \<longrightarrow> p = ucPolicy c \<and> ucLimiter c = effectiveLimit off p now))"
| "runner_ok off clock c Stopped = True"

definition rate_inv :: "(int \<Rightarrow> int) \<Rightarrow> RateSession \<Rightarrow> bool" where
  "rate_inv off s \<longleftrightarrow>
     loadUploadRateSettings (sfVisible (rsFile s)) = Inr (rsSettings s, ucPolicy (rsControl s))
     \<and> runner_ok off (rsClock s) (rsControl s) (ucRunner (rsControl s))"

lemma applyLocked_eq: "applyLocked off t c = c\<lparr>ucLimiter := effectiveLimit off (ucPolicy c) t\<rparr>"
  by (simp add: applyLocked_def Let_def)

lemma runner_ok_later: "runner_ok off clock c r \<Longrightarrow> clock \<le> clock' \<Longrightarrow> runner_ok off clock' c r"
  by (cases r) auto

lemma runner_ok_set: "runner_ok off clock c r \<Longrightarrow> runner_ok off clock (setPolicy off p t c) r"
  by (cases r) (auto simp: setPolicy_def signalWake_def)

text \<open>The three outcomes of a change: nothing happened, all is done, or all but the sync is done.\<close>

lemma SetUploadRateSettings_cases:
  assumes "SetUploadRateSettings off alive alive' fails settings s = ((r, e), s')"
    and "loadUploadRateSettings (sfVisible (rsFile s)) = Inr n"
  obtains (unchanged) "s' = s" and "r = zeroSettings" and "e \<noteq> None" and "e \<noteq> Some ErrUploadRateSettingsDurabilityUnconfirmed"
  | (changed) p d where "validateUploadRateSettings settings = Inr (settings, p)" and "r = settings"
      and "d = Document \<lparr>rcVersion = uploadRateSettingsVersion, rcRate = urRate settings, rcSchedule = urSchedule settings\<rparr>"
      and "(e = None \<and> rsFile s' = \<lparr>sfVisible = d, sfSynced = d\<rparr>)
           \<or> (e = Some ErrUploadRateSettingsDurabilityUnconfirmed \<and> rsFile s' = (rsFile s)\<lparr>sfVisible := d\<rparr>)"
      and "s' = s\<lparr>rsFile := rsFile s', rsSettings := settings, rsControl := setPolicy off p (rsClock s) (rsControl s)\<rparr>"
proof (cases "alive \<and> alive' \<and> rsActive s")
  case False
  have "e \<noteq> Some ErrUploadRateSettingsDurabilityUnconfirmed"
    using assms(1) False
    by (auto simp: SetUploadRateSettings_def validateUploadRateSettings_def Let_def split: if_splits sum.splits option.splits)
  then show thesis using assms(1) False unchanged by (auto simp: SetUploadRateSettings_def split: if_splits sum.splits)
next
  case True
  show thesis
  proof (cases "validateUploadRateSettings settings")
    case (Inl err)
    then have "err \<noteq> ErrUploadRateSettingsDurabilityUnconfirmed"
      by (auto simp: validateUploadRateSettings_def Let_def split: if_splits option.splits)
    then show thesis using assms(1) True Inl unchanged by (auto simp: SetUploadRateSettings_def)
  next
    case (Inr np)
    then obtain n p where v: "validateUploadRateSettings settings = Inr (n, p)" by (cases np) auto
    note nf = validate_normal [OF v]
    have reg: "sfVisible (rsFile s) \<noteq> Inaccessible" "sfVisible (rsFile s) \<noteq> Irregular"
      using assms(2) by (auto simp: loadUploadRateSettings_def)
    let ?d = "Document \<lparr>rcVersion = uploadRateSettingsVersion, rcRate = urRate settings, rcSchedule = urSchedule settings\<rparr>"
    consider "fails = None" | "fails = Some SyncDirectory" | "\<exists>w. fails = Some w \<and> w \<noteq> SyncDirectory" by (cases fails) auto
    then show thesis
    proof cases
      case 3
      then obtain w where w: "fails = Some w" "w \<noteq> SyncDirectory" by blast
      then have wr: "writeFileAtomicPublished fails d f = (False, False, f)" for d f
        by (cases w) (simp_all add: writeFileAtomicPublished_def)
      have "s' = s" "r = zeroSettings" "e = Some ErrUploadRateSettingsStorageUnavailable"
        using assms(1) True v nf reg by (auto simp: SetUploadRateSettings_def saveUploadRateSettings_def wr)
      then show thesis using unchanged by simp
    qed (use assms(1) True v nf reg in
          \<open>auto intro!: changed [where p = p and d = ?d] simp: SetUploadRateSettings_def saveUploadRateSettings_def writeFileAtomicPublished_def\<close>)
  qed
qed

lemma rate_inv_step: "rate_step off s s' \<Longrightarrow> rate_inv off s \<Longrightarrow> rate_inv off s'"
proof (induction rule: rate_step.induct)
  case (tick d s)
  then show ?case using runner_ok_later [of off "rsClock s" _ _ "rsClock s + d"] by (simp add: rate_inv_def)
next
  case (request alive alive' fails settings s r s')
  obtain x e where r: "r = (x, e)" by force
  have l: "loadUploadRateSettings (sfVisible (rsFile s)) = Inr (rsSettings s, ucPolicy (rsControl s))"
    using request by (simp add: rate_inv_def)
  from request.hyps [unfolded r] l show ?case
  proof (cases rule: SetUploadRateSettings_cases)
    case unchanged
    then show ?thesis using request by simp
  next
    case (changed p d)
    have "sfVisible (rsFile s') = d" using changed(4) by auto
    moreover have "loadUploadRateSettings d = Inr (settings, p)" using load_saved [OF changed(1)] changed(3) by simp
    moreover have "ucPolicy (setPolicy off p (rsClock s) (rsControl s)) = p"
      "ucRunner (setPolicy off p (rsClock s) (rsControl s)) = ucRunner (rsControl s)"
      by (simp_all add: setPolicy_def signalWake_def applyLocked_eq)
    ultimately show ?thesis using request.prems runner_ok_set changed(5) unfolding rate_inv_def
      by (metis RateSession.select_convs(2,3,4,5) RateSession.surjective RateSession.update_convs(3,4,5))
  qed
qed (auto simp: rate_inv_def run_clock_def run_apply_def applyLocked_eq)

lemma rate_inv_reach: "rate_reach off s \<Longrightarrow> rate_inv off s"
proof (induction rule: rate_reach.induct)
  case (start now f s)
  then show ?case by (auto simp: startRateSession_def rate_inv_def newUploadRateController_def split: sum.splits)
qed (use rate_inv_step in blast)


lemma nextTransition_quiet:
  assumes "whole_minutes off" and "nextTransition off p t = Some r" and "t \<le> x" and "x + second \<le> r"
  shows "limitedAt off p x = limitedAt off p t"
proof (rule probe_minutes_quiet [where limited = "limitedAt off p" and t = t and previous = t and k = 0])
  fix x y
  assume "x div probeStep = y div probeStep"
  then show "limitedAt off p x = limitedAt off p y" by (rule limitedAt_minute [OF assms(1)])
qed (use assms in \<open>auto simp: nextTransition_def split: if_splits\<close>)

lemma nextTransition_range:
  assumes "nextTransition off p t = Some r"
  shows "t < r \<and> r \<le> t + maxLookahead \<and> (limitedAt off p r \<noteq> limitedAt off p t \<or> r = t + maxLookahead)"
  using assms probe_minutes_range [of "t + probeStep" t t "limitedAt off p" "limitedAt off p t"]
  by (auto simp: nextTransition_def split: if_splits)

lemma effectiveLimit_quiet: "limitedAt off p x = limitedAt off p t \<Longrightarrow> effectiveLimit off p x = effectiveLimit off p t"
  by (simp add: effectiveLimit_def)

section \<open>Properties\<close>

text \<open>
  C20: in a zone of whole minutes, the boundary that the search returns lies after the instant
  it was asked for and at most 26 hours later; the window's state has changed there or the horizon was
  reached; and no change was skipped: the state is that of the start until at least one second before
  the boundary, across both directions of a change of the zone's offset.
\<close>

theorem upload_transition_exact:
  assumes "whole_minutes off" and "nextTransition off p t = Some r"
  shows "t < r \<and> r \<le> t + 26 * 3600 * second
     \<and> (limitedAt off p r \<noteq> limitedAt off p t \<or> r = t + 26 * 3600 * second)
     \<and> (\<forall>x. t \<le> x \<longrightarrow> x + second \<le> r \<longrightarrow> limitedAt off p x = limitedAt off p t)"
proof (intro conjI allI impI)
  fix x
  assume "t \<le> x" and "x + second \<le> r"
  then show "limitedAt off p x = limitedAt off p t" by (rule nextTransition_quiet [OF assms])
qed (use nextTransition_range [OF assms(2)] in simp_all)

text \<open>The window from 00:01 to 00:02, with a clock that is set one hour forward at 01:00.\<close>

definition sample_policy :: uploadRatePolicy where
  "sample_policy = compileUploadRatePolicy \<lparr>urRate = 1000, urSchedule = Some \<lparr>urStart = ''00:01'', urEnd = ''00:02''\<rparr>\<rparr>"

definition sample_zone :: "int \<Rightarrow> int" where
  "sample_zone s = (if s < 3600 then 0 else 3600)"

lemma sample_zone_whole: "whole_minutes sample_zone"
  unfolding whole_minutes_def sample_zone_def by auto

lemma sample_policy_eq: "sample_policy =
  \<lparr>plLimit = Limit 1000, plScheduled = True, plStart = 1, plEnd = 2, plStartLabel = ''00:01'', plEndLabel = ''00:02''\<rparr>"
  by (simp add: sample_policy_def compileUploadRatePolicy_def zeroPolicy_def digit_value_def float64_of_int_def)

lemma sample_next: "nextTransition sample_zone sample_policy (58 * second) = Some (60 * second)"
  by (simp add: nextTransition_def sample_policy_eq probe_minutes.simps scan_seconds.simps limitedAt_def Hour_def Minute_def sample_zone_def)

theorem upload_transition_exact_witness:
  "limitedAt sample_zone sample_policy (59 * second) = limitedAt sample_zone sample_policy (58 * second)"
proof -
  have "\<forall>x. 58 * second \<le> x \<longrightarrow> x + second \<le> 60 * second
      \<longrightarrow> limitedAt sample_zone sample_policy x = limitedAt sample_zone sample_policy (58 * second)"
    using upload_transition_exact [OF sample_zone_whole sample_next] by blast
  from this [rule_format, of "59 * second"] show ?thesis by simp
qed


text \<open>A session without settings whose runner has gone through its first round.\<close>

definition sample_session :: RateSession where
  "sample_session =
     \<lparr>rsActive = True, rsClock = 5, rsFile = \<lparr>sfVisible = Missing, sfSynced = Missing\<rparr>, rsSettings = zeroSettings,
      rsControl = \<lparr>ucLimiter = Inf, ucPolicy = zeroPolicy, ucWake = False, ucRunner = Waiting zeroPolicy 5 5\<rparr>\<rparr>"

lemma sample_reach: "rate_reach sample_zone sample_session"
proof -
  let ?s = "\<lambda>r. sample_session\<lparr>rsControl := (rsControl sample_session)\<lparr>ucRunner := r\<rparr>\<rparr>"
  have e: "effectiveLimit sample_zone zeroPolicy 5 = Inf" by (simp add: effectiveLimit_def enabled_def zeroPolicy_def)
  have z: "compileUploadRatePolicy zeroSettings = zeroPolicy" "\<lparr>urRate = urRate zeroSettings, urSchedule = None\<rparr> = zeroSettings"
    by (simp_all add: compileUploadRatePolicy_def zeroSettings_def)
  have "startRateSession sample_zone 5 \<lparr>sfVisible = Missing, sfSynced = Missing\<rparr> = Inr (?s AtClock)"
    using e z by (simp add: startRateSession_def loadUploadRateSettings_def validateUploadRateSettings_def Let_def
        newUploadRateController_def sample_session_def zeroSettings_def)
  then have "rate_reach sample_zone (?s AtClock)" by (rule rate_reach.start)
  then have "rate_reach sample_zone (?s (AtLock 5))"
    by (rule rate_reach.step) (use rate_step.clock [of "?s AtClock" sample_zone] in \<open>simp add: run_clock_def sample_session_def\<close>)
  then have "rate_reach sample_zone (?s (Waiting zeroPolicy 5 5))"
    by (rule rate_reach.step)
      (use rate_step.locked [of "?s (AtLock 5)" 5 sample_zone] e in \<open>simp add: run_apply_def applyLocked_eq sample_session_def\<close>)
  then show ?thesis by (simp add: sample_session_def)
qed


text \<open>
  C21: a change of the settings that reports success is what every later start reads, even
  after a power failure; one that reports unconfirmed durability is in memory, in force and what a start
  without power failure reads; every other error has changed nothing at all, neither file nor memory nor
  limiter.
\<close>

theorem upload_settings_persist:
  assumes "rate_reach off s" and "SetUploadRateSettings off alive alive' fails settings s = ((r, e), s')"
  shows "case e of
      None \<Rightarrow> r = settings \<and> getUploadRateSettings s' = settings
        \<and> (\<forall>lost now. map_sum id getUploadRateSettings (startRateSession off now (power_failure lost (rsFile s'))) = Inr settings)
    | Some err \<Rightarrow>
        if err = ErrUploadRateSettingsDurabilityUnconfirmed
        then r = settings \<and> getUploadRateSettings s' = settings
          \<and> ucLimiter (rsControl s') = effectiveLimit off (compileUploadRatePolicy settings) (rsClock s)
          \<and> (\<forall>now. map_sum id getUploadRateSettings (startRateSession off now (rsFile s')) = Inr settings)
        else s' = s"
proof -
  have "rate_inv off s" using assms(1) by (rule rate_inv_reach)
  then have l: "loadUploadRateSettings (sfVisible (rsFile s)) = Inr (rsSettings s, ucPolicy (rsControl s))"
    by (simp add: rate_inv_def)
  show ?thesis using assms(2) l
  proof (cases rule: SetUploadRateSettings_cases)
    case unchanged
    then show ?thesis by (auto split: option.splits)
  next
    case (changed p d)
    have d: "loadUploadRateSettings d = Inr (settings, p)" using load_saved [OF changed(1)] changed(3) by simp
    have st: "map_sum id getUploadRateSettings (startRateSession off now f) = Inr settings" if "sfVisible f = d" for now f
      using that d by (simp add: startRateSession_def getUploadRateSettings_def)
    have m: "getUploadRateSettings s' = settings" "rsControl s' = setPolicy off p (rsClock s) (rsControl s)"
      using changed(5) by (metis RateSession.simps getUploadRateSettings_def RateSession.select_convs RateSession.surjective RateSession.update_convs)+
    have "p = compileUploadRatePolicy settings" using validate_normal [OF changed(1)] by simp
    then have "ucLimiter (rsControl s') = effectiveLimit off (compileUploadRatePolicy settings) (rsClock s)"
      using m(2) by (simp add: setPolicy_def signalWake_def applyLocked_eq)
    then show ?thesis using changed(2,4) m(1) st by (auto simp: power_failure_def Let_def)
  qed
qed

theorem upload_settings_persist_witness:
  "case SetUploadRateSettings sample_zone True True (Some SyncDirectory) \<lparr>urRate = 7, urSchedule = None\<rparr> sample_session of
     ((r, e), s') \<Rightarrow> r = \<lparr>urRate = 7, urSchedule = None\<rparr> \<and> getUploadRateSettings s' = r"
proof -
  obtain r e s' where x: "SetUploadRateSettings sample_zone True True (Some SyncDirectory) \<lparr>urRate = 7, urSchedule = None\<rparr> sample_session = ((r, e), s')"
    by (metis prod.exhaust)
  then have "e = Some ErrUploadRateSettingsDurabilityUnconfirmed"
    by (auto simp: SetUploadRateSettings_def validateUploadRateSettings_def Let_def saveUploadRateSettings_def
        writeFileAtomicPublished_def sample_session_def)
  then show ?thesis using upload_settings_persist [OF sample_reach x] x by simp
qed

section \<open>Boundaries that the search reports late\<close>

text \<open>
  The grid of the search starts at the instant it is asked for, not at a whole second, so the boundary can
  lie up to a second after the first instant whose state differs.
\<close>

lemma transition_late:
  "nextTransition (\<lambda>s. 0) sample_policy 500000000 = Some 60500000000
   \<and> limitedAt (\<lambda>s. 0) sample_policy 60000000000 \<noteq> limitedAt (\<lambda>s. 0) sample_policy 500000000"
  by (simp add: nextTransition_def sample_policy_eq probe_minutes.simps scan_seconds.simps limitedAt_def Hour_def Minute_def)

text \<open>
  A window inside the hour that the clock skips does not occur on that day: the search that starts when the
  window of the day before has ended finds no change within its 26 hours and returns its horizon.
\<close>

definition gap_policy :: uploadRatePolicy where
  "gap_policy = compileUploadRatePolicy \<lparr>urRate = 1000, urSchedule = Some \<lparr>urStart = ''02:00'', urEnd = ''02:30''\<rparr>\<rparr>"

definition gap_zone :: "int \<Rightarrow> int" where
  "gap_zone s = (if s < 7200 then 0 else 3600)"

lemma gap_policy_eq: "gap_policy =
  \<lparr>plLimit = Limit 1000, plScheduled = True, plStart = 120, plEnd = 150, plStartLabel = ''02:00'', plEndLabel = ''02:30''\<rparr>"
  by (simp add: gap_policy_def compileUploadRatePolicy_def zeroPolicy_def digit_value_def float64_of_int_def)

lemma gap_unlimited:
  assumes "- 77400 * second \<le> x" and "x < 90000 * second"
  shows "\<not> limitedAt gap_zone gap_policy x"
proof -
  let ?s = "x div second"
  have s: "- 77400 \<le> ?s" "?s < 90000" using assms by (simp_all add: le_div_int div_less_int)
  let ?m = "(?s + gap_zone ?s) mod 86400"
  consider "?s < 0" | "0 \<le> ?s" "?s < 7200" | "7200 \<le> ?s" "?s < 82800" | "82800 \<le> ?s" by linarith
  then have "?m < 7200 \<or> 9000 \<le> ?m"
  proof cases
    case 1
    have "?m = (?s + 86400) mod 86400" using 1 by (simp add: gap_zone_def)
    also have "\<dots> = ?s + 86400" using 1 s by (intro mod_pos_pos_trivial) auto
    finally show ?thesis using s by linarith
  next
    case 2
    then show ?thesis by (simp add: gap_zone_def)
  next
    case 3
    then show ?thesis by (simp add: gap_zone_def)
  next
    case 4
    have "?m = (?s + 3600 - 86400) mod 86400" using 4 by (simp only: gap_zone_def minus_mod_self2) simp
    also have "\<dots> = ?s + 3600 - 86400" using 4 s by (intro mod_pos_pos_trivial) auto
    finally show ?thesis using s by linarith
  qed
  then have "?m div 60 < 120 \<or> 150 \<le> ?m div 60" by (auto intro: div_less_int le_div_int)
  then show ?thesis by (auto simp: limitedAt_def wall_minute gap_policy_eq)
qed

lemma gap_window_waits: "nextTransition gap_zone gap_policy (- 77400 * second) = Some (- 77400 * second + maxLookahead)"
proof -
  obtain r where r: "nextTransition gap_zone gap_policy (- 77400 * second) = Some r"
    by (simp add: nextTransition_def gap_policy_eq)
  have "limitedAt gap_zone gap_policy r = limitedAt gap_zone gap_policy (- 77400 * second)"
    using gap_unlimited nextTransition_range [OF r] by simp
  then show ?thesis using r nextTransition_range [OF r] by simp
qed

end
