(* ===== verification/StreamLinks.thy ===== *)
theory StreamLinks
  imports StreamUrl Registry Strm UploadRate
begin

text \<open>
  Signed links end to end: the key file and the two stream methods of the session
  (\<open>internal/session/stream.go\<close>), the lookup of a payload file (\<open>torrents.go\<close>) and the handler of the HTTP
  interface with its reader (\<open>internal/api/stream.go\<close>).

  The HMAC, the URL parser of the standard library and the answers of the system calls are arguments. A
  reader handle is the torrent and the path it reads; reading itself is the subject of \<open>ReadFile\<close>.
\<close>

section \<open>Key file\<close>

datatype key_file = NoKey | IrregularKey | KeyFile "8 word list" nat

datatype key_fault = OpenFails | StatFails | Swapped | ReadFails

datatype key_error =
    KeyRandom | KeyPersist | KeyIrregular | KeyOpen | KeyStat | KeyChanged | KeyMode | KeyRead | KeyLength | KeySigner

text \<open>
  \<open>draw\<close> is the answer of the random source, \<open>fails\<close> the first call of the atomic write that fails, \<open>fault\<close> what
  goes wrong with an existing file between the two inspections and the read. A new file has the mode 0600
  (384); 63 and 256 are the masks 0077 and 0400.
\<close>

definition resolveStreamSigner ::
  "8 word list option \<Rightarrow> write_call option \<Rightarrow> key_fault option \<Rightarrow> key_file \<Rightarrow> (key_error + Signer) \<times> key_file" where
  "resolveStreamSigner draw fails fault f =
     (case f of
        NoKey \<Rightarrow>
          (case draw of
             None \<Rightarrow> (Inl KeyRandom, f)
           | Some key \<Rightarrow>
               (case fails of
                  None \<Rightarrow> (case NewSigner key of Inl _ \<Rightarrow> Inl KeySigner | Inr s \<Rightarrow> Inr s, KeyFile key 384)
                | Some SyncDirectory \<Rightarrow> (Inl KeyPersist, KeyFile key 384)
                | Some _ \<Rightarrow> (Inl KeyPersist, f)))
      | IrregularKey \<Rightarrow> (Inl KeyIrregular, f)
      | KeyFile content mode \<Rightarrow>
          (case fault of
             Some OpenFails \<Rightarrow> Inl KeyOpen
           | Some StatFails \<Rightarrow> Inl KeyStat
           | Some Swapped \<Rightarrow> Inl KeyChanged
           | _ \<Rightarrow>
               if and mode 63 \<noteq> 0 \<or> and mode 256 = 0 then Inl KeyMode
               else if fault = Some ReadFails then Inl KeyRead
               else let key = take (KeySize + 1) content
                    in if length key \<noteq> KeySize then Inl KeyLength
                       else (case NewSigner key of Inl _ \<Rightarrow> Inl KeySigner | Inr s \<Rightarrow> Inr s), f))"

section \<open>Session\<close>

datatype link_error = LinkDisabled | LinkMalformed | LinkSignature | LinkNotActive | LinkNotFound | LinkClosed | LinkBuild stream_error

record StreamConfig =
  smBaseURL :: string
  smSigner :: "Signer option"

record StreamFile =
  sfReader :: "hash \<times> string"
  sfSize :: int
  sfModifiedAt :: time

definition fileByPath :: "string \<Rightarrow> Torrent \<Rightarrow> FileView option" where
  "fileByPath path t = (case tnFiles t of None \<Rightarrow> None | Some fs \<Rightarrow> find (\<lambda>f. fvPath f = path) fs)"

definition streamFileLocked :: "hash \<Rightarrow> string \<Rightarrow> Session \<Rightarrow> link_error + (Torrent \<times> FileView \<times> registryEntry)" where
  "streamFileLocked h path s =
     (if ensureActiveLocked s \<noteq> None then Inl LinkNotActive
      else case (map_of (ssStates s) h, map_of (ssTorrents s) h) of
             (Some e, Some t) \<Rightarrow>
               if rgState e \<noteq> StateReady \<or> tnFiles t = None then Inl LinkNotFound
               else (case fileByPath path t of None \<Rightarrow> Inl LinkNotFound | Some f \<Rightarrow> Inr (t, f, e))
           | _ \<Rightarrow> Inl LinkNotFound)"

definition StreamURL ::
  "(8 word list \<Rightarrow> string \<Rightarrow> 8 word list) \<Rightarrow> (string \<Rightarrow> URL option) \<Rightarrow> (string \<Rightarrow> bool) \<Rightarrow> StreamConfig
     \<Rightarrow> hash \<Rightarrow> string \<Rightarrow> Session \<Rightarrow> link_error + string" where
  "StreamURL hmac parse is6 cfg h path s =
     (case smSigner cfg of
        None \<Rightarrow> Inl LinkDisabled
      | Some signer \<Rightarrow>
          if ValidatePath path \<noteq> None then Inl LinkMalformed
          else case streamFileLocked h path s of
                 Inl e \<Rightarrow> Inl e
               | Inr _ \<Rightarrow>
                   (case BuildURL parse is6 (smBaseURL cfg) h (Sign hmac signer h path) path of
                      Inl e \<Rightarrow> Inl (LinkBuild e)
                    | Inr link \<Rightarrow> Inr link))"

text \<open>\<open>isClosed\<close> tells whether the torrent object was closed between the lookup and the opening of the reader.\<close>

definition OpenStream ::
  "(8 word list \<Rightarrow> string \<Rightarrow> 8 word list) \<Rightarrow> StreamConfig \<Rightarrow> bool \<Rightarrow> Location \<Rightarrow> Session \<Rightarrow> link_error + StreamFile" where
  "OpenStream hmac cfg isClosed loc s =
     (case smSigner cfg of
        None \<Rightarrow> Inl LinkDisabled
      | Some signer \<Rightarrow>
          if \<not> Verify hmac signer (lcHash loc) (lcPath loc) (lcSignature loc) then Inl LinkSignature
          else if ValidatePath (lcPath loc) \<noteq> None then Inl LinkMalformed
          else case streamFileLocked (lcHash loc) (lcPath loc) s of
                 Inl e \<Rightarrow> Inl e
               | Inr (t, f, e) \<Rightarrow>
                   if isClosed then Inl LinkClosed
                   else Inr \<lparr>sfReader = (lcHash loc, lcPath loc), sfSize = fvSize f, sfModifiedAt = rgCreatedAt e\<rparr>)"

section \<open>Handler\<close>

datatype stream_reply =
    Status404 | Status405 | Status403 | Status503 | Status500
  | Content StreamFile string string

definition handleStream ::
  "(8 word list \<Rightarrow> string \<Rightarrow> 8 word list) \<Rightarrow> StreamConfig \<Rightarrow> bool \<Rightarrow> bool \<Rightarrow> bool \<Rightarrow> string \<Rightarrow> string \<Rightarrow> Session \<Rightarrow> stream_reply" where
  "handleStream hmac cfg streamEnabled stopping isClosed verb escapedPath s =
     (if \<not> streamEnabled then Status404
      else if verb \<noteq> ''GET'' \<and> verb \<noteq> ''HEAD'' then Status405
      else case ParsePath escapedPath of
             Inl _ \<Rightarrow> Status404
           | Inr loc \<Rightarrow>
               if stopping then Status503
               else (case OpenStream hmac cfg isClosed loc s of
                       Inl LinkSignature \<Rightarrow> Status403
                     | Inl LinkDisabled \<Rightarrow> Status404
                     | Inl LinkNotFound \<Rightarrow> Status404
                     | Inl LinkClosed \<Rightarrow> Status503
                     | Inl LinkNotActive \<Rightarrow> Status503
                     | Inl _ \<Rightarrow> Status500
                     | Inr file \<Rightarrow>
                         if sfSize file < 0 then Status500
                         else Content file (ContentType (lcPath loc))
                                ([CHR 0x22] @ hex_bytes (lcHash loc) @ ''-'' @ lcSignature loc @ [CHR 0x22])))"

text \<open>
  The reader of the response: \<open>answer\<close> is what the payload reader returns for the request, the number of bytes
  and its error; the recorded failure is the first one.
\<close>

datatype read_fault = FaultEOF | FaultUnexpectedEOF | FaultContext | FaultOther

definition stream_ReadAt ::
  "bool \<Rightarrow> nat \<Rightarrow> nat \<times> read_fault option \<Rightarrow> read_fault option \<Rightarrow> (nat \<times> read_fault option) \<times> read_fault option" where
  "stream_ReadAt alive len answer failure =
     (let record = (\<lambda>e. if failure = None then Some e else failure)
      in if \<not> alive then ((0, Some FaultContext), record FaultContext)
         else case answer of
                (n, err0) \<Rightarrow>
                  let err = (if n < len \<and> (err0 = None \<or> err0 = Some FaultEOF) then Some FaultUnexpectedEOF else err0)
                  in ((n, err),
                      (case err of None \<Rightarrow> failure | Some e \<Rightarrow> if e = FaultEOF \<and> n = len then failure else record e)))"

fun stream_reads :: "(bool \<times> nat \<times> nat \<times> read_fault option) list \<Rightarrow> read_fault option \<Rightarrow> read_fault option" where
  "stream_reads [] failure = failure"
| "stream_reads ((alive, len, answer) # rs) failure = stream_reads rs (snd (stream_ReadAt alive len answer failure))"

section \<open>Properties\<close>

text \<open>
  stream_key_stable: once a start has obtained a signer, every later start that can read the key file obtains the
  same signer and leaves the file as it is, so links stay valid across restarts; the random source is not
  asked again.
\<close>

theorem stream_key_stable:
  assumes "resolveStreamSigner draw fails fault f = (Inr s, f')"
  shows "resolveStreamSigner draw' fails' None f' = (Inr s, f')"
  using assms
  by (auto simp: resolveStreamSigner_def NewSigner_def KeySize_def Let_def
      split: key_file.splits option.splits write_call.splits key_fault.splits if_splits)

theorem stream_key_stable_witness:
  "resolveStreamSigner None (Some Rename) None (KeyFile (replicate 32 7) 384) = (Inr \<lparr>signerKey = replicate 32 7\<rparr>, KeyFile (replicate 32 7) 384)"
  by (rule stream_key_stable [of "Some (replicate 32 7)" None None NoKey])
    (simp add: resolveStreamSigner_def NewSigner_def KeySize_def)

text \<open>
  C16: a link that the session hands out for a payload file leads back to it: the handler parses the
  path behind the base URL, accepts the signature and serves exactly that file of that torrent with its
  size, as long as torrent and session are as they were.
\<close>

theorem stream_link_serves:
  assumes "length h = 20" and "\<And>k m. length (hmac k m) = 32" and "StreamURL hmac parse is6 cfg h path s = Inr link"
  shows "\<exists>u p f e sig t. parse (smBaseURL cfg) = Some u \<and> link = origin u @ TrimSlash (EscapedPath u) @ p
     \<and> streamFileLocked h path s = Inr (t, f, e)
     \<and> (0 \<le> fvSize f \<longrightarrow> handleStream hmac cfg True False False ''GET'' p s =
          Content \<lparr>sfReader = (h, path), sfSize = fvSize f, sfModifiedAt = rgCreatedAt e\<rparr> (ContentType path) sig)"
proof -
  obtain signer where sg: "smSigner cfg = Some signer" and v: "ValidatePath path = None"
    and b: "BuildURL parse is6 (smBaseURL cfg) h (Sign hmac signer h path) path = Inr link"
    and st: "\<exists>t f e. streamFileLocked h path s = Inr (t, f, e)"
    using assms(3) by (auto simp: StreamURL_def split: option.splits if_splits sum.splits)
  then obtain t f e where tf: "streamFileLocked h path s = Inr (t, f, e)" by blast
  obtain u where u: "parseBaseURL parse is6 (smBaseURL cfg) = Inr u"
    "link = origin u @ TrimSlash (EscapedPath u) @ stream_path h (Sign hmac signer h path) path"
    using BuildURL_text [OF b] by blast
  have pu: "parse (smBaseURL cfg) = Some u" using u(1) by (auto simp: parseBaseURL_def Let_def split: option.splits if_splits)
  have d: "decodeSignature (Sign hmac signer h path) = Some (sum_mac hmac signer h path)"
    unfolding Sign_def by (rule decodeSignature_encoding) (simp add: sum_mac_def assms(2))
  have p: "ParsePath (stream_path h (Sign hmac signer h path) path) = Inr \<lparr>lcHash = h, lcSignature = Sign hmac signer h path, lcPath = path\<rparr>"
    using ParsePath_stream_path [OF assms(1) _ v, of "Sign hmac signer h path"] d by simp
  have o: "OpenStream hmac cfg False \<lparr>lcHash = h, lcSignature = Sign hmac signer h path, lcPath = path\<rparr> s =
      Inr \<lparr>sfReader = (h, path), sfSize = fvSize f, sfModifiedAt = rgCreatedAt e\<rparr>"
    using d by (simp add: OpenStream_def sg v tf Verify_def)
  have "0 \<le> fvSize f \<Longrightarrow> handleStream hmac cfg True False False ''GET'' (stream_path h (Sign hmac signer h path) path) s =
          Content \<lparr>sfReader = (h, path), sfSize = fvSize f, sfModifiedAt = rgCreatedAt e\<rparr> (ContentType path)
            ([CHR 0x22] @ hex_bytes h @ ''-'' @ Sign hmac signer h path @ [CHR 0x22])"
    using p o by (simp add: handleStream_def)
  then show ?thesis using pu u(2) tf by blast
qed


text \<open>A session with one ready torrent, for the witnesses.\<close>

definition link_session :: Session where
  "link_session = (newSession emptyDisk)
     \<lparr>ssStates := [(replicate 20 CHR ''h'', newRegistryEntry 5 (replicate 20 CHR ''h'') ''t'' StateReady)],
      ssTorrents := [(replicate 20 CHR ''h'', \<lparr>tnName = ''t'', tnFiles = Some [\<lparr>fvPath = ''a b/100%.mkv'', fvSize = 9\<rparr>], tnFilesID = 0, tnSingle = False\<rparr>)]\<rparr>"

definition link_config :: StreamConfig where
  "link_config = \<lparr>smBaseURL = ''http://m:80/t/'', smSigner = Some wit_signer\<rparr>"

text \<open>A message authentication code of 32 bytes.\<close>

definition link_hmac :: "8 word list \<Rightarrow> string \<Rightarrow> 8 word list" where
  "link_hmac k m = take 32 (k @ replicate 32 0)"

lemma link_hmac_length: "length (link_hmac k m) = 32"
  by (simp add: link_hmac_def)

lemma link_file: "streamFileLocked (replicate 20 CHR ''h'') ''a b/100%.mkv'' link_session =
  Inr (\<lparr>tnName = ''t'', tnFiles = Some [\<lparr>fvPath = ''a b/100%.mkv'', fvSize = 9\<rparr>], tnFilesID = 0, tnSingle = False\<rparr>,
       \<lparr>fvPath = ''a b/100%.mkv'', fvSize = 9\<rparr>, newRegistryEntry 5 (replicate 20 CHR ''h'') ''t'' StateReady)"
  by (simp add: streamFileLocked_def link_session_def newSession_def ensureActiveLocked_def fileByPath_def newRegistryEntry_def)

lemma link_exists: "\<exists>link. StreamURL link_hmac wit_parse (\<lambda>_. False) link_config (replicate 20 CHR ''h'') ''a b/100%.mkv'' link_session = Inr link"
proof -
  have "ValidatePath ''a b/100%.mkv'' = None" by code_simp
  moreover have "parseBaseURL wit_parse (\<lambda>_. False) ''http://m:80/t/'' = Inr (the (wit_parse ''http://m:80/t/''))" by code_simp
  moreover have "decodeSignature (Sign link_hmac wit_signer h p) \<noteq> None" for h p
    unfolding Sign_def by (subst decodeSignature_encoding) (simp_all add: sum_mac_def link_hmac_length)
  ultimately show ?thesis by (simp add: StreamURL_def link_config_def link_file BuildURL_def Let_def)
qed

theorem stream_link_serves_witness:
  "\<exists>p f ct sig. handleStream link_hmac link_config True False False ''GET'' p link_session = Content f ct sig \<and> sfSize f = 9"
proof -
  obtain link where l: "StreamURL link_hmac wit_parse (\<lambda>_. False) link_config (replicate 20 CHR ''h'') ''a b/100%.mkv'' link_session = Inr link"
    using link_exists by blast
  from stream_link_serves [OF _ link_hmac_length l] link_file show ?thesis by fastforce
qed



text \<open>
  stream_response_complete: a response whose reader has recorded no failure has read every requested range completely
  and without a canceled request, so a truncated payload is never reported as a complete response.
\<close>

theorem stream_response_complete:
  assumes "stream_reads rs None = None" and "(alive, len, n, err) \<in> set rs"
  shows "alive \<and> len \<le> n \<and> (err = None \<or> (err = Some FaultEOF \<and> n = len))"
proof -
  have some: "stream_reads xs (Some e) \<noteq> None" for xs e
    by (induction xs arbitrary: e) (auto simp: stream_ReadAt_def Let_def split: option.splits)
  show ?thesis using assms
  proof (induction rs)
    case (Cons x rs)
    obtain al l m er where x: "x = (al, l, m, er)" by (cases x) auto
    have none: "snd (stream_ReadAt al l (m, er) None) = None" using Cons.prems(1) some x by (cases "snd (stream_ReadAt al l (m, er) None)") auto
    show ?case
    proof (cases "(alive, len, n, err) = x")
      case True
      then show ?thesis using none x by (auto simp: stream_ReadAt_def Let_def split: if_splits option.splits)
    next
      case False
      then show ?thesis using Cons none x by auto
    qed
  qed simp
qed

theorem stream_response_complete_witness: "stream_reads [(True, 5, 5, Some FaultEOF)] None = None \<and> (5 :: nat) \<le> 5"
  using stream_response_complete [of "[(True, 5, 5, Some FaultEOF)]" True 5 5 "Some FaultEOF"] by (simp add: stream_ReadAt_def)

end
