(* ===== verification/Config.thy ===== *)
theory Config
  imports Complex_Main Quantities Strm StreamUrl UploadRate Auth Cache
begin

text \<open>
  The configuration (\<open>internal/config\<close>): its structure and schema, the overlay of the environment, the
  names that were removed, validation and the printed report.

  A Go string is a list of bytes, \<open>int\<close>, \<open>int64\<close> and durations are numbers (nanoseconds), a finite \<open>float64\<close> is
  the rational number it denotes. The struct tags are the tree \<open>configType\<close>; reflection on a field index is a
  table of getters and setters. The arguments \<open>pf\<close> and \<open>pd\<close> are \<open>strconv.ParseFloat\<close> (for finite results) and
  \<open>time.ParseDuration\<close>, \<open>loopback\<close> tells whether \<open>net.ParseIP\<close> reads a loopback address, \<open>parse\<close> and \<open>is6\<close> are the
  URL and address parsers of \<open>StreamUrl\<close>. What the TOML decoder makes of a file is an argument of the loader.
\<close>

section \<open>Structure\<close>

record Connections =
  cnListenHost :: string
  cnListenPort :: int
  cnDisableIPv4 :: bool
  cnDisableIPv6 :: bool
  cnNoPortForwarding :: bool
  cnBootstrapNodes :: "string list"

record Identity =
  idTrackerUserAgent :: string
  idPeerIDPrefix :: string
  idExtendedHandshakeClientVersion :: string

record HTTP =
  htListenAddr :: string
  htAuth :: auth_config
  htMaxUploadBytes :: int

record Log =
  lgLevel :: string
  lgFormat :: string
  lgAddSource :: bool

record FUSE =
  fuMountpoint :: string
  fuSTRMMountpoint :: string
  fuAllowOther :: bool

record SMB =
  smListenAddr :: string
  smSTRM :: string

record Lab =
  lbUploadMode :: string
  lbUploadRate :: rat
  lbUploadMultiplier :: rat
  lbUploadJitter :: rat
  lbUploadCap :: int
  lbUploadSeed :: int
  lbAnnounceLog :: string
  lbPeerSampleInterval :: int

text \<open>The sections with a single key are that key: \<open>Proxy\<close>, \<open>Cache\<close>, \<open>STRM\<close> and \<open>Filesystem\<close>.\<close>

record Config =
  cfBackend :: string
  cfUsername :: string
  cfPassword :: string
  cfConnections :: Connections
  cfSocks5URL :: string
  cfCapacityBytes :: int
  cfIdentity :: Identity
  cfHTTP :: HTTP
  cfBaseURL :: string
  cfLog :: Log
  cfReadTimeout :: int
  cfFUSE :: FUSE
  cfSMB :: SMB
  cfLab :: Lab

definition Default :: Config where
  "Default =
     \<lparr>cfBackend = ''none'', cfUsername = '''', cfPassword = '''',
      cfConnections = \<lparr>cnListenHost = '''', cnListenPort = 0, cnDisableIPv4 = False, cnDisableIPv6 = False,
                       cnNoPortForwarding = True, cnBootstrapNodes = []\<rparr>,
      cfSocks5URL = '''', cfCapacityBytes = 2147483648,
      cfIdentity = \<lparr>idTrackerUserAgent = ''qBittorrent/4.4.0'', idPeerIDPrefix = ''-qB4400-'',
                    idExtendedHandshakeClientVersion = ''qBittorrent/4.4.0''\<rparr>,
      cfHTTP = \<lparr>htListenAddr = ''127.0.0.1:8080'', htAuth = \<lparr>Enabled = False, TokenTTL = 30 * 60 * 1000000000\<rparr>,
                htMaxUploadBytes = 10485760\<rparr>,
      cfBaseURL = '''', cfLog = \<lparr>lgLevel = ''info'', lgFormat = ''text'', lgAddSource = False\<rparr>,
      cfReadTimeout = 30 * 1000000000,
      cfFUSE = \<lparr>fuMountpoint = '''', fuSTRMMountpoint = '''', fuAllowOther = False\<rparr>,
      cfSMB = \<lparr>smListenAddr = ''0.0.0.0:1445'', smSTRM = ''auto''\<rparr>,
      cfLab = \<lparr>lbUploadMode = '''', lbUploadRate = 0, lbUploadMultiplier = 0, lbUploadJitter = 0, lbUploadCap = 0,
               lbUploadSeed = 0, lbAnnounceLog = '''', lbPeerSampleInterval = 0\<rparr>\<rparr>"

section \<open>Schema\<close>

text \<open>
  The types of the leaves. A named string type is one of \<open>Backend\<close> and \<open>STRMSwitch\<close>; \<open>FOther\<close> is a type that the
  environment cannot express.
\<close>

datatype FieldType =
    FString | FBool | FInt | FDuration | FByteQuantity | FList | FByteRate | FPercent | FRatio | FInt64
  | FOptionalByteQuantity | FOptionalDuration | FNamedString | FOther

text \<open>A field with its \<open>toml\<close> tag; a leaf has its type, the \<open>enum\<close> tag if there is one, and the \<open>secret\<close> tag.\<close>

datatype Field =
    Leaf string FieldType "string option" string
  | Section string "Field list"

abbreviation plain :: "string \<Rightarrow> FieldType \<Rightarrow> Field" where
  "plain name t \<equiv> Leaf name t None ''''"

definition configType :: "Field list" where
  "configType =
     [Leaf ''backend'' FNamedString (Some ''none,fuse,smb'') '''', plain ''username'' FString, Leaf ''password'' FString None ''true'',
      Section ''connections''
        [plain ''listen_host'' FString, plain ''listen_port'' FInt, plain ''disable_ipv4'' FBool, plain ''disable_ipv6'' FBool,
         plain ''no_port_forwarding'' FBool, plain ''bootstrap_nodes'' FList],
      Section ''proxy'' [plain ''socks5_url'' FString],
      Section ''cache'' [plain ''capacity'' FByteQuantity],
      Section ''identity''
        [plain ''tracker_user_agent'' FString, plain ''peer_id_prefix'' FString, plain ''extended_handshake_client_version'' FString],
      Section ''http''
        [plain ''listen_addr'' FString, Section ''auth'' [plain ''enabled'' FBool, plain ''token_ttl'' FDuration],
         plain ''max_upload_size'' FByteQuantity],
      Section ''strm'' [plain ''base_url'' FString],
      Section ''log'' [plain ''level'' FString, plain ''format'' FString, plain ''add_source'' FBool],
      Section ''filesystem'' [plain ''read_timeout'' FDuration],
      Section ''fuse'' [plain ''mountpoint'' FString, plain ''strm_mountpoint'' FString, plain ''allow_other'' FBool],
      Section ''smb'' [plain ''listen_addr'' FString, Leaf ''strm'' FNamedString (Some ''auto,on,off'') ''''],
      Section ''lab''
        [Leaf ''upload_mode'' FString (Some '',baseline,inject,amplify'') '''', plain ''upload_rate'' FByteRate,
         plain ''upload_multiplier'' FRatio, plain ''upload_jitter'' FPercent, plain ''upload_cap'' FOptionalByteQuantity,
         plain ''upload_seed'' FInt64, plain ''announce_log'' FString, plain ''peer_sample_interval'' FOptionalDuration]]"

record schemaItem =
  siPath :: string
  siEnvironment :: string
  siKind :: string
  siValues :: "string list"
  siSecret :: bool
  siIndex :: "nat list"
  siType :: FieldType
  siOverridable :: bool

definition upper_char :: "char \<Rightarrow> char" where
  "upper_char c = (if byte_in 97 122 c then char_of (of_char c - (32 :: nat)) else c)"

definition environmentPrefix :: string where
  "environmentPrefix = ''TORRENTFS_''"

text \<open>The paths are ASCII texts.\<close>

definition deriveEnvironmentName :: "string \<Rightarrow> string" where
  "deriveEnvironmentName path = environmentPrefix @ map upper_char (map (\<lambda>c. if c = CHR ''.'' then CHR ''_'' else c) path)"

fun kind_of :: "FieldType \<Rightarrow> string" where
  "kind_of FString = ''string''"
| "kind_of FBool = ''bool''"
| "kind_of FInt = ''int''"
| "kind_of FDuration = ''duration''"
| "kind_of FByteQuantity = ''byte quantity''"
| "kind_of FList = ''list''"
| "kind_of FByteRate = ''byte rate''"
| "kind_of FPercent = ''percent''"
| "kind_of FRatio = ''ratio''"
| "kind_of FInt64 = ''int64''"
| "kind_of FOptionalByteQuantity = ''byte quantity''"
| "kind_of FOptionalDuration = ''duration''"
| "kind_of FNamedString = ''string''"
| "kind_of FOther = ''''"

definition enumValues :: "string option \<Rightarrow> string list" where
  "enumValues tag = (case tag of None \<Rightarrow> [] | Some raw \<Rightarrow> split_at CHR '','' raw)"

definition field_path :: "string \<Rightarrow> string \<Rightarrow> string" where
  "field_path parent name = (if parent \<noteq> '''' then parent @ ''.'' @ name else name)"

fun collectSchema :: "Field list \<Rightarrow> nat \<Rightarrow> nat list \<Rightarrow> string \<Rightarrow> schemaItem list" where
  "collectSchema [] i index parent = []"
| "collectSchema (Section name inner # fs) i index parent =
     collectSchema inner 0 (index @ [i]) (field_path parent name) @ collectSchema fs (Suc i) index parent"
| "collectSchema (Leaf name t tag secret # fs) i index parent =
     \<lparr>siPath = field_path parent name, siEnvironment = deriveEnvironmentName (field_path parent name),
      siKind = (if enumValues tag \<noteq> [] then ''enum'' else kind_of t), siValues = enumValues tag,
      siSecret = (secret = ''true''), siIndex = index @ [i], siType = t, siOverridable = (t \<noteq> FOther)\<rparr>
     # collectSchema fs (Suc i) index parent"

definition configSchema :: "schemaItem list" where
  "configSchema = collectSchema configType 0 [] ''''"

definition schemaItemFor :: "string \<Rightarrow> schemaItem option" where
  "schemaItemFor path = find (\<lambda>item. siPath item = path) configSchema"

definition schemaEnumValues :: "string \<Rightarrow> string list \<times> bool" where
  "schemaEnumValues path =
     (case schemaItemFor path of None \<Rightarrow> ([], False) | Some item \<Rightarrow> (siValues item, siValues item \<noteq> []))"

definition SchemaSecret :: "string \<Rightarrow> bool" where
  "SchemaSecret path = (case schemaItemFor path of None \<Rightarrow> False | Some item \<Rightarrow> siSecret item)"

section \<open>Fields by index\<close>

datatype Value = VString string | VBool bool | VInt int | VFloat rat | VList "string list"

text \<open>
  The getter and the setter of a leaf. \<open>reflect.Value.Set\<close> only ever sees a value of the type of the field.
\<close>

type_synonym accessor = "(Config \<Rightarrow> Value) \<times> (Value \<Rightarrow> Config \<Rightarrow> Config)"

definition field :: "('a \<Rightarrow> Value) \<Rightarrow> (Value \<Rightarrow> 'a option) \<Rightarrow> (Config \<Rightarrow> 'a) \<Rightarrow> (('a \<Rightarrow> 'a) \<Rightarrow> Config \<Rightarrow> Config) \<Rightarrow> accessor" where
  "field mk read get upd = (\<lambda>c. mk (get c), \<lambda>v. case read v of Some x \<Rightarrow> upd (\<lambda>_. x) | None \<Rightarrow> id)"

definition str_of :: "Value \<Rightarrow> string option" where
  "str_of v = (case v of VString x \<Rightarrow> Some x | _ \<Rightarrow> None)"

definition bool_of :: "Value \<Rightarrow> bool option" where
  "bool_of v = (case v of VBool x \<Rightarrow> Some x | _ \<Rightarrow> None)"

definition int_of :: "Value \<Rightarrow> int option" where
  "int_of v = (case v of VInt x \<Rightarrow> Some x | _ \<Rightarrow> None)"

definition float_of :: "Value \<Rightarrow> rat option" where
  "float_of v = (case v of VFloat x \<Rightarrow> Some x | _ \<Rightarrow> None)"

definition list_of :: "Value \<Rightarrow> string list option" where
  "list_of v = (case v of VList x \<Rightarrow> Some x | _ \<Rightarrow> None)"

abbreviation "str_field \<equiv> field VString str_of"

abbreviation "bool_field \<equiv> field VBool bool_of"

abbreviation "int_field \<equiv> field VInt int_of"

abbreviation "float_field \<equiv> field VFloat float_of"

abbreviation "list_field \<equiv> field VList list_of"

definition fieldTable :: "(nat list \<times> accessor) list" where
  "fieldTable =
     [([0], str_field cfBackend cfBackend_update), ([1], str_field cfUsername cfUsername_update),
      ([2], str_field cfPassword cfPassword_update),
      ([3, 0], str_field (\<lambda>c. cnListenHost (cfConnections c)) (\<lambda>f. cfConnections_update (cnListenHost_update f))),
      ([3, 1], int_field (\<lambda>c. cnListenPort (cfConnections c)) (\<lambda>f. cfConnections_update (cnListenPort_update f))),
      ([3, 2], bool_field (\<lambda>c. cnDisableIPv4 (cfConnections c)) (\<lambda>f. cfConnections_update (cnDisableIPv4_update f))),
      ([3, 3], bool_field (\<lambda>c. cnDisableIPv6 (cfConnections c)) (\<lambda>f. cfConnections_update (cnDisableIPv6_update f))),
      ([3, 4], bool_field (\<lambda>c. cnNoPortForwarding (cfConnections c)) (\<lambda>f. cfConnections_update (cnNoPortForwarding_update f))),
      ([3, 5], list_field (\<lambda>c. cnBootstrapNodes (cfConnections c)) (\<lambda>f. cfConnections_update (cnBootstrapNodes_update f))),
      ([4, 0], str_field cfSocks5URL cfSocks5URL_update), ([5, 0], int_field cfCapacityBytes cfCapacityBytes_update),
      ([6, 0], str_field (\<lambda>c. idTrackerUserAgent (cfIdentity c)) (\<lambda>f. cfIdentity_update (idTrackerUserAgent_update f))),
      ([6, 1], str_field (\<lambda>c. idPeerIDPrefix (cfIdentity c)) (\<lambda>f. cfIdentity_update (idPeerIDPrefix_update f))),
      ([6, 2], str_field (\<lambda>c. idExtendedHandshakeClientVersion (cfIdentity c))
                 (\<lambda>f. cfIdentity_update (idExtendedHandshakeClientVersion_update f))),
      ([7, 0], str_field (\<lambda>c. htListenAddr (cfHTTP c)) (\<lambda>f. cfHTTP_update (htListenAddr_update f))),
      ([7, 1, 0], bool_field (\<lambda>c. Enabled (htAuth (cfHTTP c))) (\<lambda>f. cfHTTP_update (htAuth_update (Enabled_update f)))),
      ([7, 1, 1], int_field (\<lambda>c. TokenTTL (htAuth (cfHTTP c))) (\<lambda>f. cfHTTP_update (htAuth_update (TokenTTL_update f)))),
      ([7, 2], int_field (\<lambda>c. htMaxUploadBytes (cfHTTP c)) (\<lambda>f. cfHTTP_update (htMaxUploadBytes_update f))),
      ([8, 0], str_field cfBaseURL cfBaseURL_update),
      ([9, 0], str_field (\<lambda>c. lgLevel (cfLog c)) (\<lambda>f. cfLog_update (lgLevel_update f))),
      ([9, 1], str_field (\<lambda>c. lgFormat (cfLog c)) (\<lambda>f. cfLog_update (lgFormat_update f))),
      ([9, 2], bool_field (\<lambda>c. lgAddSource (cfLog c)) (\<lambda>f. cfLog_update (lgAddSource_update f))),
      ([10, 0], int_field cfReadTimeout cfReadTimeout_update),
      ([11, 0], str_field (\<lambda>c. fuMountpoint (cfFUSE c)) (\<lambda>f. cfFUSE_update (fuMountpoint_update f))),
      ([11, 1], str_field (\<lambda>c. fuSTRMMountpoint (cfFUSE c)) (\<lambda>f. cfFUSE_update (fuSTRMMountpoint_update f))),
      ([11, 2], bool_field (\<lambda>c. fuAllowOther (cfFUSE c)) (\<lambda>f. cfFUSE_update (fuAllowOther_update f))),
      ([12, 0], str_field (\<lambda>c. smListenAddr (cfSMB c)) (\<lambda>f. cfSMB_update (smListenAddr_update f))),
      ([12, 1], str_field (\<lambda>c. smSTRM (cfSMB c)) (\<lambda>f. cfSMB_update (smSTRM_update f))),
      ([13, 0], str_field (\<lambda>c. lbUploadMode (cfLab c)) (\<lambda>f. cfLab_update (lbUploadMode_update f))),
      ([13, 1], float_field (\<lambda>c. lbUploadRate (cfLab c)) (\<lambda>f. cfLab_update (lbUploadRate_update f))),
      ([13, 2], float_field (\<lambda>c. lbUploadMultiplier (cfLab c)) (\<lambda>f. cfLab_update (lbUploadMultiplier_update f))),
      ([13, 3], float_field (\<lambda>c. lbUploadJitter (cfLab c)) (\<lambda>f. cfLab_update (lbUploadJitter_update f))),
      ([13, 4], int_field (\<lambda>c. lbUploadCap (cfLab c)) (\<lambda>f. cfLab_update (lbUploadCap_update f))),
      ([13, 5], int_field (\<lambda>c. lbUploadSeed (cfLab c)) (\<lambda>f. cfLab_update (lbUploadSeed_update f))),
      ([13, 6], str_field (\<lambda>c. lbAnnounceLog (cfLab c)) (\<lambda>f. cfLab_update (lbAnnounceLog_update f))),
      ([13, 7], int_field (\<lambda>c. lbPeerSampleInterval (cfLab c)) (\<lambda>f. cfLab_update (lbPeerSampleInterval_update f)))]"

definition getField :: "nat list \<Rightarrow> Config \<Rightarrow> Value option" where
  "getField index c = map_option (\<lambda>(get, _). get c) (map_of fieldTable index)"

definition setField :: "nat list \<Rightarrow> Value \<Rightarrow> Config \<Rightarrow> Config" where
  "setField index v c = (case map_of fieldTable index of None \<Rightarrow> c | Some (_, put) \<Rightarrow> put v c)"


section \<open>Environment\<close>

definition ParseInt :: "string \<Rightarrow> int option" where
  "ParseInt raw =
     (let neg = (raw \<noteq> [] \<and> hd raw = CHR ''-''); ds = (if raw \<noteq> [] \<and> hd raw \<in> {CHR ''-'', CHR ''+''} then tl raw else raw);
          v = (if neg then - int (undecimal ds) else int (undecimal ds))
      in if ds = [] \<or> \<not> list_all is_digit ds \<or> v < - (2 ^ 63) \<or> v > max_int64 then None else Some v)"

definition ParseBool :: "string \<Rightarrow> bool option" where
  "ParseBool raw =
     (if raw \<in> set [''1'', ''t'', ''T'', ''true'', ''TRUE'', ''True''] then Some True
      else if raw \<in> set [''0'', ''f'', ''F'', ''false'', ''FALSE'', ''False''] then Some False
      else None)"

text \<open>The causes of the errors that the report carries; the texts themselves are constants of the sources.\<close>

datatype cause =
    errRequired | errPortRange | errCapacityRange | errProxyURL | errProxyScheme | errProxyHost | errProxyPort
  | errPeerIDPrefixSize | errTrackerUserAgent | errListenAddr | errPositive | errAddressFamilies
  | errBootstrapNode string | errAuthTokenTTLMax | errExposedNoAuth | errLogLevel | errLogFormat | errNoOutput
  | errSTRMURL | errSTRMHost | errSTRMPort | errSTRMPrefix | errSTRMListener
  | errEnum "string list" | errJitter | errMultiplier | errNoMountpoint | errNeedsBaseURL
  | errControlCharacters | errNotUTF8 | errNotSingleLine | errPasswordLength | errUnknownEnvironment
  | errEnvironment string cause | errInteger | errSignedInteger | errBoolean | errDuration | errPercent | errRatio | errQuantity quantity_error

definition parseEnvInt :: "string \<Rightarrow> cause + int" where
  "parseEnvInt raw = (case ParseInt raw of None \<Rightarrow> Inl errInteger | Some v \<Rightarrow> Inr v)"

definition parseEnvBool :: "string \<Rightarrow> cause + bool" where
  "parseEnvBool raw = (case ParseBool raw of None \<Rightarrow> Inl errBoolean | Some v \<Rightarrow> Inr v)"

definition parseEnvDuration :: "(string \<Rightarrow> int option) \<Rightarrow> string \<Rightarrow> cause + int" where
  "parseEnvDuration pd raw = (case pd raw of None \<Rightarrow> Inl errDuration | Some v \<Rightarrow> Inr v)"

definition parseEnvList :: "string \<Rightarrow> string list" where
  "parseEnvList raw = filter (\<lambda>item. item \<noteq> []) (map TrimSpace (split_at CHR '','' raw))"

definition parseQuantity :: "string \<Rightarrow> cause + int" where
  "parseQuantity raw = (case ParseByteQuantity raw of Inl e \<Rightarrow> Inl (errQuantity e) | Inr v \<Rightarrow> Inr v)"

definition ParseByteRate :: "string \<Rightarrow> cause + rat" where
  "ParseByteRate raw =
     (case parseQuantity (TrimSpace (TrimSuffix (TrimSpace raw) ''/s'')) of
        Inl e \<Rightarrow> Inl e
      | Inr n \<Rightarrow> Inr (of_int (float64_of_int n)))"

definition ParsePercent :: "(string \<Rightarrow> rat option) \<Rightarrow> string \<Rightarrow> cause + rat" where
  "ParsePercent pf raw = (case pf (TrimSpace (TrimSuffix (TrimSpace raw) ''%'')) of None \<Rightarrow> Inl errPercent | Some v \<Rightarrow> Inr v)"

definition ParseRatio :: "(string \<Rightarrow> rat option) \<Rightarrow> string \<Rightarrow> cause + rat" where
  "ParseRatio pf raw = (case pf (TrimSpace (TrimSuffix (TrimSpace raw) ''x'')) of None \<Rightarrow> Inl errRatio | Some v \<Rightarrow> Inr v)"

record floats =
  fpFloat :: "string \<Rightarrow> rat option"
  fpDuration :: "string \<Rightarrow> int option"

text \<open>The function that \<open>environmentParser\<close> returns for a type.\<close>

fun environmentParser :: "floats \<Rightarrow> FieldType \<Rightarrow> string \<Rightarrow> cause + Value" where
  "environmentParser p FString raw = Inr (VString raw)"
| "environmentParser p FNamedString raw = Inr (VString raw)"
| "environmentParser p FBool raw = map_sum id VBool (parseEnvBool raw)"
| "environmentParser p FInt raw = map_sum id VInt (parseEnvInt raw)"
| "environmentParser p FInt64 raw = (case ParseInt raw of None \<Rightarrow> Inl errSignedInteger | Some v \<Rightarrow> Inr (VInt v))"
| "environmentParser p FDuration raw = map_sum id VInt (parseEnvDuration (fpDuration p) raw)"
| "environmentParser p FByteQuantity raw = map_sum id VInt (parseQuantity raw)"
| "environmentParser p FList raw = Inr (VList (parseEnvList raw))"
| "environmentParser p FByteRate raw = map_sum id VFloat (ParseByteRate raw)"
| "environmentParser p FPercent raw = map_sum id VFloat (ParsePercent (fpFloat p) raw)"
| "environmentParser p FRatio raw = map_sum id VFloat (ParseRatio (fpFloat p) raw)"
| "environmentParser p FOptionalByteQuantity raw =
     (if TrimSpace raw = [] then Inr (VInt 0) else map_sum id VInt (parseQuantity raw))"
| "environmentParser p FOptionalDuration raw =
     (if TrimSpace raw = [] then Inr (VInt 0) else map_sum id VInt (parseEnvDuration (fpDuration p) raw))"
| "environmentParser p FOther raw = Inl errRequired"

definition allowsEmptyEnum :: "string list \<Rightarrow> bool" where
  "allowsEmptyEnum values = list_ex (\<lambda>v. v = '''') values"

definition namedEnumValues :: "string list \<Rightarrow> string list" where
  "namedEnumValues values = filter (\<lambda>v. v \<noteq> '''') values"

definition acceptEnumValue :: "string list \<Rightarrow> string \<Rightarrow> cause option" where
  "acceptEnumValue values v =
     (if v = '''' \<and> allowsEmptyEnum values then None
      else if list_ex (\<lambda>allowed. v = allowed) values then None
      else Some (errEnum (namedEnumValues values)))"

definition accept :: "schemaItem \<Rightarrow> Value \<Rightarrow> cause option" where
  "accept item v =
     (if siValues item = [] then None else case v of VString s \<Rightarrow> acceptEnumValue (siValues item) s | _ \<Rightarrow> None)"

text \<open>A report is the list of the fields with their causes; the empty list is the nil error.\<close>

type_synonym report = "(string \<times> cause) list"

type_synonym env = "(string \<times> string) list"

definition item_value :: "floats \<Rightarrow> env \<Rightarrow> schemaItem \<Rightarrow> (cause + Value) option" where
  "item_value p env item =
     (if \<not> siOverridable item then None
      else case map_of env (siEnvironment item) of
             None \<Rightarrow> None
           | Some raw \<Rightarrow>
               (case environmentParser p (siType item) raw of
                  Inl e \<Rightarrow> Some (Inl (errEnvironment (siEnvironment item) e))
                | Inr v \<Rightarrow>
                    (case accept item v of
                       Some e \<Rightarrow> Some (Inl (errEnvironment (siEnvironment item) e))
                     | None \<Rightarrow> Some (Inr v))))"

fun applySchema :: "floats \<Rightarrow> env \<Rightarrow> schemaItem list \<Rightarrow> Config \<Rightarrow> Config \<times> string list \<times> report" where
  "applySchema p env [] c = (c, [], [])"
| "applySchema p env (item # rest) c =
     (case item_value p env item of
        None \<Rightarrow> applySchema p env rest c
      | Some (Inl e) \<Rightarrow> (case applySchema p env rest c of (c', vs, r) \<Rightarrow> (c', vs, (siPath item, e) # r))
      | Some (Inr v) \<Rightarrow>
          (case applySchema p env rest (setField (siIndex item) v c) of (c', vs, r) \<Rightarrow> (c', siPath item # vs, r)))"

section \<open>Sources\<close>

datatype Source = SourceDefault | SourceFile | SourceEnvironment

type_synonym Sources = "(string \<times> Source) list"

definition SourceOf :: "Sources \<Rightarrow> string \<Rightarrow> Source" where
  "SourceOf s path = (case map_of s path of Some x \<Rightarrow> x | None \<Rightarrow> SourceDefault)"

definition FromFile :: "Sources \<Rightarrow> string \<Rightarrow> bool" where
  "FromFile s path \<longleftrightarrow> SourceOf s path = SourceFile"

definition FromEnvironment :: "Sources \<Rightarrow> string \<Rightarrow> bool" where
  "FromEnvironment s path \<longleftrightarrow> SourceOf s path = SourceEnvironment"

definition applyEnvironment :: "floats \<Rightarrow> env \<Rightarrow> Config \<Rightarrow> Sources \<Rightarrow> Config \<times> Sources \<times> report" where
  "applyEnvironment p env c s =
     (case applySchema p env configSchema c of
        (c', applied, r) \<Rightarrow> (c', if r = [] then fold (\<lambda>path. aput path SourceEnvironment) applied s else s, r))"


section \<open>Removed and unknown names\<close>

datatype removed_kind = removedTOMLKey | removedEnvironment | removedCommandFlag

record RemovedName =
  rmKind :: removed_kind
  rmOld :: string
  rmNew :: "string list"

abbreviation removed :: "removed_kind \<Rightarrow> string \<Rightarrow> string list \<Rightarrow> RemovedName" where
  "removed k old new \<equiv> \<lparr>rmKind = k, rmOld = old, rmNew = new\<rparr>"

definition removedNames :: "RemovedName list" where
  "removedNames =
     [removed removedTOMLKey ''mount'' [''filesystem.read_timeout'', ''fuse.allow_other''],
      removed removedTOMLKey ''mount.read_timeout'' [''filesystem.read_timeout''],
      removed removedTOMLKey ''mount.allow_other'' [''fuse.allow_other''],
      removed removedTOMLKey ''filesystem.backend'' [''backend''],
      removed removedTOMLKey ''smb.strm_enabled'' [''smb.strm''],
      removed removedTOMLKey ''http.auth.username'' [''username''],
      removed removedTOMLKey ''http.auth.password_hash'' [''password''],
      removed removedTOMLKey ''http.auth.password_hash_file'' [''password''],
      removed removedTOMLKey ''smb.username'' [''username''],
      removed removedTOMLKey ''smb.password_file'' [''password''],
      removed removedCommandFlag ''-mountpoint'' [''fuse.mountpoint''],
      removed removedCommandFlag ''-strm-mountpoint'' [''fuse.strm_mountpoint''],
      removed removedEnvironment ''TORRENTFS_MOUNT_READ_TIMEOUT'' [''TORRENTFS_FILESYSTEM_READ_TIMEOUT''],
      removed removedEnvironment ''TORRENTFS_MOUNT_ALLOW_OTHER'' [''TORRENTFS_FUSE_ALLOW_OTHER''],
      removed removedEnvironment ''TORRENTFS_SMB_ENABLED'' [''TORRENTFS_BACKEND''],
      removed removedEnvironment ''TORRENTFS_STRM_ENABLED'' [''TORRENTFS_SMB_STRM''],
      removed removedEnvironment ''TORRENTFS_FILESYSTEM_BACKEND'' [''TORRENTFS_BACKEND''],
      removed removedEnvironment ''TORRENTFS_SMB_STRM_ENABLED'' [''TORRENTFS_SMB_STRM''],
      removed removedEnvironment ''TORRENTFS_SMB_USERNAME'' [''TORRENTFS_USERNAME''],
      removed removedEnvironment ''TORRENTFS_SMB_PASSWORD_FILE'' [''TORRENTFS_PASSWORD'']]"

text \<open>A decoded document; everything that is not a table is a scalar here.\<close>

datatype Doc = Table "(string \<times> Doc) list" | Scalar

fun doc_uses :: "Doc \<Rightarrow> string list \<Rightarrow> bool" where
  "doc_uses v [] = True"
| "doc_uses Scalar (segment # rest) = (rest = [])"
| "doc_uses (Table t) (segment # rest) = (case map_of t segment of None \<Rightarrow> False | Some v \<Rightarrow> doc_uses v rest)"

definition documentUses :: "(string \<times> Doc) list \<Rightarrow> string \<Rightarrow> bool" where
  "documentUses document path =
     (let segments = split_at CHR ''.'' path
      in case map_of document (hd segments) of None \<Rightarrow> False | Some v \<Rightarrow> doc_uses v (tl segments))"

definition coveredByMoreSpecific :: "RemovedName \<Rightarrow> RemovedName list \<Rightarrow> bool" where
  "coveredByMoreSpecific name matched =
     list_ex (\<lambda>other. rmOld other \<noteq> rmOld name \<and> take (length (rmOld name) + 1) (rmOld other) = rmOld name @ ''.'') matched"

definition removedTOMLNames :: "(string \<times> Doc) list \<Rightarrow> RemovedName list" where
  "removedTOMLNames document =
     (let matched = filter (\<lambda>name. rmKind name = removedTOMLKey \<and> documentUses document (rmOld name)) removedNames
      in filter (\<lambda>name. \<not> coveredByMoreSpecific name matched) matched)"

definition removedEnvironmentNames :: "env \<Rightarrow> RemovedName list" where
  "removedEnvironmentNames env =
     filter (\<lambda>name. rmKind name = removedEnvironment \<and> map_of env (rmOld name) \<noteq> None) removedNames"

definition flagName :: "string \<Rightarrow> string" where
  "flagName arg =
     (if arg = '''' \<or> hd arg \<noteq> CHR ''-'' then ''''
      else
        let name = takeWhile (\<lambda>c. c \<noteq> CHR ''='') (TrimPrefix (TrimPrefix arg ''-'') ''-'')
        in if name = '''' then '''' else CHR ''-'' # name)"

definition RemovedFlagError :: "string list \<Rightarrow> RemovedName list" where
  "RemovedFlagError args =
     concat (map (\<lambda>arg. let name = flagName arg
                        in if name = '''' then []
                           else filter (\<lambda>r. rmKind r = removedCommandFlag \<and> rmOld r = name) removedNames) args)"

definition ConfigPathEnvironment :: string where
  "ConfigPathEnvironment = ''TORRENTFS_CONFIG''"

definition resolveConfigPath :: "string \<Rightarrow> env \<Rightarrow> string" where
  "resolveConfigPath flagPath env =
     (if flagPath \<noteq> '''' then flagPath
      else case map_of env ConfigPathEnvironment of None \<Rightarrow> '''' | Some path \<Rightarrow> TrimSpace path)"

definition environmentExceptions :: "string list" where
  "environmentExceptions = [ConfigPathEnvironment]"

definition isEnvironmentException :: "string \<Rightarrow> bool" where
  "isEnvironmentException name = list_ex (\<lambda>e. name = e) environmentExceptions"

definition known_environment :: "string list" where
  "known_environment = map siEnvironment configSchema @ map rmOld (filter (\<lambda>r. rmKind r = removedEnvironment) removedNames)"

definition unknownEnvironmentNames :: "env \<Rightarrow> string list" where
  "unknownEnvironmentNames env =
     sort (filter (\<lambda>name. take (length environmentPrefix) name = environmentPrefix
                          \<and> name \<notin> set known_environment \<and> \<not> isEnvironmentException name) (map fst env))"

definition unknownEnvironmentError :: "env \<Rightarrow> report" where
  "unknownEnvironmentError env = map (\<lambda>name. (name, errUnknownEnvironment)) (unknownEnvironmentNames env)"

section \<open>Validation\<close>

text \<open>\<open>net.SplitHostPort\<close>.\<close>

definition SplitHostPort :: "string \<Rightarrow> (string \<times> string) option" where
  "SplitHostPort s =
     (if CHR '':'' \<notin> set s then None
      else
        let port = rev (takeWhile (\<lambda>c. c \<noteq> CHR '':'') (rev s)); i = length s - length port - 1
        in if hd s = CHR ''[''
           then
             let e = length (takeWhile (\<lambda>c. c \<noteq> CHR '']'') s)
             in if CHR '']'' \<notin> set s \<or> e + 1 \<noteq> i then None
                else if CHR ''['' \<in> set (drop 1 s) \<or> CHR '']'' \<in> set (drop (e + 1) s) then None
                else Some (take (e - 1) (drop 1 s), port)
           else
             let host = take i s
             in if CHR '':'' \<in> set host \<or> CHR ''['' \<in> set s \<or> CHR '']'' \<in> set s then None else Some (host, port))"

text \<open>\<open>strings.EqualFold\<close> with an ASCII text in lower case; the Kelvin sign folds to k and the long s to s.\<close>

fun fold_text :: "string \<Rightarrow> string" where
  "fold_text [] = []"
| "fold_text (c # s) =
     (if c = CHR 0xE2 \<and> take 2 s = [CHR 0x84, CHR 0xAA] then CHR ''k'' # fold_text (drop 2 s)
      else if c = CHR 0xC5 \<and> take 1 s = [CHR 0xBF] then CHR ''s'' # fold_text (drop 1 s)
      else lower_char c # fold_text s)"

text \<open>\<open>unicode.IsControl\<close> on the runes of a text: the bytes below 32 and 127, and the runes from 128 to 159.\<close>

fun has_control :: "string \<Rightarrow> bool" where
  "has_control [] = False"
| "has_control (c # s) =
     (byte_in 0 31 c \<or> c = CHR 0x7F \<or> (c = CHR 0xC2 \<and> s \<noteq> [] \<and> byte_in 128 159 (hd s)) \<or> has_control s)"

definition isLoopbackHost :: "(string \<Rightarrow> bool) \<Rightarrow> string \<Rightarrow> bool" where
  "isLoopbackHost loopback host \<longleftrightarrow> host = ''localhost'' \<or> loopback host"

datatype Level = LevelDebug | LevelInfo | LevelWarn | LevelError

definition ParseLogLevel :: "string \<Rightarrow> Level option" where
  "ParseLogLevel raw =
     (let level = ToLower (TrimSpace raw)
      in if level = '''' \<or> level = ''info'' then Some LevelInfo
         else if level = ''debug'' then Some LevelDebug
         else if level = ''warn'' then Some LevelWarn
         else if level = ''error'' then Some LevelError
         else None)"

definition validateEnum :: "string \<Rightarrow> string \<Rightarrow> report" where
  "validateEnum path v =
     (case schemaEnumValues path of
        (values, ok) \<Rightarrow>
          if \<not> ok then [] else case acceptEnumValue values v of None \<Rightarrow> [] | Some e \<Rightarrow> [(path, e)])"

definition port_in_range :: "int option \<Rightarrow> bool" where
  "port_in_range v = (case v of None \<Rightarrow> False | Some p \<Rightarrow> 1 \<le> p \<and> p \<le> 65535)"

definition validateBootstrapNode :: "string \<Rightarrow> bool" where
  "validateBootstrapNode raw =
     (case SplitHostPort raw of None \<Rightarrow> False | Some (host, port) \<Rightarrow> host \<noteq> '''' \<and> port_in_range (ParseInt port))"

definition validateProxyURL :: "(string \<Rightarrow> URL option) \<Rightarrow> string \<Rightarrow> cause option" where
  "validateProxyURL parse raw =
     (if raw = '''' then None
      else case parse raw of
             None \<Rightarrow> Some errProxyURL
           | Some u \<Rightarrow>
               if fold_text (uScheme u) \<noteq> ''socks5'' \<and> fold_text (uScheme u) \<noteq> ''socks5h'' then Some errProxyScheme
               else if uHost u = '''' \<or> Hostname u = '''' then Some errProxyHost
               else if last (uHost u) = CHR '':'' then Some errProxyPort
               else if Port u \<noteq> '''' \<and> \<not> port_in_range (ParseInt (Port u)) then Some errProxyPort
               else None)"

definition strm_component_bad :: "string \<Rightarrow> bool" where
  "strm_component_bad escaped =
     (case unescape escaped of
        None \<Rightarrow> True
      | Some component \<Rightarrow>
          component = '''' \<or> component = ''.'' \<or> component = ''..''
          \<or> list_ex (\<lambda>c. c = slash \<or> c = CHR 0x5C \<or> c = CHR 0x00) component)"

definition validateSTRM :: "(string \<Rightarrow> URL option) \<Rightarrow> (string \<Rightarrow> bool) \<Rightarrow> string \<Rightarrow> string \<Rightarrow> cause option" where
  "validateSTRM parse is6 baseURL listenAddr =
     (if baseURL = '''' then None
      else case parse baseURL of
             None \<Rightarrow> Some errSTRMURL
           | Some u \<Rightarrow>
               if (uScheme u \<noteq> ''http'' \<and> uScheme u \<noteq> ''https'') \<or> uOpaque u \<noteq> '''' \<or> uUser u
                  \<or> uRawQuery u \<noteq> '''' \<or> uForceQuery u \<or> CHR ''#'' \<in> set baseURL
               then Some errSTRMURL
               else if Hostname u = '''' then Some errSTRMHost
               else if (if uHost u \<noteq> '''' \<and> hd (uHost u) = CHR ''['' then \<not> is6 (Hostname u)
                        else list_ex (\<lambda>c. c \<in> set '':[]'') (Hostname u))
               then Some errSTRMHost
               else if uHost u \<noteq> '''' \<and> last (uHost u) = CHR '':'' then Some errSTRMPort
               else if Port u \<noteq> '''' \<and> \<not> port_in_range (ParseInt (Port u)) then Some errSTRMPort
               else
                 let path = TrimSlash (EscapedPath u)
                 in if path \<noteq> '''' \<and> (hd path \<noteq> slash \<or> list_ex strm_component_bad (split_at slash (tl path))) then Some errSTRMPrefix
                    else if listenAddr = '''' then Some errSTRMListener
                    else None)"

definition validateAuth :: "auth_config \<Rightarrow> report" where
  "validateAuth a =
     (if TokenTTL a \<le> 0 then [(''http.auth.token_ttl'', errPositive)]
      else if TokenTTL a > hours24 then [(''http.auth.token_ttl'', errAuthTokenTTLMax)]
      else [])"

definition maxPasswordBytes :: nat where
  "maxPasswordBytes = 72"

definition validateCredentialShape :: "Config \<Rightarrow> report" where
  "validateCredentialShape c =
     (if cfUsername c \<noteq> '''' \<and> has_control (cfUsername c) then [(''username'', errControlCharacters)]
      else if cfPassword c \<noteq> '''' \<and> \<not> ValidString (cfPassword c) then [(''password'', errNotUTF8)]
      else if cfPassword c \<noteq> '''' \<and> list_ex (\<lambda>x. x \<in> {CHR 0x0D, CHR 0x0A, CHR 0x00}) (cfPassword c)
      then [(''password'', errNotSingleLine)]
      else if Enabled (htAuth (cfHTTP c)) \<and> length (cfPassword c) > maxPasswordBytes then [(''password'', errPasswordLength)]
      else [])"

definition validateSMBShape :: "Config \<Rightarrow> report" where
  "validateSMBShape c =
     (case SplitHostPort (smListenAddr (cfSMB c)) of
        None \<Rightarrow> [(''smb.listen_addr'', errListenAddr)]
      | Some (_, port) \<Rightarrow>
          if port = '''' then [(''smb.listen_addr'', errListenAddr)]
          else if \<not> port_in_range (ParseInt port) then [(''smb.listen_addr'', errListenAddr)]
          else [])"

definition validateLabShape :: "Config \<Rightarrow> report" where
  "validateLabShape c =
     (if lbUploadRate (cfLab c) < 0 then [(''lab.upload_rate'', errPositive)]
      else if lbUploadJitter (cfLab c) < 0 \<or> lbUploadJitter (cfLab c) > 100 then [(''lab.upload_jitter'', errJitter)]
      else if lbUploadMultiplier (cfLab c) \<noteq> 0 \<and> lbUploadMultiplier (cfLab c) \<le> 1 then [(''lab.upload_multiplier'', errMultiplier)]
      else if lbPeerSampleInterval (cfLab c) < 0 then [(''lab.peer_sample_interval'', errPositive)]
      else [])"

record checkers =
  ckURL :: "string \<Rightarrow> URL option"
  ckIs6 :: "string \<Rightarrow> bool"
  ckLoopback :: "string \<Rightarrow> bool"

definition validate_listener :: "checkers \<Rightarrow> Config \<Rightarrow> report" where
  "validate_listener k c =
     (if htListenAddr (cfHTTP c) = '''' then []
      else case SplitHostPort (htListenAddr (cfHTTP c)) of
             None \<Rightarrow> [(''http.listen_addr'', errListenAddr)]
           | Some (host, _) \<Rightarrow>
               if \<not> Enabled (htAuth (cfHTTP c)) \<and> \<not> isLoopbackHost (ckLoopback k) host
               then [(''http.listen_addr'', errExposedNoAuth)] else [])"

definition validateSyntax :: "checkers \<Rightarrow> Config \<Rightarrow> report" where
  "validateSyntax k c =
     validateEnum ''backend'' (cfBackend c) @ validateEnum ''smb.strm'' (smSTRM (cfSMB c))
     @ validateEnum ''lab.upload_mode'' (ToLower (TrimSpace (lbUploadMode (cfLab c))))
     @ (if cfReadTimeout c \<le> 0 then [(''filesystem.read_timeout'', errPositive)] else [])
     @ (if cnListenPort (cfConnections c) < 0 \<or> cnListenPort (cfConnections c) > 65535
        then [(''connections.listen_port'', errPortRange)] else [])
     @ (if cnDisableIPv4 (cfConnections c) \<and> cnDisableIPv6 (cfConnections c)
        then [(''connections.disable_ipv4'', errAddressFamilies)] else [])
     @ map (\<lambda>node. (''connections.bootstrap_nodes'', errBootstrapNode node))
         (filter (\<lambda>node. \<not> validateBootstrapNode node) (cnBootstrapNodes (cfConnections c)))
     @ (if cfCapacityBytes c \<le> 0 \<or> cfCapacityBytes c > max_int64 div 7 then [(''cache.capacity'', errCapacityRange)] else [])
     @ (case validateProxyURL (ckURL k) (cfSocks5URL c) of None \<Rightarrow> [] | Some e \<Rightarrow> [(''proxy.socks5_url'', e)])
     @ (if length (idPeerIDPrefix (cfIdentity c)) > 20 then [(''identity.peer_id_prefix'', errPeerIDPrefixSize)] else [])
     @ (if list_ex (\<lambda>x. x \<in> {CHR 0x0D, CHR 0x0A}) (idTrackerUserAgent (cfIdentity c))
        then [(''identity.tracker_user_agent'', errTrackerUserAgent)] else [])
     @ validate_listener k c
     @ (if htMaxUploadBytes (cfHTTP c) \<le> 0 then [(''http.max_upload_size'', errPositive)] else [])
     @ validateAuth (htAuth (cfHTTP c))
     @ (case validateSTRM (ckURL k) (ckIs6 k) (cfBaseURL c) (htListenAddr (cfHTTP c)) of None \<Rightarrow> [] | Some e \<Rightarrow> [(''strm.base_url'', e)])
     @ (if ParseLogLevel (lgLevel (cfLog c)) = None then [(''log.level'', errLogLevel)] else [])
     @ (let rawFormat = TrimSpace (lgFormat (cfLog c))
        in if rawFormat \<noteq> '''' \<and> ToLower rawFormat \<notin> {''text'', ''json''} then [(''log.format'', errLogFormat)] else [])
     @ validateCredentialShape c @ validateSMBShape c @ validateLabShape c"

definition validateRequirements :: "Config \<Rightarrow> report" where
  "validateRequirements c =
     (if cfBackend c = ''fuse''
      then (if fuMountpoint (cfFUSE c) = '''' \<and> fuSTRMMountpoint (cfFUSE c) = '''' then [(''fuse.mountpoint'', errNoMountpoint)] else [])
           @ (if fuSTRMMountpoint (cfFUSE c) \<noteq> '''' \<and> cfBaseURL c = '''' then [(''fuse.strm_mountpoint'', errNeedsBaseURL)] else [])
      else if cfBackend c = ''smb'' \<and> cfUsername c = '''' then [(''username'', errRequired)]
      else [])
     @ (if (cfBackend c = ''smb'' \<or> Enabled (htAuth (cfHTTP c))) \<and> cfPassword c = '''' then [(''password'', errRequired)] else [])
     @ (if cfBackend c = ''smb'' \<and> smSTRM (cfSMB c) = ''on'' \<and> cfBaseURL c = '''' then [(''smb.strm'', errNeedsBaseURL)] else [])"

definition Validate :: "checkers \<Rightarrow> Config \<Rightarrow> report" where
  "Validate k c = validateSyntax k c @ validateRequirements c"

definition ValidateOutput :: "Config \<Rightarrow> report" where
  "ValidateOutput c = (if cfBackend c = ''none'' \<and> htListenAddr (cfHTTP c) = '''' then [(''backend'', errNoOutput)] else [])"

definition SMBSTRMEnabled :: "Config \<Rightarrow> bool" where
  "SMBSTRMEnabled c =
     (if cfBackend c \<noteq> ''smb'' then False
      else if smSTRM (cfSMB c) = ''off'' then False
      else if smSTRM (cfSMB c) = ''on'' then True
      else cfBaseURL c \<noteq> '''')"

text \<open>\<open>gen\<close> is \<open>bcrypt.GenerateFromPassword\<close> with the default cost.\<close>

definition PasswordHash :: "(string \<Rightarrow> string option) \<Rightarrow> Config \<Rightarrow> string option" where
  "PasswordHash gen c = (if cfPassword c = '''' then Some '''' else gen (cfPassword c))"


section \<open>Loading\<close>

function collectDocumentKeys :: "(string \<times> Doc) list \<Rightarrow> string \<Rightarrow> string list" where
  "collectDocumentKeys [] parent = []"
| "collectDocumentKeys ((name, Table t) # es) parent =
     collectDocumentKeys t (field_path parent name) @ collectDocumentKeys es parent"
| "collectDocumentKeys ((name, Scalar) # es) parent = field_path parent name # collectDocumentKeys es parent"
  by pat_completeness auto
termination
  by (relation "measure (\<lambda>(es, _). size_list (size_prod (\<lambda>_. 0) size) es)") auto

definition documentKeys :: "(string \<times> Doc) list \<Rightarrow> string list" where
  "documentKeys document = collectDocumentKeys document ''''"

text \<open>
  What the loader finds at the given path: no path, a file that cannot be read, one that is not TOML, or a
  document with the result of the strict decoder on the default configuration.
\<close>

datatype file_input = NoFile | Unreadable | NotTOML | Document "(string \<times> Doc) list" "Config option"

datatype load_result =
    OpenFailed | DecodeFailed | RemovedFailed "RemovedName list"
  | Loaded Config Sources "RemovedName list" report

text \<open>The part after the file: the error is nil exactly if both lists of \<open>Loaded\<close> are empty.\<close>

definition finish_load :: "floats \<Rightarrow> checkers \<Rightarrow> env \<Rightarrow> Config \<Rightarrow> Sources \<Rightarrow> load_result" where
  "finish_load p k env c s =
     (case applyEnvironment p env c s of
        (c', s', r) \<Rightarrow> Loaded c' s' (removedEnvironmentNames env) (unknownEnvironmentError env @ r @ Validate k c'))"

definition loadWithSources :: "floats \<Rightarrow> checkers \<Rightarrow> env \<Rightarrow> file_input \<Rightarrow> load_result" where
  "loadWithSources p k env input =
     (let s0 = fold (\<lambda>item. aput (siPath item) SourceDefault) configSchema []
      in case input of
           NoFile \<Rightarrow> finish_load p k env Default s0
         | Unreadable \<Rightarrow> OpenFailed
         | NotTOML \<Rightarrow> DecodeFailed
         | Document document decoded \<Rightarrow>
             if removedTOMLNames document \<noteq> []
             then RemovedFailed (removedEnvironmentNames env @ removedTOMLNames document)
             else (case decoded of
                     None \<Rightarrow> DecodeFailed
                   | Some c \<Rightarrow> finish_load p k env c (fold (\<lambda>key. aput key SourceFile) (documentKeys document) s0)))"

section \<open>Report\<close>

text \<open>The formats of the standard library: a float, a duration and \<open>%q\<close>.\<close>

record printers =
  ppFloat :: "rat \<Rightarrow> string"
  ppDuration :: "int \<Rightarrow> string"
  ppQuote :: "string \<Rightarrow> string"

definition redactedValue :: string where
  "redactedValue = ''<redacted>''"

fun join_text :: "string \<Rightarrow> string list \<Rightarrow> string" where
  "join_text sep [] = ''''"
| "join_text sep [s] = s"
| "join_text sep (s # t # ss) = s @ sep @ join_text sep (t # ss)"

text \<open>A named type writes itself with its own \<open>String\<close> method; the type of the field decides.\<close>

fun renderValue :: "printers \<Rightarrow> FieldType \<Rightarrow> Value \<Rightarrow> string" where
  "renderValue pp t (VString s) = s"
| "renderValue pp t (VBool b) = (if b then ''true'' else ''false'')"
| "renderValue pp t (VInt n) =
     (if t = FDuration \<or> t = FOptionalDuration then ppDuration pp n
      else if t = FByteQuantity \<or> t = FOptionalByteQuantity then formatByteQuantity n
      else FormatInt n)"
| "renderValue pp t (VFloat x) = ppFloat pp x"
| "renderValue pp t (VList ss) = join_text '', '' ss"

definition configurationValue :: "printers \<Rightarrow> Config \<Rightarrow> string \<Rightarrow> string option" where
  "configurationValue pp c path =
     (case schemaItemFor path of
        None \<Rightarrow> None
      | Some item \<Rightarrow> map_option (renderValue pp (siType item)) (getField (siIndex item) c))"

definition Summary :: "printers \<Rightarrow> Config \<Rightarrow> Sources \<Rightarrow> (string \<times> string \<times> Source) list" where
  "Summary pp c s =
     concat (map (\<lambda>item. case configurationValue pp c (siPath item) of
                           None \<Rightarrow> []
                         | Some v \<Rightarrow> [(siPath item, if siSecret item then redactedValue else v, SourceOf s (siPath item))]) configSchema)"

record PrintedKey =
  pkPath :: string
  pkEnvironment :: string
  pkValue :: string
  pkSource :: Source
  pkSecret :: bool
  pkKind :: string

text \<open>\<open>Print\<close> after the load.\<close>

definition Print_keys :: "printers \<Rightarrow> Config \<Rightarrow> Sources \<Rightarrow> PrintedKey list" where
  "Print_keys pp c s =
     concat (map (\<lambda>key. case configurationValue pp c (siPath key) of
                          None \<Rightarrow> []
                        | Some v \<Rightarrow> [\<lparr>pkPath = siPath key, pkEnvironment = siEnvironment key,
                                     pkValue = (if siSecret key then redactedValue else v),
                                     pkSource = SourceOf s (siPath key), pkSecret = siSecret key, pkKind = siKind key\<rparr>]) configSchema)"

definition parentPath :: "string \<Rightarrow> string" where
  "parentPath path = (if CHR ''.'' \<in> set path then rev (tl (dropWhile (\<lambda>c. c \<noteq> CHR ''.'') (rev path))) else '''')"

definition lastSegment :: "string \<Rightarrow> string" where
  "lastSegment path = rev (takeWhile (\<lambda>c. c \<noteq> CHR ''.'') (rev path))"

text \<open>\<open>strings.Split\<close> at a comma with a blank.\<close>

fun split_list :: "string \<Rightarrow> string list" where
  "split_list (a # b # s) =
     (if a = CHR '','' \<and> b = CHR '' '' then [] # split_list s
      else case split_list (b # s) of [] \<Rightarrow> [[a]] | w # ws \<Rightarrow> (a # w) # ws)"
| "split_list s = [s]"

definition tomlValue :: "printers \<Rightarrow> PrintedKey \<Rightarrow> string" where
  "tomlValue pp key =
     (if pkSecret key then ppQuote pp redactedValue
      else if pkKind key = ''bool'' \<or> pkKind key = ''int'' \<or> pkKind key = ''int64'' then pkValue key
      else if pkKind key = ''list''
      then (if pkValue key = '''' then ''[]'' else ''['' @ join_text '', '' (map (ppQuote pp) (split_list (pkValue key))) @ '']'')
      else ppQuote pp (pkValue key))"

fun add_table :: "PrintedKey \<Rightarrow> (string \<times> PrintedKey list) list \<Rightarrow> (string \<times> PrintedKey list) list" where
  "add_table key [] = [(parentPath (pkPath key), [key])]"
| "add_table key ((name, keys) # ts) =
     (if name = parentPath (pkPath key) then (name, keys @ [key]) # ts else (name, keys) # add_table key ts)"

definition source_name :: "Source \<Rightarrow> string" where
  "source_name s = (case s of SourceDefault \<Rightarrow> ''default'' | SourceFile \<Rightarrow> ''file'' | SourceEnvironment \<Rightarrow> ''environment'')"

definition table_text :: "printers \<Rightarrow> bool \<Rightarrow> string \<times> PrintedKey list \<Rightarrow> string \<Rightarrow> string" where
  "table_text pp withSources t out =
     (let head = (if fst t \<noteq> '''' then (if out \<noteq> '''' then [CHR 0x0A] else []) @ ''['' @ fst t @ '']'' @ [CHR 0x0A] else [])
      in out @ head
         @ concat (map (\<lambda>key. lastSegment (pkPath key) @ '' = '' @ tomlValue pp key @ [CHR 0x0A]
                             @ (if withSources then ''# source: '' @ source_name (pkSource key) @ [CHR 0x0A] else [])) (snd t)))"

text \<open>\<open>PrintedConfig.TOML\<close>: the tables in the order of their first keys, the root table in front.\<close>

definition TOML :: "printers \<Rightarrow> bool \<Rightarrow> PrintedKey list \<Rightarrow> string" where
  "TOML pp withSources keys =
     (let tables = fold add_table keys [];
          tables' = filter (\<lambda>t. fst t = '''') tables @ filter (\<lambda>t. fst t \<noteq> '''') tables
      in fold (table_text pp withSources) tables' '''')"


section \<open>Fields are independent\<close>

definition independent :: "accessor \<Rightarrow> accessor \<Rightarrow> bool" where
  "independent a b \<longleftrightarrow> (\<forall>v c. fst a (snd b v c) = fst a c)"

lemma independent_field [simp]:
  "(\<And>x c. g (u' (\<lambda>_. x) c) = g c) \<Longrightarrow> independent (field m r g u) (field m' r' g' u')"
  by (auto simp: independent_def field_def split: option.split)

lemma fields_independent: "list_all (\<lambda>(i, a). list_all (\<lambda>(j, b). i = j \<or> independent a b) fieldTable) fieldTable"
  unfolding fieldTable_def by simp


text \<open>
  Fields that are read and written by index: what the overlay of the environment relies on. \<open>fits i v\<close> tells that
  the value has the type of the field.
\<close>

locale field_store =
  fixes get :: "'i \<Rightarrow> 'c \<Rightarrow> 'v option" and put :: "'i \<Rightarrow> 'v \<Rightarrow> 'c \<Rightarrow> 'c" and fits :: "'i \<Rightarrow> 'v \<Rightarrow> bool"
  assumes get_put: "fits i v \<Longrightarrow> get i (put i v c) = Some v"
    and get_put_other: "i \<noteq> j \<Longrightarrow> get i (put j v c) = get i c"
begin

lemma get_overlay:
  "distinct (map fst settings) \<Longrightarrow> list_all (\<lambda>(i, v). fits i v) settings
     \<Longrightarrow> get i (fold (\<lambda>(i, v). put i v) settings c) = (case map_of settings i of Some v \<Rightarrow> Some v | None \<Rightarrow> get i c)"
proof (induction settings arbitrary: c)
  case (Cons x settings)
  obtain j v where x: "x = (j, v)" by force
  have "map_of settings j = None" using Cons.prems(1) x by (simp add: map_of_eq_None_iff)
  then show ?case using Cons x by (auto simp: get_put get_put_other split: option.split)
qed simp

end

fun type_ok :: "FieldType \<Rightarrow> Value \<Rightarrow> bool" where
  "type_ok t (VString _) = (t = FString \<or> t = FNamedString)"
| "type_ok t (VBool _) = (t = FBool)"
| "type_ok t (VInt _) = (t \<in> {FInt, FInt64, FDuration, FOptionalDuration, FByteQuantity, FOptionalByteQuantity})"
| "type_ok t (VFloat _) = (t \<in> {FByteRate, FPercent, FRatio})"
| "type_ok t (VList _) = (t = FList)"

lemma environmentParser_type: "environmentParser p t raw = Inr v \<Longrightarrow> type_ok t v"
  by (cases t) (auto split: if_splits option.splits simp: map_sum_def split: sum.splits)

definition settles :: "FieldType \<Rightarrow> accessor \<Rightarrow> bool" where
  "settles t a \<longleftrightarrow> (\<forall>v c. type_ok t v \<longrightarrow> fst a (snd a v c) = v)"

lemma settles_field [simp]:
  "(\<And>x c. g (u (\<lambda>_. x) c) = x) \<Longrightarrow> (\<And>v. type_ok t v \<Longrightarrow> \<exists>x. r v = Some x \<and> m x = v) \<Longrightarrow> settles t (field m r g u)"
  by (fastforce simp: settles_def field_def)

lemma type_ok_reads [simp]:
  "type_ok FString v \<Longrightarrow> \<exists>x. str_of v = Some x \<and> VString x = v" "type_ok FNamedString v \<Longrightarrow> \<exists>x. str_of v = Some x \<and> VString x = v"
  "type_ok FBool v \<Longrightarrow> \<exists>x. bool_of v = Some x \<and> VBool x = v" "type_ok FList v \<Longrightarrow> \<exists>x. list_of v = Some x \<and> VList x = v"
  "type_ok FInt v \<Longrightarrow> \<exists>x. int_of v = Some x \<and> VInt x = v" "type_ok FInt64 v \<Longrightarrow> \<exists>x. int_of v = Some x \<and> VInt x = v"
  "type_ok FDuration v \<Longrightarrow> \<exists>x. int_of v = Some x \<and> VInt x = v" "type_ok FOptionalDuration v \<Longrightarrow> \<exists>x. int_of v = Some x \<and> VInt x = v"
  "type_ok FByteQuantity v \<Longrightarrow> \<exists>x. int_of v = Some x \<and> VInt x = v"
  "type_ok FOptionalByteQuantity v \<Longrightarrow> \<exists>x. int_of v = Some x \<and> VInt x = v"
  "type_ok FByteRate v \<Longrightarrow> \<exists>x. float_of v = Some x \<and> VFloat x = v" "type_ok FPercent v \<Longrightarrow> \<exists>x. float_of v = Some x \<and> VFloat x = v"
  "type_ok FRatio v \<Longrightarrow> \<exists>x. float_of v = Some x \<and> VFloat x = v"
  by (cases v; simp add: str_of_def bool_of_def int_of_def float_of_def list_of_def)+

lemma schema_types:
  "map siType configSchema =
     [FNamedString, FString, FString, FString, FInt, FBool, FBool, FBool, FList, FString, FByteQuantity, FString, FString, FString,
      FString, FBool, FDuration, FByteQuantity, FString, FString, FString, FBool, FDuration, FString, FString, FBool, FString,
      FNamedString, FString, FByteRate, FRatio, FPercent, FOptionalByteQuantity, FInt64, FString, FOptionalDuration]"
  by (simp add: configSchema_def configType_def)

lemma schema_indices: "map siIndex configSchema = map fst fieldTable"
  by (simp add: configSchema_def configType_def fieldTable_def)

lemma indices_distinct: "distinct (map fst fieldTable)"
  by (simp add: fieldTable_def)

lemma fields_settle: "list_all2 (\<lambda>t (i, a). settles t a) (map siType configSchema) fieldTable"
  unfolding schema_types fieldTable_def by simp

lemma schema_field:
  assumes "item \<in> set configSchema"
  obtains a where "map_of fieldTable (siIndex item) = Some a" and "settles (siType item) a"
proof -
  obtain n where n: "n < length configSchema" "configSchema ! n = item" using assms by (auto simp: in_set_conv_nth)
  have len: "length configSchema = length fieldTable" using schema_indices by (metis length_map)
  obtain i a where ia: "fieldTable ! n = (i, a)" by (cases "fieldTable ! n") blast
  have "siIndex item = i" using n ia len by (metis fst_conv nth_map schema_indices)
  then have "(siIndex item, a) \<in> set fieldTable" using n ia len by (metis nth_mem)
  then have "map_of fieldTable (siIndex item) = Some a" using indices_distinct by simp
  moreover have "settles (siType item) a" using list_all2_nthD [OF fields_settle, of n] n ia by simp
  ultimately show ?thesis using that by blast
qed

definition field_fits :: "nat list \<Rightarrow> Value \<Rightarrow> bool" where
  "field_fits index v \<longleftrightarrow> (\<exists>item \<in> set configSchema. siIndex item = index \<and> type_ok (siType item) v)"

interpretation fs: field_store getField setField field_fits
proof
  fix index v c assume "field_fits index v"
  then obtain item where item: "item \<in> set configSchema" "siIndex item = index" "type_ok (siType item) v"
    by (auto simp: field_fits_def)
  from item(1) obtain a where "map_of fieldTable index = Some a" "settles (siType item) a" using schema_field item(2) by metis
  then show "getField index (setField index v c) = Some v"
    using item(3) by (simp add: getField_def setField_def settles_def case_prod_beta)
next
  fix i j :: "nat list" and v c assume "i \<noteq> j"
  have "fst a (snd b v c) = fst a c" if "map_of fieldTable i = Some a" "map_of fieldTable j = Some b" for a b
    using fields_independent that \<open>i \<noteq> j\<close> by (force simp: list_all_iff independent_def dest: map_of_SomeD)
  then show "getField i (setField j v c) = getField i c"
    by (cases "map_of fieldTable i"; cases "map_of fieldTable j") (auto simp: getField_def setField_def case_prod_beta)
qed


section \<open>Overlay of the environment\<close>

definition settings :: "floats \<Rightarrow> env \<Rightarrow> schemaItem list \<Rightarrow> (nat list \<times> Value) list" where
  "settings p env its =
     concat (map (\<lambda>item. case item_value p env item of Some (Inr v) \<Rightarrow> [(siIndex item, v)] | _ \<Rightarrow> []) its)"

lemma applySchema_config: "fst (applySchema p env its c) = fold (\<lambda>(i, v). setField i v) (settings p env its) c"
proof (induction its arbitrary: c)
  case (Cons item its)
  then show ?case
  proof (cases "item_value p env item")
    case (Some r)
    then show ?thesis using Cons by (cases r) (simp_all add: settings_def case_prod_beta)
  qed (simp add: settings_def)
qed (simp add: settings_def)

lemma applySchema_clean:
  "snd (snd (applySchema p env its c)) = []
     \<Longrightarrow> list_all (\<lambda>item. \<forall>e. item_value p env item \<noteq> Some (Inl e)) its
         \<and> set (fst (snd (applySchema p env its c))) = siPath ` {item \<in> set its. item_value p env item \<noteq> None}"
proof (induction its arbitrary: c)
  case (Cons item its)
  show ?case
  proof (cases "item_value p env item")
    case None
    then show ?thesis using Cons by auto
  next
    case (Some r)
    then show ?thesis using Cons.prems Cons.IH [of "setField (siIndex item) (projr r) c"] by (cases r) (auto simp: case_prod_beta)
  qed
qed simp

lemma settings_fit: "set its \<subseteq> set configSchema \<Longrightarrow> list_all (\<lambda>(i, v). field_fits i v) (settings p env its)"
  by (fastforce simp: settings_def list_all_iff field_fits_def item_value_def dest: environmentParser_type
      split: option.splits sum.splits if_splits)

lemma settings_keys: "fst ` set (settings p env its) \<subseteq> siIndex ` set its"
  by (fastforce simp: settings_def split: option.splits sum.splits)

lemma settings_distinct: "distinct (map siIndex its) \<Longrightarrow> distinct (map fst (settings p env its))"
proof (induction its)
  case (Cons item its)
  have "siIndex item \<notin> fst ` set (settings p env its)" using Cons.prems settings_keys [of p env its] by auto
  then show ?case using Cons by (auto simp: settings_def split: option.split sum.split)
qed (simp add: settings_def)

lemma settings_lookup:
  "distinct (map siIndex its) \<Longrightarrow> item \<in> set its
     \<Longrightarrow> map_of (settings p env its) (siIndex item) = (case item_value p env item of Some (Inr v) \<Rightarrow> Some v | _ \<Rightarrow> None)"
proof (induction its)
  case (Cons x its)
  have split: "settings p env (x # its) = (case item_value p env x of Some (Inr v) \<Rightarrow> [(siIndex x, v)] | _ \<Rightarrow> []) @ settings p env its"
    by (simp add: settings_def)
  show ?case
  proof (cases "item = x")
    case True
    have "siIndex x \<notin> fst ` set (settings p env its)" using Cons.prems settings_keys [of p env its] by auto
    then have "map_of (settings p env its) (siIndex x) = None" by (simp add: map_of_eq_None_iff)
    then show ?thesis using True by (simp add: split split: option.split sum.split)
  next
    case False
    then have "item \<in> set its" using Cons.prems by simp
    moreover from this have "siIndex item \<noteq> siIndex x" using Cons.prems(1) by (metis distinct.simps(2) imageI list.set_map list.simps(9))
    ultimately show ?thesis using Cons by (auto simp: split split: option.split sum.split)
  qed
qed simp

lemma schema_distinct: "distinct (map siIndex configSchema)"
  unfolding schema_indices by (rule indices_distinct)

lemma schema_paths: "distinct (map siPath configSchema)"
  by (simp add: configSchema_def configType_def field_path_def)

lemma overlay_field:
  assumes "item \<in> set configSchema"
  shows "getField (siIndex item) (fst (applySchema p env configSchema c)) =
     (case item_value p env item of Some (Inr v) \<Rightarrow> Some v | _ \<Rightarrow> getField (siIndex item) c)"
  unfolding applySchema_config fs.get_overlay [OF settings_distinct [OF schema_distinct] settings_fit [OF subset_refl]]
    settings_lookup [OF schema_distinct assms]
  by (auto split: option.split sum.split)

lemma map_of_fold_aput: "map_of (fold (\<lambda>k. aput k x) ks s) k = (if k \<in> set ks then Some x else map_of s k)"
  by (induction ks arbitrary: s) auto

lemma schema_overridable: "list_all siOverridable configSchema"
  by (simp add: configSchema_def configType_def)


section \<open>Properties\<close>

lemma loaded_finish:
  assumes "loadWithSources p k env input = Loaded c s gone r"
  obtains c0 s0 where "finish_load p k env c0 s0 = Loaded c s gone r"
    and "case input of Document d (Some c1) \<Rightarrow> c0 = c1 | Document d None \<Rightarrow> False | _ \<Rightarrow> c0 = Default"
    and "\<And>item. item \<in> set configSchema \<Longrightarrow> SourceOf s0 (siPath item) =
           (case input of Document d _ \<Rightarrow> if siPath item \<in> set (documentKeys d) then SourceFile else SourceDefault | _ \<Rightarrow> SourceDefault)"
proof -
  let ?s = "fold (\<lambda>item. aput (siPath item) SourceDefault) configSchema []"
  have s: "?s = fold (\<lambda>key. aput key SourceDefault) (map siPath configSchema) []" by (simp add: fold_map comp_def)
  have known: "SourceOf ?s x = SourceDefault" for x unfolding s SourceOf_def map_of_fold_aput by simp
  show ?thesis
  proof (cases input)
    case NoFile
    then show ?thesis using assms known by (intro that [of Default ?s]) (simp_all add: loadWithSources_def)
  next
    case (Document d decoded)
    then obtain c1 where d: "decoded = Some c1"
        "finish_load p k env c1 (fold (\<lambda>key. aput key SourceFile) (documentKeys d) ?s) = Loaded c s gone r"
      using assms by (auto simp: loadWithSources_def split: if_splits option.splits)
    show ?thesis using d Document known
      by (intro that [OF d(2)]) (auto simp: SourceOf_def map_of_fold_aput)
  qed (use assms in \<open>simp_all add: loadWithSources_def\<close>)
qed



lemma loaded_valid:
  assumes "loadWithSources p k env input = Loaded c s gone []"
  shows "Validate k c = []"
proof -
  obtain c0 s0 where "finish_load p k env c0 s0 = Loaded c s gone []" using loaded_finish [OF assms] by blast
  then show ?thesis by (auto simp: finish_load_def split: prod.splits)
qed

text \<open>
  C32: a configuration that loads without error and binds an address other than the loopback one,
  the address of all interfaces included, has a login: the password is set, is valid UTF-8 on one line and not longer
  than what bcrypt reads, its hash is made, and the authentication service starts with it and with a lifetime of at
  most a day. Of bcrypt it is used that it hashes every text of at most 72 bytes with the default cost 10.
\<close>

theorem config_exposure_safe:
  assumes "loadWithSources p k env input = Loaded c s gone []"
    and "SplitHostPort (htListenAddr (cfHTTP c)) = Some (host, port)" and "\<not> isLoopbackHost (ckLoopback k) host"
    and "\<And>pw. length pw \<le> 72 \<Longrightarrow> \<exists>h. gen pw = Some h \<and> h \<noteq> '''' \<and> cost h = Some 10"
  shows "\<exists>h sv. PasswordHash gen c = Some h \<and> NewService cost (htAuth (cfHTTP c)) h = Inr sv
     \<and> 0 < tokenTTL sv \<and> tokenTTL sv \<le> hours24 \<and> cfPassword c \<noteq> '''' \<and> length (cfPassword c) \<le> 72 \<and> ValidString (cfPassword c)"
proof -
  have v: "Validate k c = []" using assms(1) by (rule loaded_valid)
  then have listen: "validate_listener k c = []" and ttl: "validateAuth (htAuth (cfHTTP c)) = []"
    and shape: "validateCredentialShape c = []" and req: "validateRequirements c = []"
    by (simp_all add: Validate_def validateSyntax_def)
  have "htListenAddr (cfHTTP c) \<noteq> ''''" using assms(2) by (auto simp: SplitHostPort_def)
  then have on: "Enabled (htAuth (cfHTTP c))" using listen assms(2,3) by (auto simp: validate_listener_def split: if_splits)
  have pw: "cfPassword c \<noteq> ''''" using req on by (auto simp: validateRequirements_def split: if_splits)
  moreover have "length (cfPassword c) \<le> 72" "ValidString (cfPassword c)"
    using shape on pw by (auto simp: validateCredentialShape_def maxPasswordBytes_def split: if_splits)
  moreover from this obtain h where "gen (cfPassword c) = Some h" "h \<noteq> ''''" "cost h = Some 10" using assms(4) by blast
  ultimately show ?thesis
    using on ttl by (auto simp: PasswordHash_def NewService_def validateAuth_def minimumPasswordCost_def split: if_splits)
qed

lemma Port_digits: "list_all is_digit (Port u)"
  by (auto simp: Port_def after_colon_def digits_def is_digit_def Let_def list_all_iff split: option.splits if_splits)

lemma ParseInt_digits:
  assumes "list_all is_digit s" and "s \<noteq> ''''"
  shows "port_in_range (ParseInt s) \<longleftrightarrow> 1 \<le> undecimal s \<and> undecimal s \<le> 65535"
proof -
  have "hd s \<notin> {CHR ''-'', CHR ''+''}" using assms by (cases s) (auto simp: is_digit_def)
  then have "ParseInt s = (if int (undecimal s) > max_int64 then None else Some (int (undecimal s)))"
    using assms by (auto simp: ParseInt_def Let_def)
  then show ?thesis by (auto simp: port_in_range_def)
qed

lemma component_bad: "strm_component_bad = bad_component"
  by (auto simp: fun_eq_iff strm_component_bad_def bad_component_def validComponent_def list_ex_iff split: option.splits)

text \<open>
  C38: the validation of the base URL and the code that builds links accept the same URLs: a
  configured URL is valid exactly if it is parsed by \<open>parseBaseURL\<close> and there is a listener. A configuration that
  passes never yields a link that cannot be built.
\<close>

theorem config_base_url_agrees:
  "validateSTRM parse is6 baseURL listenAddr = None
     \<longleftrightarrow> baseURL = '''' \<or> ((\<exists>u. parseBaseURL parse is6 baseURL = Inr u) \<and> listenAddr \<noteq> '''')"
proof (cases "parse baseURL")
  case (Some u)
  have "Port u \<noteq> '''' \<Longrightarrow> \<not> port_in_range (ParseInt (Port u)) \<longleftrightarrow> undecimal (Port u) < 1 \<or> undecimal (Port u) > 65535"
    using ParseInt_digits [OF Port_digits] by auto
  then have port: "(Port u \<noteq> '''' \<and> \<not> port_in_range (ParseInt (Port u)))
      = (Port u \<noteq> '''' \<and> (undecimal (Port u) < 1 \<or> undecimal (Port u) > 65535))" by blast
  show ?thesis unfolding validateSTRM_def parseBaseURL_def component_bad Some option.case port Let_def
    by (auto split: if_splits)
qed (simp add: validateSTRM_def parseBaseURL_def)

lemma password_item: "item \<in> set configSchema \<Longrightarrow> siIndex item = [2] \<Longrightarrow> siSecret item"
proof -
  have "list_all (\<lambda>item. siIndex item = [2] \<longrightarrow> siSecret item) configSchema" by (simp add: configSchema_def configType_def)
  then show "item \<in> set configSchema \<Longrightarrow> siIndex item = [2] \<Longrightarrow> siSecret item" by (simp add: list_all_iff)
qed

lemma password_only: "index \<noteq> [2] \<Longrightarrow> getField index (c\<lparr>cfPassword := pw\<rparr>) = getField index c"
proof -
  have "map_of fieldTable [2] = Some (str_field cfPassword cfPassword_update)" by (simp add: fieldTable_def)
  then have "setField [2] (VString pw) c = c\<lparr>cfPassword := pw\<rparr>" by (simp add: setField_def field_def str_of_def)
  then show "index \<noteq> [2] \<Longrightarrow> getField index (c\<lparr>cfPassword := pw\<rparr>) = getField index c" using fs.get_put_other by metis
qed

lemma schemaItemFor_own: "item \<in> set configSchema \<Longrightarrow> schemaItemFor (siPath item) = Some item"
proof -
  have "find (\<lambda>x. siPath x = siPath item) its = Some item" if "distinct (map siPath its)" "item \<in> set its" for its
    using that by (induction its) auto
  then show "item \<in> set configSchema \<Longrightarrow> schemaItemFor (siPath item) = Some item" using schema_paths by (simp add: schemaItemFor_def)
qed

lemma shown_value:
  assumes "item \<in> set configSchema"
  shows "\<exists>v. configurationValue pp c (siPath item) = Some v"
    and "\<not> siSecret item \<Longrightarrow> configurationValue pp (c\<lparr>cfPassword := pw\<rparr>) (siPath item) = configurationValue pp c (siPath item)"
proof -
  obtain a where "map_of fieldTable (siIndex item) = Some a" using schema_field [OF assms] by blast
  then show "\<exists>v. configurationValue pp c (siPath item) = Some v"
    by (simp add: configurationValue_def schemaItemFor_own [OF assms] getField_def)
  show "\<not> siSecret item \<Longrightarrow> configurationValue pp (c\<lparr>cfPassword := pw\<rparr>) (siPath item) = configurationValue pp c (siPath item)"
    using password_item [OF assms] password_only [of "siIndex item" pw c]
    by (cases "siIndex item = [2]") (simp_all add: configurationValue_def schemaItemFor_own [OF assms])
qed

lemma shown_redacted:
  assumes "item \<in> set configSchema"
  shows "(case configurationValue pp (c\<lparr>cfPassword := pw\<rparr>) (siPath item) of None \<Rightarrow> []
          | Some v \<Rightarrow> [f (if siSecret item then redactedValue else v)])
       = (case configurationValue pp c (siPath item) of None \<Rightarrow> [] | Some v \<Rightarrow> [f (if siSecret item then redactedValue else v)])"
proof -
  obtain v w where "configurationValue pp (c\<lparr>cfPassword := pw\<rparr>) (siPath item) = Some v"
      "configurationValue pp c (siPath item) = Some w"
    using shown_value(1) [OF assms] by metis
  then show ?thesis using shown_value(2) [OF assms, of pp pw c] by (cases "siSecret item") simp_all
qed



definition sample_env :: env where
  "sample_env = [(''TORRENTFS_HTTP_LISTEN_ADDR'', ''0.0.0.0:80''), (''TORRENTFS_HTTP_AUTH_ENABLED'', ''true''),
                 (''TORRENTFS_PASSWORD'', ''secret'')]"

definition sample_parsers :: floats where
  "sample_parsers = \<lparr>fpFloat = \<lambda>_. None, fpDuration = \<lambda>_. None\<rparr>"

definition sample_checks :: checkers where
  "sample_checks = \<lparr>ckURL = \<lambda>_. None, ckIs6 = \<lambda>_. False, ckLoopback = \<lambda>h. take 4 h = ''127.''\<rparr>"

lemma sample_removed: "removedEnvironmentNames sample_env = []"
  by (simp add: removedEnvironmentNames_def removedNames_def sample_env_def)

lemma upper_chars:
  "upper_char CHR ''a'' = CHR ''A''" "upper_char CHR ''b'' = CHR ''B''" "upper_char CHR ''c'' = CHR ''C''" "upper_char CHR ''d'' = CHR ''D''"
  "upper_char CHR ''e'' = CHR ''E''" "upper_char CHR ''f'' = CHR ''F''" "upper_char CHR ''g'' = CHR ''G''" "upper_char CHR ''h'' = CHR ''H''"
  "upper_char CHR ''i'' = CHR ''I''" "upper_char CHR ''j'' = CHR ''J''" "upper_char CHR ''k'' = CHR ''K''" "upper_char CHR ''l'' = CHR ''L''"
  "upper_char CHR ''m'' = CHR ''M''" "upper_char CHR ''n'' = CHR ''N''" "upper_char CHR ''o'' = CHR ''O''" "upper_char CHR ''p'' = CHR ''P''"
  "upper_char CHR ''q'' = CHR ''Q''" "upper_char CHR ''r'' = CHR ''R''" "upper_char CHR ''s'' = CHR ''S''" "upper_char CHR ''t'' = CHR ''T''"
  "upper_char CHR ''u'' = CHR ''U''" "upper_char CHR ''v'' = CHR ''V''" "upper_char CHR ''w'' = CHR ''W''" "upper_char CHR ''x'' = CHR ''X''"
  "upper_char CHR ''y'' = CHR ''Y''" "upper_char CHR ''z'' = CHR ''Z''" "upper_char CHR ''_'' = CHR ''_''" "upper_char CHR ''4'' = CHR ''4''"
  "upper_char CHR ''5'' = CHR ''5''" "upper_char CHR ''6'' = CHR ''6''"
  by code_simp+

lemma schema_path_list:
  "map siPath configSchema =
    [''backend'', ''username'', ''password'', ''connections.listen_host'', ''connections.listen_port'',
     ''connections.disable_ipv4'', ''connections.disable_ipv6'', ''connections.no_port_forwarding'',
     ''connections.bootstrap_nodes'', ''proxy.socks5_url'', ''cache.capacity'', ''identity.tracker_user_agent'',
     ''identity.peer_id_prefix'', ''identity.extended_handshake_client_version'', ''http.listen_addr'', ''http.auth.enabled'',
     ''http.auth.token_ttl'', ''http.max_upload_size'', ''strm.base_url'', ''log.level'', ''log.format'', ''log.add_source'',
     ''filesystem.read_timeout'', ''fuse.mountpoint'', ''fuse.strm_mountpoint'', ''fuse.allow_other'', ''smb.listen_addr'',
     ''smb.strm'', ''lab.upload_mode'', ''lab.upload_rate'', ''lab.upload_multiplier'', ''lab.upload_jitter'',
     ''lab.upload_cap'', ''lab.upload_seed'', ''lab.announce_log'', ''lab.peer_sample_interval'']"
  by (simp add: configSchema_def configType_def field_path_def)

lemma schema_environments:
  "map siEnvironment configSchema =
    [''TORRENTFS_BACKEND'', ''TORRENTFS_USERNAME'', ''TORRENTFS_PASSWORD'', ''TORRENTFS_CONNECTIONS_LISTEN_HOST'',
     ''TORRENTFS_CONNECTIONS_LISTEN_PORT'', ''TORRENTFS_CONNECTIONS_DISABLE_IPV4'', ''TORRENTFS_CONNECTIONS_DISABLE_IPV6'',
     ''TORRENTFS_CONNECTIONS_NO_PORT_FORWARDING'', ''TORRENTFS_CONNECTIONS_BOOTSTRAP_NODES'', ''TORRENTFS_PROXY_SOCKS5_URL'',
     ''TORRENTFS_CACHE_CAPACITY'', ''TORRENTFS_IDENTITY_TRACKER_USER_AGENT'', ''TORRENTFS_IDENTITY_PEER_ID_PREFIX'',
     ''TORRENTFS_IDENTITY_EXTENDED_HANDSHAKE_CLIENT_VERSION'', ''TORRENTFS_HTTP_LISTEN_ADDR'', ''TORRENTFS_HTTP_AUTH_ENABLED'',
     ''TORRENTFS_HTTP_AUTH_TOKEN_TTL'', ''TORRENTFS_HTTP_MAX_UPLOAD_SIZE'', ''TORRENTFS_STRM_BASE_URL'', ''TORRENTFS_LOG_LEVEL'',
     ''TORRENTFS_LOG_FORMAT'', ''TORRENTFS_LOG_ADD_SOURCE'', ''TORRENTFS_FILESYSTEM_READ_TIMEOUT'', ''TORRENTFS_FUSE_MOUNTPOINT'',
     ''TORRENTFS_FUSE_STRM_MOUNTPOINT'', ''TORRENTFS_FUSE_ALLOW_OTHER'', ''TORRENTFS_SMB_LISTEN_ADDR'', ''TORRENTFS_SMB_STRM'',
     ''TORRENTFS_LAB_UPLOAD_MODE'', ''TORRENTFS_LAB_UPLOAD_RATE'', ''TORRENTFS_LAB_UPLOAD_MULTIPLIER'', ''TORRENTFS_LAB_UPLOAD_JITTER'',
     ''TORRENTFS_LAB_UPLOAD_CAP'', ''TORRENTFS_LAB_UPLOAD_SEED'', ''TORRENTFS_LAB_ANNOUNCE_LOG'', ''TORRENTFS_LAB_PEER_SAMPLE_INTERVAL'']"
  by (simp add: configSchema_def configType_def deriveEnvironmentName_def environmentPrefix_def field_path_def upper_chars)

text \<open>
  config_names_consistent: the names of the configuration are unambiguous: the keys and the variables of the schema are
  pairwise distinct, the variable that names the file is none of them, a removed name is no longer a key, and
  every replacement that a migration error recommends is a key of the schema or the variable of one.
\<close>

theorem config_names_consistent:
  "distinct (map siPath configSchema) \<and> distinct (map siEnvironment configSchema)
   \<and> list_all (\<lambda>item. \<not> isEnvironmentException (siEnvironment item)) configSchema
   \<and> list_all (\<lambda>r. if rmKind r = removedEnvironment
                   then rmOld r \<notin> set (map siEnvironment configSchema) \<and> set (rmNew r) \<subseteq> set (map siEnvironment configSchema)
                   else rmOld r \<notin> set (map siPath configSchema) \<and> set (rmNew r) \<subseteq> set (map siPath configSchema)) removedNames"
proof -
  have "distinct (map siEnvironment configSchema)" unfolding schema_environments by simp
  moreover have "list_all (\<lambda>e. \<not> isEnvironmentException e) (map siEnvironment configSchema)"
    unfolding schema_environments by (simp add: isEnvironmentException_def environmentExceptions_def ConfigPathEnvironment_def)
  then have "list_all (\<lambda>item. \<not> isEnvironmentException (siEnvironment item)) configSchema" by (simp add: list.pred_map comp_def)
  ultimately show ?thesis using schema_paths unfolding schema_environments schema_path_list removedNames_def by simp
qed


definition sample_config :: Config where
  "sample_config = Default\<lparr>cfPassword := ''secret'',
     cfHTTP := \<lparr>htListenAddr = ''0.0.0.0:80'', htAuth = \<lparr>Enabled = True, TokenTTL = 30 * 60 * 1000000000\<rparr>, htMaxUploadBytes = 10485760\<rparr>\<rparr>"

lemma sample_unknown: "unknownEnvironmentError sample_env = []"
  unfolding unknownEnvironmentError_def unknownEnvironmentNames_def known_environment_def schema_environments
  by (simp add: sample_env_def environmentPrefix_def)

lemma sample_applied:
  "fst (applySchema sample_parsers sample_env configSchema Default) = sample_config"
  "snd (snd (applySchema sample_parsers sample_env configSchema Default)) = []"
  by (simp_all add: configSchema_def configType_def deriveEnvironmentName_def environmentPrefix_def field_path_def upper_chars
      item_value_def sample_env_def enumValues_def accept_def parseEnvBool_def ParseBool_def setField_def fieldTable_def field_def
      str_of_def bool_of_def sample_config_def Default_def)

lemma sample_valid: "Validate sample_checks sample_config = []"
proof -
  have "validateEnum ''backend'' ''none'' = []" "validateEnum ''smb.strm'' ''auto'' = []" "validateEnum ''lab.upload_mode'' '''' = []"
    by (simp_all add: validateEnum_def schemaEnumValues_def schemaItemFor_def configSchema_def configType_def field_path_def
        enumValues_def acceptEnumValue_def allowsEmptyEnum_def)
  moreover have "TrimSpace '''' = ''''" "ToLower (TrimSpace '''') = ''''" "ParseLogLevel ''info'' = Some LevelInfo"
     "ToLower (TrimSpace ''text'') = ''text''" "SplitHostPort ''0.0.0.0:80'' = Some (''0.0.0.0'', ''80'')"
     "SplitHostPort ''0.0.0.0:1445'' = Some (''0.0.0.0'', ''1445'')" "port_in_range (ParseInt ''1445'')" "ValidString ''secret''"
    by code_simp+
  ultimately show ?thesis
    by (simp add: Validate_def validateSyntax_def validateRequirements_def sample_config_def Default_def validateProxyURL_def
        validate_listener_def validateAuth_def hours24_def validateSTRM_def validateCredentialShape_def maxPasswordBytes_def
        validateSMBShape_def validateLabShape_def)
qed

lemma sample_load: "\<exists>s. loadWithSources sample_parsers sample_checks sample_env NoFile = Loaded sample_config s [] []"
  using sample_applied sample_valid sample_unknown sample_removed
  by (simp add: loadWithSources_def finish_load_def applyEnvironment_def Let_def case_prod_beta)

theorem config_exposure_safe_witness:
  "\<exists>h sv. PasswordHash (\<lambda>_. Some ''h'') sample_config = Some h \<and> NewService (\<lambda>_. Some 10) (htAuth (cfHTTP sample_config)) h = Inr sv"
proof -
  obtain s where l: "loadWithSources sample_parsers sample_checks sample_env NoFile = Loaded sample_config s [] []"
    using sample_load by blast
  have h: "SplitHostPort (htListenAddr (cfHTTP sample_config)) = Some (''0.0.0.0'', ''80'')" by code_simp
  have n: "\<not> isLoopbackHost (ckLoopback sample_checks) ''0.0.0.0''" by (simp add: isLoopbackHost_def sample_checks_def)
  show ?thesis using config_exposure_safe [OF l h n, of "\<lambda>_. Some ''h''" "\<lambda>_. Some 10"] by auto
qed



text \<open>
  A scalar in the place of a section is reported as every removed key of that section: \<open>smb = 1\<close> names
  \<open>smb.strm_enabled\<close>, \<open>smb.username\<close> and \<open>smb.password_file\<close>, none of which the document sets.
\<close>

lemma scalar_section_reported:
  "map rmOld (removedTOMLNames [(''smb'', Scalar)]) = [''smb.strm_enabled'', ''smb.username'', ''smb.password_file'']
   \<and> documentKeys [(''smb'', Scalar)] = [''smb'']"
  by (simp add: removedTOMLNames_def removedNames_def documentUses_def documentKeys_def field_path_def coveredByMoreSpecific_def)

text \<open>
  When one variable does not parse, the values of the others are applied but the record of the sources is not: the
  password of the result comes from the environment, its source is given as the default.
\<close>

lemma sources_unrecorded:
  "case applyEnvironment sample_parsers ((''TORRENTFS_LOG_ADD_SOURCE'', ''maybe'') # sample_env) Default [] of
     (c, s, r) \<Rightarrow> cfPassword c = ''secret'' \<and> SourceOf s ''password'' = SourceDefault \<and> map fst r = [''log.add_source'']"
  by (simp add: applyEnvironment_def configSchema_def configType_def deriveEnvironmentName_def environmentPrefix_def field_path_def
      upper_chars item_value_def sample_env_def enumValues_def accept_def parseEnvBool_def ParseBool_def setField_def fieldTable_def
      field_def str_of_def bool_of_def Default_def SourceOf_def)

end
