(* ===== verification/Spec2Isabelle.thy ===== *)
theory Spec2Isabelle
  imports Flights PieceStore Auth Quantities SmbNames Restart StrmBackend StreamLinks Config
begin

text \<open>
  \<^bold>\<open>Subject.\<close> torrentfs serves the files of BitTorrent torrents as a read-only file tree, without storing the payload
  on disk. A session (\<open>internal/session\<close>) owns the BitTorrent client, the registry of torrents and the readers;
  verified pieces live in a bounded memory cache (\<open>internal/cache\<close>) that the client fills through the piece store
  (\<open>internal/piecestore\<close>). A read of a file is planned into pieces, served from the cache or from a shared download,
  and moves the window of the prefetch coordinator. The tree of names (\<open>internal/vfs\<close>) is shown by FUSE
  (\<open>internal/filesystem\<close>) and SMB (\<open>internal/smb\<close>); a second tree shows playlist files with signed links
  (\<open>internal/stream\<close>), which the HTTP interface (\<open>internal/api\<close>) redeems. Logins are the business of \<open>internal/auth\<close>,
  settings that of \<open>internal/config\<close>.

  \<^bold>\<open>Theories.\<close> Definitions keep the names of the Go functions, methods and types they translate; fields of
  records have a short prefix per type.

  \<^item> \<open>Prelude\<close>: 64-bit wrap-around, truncating division, association lists for Go maps (with zero values), orders,
    decimal numbers, fresh counters.
  \<^item> \<open>Cache\<close> (\<open>cache/cache.go\<close>): the LRU cache with pins and reservations, watermarks and eviction; every method is a
    function on the record \<open>Cache\<close>. The hard capacity holds in every reachable state, pinned pieces survive, and the
    eviction loop equals one pass over the list. The locale \<open>content_store\<close> is what the piece store relies on,
    interpreted on these operations.
  \<^item> \<open>ReadPlan\<close> (\<open>cache/policy.go\<close>): the spans of a request, which tile it exactly.
  \<^item> \<open>PieceStore\<close> (\<open>piecestore/store.go\<close>): staging of chunks, hash runs and promotion into the cache. Only bytes that
    were hashed in their staging generation are promoted, and a read returns only bytes that were received. The
    locale \<open>byte_cover\<close> is the contract of the covered ranges.
  \<^item> \<open>ByteSpans\<close>, \<open>Prefetch\<close> (\<open>session/prefetch.go\<close>): budget, tickets, seek detection, window, leases and their
    cleanup. Pins of the cache, references and budget units agree in every reachable state.
  \<^item> \<open>ReadFile\<close>, \<open>Flights\<close> (\<open>session/file.go\<close>): the read of a range with its retries, and the downloads that several
    readers share. What a read delivers is the content of the file, and it is complete when no error is reported.
  \<^item> \<open>Encodings\<close>: UTF-8, hexadecimal, base64 and URL escaping of the standard library as far as the sources use
    them, with the locales \<open>codec\<close> and \<open>strict_codec\<close> for their round trips.
  \<^item> \<open>Quantities\<close> (\<open>config/quantities.go\<close>): parsing and printing of byte quantities.
  \<^item> \<open>Config\<close> (\<open>config/config.go\<close>, \<open>schema.go\<close>, \<open>env.go\<close>, \<open>sources.go\<close>, \<open>removals.go\<close>, \<open>namespace.go\<close>, \<open>strm.go\<close>, \<open>load.go\<close>,
    \<open>print.go\<close>, \<open>rates.go\<close>): the schema that is derived from the struct tags, the overlay of the environment (the locale
    \<open>field_store\<close> is what it needs of fields), removed and unknown names, validation, the loader and the printed report.
    Every key takes the value of the input that its source names, a listener beyond the loopback address has a
    login that starts, validation agrees with the link builder, and no report depends on the password.
  \<^item> \<open>Auth\<close> (\<open>auth/service.go\<close>): logins, checks, revocation and shutdown refine a specification that keeps an expiry
    per token.
  \<^item> \<open>Layout\<close> (\<open>vfs/layout.go\<close>, \<open>types.go\<close>): children of a torrent directory, names of the mount root.
    \<open>SnapshotCache\<close> (\<open>vfs/snapshot_cache.go\<close>): publication of snapshots against concurrent changes.
    \<open>VfsTree\<close> (\<open>vfs/tree.go\<close>, \<open>contents.go\<close>): lookups, listings and handles with their caches refine a specification
    without caches, and identities are stable.
  \<^item> \<open>Strm\<close> (\<open>vfs/strm.go\<close>, \<open>media/media.go\<close>): the names of the playlist files and of the projected torrents.
    \<open>StrmBackend\<close> (\<open>vfs/strm_cache.go\<close>): the projecting backend over the snapshot cache; what a listing shows is what
    opening delivers.
  \<^item> \<open>SmbNames\<close> (\<open>smb/names.go\<close>): names of the share, paths of clients, DOS wildcards.
  \<^item> \<open>StreamUrl\<close> (\<open>stream/signer.go\<close>, \<open>url.go\<close>): signatures, links and their parsing. \<open>StreamLinks\<close>
    (\<open>session/stream.go\<close>, \<open>api/stream.go\<close>): the key file, \<open>StreamURL\<close>, \<open>OpenStream\<close>, the HTTP handler and its reader;
    composed with the registry and the links, a link that is handed out serves its file and nothing else is served.
  \<^item> \<open>Registry\<close> (\<open>session/registry.go\<close>, \<open>manage.go\<close>, \<open>metadata.go\<close>, \<open>category.go\<close>, \<open>favorite.go\<close>, parts of \<open>session.go\<close>,
    \<open>torrents.go\<close>, \<open>subtitle.go\<close>, \<open>backend.go\<close>): adding, fetching of metadata, deleting, categories, favorites, pruning,
    start and end of a session over a disk whose calls may fail. \<open>Durability\<close>: one preservation lemma per operation.
    \<open>Restart\<close>: histories of operations, deletion workers and crashes; what the next start restores and finishes.
  \<^item> \<open>UploadRate\<close> (\<open>session/upload_rate.go\<close>, \<open>upload_rate_settings.go\<close>): settings and their sidecar, the policy, the
    search for the next boundary, and the controller whose runner interleaves with requests.

  \<^bold>\<open>State and steps.\<close> A struct is a record, a pointer that is compared is a number (flights, slots, snapshots, file
  lists), a Go map is an association list or a map. A section under one mutex is one step: the cache and the piece
  store under theirs, the registry under \<open>Session.mu\<close> and the lock of the hash (which is why the removal of a pending
  magnet after the unlock belongs to the same step), flights under the fetcher's lock. The phases of a deletion worker
  are separate steps and interleave with every other operation. The runner of the upload limit reads the clock, takes
  the lock and waits in separate steps. A method of the projecting backend is one step. Errors are values; a failing
  system call is an argument (a fault, or a script of faults), and a power failure keeps either what was visible or
  what was synced.

  \<^bold>\<open>Bounds and fuel.\<close> Loops are structural or have a termination proof. The retry loop of a read makes at most five
  attempts and \<open>WriteTo\<close> copies in steps of 32 KiB, as in the code. The login loop and the generation of operation ids
  consume the list of what the random source delivers; their theorems ask for one usable draw. The salt loop of the
  share has as fuel the number of taken keys plus two, and it is proved that a free name is found before. A deletion
  worker has five phases. The search for the next boundary looks 26 hours ahead in steps of a minute and scans one minute
  in steps of a second. The numbered names of the projection need the number of reserved names to stay below
  \<open>5 * 10^18\<close>, so that a counter has at most twenty digits and the name fits into 255 bytes.

  \<^bold>\<open>Parameters.\<close> Code outside the repository is an argument: bcrypt, SHA-256 and HMAC, the random source and clocks,
  zone offsets, Unicode tables, \<open>url.Parse\<close>, the parsers of metainfo and magnets, and every answer of the BitTorrent client
  and of the operating system. Hypotheses about them (lengths of digests, zones of whole minutes, a hash that
  determines its metainfo) are premises of the theorems that need them.

  \<^bold>\<open>Not modelled.\<close> The run loop of the prefetch coordinator with its timers and statistics; opening and closing of file
  objects; uploads and files of managed subtitles; the migration of the old directory layout, the instance lock, status
  views and seeding; the wiring of the client (proxy, DHT, counters); the decoding of TOML, the generated
  example file and the texts of errors of the configuration; HTTP handlers other than the one for streams; the nodes of FUSE and the callbacks of the SMB server, which
  forward to the tree; the upload experiment; the command line and logging. They are input and output around the
  functions above, or code of third-party libraries.
\<close>

end
